(* ===== verification/Std_Lib.thy ===== *)
theory Std_Lib
  imports Main "HOL-Library.Word" "HOL-Library.Char_ord" "HOL-Library.List_Lexorder"
begin

text \<open>
  The prelude of the development: what the sources use of the C and C++ standard library,
  and the generic lemmas all components share.

  \<^item> bytes are \<open>char\<close>; a \<open>std::string\<close>, a C string (without its terminator) and a memory
    block are values of type \<open>string\<close>;
  \<^item> a C \<open>int\<close> is an \<open>int\<close>; \<open>i32\<close> is the conversion to 32 bits two's complement, applied
    wherever the sources can leave the range;
  \<^item> a C++ exception, a failed \<open>assert\<close> and an access outside an array are values of type
    \<open>fault\<close>; an operation that can raise one returns \<open>fault + 'a\<close>, and one that changes
    state before it raises returns the state as well (\<open>bindS\<close>);
  \<^item> a \<open>std::map\<close> is an association list in the order of its keys, which is the order
    its iterators visit.
\<close>

named_theorems code_numbers "the values of the error codes and of the constants of the headers"
named_theorems omap_simps "lookup after an update of an ordered map"

section \<open>Faults and operations that raise them\<close>

datatype exn =
  CTrpcException | CSocketException | CServerException | CConfigException
| CIpcException | CThreadException

text \<open>\<open>Throw k n w\<close> is \<open>THROW(k, n, ...)\<close> with the formatted text \<open>w\<close>; \<open>AssertFail\<close> is a
  failed \<open>assert\<close>; \<open>MemoryFault\<close> is an access outside an array.\<close>

datatype fault = Throw exn int string | AssertFail | MemoryFault

type_synonym ('s, 'a) op = "'s \<Rightarrow> (fault + 'a) \<times> 's"

definition returnS :: "'a \<Rightarrow> ('s, 'a) op" where
  "returnS x s = (Inr x, s)"

definition throwS :: "fault \<Rightarrow> ('s, 'a) op" where
  "throwS e s = (Inl e, s)"

definition bindS :: "('s, 'a) op \<Rightarrow> ('a \<Rightarrow> ('s, 'b) op) \<Rightarrow> ('s, 'b) op" where
  "bindS m f s = (case m s of (Inl e, s') \<Rightarrow> (Inl e, s') | (Inr x, s') \<Rightarrow> f x s')"

lemma bindS_return [simp]: "bindS (returnS x) f = f x"
  by (simp add: fun_eq_iff bindS_def returnS_def)

lemma bindS_throw [simp]: "bindS (throwS e) f = throwS e"
  by (simp add: fun_eq_iff bindS_def throwS_def)

lemma returnS_apply [simp]: "returnS x s = (Inr x, s)"
  by (simp add: returnS_def)

lemma throwS_apply [simp]: "throwS e s = (Inl e, s)"
  by (simp add: throwS_def)

lemma bindS_Inr: "m s = (Inr x, s') \<Longrightarrow> bindS m f s = f x s'"
  by (simp add: bindS_def)

lemma bindS_Inl: "m s = (Inl e, s') \<Longrightarrow> bindS m f s = (Inl e, s')"
  by (simp add: bindS_def)

lemma bindS_split:
  "P (bindS m f s) \<longleftrightarrow>
     (\<forall>e s'. m s = (Inl e, s') \<longrightarrow> P (Inl e, s')) \<and> (\<forall>x s'. m s = (Inr x, s') \<longrightarrow> P (f x s'))"
  by (auto simp: bindS_def split: prod.split sum.split)

lemma bindS_eq_Inr:
  "bindS m f s = (Inr y, s'') \<longleftrightarrow> (\<exists>x s'. m s = (Inr x, s') \<and> f x s' = (Inr y, s''))"
  by (auto simp: bindS_def split: prod.splits sum.splits)

lemma bindS_eq_Inl:
  "bindS m f s = (Inl e, s'') \<longleftrightarrow>
     m s = (Inl e, s'') \<or> (\<exists>x s'. m s = (Inr x, s') \<and> f x s' = (Inl e, s''))"
  by (auto simp: bindS_def split: prod.splits sum.splits)

text \<open>The state read, the state changed, and \<open>assert\<close>.\<close>

definition getS :: "('s \<Rightarrow> 'a) \<Rightarrow> ('s, 'a) op" where
  "getS f s = (Inr (f s), s)"

definition modS :: "('s \<Rightarrow> 's) \<Rightarrow> ('s, unit) op" where
  "modS f s = (Inr (), f s)"

definition assertS :: "('s \<Rightarrow> bool) \<Rightarrow> ('s, unit) op" where
  "assertS P s = (if P s then (Inr (), s) else (Inl AssertFail, s))"

definition seqS :: "('s, unit) op \<Rightarrow> ('s, 'b) op \<Rightarrow> ('s, 'b) op" where
  "seqS m n = bindS m (\<lambda>_. n)"

text \<open>An operation on the first or on the second component of a pair of states.\<close>

definition on_fst :: "('k, 'a) op \<Rightarrow> ('k \<times> 'o, 'a) op" where
  "on_fst m s = (case m (fst s) of (r, k) \<Rightarrow> (r, (k, snd s)))"

lemma bindS_getS [simp]: "bindS (getS f) g s = g (f s) s"
  by (simp add: bindS_def getS_def)

lemma bindS_modS [simp]: "bindS (modS f) g s = g () (f s)"
  by (simp add: bindS_def modS_def)

lemma seqS_modS [simp]: "seqS (modS f) n s = n (f s)"
  by (simp add: seqS_def)

lemma seqS_assertS [simp]: "seqS (assertS P) n s = (if P s then n s else (Inl AssertFail, s))"
  by (simp add: seqS_def bindS_def assertS_def)

lemma getS_apply [simp]: "getS f s = (Inr (f s), s)"
  by (simp add: getS_def)

lemma modS_apply [simp]: "modS f s = (Inr (), f s)"
  by (simp add: modS_def)

text \<open>\<open>THROW\<close> formats into a local array of 4096 bytes with
  \<open>snprintf(.., EXCEPTION_MSG_LEN - 1, ..)\<close>, which keeps 4094 characters.\<close>

definition EXCEPTION_MSG_LEN :: nat where
  "EXCEPTION_MSG_LEN = 4096"

definition THROW :: "exn \<Rightarrow> int \<Rightarrow> string \<Rightarrow> fault" where
  "THROW k n msg = Throw k n (take (EXCEPTION_MSG_LEN - 2) msg)"

lemma THROW_neq [simp]: "THROW k n w \<noteq> MemoryFault" "THROW k n w \<noteq> AssertFail"
  by (simp_all add: THROW_def)

text \<open>Operations that raise no \<open>MemoryFault\<close>.\<close>

definition no_mem :: "('s, 'a) op \<Rightarrow> bool" where
  "no_mem m \<longleftrightarrow> (\<forall>s. fst (m s) \<noteq> Inl MemoryFault)"

named_theorems no_mem_intros "operations that raise no memory fault"

lemma no_memD: "no_mem m \<Longrightarrow> m s = (r, s') \<Longrightarrow> r \<noteq> Inl MemoryFault"
  unfolding no_mem_def by (metis fst_conv)

lemma no_mem_basic [no_mem_intros]:
  "no_mem (returnS x)" "no_mem (modS f)" "no_mem (getS g)" "no_mem (assertS P)"
  by (auto simp: no_mem_def assertS_def)

lemma no_mem_throw [no_mem_intros]: "no_mem (throwS (THROW k n w))"
  by (simp add: no_mem_def)

lemma no_mem_bind [no_mem_intros]: "no_mem m \<Longrightarrow> (\<And>x. no_mem (f x)) \<Longrightarrow> no_mem (bindS m f)"
  unfolding no_mem_def bindS_def
  by (auto split: prod.split sum.split) (metis fst_conv)

lemma no_mem_seq [no_mem_intros]: "no_mem m \<Longrightarrow> no_mem n \<Longrightarrow> no_mem (seqS m n)"
  by (simp add: seqS_def no_mem_bind)

lemma no_mem_if [no_mem_intros]: "no_mem m \<Longrightarrow> no_mem n \<Longrightarrow> no_mem (if b then m else n)"
  by simp

lemma no_mem_prod [no_mem_intros]: "(\<And>x y. no_mem (f x y)) \<Longrightarrow> no_mem (case p of (x, y) \<Rightarrow> f x y)"
  by (cases p) simp

section \<open>Error codes\<close>

text \<open>\<open>enum ErrorType\<close> of \<open>base/relay_error.h\<close>: the codes the sources report.\<close>

datatype ErrorType =
  RequestTypeInvalid | InvalidAccess | SocketError | TrpcInfoPoolInvalid | CoreCenterError
| SystemBusy | ExceedFreqLimit | SysError | RecvClose | AdminCmdError

fun error_no :: "ErrorType \<Rightarrow> int" where
  "error_no RequestTypeInvalid = 10002"
| "error_no InvalidAccess = 10003"
| "error_no SocketError = 10006"
| "error_no TrpcInfoPoolInvalid = 10009"
| "error_no CoreCenterError = 10010"
| "error_no SystemBusy = 10025"
| "error_no ExceedFreqLimit = 10048"
| "error_no SysError = 10050"
| "error_no RecvClose = 10051"
| "error_no AdminCmdError = 10052"

text \<open>\<open>enum em_BASE_ERROR_NO\<close> of \<open>base/trpc_internal_error.h\<close>: names for the codes above;
  several names share one code.\<close>

definition ERR_SYS_UNKNOWN :: int where "ERR_SYS_UNKNOWN = error_no SysError"
definition ERR_CONF :: int where "ERR_CONF = error_no SysError"
definition ERR_SOCKET_AGAIN :: int where "ERR_SOCKET_AGAIN = error_no SocketError"
definition ERR_SOCKET_TERMINAL :: int where "ERR_SOCKET_TERMINAL = error_no SocketError"
definition ERR_SOCKET_TIME_OUT :: int where "ERR_SOCKET_TIME_OUT = error_no CoreCenterError"
definition ERR_SOCKET_CONN_REFUSED :: int where "ERR_SOCKET_CONN_REFUSED = error_no CoreCenterError"
definition ERR_SOCKET_RECV_CLOSE :: int where "ERR_SOCKET_RECV_CLOSE = error_no RecvClose"
definition ERR_IPC_ERROR :: int where "ERR_IPC_ERROR = error_no SocketError"
definition ERR_PACKET_LENGTH :: int where "ERR_PACKET_LENGTH = error_no SocketError"
definition ERR_PACKET_FMT :: int where "ERR_PACKET_FMT = error_no SocketError"
definition ERR_PACKET_ERROR :: int where "ERR_PACKET_ERROR = error_no SocketError"
definition ERR_SERVER_ERROR :: int where "ERR_SERVER_ERROR = error_no SystemBusy"
definition ERR_SERVER_MAINTAIN :: int where "ERR_SERVER_MAINTAIN = error_no SystemBusy"
definition ERR_SERVER_BUSY :: int where "ERR_SERVER_BUSY = error_no SystemBusy"

lemmas ERR_defs [code_numbers] =
  ERR_SYS_UNKNOWN_def ERR_CONF_def ERR_SOCKET_AGAIN_def ERR_SOCKET_TERMINAL_def
  ERR_SOCKET_TIME_OUT_def ERR_SOCKET_CONN_REFUSED_def ERR_SOCKET_RECV_CLOSE_def
  ERR_IPC_ERROR_def ERR_PACKET_LENGTH_def ERR_PACKET_FMT_def ERR_PACKET_ERROR_def
  ERR_SERVER_ERROR_def ERR_SERVER_MAINTAIN_def ERR_SERVER_BUSY_def

section \<open>Characters, strings and numbers\<close>

abbreviation NUL :: char where
  "NUL \<equiv> CHR 0x00"

text \<open>A C string read from a memory block: up to the first \<open>NUL\<close>. A block is given by its
  bytes up to the last one that was written; what follows is zero.\<close>

definition cstr :: "string \<Rightarrow> string" where
  "cstr b = takeWhile (\<lambda>c. c \<noteq> NUL) b"

definition isspace :: "char \<Rightarrow> bool" where
  "isspace c \<longleftrightarrow> (of_char c :: nat) \<in> {9, 10, 11, 12, 13, 32}"

definition isdigit :: "char \<Rightarrow> bool" where
  "isdigit c \<longleftrightarrow> (of_char c :: nat) \<in> {48..57}"

definition digit_val :: "char \<Rightarrow> int" where
  "digit_val c = int (of_char c) - 48"

definition i32 :: "int \<Rightarrow> int" where
  "i32 x = signed_take_bit 31 x"

definition in_i32 :: "int \<Rightarrow> bool" where
  "in_i32 x \<longleftrightarrow> - (2 ^ 31) \<le> x \<and> x < 2 ^ 31"

text \<open>\<open>atoi\<close> of the C library: blanks, a sign, digits; \<open>strtol\<close> saturates at 64 bits and
  the conversion to \<open>int\<close> keeps the low 32.\<close>

fun digits_val :: "int \<Rightarrow> string \<Rightarrow> int" where
  "digits_val a [] = a"
| "digits_val a (c # cs) = (if isdigit c then digits_val (10 * a + digit_val c) cs else a)"

definition strtol :: "string \<Rightarrow> int" where
  "strtol s =
     (case dropWhile isspace s of
        [] \<Rightarrow> 0
      | c # cs \<Rightarrow>
          if c = CHR ''-'' then max (- (2 ^ 63)) (- digits_val 0 cs)
          else if c = CHR ''+'' then min (2 ^ 63 - 1) (digits_val 0 cs)
          else min (2 ^ 63 - 1) (digits_val 0 (c # cs)))"

definition atoi :: "string \<Rightarrow> int" where
  "atoi s = i32 (strtol s)"

text \<open>\<open>to_string\<close> of \<open>base/trpc_comm_func.h\<close> on an integer: the decimal text.\<close>

fun show_nat :: "nat \<Rightarrow> string" where
  "show_nat n = (if n < 10 then [char_of (48 + n)] else show_nat (n div 10) @ [char_of (48 + n mod 10)])"

declare show_nat.simps [simp del]

definition show_int :: "int \<Rightarrow> string" where
  "show_int x = (if x < 0 then CHR ''-'' # show_nat (nat (- x)) else show_nat (nat x))"

text \<open>\<open>printf\<close> of a \<open>char\<close> with \<open>%02x\<close>: a negative \<open>char\<close> prints as the \<open>int\<close> it becomes.\<close>

definition hex_char :: "nat \<Rightarrow> char" where
  "hex_char n = (if n < 10 then char_of (48 + n) else char_of (87 + n))"

definition show_02x :: "char \<Rightarrow> string" where
  "show_02x c =
     (let n = of_char c
      in (if n < 128 then [] else ''ffffff'') @ [hex_char (n div 16), hex_char (n mod 16)])"

lemma cstr_Nil [simp]: "cstr [] = []"
  by (simp add: cstr_def)

lemma cstr_id: "NUL \<notin> set s \<Longrightarrow> cstr s = s"
  by (induction s) (auto simp: cstr_def)

lemma cstr_append_NUL: "NUL \<notin> set s \<Longrightarrow> cstr (s @ NUL # t) = s"
  by (induction s) (auto simp: cstr_def)

lemma NUL_notin_cstr [simp]: "NUL \<notin> set (cstr b)"
  by (auto simp: cstr_def dest: set_takeWhileD)

lemma length_cstr_le: "length (cstr b) \<le> length b"
  by (simp add: cstr_def length_takeWhile_le)

lemma i32_id: "in_i32 x \<Longrightarrow> i32 x = x"
  by (auto simp: i32_def in_i32_def signed_take_bit_int_eq_self_iff)

lemma in_i32_i32 [simp]: "in_i32 (i32 x)"
  using signed_take_bit_int_less_exp [of 31 x] signed_take_bit_int_greater_eq_minus_exp [of 31 x]
  by (simp add: in_i32_def i32_def)

lemma isdigit_char_of: "n < (10 :: nat) \<Longrightarrow> isdigit (char_of (48 + n))"
  by (simp add: isdigit_def)

lemma digit_val_char_of: "n < (10 :: nat) \<Longrightarrow> digit_val (char_of (48 + n)) = int n"
  by (simp add: digit_val_def)

lemma digits_val_append:
  "\<forall>c \<in> set s. isdigit c \<Longrightarrow> digits_val a (s @ t) = digits_val (digits_val a s) t"
  by (induction s arbitrary: a) auto

lemma show_nat_digits: "\<forall>c \<in> set (show_nat n). isdigit c"
proof (induction n rule: show_nat.induct)
  case (1 n)
  then show ?case by (subst show_nat.simps) (auto simp: isdigit_char_of)
qed

lemma show_nat_ne [simp]: "show_nat n \<noteq> []"
  by (subst show_nat.simps) simp

lemma digits_val_show_nat: "digits_val 0 (show_nat n) = int n"
proof (induction n rule: show_nat.induct)
  case (1 n)
  show ?case
  proof (cases "n < 10")
    case True
    then show ?thesis by (subst show_nat.simps) (simp add: isdigit_char_of digit_val_char_of)
  next
    case False
    then have "digits_val 0 (show_nat n)
        = digits_val (digits_val 0 (show_nat (n div 10))) [char_of (48 + n mod 10)]"
      by (subst show_nat.simps) (simp add: digits_val_append show_nat_digits)
    also have "\<dots> = 10 * int (n div 10) + int (n mod 10)"
      using "1.IH" [OF False] by (simp add: isdigit_char_of digit_val_char_of del: of_char_of)
    also have "\<dots> = int n" by presburger
    finally show ?thesis .
  qed
qed

lemma isdigit_not_isspace: "isdigit c \<Longrightarrow> \<not> isspace c \<and> c \<noteq> CHR ''-'' \<and> c \<noteq> CHR ''+'' \<and> c \<noteq> NUL"
  by (auto simp: isdigit_def isspace_def)

lemma strtol_show_int: "in_i32 x \<Longrightarrow> strtol (show_int x) = x"
proof (cases "x < 0")
  case True
  assume "in_i32 x"
  with True show ?thesis
    by (simp add: strtol_def show_int_def digits_val_show_nat isspace_def in_i32_def)
next
  case False
  assume x: "in_i32 x"
  obtain c cs where c: "show_nat (nat x) = c # cs" by (cases "show_nat (nat x)") auto
  with show_nat_digits [of "nat x"] have "isdigit c" by simp
  with False x c digits_val_show_nat [of "nat x"] show ?thesis
    by (simp add: strtol_def show_int_def isdigit_not_isspace in_i32_def)
qed

lemma atoi_show_int: "in_i32 x \<Longrightarrow> atoi (show_int x) = x"
  by (simp add: atoi_def strtol_show_int i32_id)

lemma length_show_nat: "n < 10 ^ Suc k \<Longrightarrow> length (show_nat n) \<le> Suc k"
proof (induction k arbitrary: n)
  case 0
  then show ?case by (subst show_nat.simps) simp
next
  case (Suc k)
  show ?case
  proof (cases "n < 10")
    case True
    then show ?thesis by (subst show_nat.simps) simp
  next
    case False
    have "n div 10 < 10 ^ Suc k" using Suc.prems by (simp add: less_mult_imp_div_less)
    then show ?thesis using Suc.IH [of "n div 10"] False by (subst show_nat.simps) simp
  qed
qed

lemma length_show_i32: "in_i32 n \<Longrightarrow> length (show_int n) \<le> 11"
  using length_show_nat [of "nat n" 9] length_show_nat [of "nat (- n)" 9]
  by (cases "n < 0") (simp_all add: show_int_def in_i32_def nat_less_iff)

lemma NUL_notin_show_nat: "NUL \<notin> set (show_nat n)"
  using show_nat_digits isdigit_not_isspace by blast

lemma NUL_notin_show_int: "NUL \<notin> set (show_int x)"
  by (simp add: show_int_def NUL_notin_show_nat)

section \<open>Integers in memory\<close>

text \<open>The bytes of a 32-bit \<open>int\<close>: the host is little-endian, the network order is the reverse.\<close>

definition byte_of :: "nat \<Rightarrow> int \<Rightarrow> char" where
  "byte_of i x = char_of (take_bit 8 (drop_bit (8 * i) x))"

definition put_int :: "int \<Rightarrow> string" where
  "put_int x = [byte_of 0 x, byte_of 1 x, byte_of 2 x, byte_of 3 x]"

definition get_int :: "string \<Rightarrow> int" where
  "get_int bs = i32 (horner_sum of_char 256 (take 4 bs))"

text \<open>\<open>TRPC_PUT_INT32\<close> and \<open>TRPC_GET_INT32\<close> of \<open>api/trpc_package.h\<close>: through \<open>htonl\<close> and \<open>ntohl\<close>.\<close>

definition TRPC_PUT_INT32 :: "int \<Rightarrow> string" where
  "TRPC_PUT_INT32 x = rev (put_int x)"

definition TRPC_GET_INT32 :: "string \<Rightarrow> int" where
  "TRPC_GET_INT32 bs = get_int (rev (take 4 bs))"

lemma length_put_int [simp]: "length (put_int x) = 4"
  by (simp add: put_int_def)

lemma put_int_ne [simp]: "put_int x \<noteq> []"
  by (simp add: put_int_def)

lemma length_TRPC_PUT_INT32 [simp]: "length (TRPC_PUT_INT32 x) = 4"
  by (simp add: TRPC_PUT_INT32_def)

lemma of_char_byte_of: "(of_char (byte_of i x) :: int) = x div 256 ^ i mod 256"
  by (simp add: byte_of_def take_bit_eq_mod drop_bit_eq_div power_mult)

lemma base_256_digits:
  fixes x :: int
  shows "x mod 4294967296 = x mod 256 + 256 * (x div 256 mod 256)
     + 65536 * (x div 65536 mod 256) + 16777216 * (x div 16777216 mod 256)"
proof -
  define a where "a = x div 256"
  define b where "b = a div 256"
  define c where "c = b div 256"
  have 1: "x mod 4294967296 = 256 * (a mod 16777216) + x mod 256"
    using zmod_zmult2_eq [of 16777216 x 256] by (simp add: a_def)
  have 2: "a mod 16777216 = 256 * (b mod 65536) + a mod 256"
    using zmod_zmult2_eq [of 65536 a 256] by (simp add: b_def)
  have 3: "b mod 65536 = 256 * (c mod 256) + b mod 256"
    using zmod_zmult2_eq [of 256 b 256] by (simp add: c_def)
  have b: "x div 65536 = b"
    using zdiv_zmult2_eq [of 256 x 256] by (simp add: a_def b_def)
  have c: "x div 16777216 = c"
    using zdiv_zmult2_eq [of 256 x 65536] b by (simp add: c_def)
  show ?thesis
    unfolding 1 2 3 b c a_def [symmetric] by simp
qed

lemma horner_put_int: "horner_sum of_char 256 (put_int x) = x mod 4294967296"
proof -
  have "horner_sum of_char 256 (put_int x) = x mod 256 + 256 * (x div 256 mod 256 + 256 *
      (x div 65536 mod 256 + 256 * (x div 16777216 mod 256)))"
    by (simp add: put_int_def of_char_byte_of)
  then show ?thesis
    unfolding base_256_digits by (simp only: distrib_left mult.assoc [symmetric])
qed

lemma get_put_int: "get_int (put_int x @ r) = i32 x"
proof -
  have "get_int (put_int x @ r) = i32 (x mod 4294967296)"
    by (simp add: get_int_def horner_put_int)
  also have "\<dots> = i32 (take_bit 32 x)"
    by (simp add: take_bit_eq_mod)
  also have "\<dots> = i32 x"
    by (simp add: i32_def signed_take_bit_take_bit)
  finally show ?thesis .
qed

lemma TRPC_get_put_int: "TRPC_GET_INT32 (TRPC_PUT_INT32 x @ r) = i32 x"
  using get_put_int [of x "[]"] by (simp add: TRPC_GET_INT32_def TRPC_PUT_INT32_def)

lemma get_int_in_i32 [simp]: "in_i32 (get_int bs)"
  by (simp add: get_int_def)

text \<open>An encoding of 32-bit integers and the two the sources use: what a reader finds at the
  front of a block is what a writer put there.\<close>

locale int_codec =
  fixes put :: "int \<Rightarrow> string" and get :: "string \<Rightarrow> int"
  assumes put_length: "length (put x) = 4"
    and get_put: "get (put x @ r) = i32 x"
begin

lemma get_put_exact: "in_i32 x \<Longrightarrow> get (put x @ r) = x"
  by (simp add: get_put i32_id)

lemma put_inj: "in_i32 x \<Longrightarrow> in_i32 y \<Longrightarrow> put x @ r = put y @ t \<Longrightarrow> x = y \<and> r = t"
proof -
  assume x: "in_i32 x" and y: "in_i32 y" and e: "put x @ r = put y @ t"
  from e have "put x = put y \<and> r = t" by (simp add: put_length)
  then show ?thesis using x y get_put_exact by metis
qed

lemma drop_put: "drop 4 (put x @ r) = r"
  by (simp add: put_length)

end

interpretation host: int_codec put_int get_int
  by unfold_locales (auto simp: get_put_int)

interpretation net: int_codec TRPC_PUT_INT32 TRPC_GET_INT32
  by unfold_locales (auto simp: TRPC_get_put_int)

section \<open>Memory blocks\<close>

text \<open>A block is its bytes up to the last one written; every byte after it is zero. \<open>write_at\<close>
  is \<open>memcpy\<close> into a block and \<open>read_at\<close> out of one; whether the block is large enough is a
  test of the code or a \<open>MemoryFault\<close> of the model.\<close>

definition mem :: "string \<Rightarrow> nat \<Rightarrow> char" where
  "mem b i = (if i < length b then b ! i else NUL)"

definition write_at :: "string \<Rightarrow> nat \<Rightarrow> string \<Rightarrow> string" where
  "write_at b off bs = take off b @ replicate (off - length b) NUL @ bs @ drop (off + length bs) b"

definition read_at :: "string \<Rightarrow> nat \<Rightarrow> nat \<Rightarrow> string" where
  "read_at b off n = map (mem b) [off..<off + n]"

definition strncpy :: "string \<Rightarrow> nat \<Rightarrow> string" where
  "strncpy src n = take n src @ replicate (n - length src) NUL"

lemma length_write_at: "length (write_at b off bs) = max (length b) (off + length bs)"
  by (auto simp: write_at_def)

lemma length_read_at [simp]: "length (read_at b off n) = n"
  by (simp add: read_at_def)

lemma read_at_0 [simp]: "read_at b off 0 = []"
  by (simp add: read_at_def)

lemma length_strncpy [simp]: "length (strncpy src n) = n"
  by (simp add: strncpy_def)

lemma mem_write_at:
  "mem (write_at b off bs) i =
     (if off \<le> i \<and> i < off + length bs then bs ! (i - off) else mem b i)"
  by (cases "off \<le> length b") (auto simp: mem_def write_at_def nth_append not_less min_def)

lemma read_write_same: "length bs = n \<Longrightarrow> read_at (write_at b off bs) off n = bs"
  by (rule nth_equalityI) (auto simp: read_at_def mem_write_at)

lemma read_write_other:
  "off + length bs \<le> off' \<or> off' + n \<le> off \<Longrightarrow> read_at (write_at b off bs) off' n = read_at b off' n"
  by (auto simp: read_at_def mem_write_at)

lemma read_at_in: "off + n \<le> length b \<Longrightarrow> read_at b off n = take n (drop off b)"
  by (rule nth_equalityI) (auto simp: read_at_def mem_def)

lemma write_at_Nil: "write_at [] 0 bs = bs"
  by (simp add: write_at_def)

lemma write_at_0: "length b \<le> length bs \<Longrightarrow> write_at b 0 bs = bs"
  by (simp add: write_at_def)

lemma write_at_end: "write_at b (length b) bs = b @ bs"
  by (simp add: write_at_def)

lemma read_at_split: "read_at b off (m + n) = read_at b off m @ read_at b (off + m) n"
proof -
  have "[off..<off + (m + n)] = [off..<off + m] @ [off + m..<off + m + n]"
    using upt_add_eq_append [of off "off + m" n] by (simp add: add.assoc)
  then show ?thesis by (simp add: read_at_def add.assoc)
qed

lemma take_read_at: "n \<le> m \<Longrightarrow> take n (read_at b off m) = read_at b off n"
  by (simp add: read_at_def take_map)

lemma drop_read_at: "drop i (read_at b off n) = read_at b (off + i) (n - i)"
  by (cases "i \<le> n") (simp_all add: read_at_def drop_map add.commute)

lemma read_at_sub: "i + m \<le> n \<Longrightarrow> read_at b (off + i) m = take m (drop i (read_at b off n))"
  by (simp add: drop_read_at take_read_at)

lemma mem_eq_read_at: "mem b i = hd (read_at b i 1)"
  by (simp add: read_at_def)

lemma read_at_prefix:
  "read_at b 0 n = read_at b' 0 n \<Longrightarrow> i + m \<le> n \<Longrightarrow> read_at b i m = read_at b' i m"
  using read_at_sub [of i m n b 0] read_at_sub [of i m n b' 0] by simp

lemma read_at_read_at: "read_at (read_at b 0 n) 0 n = read_at b 0 n"
  by (simp add: read_at_in)

lemma write_at_append: "write_at (write_at b off xs) (off + length xs) ys = write_at b off (xs @ ys)"
proof -
  define a where "a = take off b @ replicate (off - length b) NUL @ xs"
  have a: "length a = off + length xs"
    by (simp add: a_def min_def)
  have "write_at b off xs = a @ drop (off + length xs) b"
    by (simp add: write_at_def a_def)
  then have "write_at (write_at b off xs) (off + length xs) ys
      = a @ ys @ drop (length ys) (drop (off + length xs) b)"
    by (simp only: write_at_def [of "_ @ _"]) (simp add: a [symmetric])
  then show ?thesis by (simp add: write_at_def a_def ac_simps)
qed

lemma cstr_strncpy: "NUL \<notin> set src \<Longrightarrow> length src < n \<Longrightarrow> cstr (strncpy src n) = src"
  by (cases "n - length src") (auto simp: strncpy_def cstr_append_NUL)

section \<open>Ordered maps\<close>

type_synonym ('k, 'v) omap = "('k \<times> 'v) list"

text \<open>\<open>find\<close>, \<open>operator[]\<close> used as a target, \<open>insert\<close> (which keeps an old value) and
  \<open>operator[]\<close> used as a value (which adds a default where the key is missing).\<close>

definition omap_ok :: "('k :: linorder, 'v) omap \<Rightarrow> bool" where
  "omap_ok m \<longleftrightarrow> sorted_wrt (<) (map fst m)"

definition omap_find :: "('k, 'v) omap \<Rightarrow> 'k \<Rightarrow> 'v option" where
  "omap_find m k = map_of m k"

fun omap_set :: "'k :: linorder \<Rightarrow> 'v \<Rightarrow> ('k, 'v) omap \<Rightarrow> ('k, 'v) omap" where
  "omap_set k v [] = [(k, v)]"
| "omap_set k v ((k', v') # m) =
     (if k < k' then (k, v) # (k', v') # m
      else if k = k' then (k, v) # m
      else (k', v') # omap_set k v m)"

definition omap_insert :: "'k :: linorder \<Rightarrow> 'v \<Rightarrow> ('k, 'v) omap \<Rightarrow> ('k, 'v) omap" where
  "omap_insert k v m = (if omap_find m k = None then omap_set k v m else m)"

definition omap_get :: "'v \<Rightarrow> ('k, 'v) omap \<Rightarrow> 'k \<Rightarrow> 'v" where
  "omap_get d m k = (case omap_find m k of None \<Rightarrow> d | Some v \<Rightarrow> v)"

lemma omap_find_Nil [simp]: "omap_find [] k = None"
  by (simp add: omap_find_def)

lemma omap_find_Cons [simp]: "omap_find ((k', v) # m) k = (if k = k' then Some v else omap_find m k)"
  by (simp add: omap_find_def)

lemma omap_ok_Nil [simp]: "omap_ok []"
  by (simp add: omap_ok_def)

lemma omap_ok_Cons [simp]: "omap_ok ((k, v) # m) \<longleftrightarrow> (\<forall>x \<in> set m. k < fst x) \<and> omap_ok m"
  by (simp add: omap_ok_def)

lemma omap_find_set [omap_simps]:
  "omap_find (omap_set k v m) k' = (if k' = k then Some v else omap_find m k')"
  by (induction k v m rule: omap_set.induct) auto

lemma keys_omap_set: "fst ` set (omap_set k v m) = insert k (fst ` set m)"
  by (induction k v m rule: omap_set.induct) auto

lemma omap_ok_set [simp, intro]: "omap_ok m \<Longrightarrow> omap_ok (omap_set k v m)"
proof (induction k v m rule: omap_set.induct)
  case (2 k v k' v' m)
  then have "\<forall>x \<in> fst ` set (omap_set k v m). k' < x" if "\<not> k < k'" "k \<noteq> k'"
    using that by (auto simp: keys_omap_set)
  with 2 show ?case by (auto intro: less_trans)
qed simp

lemma omap_find_insert [omap_simps]:
  "omap_find (omap_insert k v m) k' =
     (if k' = k \<and> omap_find m k = None then Some v else omap_find m k')"
  by (simp add: omap_insert_def omap_find_set)

lemma omap_ok_insert [simp, intro]: "omap_ok m \<Longrightarrow> omap_ok (omap_insert k v m)"
  by (simp add: omap_insert_def)

lemma omap_find_None_iff: "omap_find m k = None \<longleftrightarrow> k \<notin> fst ` set m"
  by (simp add: omap_find_def map_of_eq_None_iff)

lemma omap_find_Some_iff: "omap_ok m \<Longrightarrow> omap_find m k = Some v \<longleftrightarrow> (k, v) \<in> set m"
  unfolding omap_find_def omap_ok_def
  by (metis map_of_eq_Some_iff strict_sorted_iff)

text \<open>Two ordered maps with the same lookups are the same list, so an ordered map is as good
  as its lookup function.\<close>

lemma omap_eqI: "omap_ok m \<Longrightarrow> omap_ok n \<Longrightarrow> omap_find m = omap_find n \<Longrightarrow> m = n"
proof -
  assume m: "omap_ok m" and n: "omap_ok n" and e: "omap_find m = omap_find n"
  have "set m = set n"
    using m n e by (metis omap_find_Some_iff subrelI subset_antisym)
  then show ?thesis
    using m n map_sorted_distinct_set_unique [of fst m n] strict_sorted_imp_sorted
    unfolding omap_ok_def strict_sorted_iff
    by (metis distinct_map inj_on_Un_image_eq_iff sup.idem)
qed

text \<open>The contract of a \<open>std::map\<close> and what every use of one rests on.\<close>

locale std_map =
  fixes lookup :: "'m \<Rightarrow> 'k \<Rightarrow> 'v option"
    and assign :: "'k \<Rightarrow> 'v \<Rightarrow> 'm \<Rightarrow> 'm"
    and insert_new :: "'k \<Rightarrow> 'v \<Rightarrow> 'm \<Rightarrow> 'm"
    and valid :: "'m \<Rightarrow> bool"
  assumes lookup_assign: "lookup (assign k v m) k' = (if k' = k then Some v else lookup m k')"
    and lookup_insert_new:
      "lookup (insert_new k v m) k' = (if k' = k \<and> lookup m k = None then Some v else lookup m k')"
    and valid_assign: "valid m \<Longrightarrow> valid (assign k v m)"
    and valid_insert_new: "valid m \<Longrightarrow> valid (insert_new k v m)"
begin

lemma insert_all_first_wins:
  "lookup (fold (\<lambda>(k, v). insert_new k v) kvs m) k =
     (case lookup m k of Some v \<Rightarrow> Some v | None \<Rightarrow> map_of kvs k)"
proof (induction kvs arbitrary: m)
  case Nil
  then show ?case by (simp split: option.split)
next
  case (Cons kv kvs)
  then show ?case by (cases kv) (auto simp: lookup_insert_new split: option.split)
qed

lemma assign_all_last_wins:
  "lookup (fold (\<lambda>(k, v). assign k v) kvs m) k =
     (case map_of (rev kvs) k of Some v \<Rightarrow> Some v | None \<Rightarrow> lookup m k)"
proof (induction kvs arbitrary: m)
  case Nil
  then show ?case by simp
next
  case (Cons kv kvs)
  then show ?case
    by (cases kv) (auto simp: lookup_assign map_add_def split: option.split)
qed

lemma valid_insert_all: "valid m \<Longrightarrow> valid (fold (\<lambda>(k, v). insert_new k v) kvs m)"
  by (induction kvs arbitrary: m) (auto simp: valid_insert_new)

lemma valid_assign_all: "valid m \<Longrightarrow> valid (fold (\<lambda>(k, v). assign k v) kvs m)"
  by (induction kvs arbitrary: m) (auto simp: valid_assign)

end

interpretation om: std_map omap_find omap_set omap_insert omap_ok
  by unfold_locales (auto simp: omap_find_set omap_find_insert)

section \<open>Searching\<close>

text \<open>\<open>std::binary_search\<close>: \<open>std::lower_bound\<close> halves a range given by its start and its
  length, then one comparison decides.\<close>

function lower_bound :: "'a :: linorder list \<Rightarrow> 'a \<Rightarrow> nat \<Rightarrow> nat \<Rightarrow> nat" where
  "lower_bound xs v first len =
     (if len = 0 then first
      else let half = len div 2; mid = first + half
           in if xs ! mid < v then lower_bound xs v (mid + 1) (len - half - 1)
              else lower_bound xs v first half)"
  by pat_completeness auto
termination
  by (relation "measure (\<lambda>(xs, v, first, len). len)") auto

declare lower_bound.simps [simp del]

definition binary_search :: "'a :: linorder list \<Rightarrow> 'a \<Rightarrow> bool" where
  "binary_search xs v =
     (let i = lower_bound xs v 0 (length xs) in i < length xs \<and> \<not> v < xs ! i)"

lemma lower_bound_spec:
  assumes "sorted xs" and "first + len \<le> length xs"
    and "\<forall>i < first. xs ! i < v" and "\<forall>i < length xs. first + len \<le> i \<longrightarrow> v \<le> xs ! i"
  shows "first \<le> lower_bound xs v first len \<and> lower_bound xs v first len \<le> length xs
    \<and> (\<forall>i < lower_bound xs v first len. xs ! i < v)
    \<and> (\<forall>i < length xs. lower_bound xs v first len \<le> i \<longrightarrow> v \<le> xs ! i)"
  using assms
proof (induction xs v first len rule: lower_bound.induct)
  case (1 xs v first len)
  show ?case
  proof (cases "len = 0")
    case True
    then have "lower_bound xs v first len = first" by (subst lower_bound.simps) simp
    with True "1.prems" show ?thesis by simp
  next
    case False
    define mid where "mid = first + len div 2"
    have mid: "mid < length xs" using False "1.prems"(2) by (simp add: mid_def)
    show ?thesis
    proof (cases "xs ! mid < v")
      case True
      have "\<forall>i < mid + 1. xs ! i < v"
        using True mid "1.prems"(1) by (metis less_add_one less_Suc_eq_le Suc_eq_plus1
          order.strict_trans1 sorted_nth_mono)
      moreover have "mid + 1 + (len - len div 2 - 1) = first + len" and "first \<le> mid"
        using False by (simp_all add: mid_def)
      ultimately show ?thesis
        using "1.IH"(1) [OF False refl mid_def True] "1.prems" False True
        by (simp add: lower_bound.simps [of xs v first len] mid_def [symmetric] Let_def)
    next
      case nlt: False
      have "\<forall>i < length xs. first + len div 2 \<le> i \<longrightarrow> v \<le> xs ! i"
        using nlt mid "1.prems"(1) unfolding mid_def
        by (meson linorder_not_less order_trans sorted_nth_mono)
      moreover have "first + len div 2 \<le> length xs" using mid by (simp add: mid_def)
      moreover have "lower_bound xs v first len = lower_bound xs v first (len div 2)"
        by (subst lower_bound.simps) (use False nlt in \<open>simp add: mid_def Let_def\<close>)
      ultimately show ?thesis
        using "1.IH"(2) [OF False refl mid_def nlt "1.prems"(1) _ "1.prems"(3)] by presburger
    qed
  qed
qed

lemma binary_search_iff: "sorted xs \<Longrightarrow> binary_search xs v \<longleftrightarrow> v \<in> set xs"
proof -
  assume s: "sorted xs"
  define i where "i = lower_bound xs v 0 (length xs)"
  have i: "i \<le> length xs" "\<forall>j < i. xs ! j < v" "\<forall>j < length xs. i \<le> j \<longrightarrow> v \<le> xs ! j"
    using lower_bound_spec [OF s, of 0 "length xs" v] by (auto simp: i_def)
  have "v \<in> set xs \<longleftrightarrow> i < length xs \<and> \<not> v < xs ! i"
  proof
    assume "v \<in> set xs"
    then obtain j where j: "j < length xs" "xs ! j = v" by (auto simp: in_set_conv_nth)
    then have "i \<le> j" using i(2) by (metis linorder_not_less order_less_irrefl)
    then show "i < length xs \<and> \<not> v < xs ! i"
      using j s by (metis linorder_not_less order_le_less_trans sorted_nth_mono)
  next
    assume a: "i < length xs \<and> \<not> v < xs ! i"
    then have "v \<le> xs ! i" using i(3) by simp
    then have "xs ! i = v" using a by (meson linorder_not_less order_antisym)
    then show "v \<in> set xs" using a by (auto simp: in_set_conv_nth)
  qed
  then show ?thesis by (simp add: binary_search_def i_def Let_def)
qed

text \<open>\<open>bsearch\<close> of the C library, with the sign of \<open>compar\<close> as an order test: the index found.\<close>

function bsearch_loop :: "('k \<Rightarrow> 'e \<Rightarrow> int) \<Rightarrow> 'k \<Rightarrow> 'e list \<Rightarrow> nat \<Rightarrow> nat \<Rightarrow> 'e option" where
  "bsearch_loop cmp key base l u =
     (if l < u
      then let idx = (l + u) div 2; p = base ! idx; comparison = cmp key p
           in if comparison < 0 then bsearch_loop cmp key base l idx
              else if comparison > 0 then bsearch_loop cmp key base (idx + 1) u
              else Some p
      else None)"
  by pat_completeness auto
termination
  by (relation "measure (\<lambda>(cmp, key, base, l, u). u - l)") (auto simp: Let_def)

declare bsearch_loop.simps [simp del]

definition bsearch :: "('k \<Rightarrow> 'e \<Rightarrow> int) \<Rightarrow> 'k \<Rightarrow> 'e list \<Rightarrow> 'e option" where
  "bsearch cmp key base = bsearch_loop cmp key base 0 (length base)"

end
