(* ===== verification/Comm_Func.thy ===== *)
theory Comm_Func
  imports Std_Lib
begin

text \<open>
  The helper functions of \<open>base/trpc_comm_func.cpp\<close>: stripping of blanks, \<open>split\<close>, the event
  masks, \<open>is_number\<close> and the hash \<open>get_append_code\<close>. A \<open>char *\<close> argument is the text up to its
  terminator.
\<close>

unbundle bit_operations_syntax

section \<open>Stripping and splitting\<close>

definition strchug :: "string \<Rightarrow> string" where
  "strchug s = dropWhile isspace s"

definition strchomp :: "string \<Rightarrow> string" where
  "strchomp s = rev (dropWhile isspace (rev s))"

definition strstrip :: "string \<Rightarrow> string" where
  "strstrip s = strchomp (strchug s)"

text \<open>The length computed for a token: blanks at its end are dropped, but never its first
  character (\<open>p > string\<close>).\<close>

definition trim_token :: "string \<Rightarrow> string" where
  "trim_token t = (case t of [] \<Rightarrow> [] | c # cs \<Rightarrow> c # strchomp cs)"

text \<open>The text after the last delimiter that was looked for: one more token unless it is empty.\<close>

definition split_last :: "string \<Rightarrow> string list" where
  "split_last str = (if str = [] then [] else [trim_token str])"

lemma length_dropWhile_tl:
  "xs \<noteq> [] \<Longrightarrow> length (dropWhile P (tl (dropWhile Q xs))) < length xs"
proof -
  assume "xs \<noteq> []"
  have "length (dropWhile P (tl (dropWhile Q xs))) \<le> length (dropWhile Q xs) - 1"
    by (rule order_trans [OF length_dropWhile_le]) simp
  also have "\<dots> < length xs"
    using \<open>xs \<noteq> []\<close> length_dropWhile_le [of Q xs] by (cases xs) auto
  finally show ?thesis .
qed

text \<open>The \<open>do .. while (--max_tokens && s && *s)\<close> loop, entered with a delimiter in \<open>str\<close>.
  Every caller passes a delimiter of one character.\<close>

function split_do :: "char \<Rightarrow> int \<Rightarrow> string \<Rightarrow> string list" where
  "split_do d max_tokens str =
     (let tok = takeWhile (\<lambda>c. c \<noteq> d) str;
          rest = dropWhile isspace (tl (dropWhile (\<lambda>c. c \<noteq> d) str))
      in trim_token tok #
           (if max_tokens - 1 \<noteq> 0 \<and> d \<in> set rest then split_do d (max_tokens - 1) rest
            else split_last rest))"
  by pat_completeness auto

termination
proof (relation "measure (\<lambda>(d, max_tokens, str). length str)")
  fix d :: char and max_tokens :: int and str tok rest :: string
  assume rest: "rest = dropWhile isspace (tl (dropWhile (\<lambda>c. c \<noteq> d) str))"
    and "max_tokens - 1 \<noteq> 0 \<and> d \<in> set rest"
  then have "str \<noteq> []" by auto
  with rest show "((d, max_tokens - 1, rest), d, max_tokens, str)
      \<in> measure (\<lambda>(d, max_tokens, str). length str)"
    by (simp add: length_dropWhile_tl)
qed simp

declare split_do.simps [simp del]

definition split :: "string \<Rightarrow> char \<Rightarrow> int \<Rightarrow> string list" where
  "split str d max_tokens =
     (let str = dropWhile isspace str
      in if d \<in> set str then split_do d max_tokens str else split_last str)"

subsection \<open>What the tokens look like\<close>

text \<open>A clean text neither starts nor ends with a blank.\<close>

definition clean :: "string \<Rightarrow> bool" where
  "clean t \<longleftrightarrow> (t \<noteq> [] \<longrightarrow> \<not> isspace (hd t) \<and> \<not> isspace (last t))"

lemma strchomp_last: "strchomp s \<noteq> [] \<Longrightarrow> \<not> isspace (last (strchomp s))"
  by (simp add: strchomp_def last_rev hd_dropWhile)

lemma strchomp_id: "s = [] \<or> \<not> isspace (last s) \<Longrightarrow> strchomp s = s"
  by (cases s rule: rev_cases) (auto simp: strchomp_def)

lemma strchomp_Cons: "\<not> isspace c \<Longrightarrow> strchomp (c # cs) = c # strchomp cs"
  by (simp add: strchomp_def dropWhile_append)

lemma clean_strstrip [simp]: "clean (strstrip s)"
proof (cases "dropWhile isspace s")
  case Nil
  then have "strstrip s = []" by (simp only: strstrip_def strchug_def) (simp add: strchomp_def)
  then show ?thesis by (simp add: clean_def)
next
  case (Cons c cs)
  then have "\<not> isspace c" using hd_dropWhile [of isspace s] by simp
  then show ?thesis
    using Cons strchomp_last [of "c # cs"]
    by (simp add: clean_def strstrip_def strchug_def strchomp_Cons)
qed

lemma strstrip_id: "clean s \<Longrightarrow> strstrip s = s"
  by (cases s) (auto simp: clean_def strstrip_def strchug_def strchomp_id)

lemma clean_trim_token: "t = [] \<or> \<not> isspace (hd t) \<Longrightarrow> clean (trim_token t)"
  using strchomp_last by (auto simp: clean_def trim_token_def split: list.split)

lemma trim_token_clean: "clean t \<Longrightarrow> trim_token t = t"
  by (auto simp: clean_def trim_token_def intro!: strchomp_id split: list.split)

lemma hd_takeWhile_nonblank:
  "s = [] \<or> \<not> isspace (hd s) \<Longrightarrow> takeWhile P s = [] \<or> \<not> isspace (hd (takeWhile P s))"
  by (cases s) auto

lemma split_do_clean:
  "str = [] \<or> \<not> isspace (hd str) \<Longrightarrow> t \<in> set (split_do d n str) \<Longrightarrow> clean t"
proof (induction d n str rule: split_do.induct)
  case (1 d n str)
  define tok where "tok = takeWhile (\<lambda>c. c \<noteq> d) str"
  define rest where "rest = dropWhile isspace (tl (dropWhile (\<lambda>c. c \<noteq> d) str))"
  have r: "rest = [] \<or> \<not> isspace (hd rest)"
    unfolding rest_def using hd_dropWhile by blast
  have tk: "clean (trim_token tok)"
    unfolding tok_def using "1.prems"(1) by (intro clean_trim_token hd_takeWhile_nonblank)
  have l: "t \<in> set (split_last rest) \<Longrightarrow> clean t"
    using r clean_trim_token by (auto simp: split_last_def split: if_splits)
  show ?case
    using "1.prems"(2) "1.IH" [OF tok_def rest_def _ r] tk l
    by (subst (asm) split_do.simps) (auto simp: Let_def tok_def rest_def split: if_splits)
qed

lemma split_clean: "t \<in> set (split s d n) \<Longrightarrow> clean t"
proof -
  assume t: "t \<in> set (split s d n)"
  have h: "dropWhile isspace s = [] \<or> \<not> isspace (hd (dropWhile isspace s))"
    using hd_dropWhile by blast
  show ?thesis
    using t split_do_clean [OF h] clean_trim_token [OF h]
    by (auto simp: split_def Let_def split_last_def split: if_splits)
qed

lemma length_split_do: "0 < n \<Longrightarrow> int (length (split_do d n str)) \<le> n + 1"
proof (induction d n str rule: split_do.induct)
  case (1 d n str)
  then show ?case
    by (subst split_do.simps) (auto simp: Let_def split_last_def)
qed

lemma length_split: "0 < n \<Longrightarrow> int (length (split s d n)) \<le> n + 1"
  by (simp add: split_def Let_def length_split_do split_last_def)

subsection \<open>Splitting what was joined\<close>

fun join :: "char \<Rightarrow> string list \<Rightarrow> string" where
  "join d [] = []"
| "join d [t] = t"
| "join d (t # u # ts) = t @ d # join d (u # ts)"

definition token_for :: "char \<Rightarrow> string \<Rightarrow> bool" where
  "token_for d t \<longleftrightarrow> clean t \<and> d \<notin> set t"

lemma takeWhile_token: "d \<notin> set t \<Longrightarrow> takeWhile (\<lambda>c. c \<noteq> d) (t @ d # r) = t"
  by (induction t) auto

lemma dropWhile_token: "d \<notin> set t \<Longrightarrow> dropWhile (\<lambda>c. c \<noteq> d) (t @ d # r) = d # r"
  by (induction t) auto

lemma dropWhile_clean: "clean t \<Longrightarrow> t \<noteq> [] \<Longrightarrow> dropWhile isspace (t @ r) = t @ r"
  by (cases t) (auto simp: clean_def)

lemma join_head:
  assumes "\<not> isspace d" and "\<forall>t \<in> set ts. token_for d t" and "ts \<noteq> []"
  shows "dropWhile isspace (join d ts) = join d ts"
  using assms by (cases "(d, ts)" rule: join.cases; cases "hd ts")
    (auto simp: token_for_def clean_def)

lemma delim_in_join: "2 \<le> length ts \<Longrightarrow> d \<in> set (join d ts)"
  by (cases "(d, ts)" rule: join.cases) auto

lemma split_do_join:
  assumes "\<not> isspace d" and "\<forall>t \<in> set ts. token_for d t" and "2 \<le> length ts"
    and "last ts \<noteq> []" and "int (length ts) - 1 \<le> n"
  shows "split_do d n (join d ts) = ts"
  using assms(2-)
proof (induction ts arbitrary: n rule: induct_list012)
  case (3 t u ts)
  have t: "clean t" "d \<notin> set t" using "3.prems"(1) by (auto simp: token_for_def)
  have u: "dropWhile isspace (join d (u # ts)) = join d (u # ts)"
    using "3.prems"(1) by (intro join_head [OF assms(1)]) auto
  have eq: "split_do d n (join d (t # u # ts)) = t #
      (if n - 1 \<noteq> 0 \<and> d \<in> set (join d (u # ts)) then split_do d (n - 1) (join d (u # ts))
       else split_last (join d (u # ts)))"
    using t u by (subst split_do.simps)
      (simp add: Let_def takeWhile_token dropWhile_token trim_token_clean)
  show ?case
  proof (cases ts)
    case Nil
    with "3.prems" have "split_last u = [u]" and "d \<notin> set u"
      by (auto simp: split_last_def token_for_def trim_token_clean)
    then show ?thesis using eq Nil by simp
  next
    case (Cons v vs)
    have "split_do d (n - 1) (join d (u # ts)) = u # ts"
      using "3.prems" Cons by (intro "3.IH"(2)) auto
    then show ?thesis
      using eq "3.prems"(4) Cons delim_in_join [of "u # ts" d] by simp
  qed
qed auto

lemma split_join:
  assumes "\<not> isspace d" and "\<forall>t \<in> set ts. token_for d t" and "ts \<noteq> []"
    and "last ts \<noteq> []" and "int (length ts) \<le> n + 1"
  shows "split (join d ts) d n = ts"
proof (cases "2 \<le> length ts")
  case True
  then show ?thesis
    using assms split_do_join [OF assms(1,2) True assms(4)] join_head [OF assms(1-3)]
    by (simp add: split_def delim_in_join)
next
  case False
  then obtain t where "ts = [t]" using assms(3) by (cases ts; cases "tl ts") auto
  then show ?thesis
    using assms join_head [OF assms(1-3)]
    by (auto simp: split_def split_last_def token_for_def trim_token_clean)
qed

section \<open>Masks, digits and the hash\<close>

definition set_mask :: "int \<Rightarrow> int \<Rightarrow> int" where
  "set_mask base msk = base OR msk"

text \<open>\<open>base &= (!msk)\<close>: the logical negation, which is 0 for every msk but 0.\<close>

definition unset_mask :: "int \<Rightarrow> int \<Rightarrow> int" where
  "unset_mask base msk = base AND (if msk = 0 then 1 else 0)"

definition check_mask :: "int \<Rightarrow> int \<Rightarrow> bool" where
  "check_mask base msk \<longleftrightarrow> base AND msk \<noteq> 0"

definition clean_mask :: "int \<Rightarrow> int" where
  "clean_mask base = base AND 0"

text \<open>\<open>NULL\<close> is \<open>None\<close>.\<close>

definition is_number :: "string option \<Rightarrow> int" where
  "is_number buf =
     (case buf of None \<Rightarrow> - 1
      | Some p \<Rightarrow> if list_all isdigit p then 0 else - 1)"

definition MAX_DRU_HASH_NODES :: "32 word" where
  "MAX_DRU_HASH_NODES = 1021"

text \<open>\<open>hash << 1 ^ *ptr\<close>: the shift binds tighter, and a signed \<open>char\<close> is extended.\<close>

definition schar :: "char \<Rightarrow> 32 word" where
  "schar c = word_of_int (signed_take_bit 7 (of_char c))"

fun append_hash :: "32 word \<Rightarrow> string \<Rightarrow> 32 word" where
  "append_hash hash [] = hash"
| "append_hash hash (c # cs) = append_hash (push_bit 1 hash XOR schar c) cs"

definition get_append_code :: "string option \<Rightarrow> int" where
  "get_append_code key =
     (case key of None \<Rightarrow> - 1
      | Some k \<Rightarrow> if k = [] then - 1 else uint (append_hash 0 k mod MAX_DRU_HASH_NODES))"

lemma get_append_code_range:
  "get_append_code key = - 1 \<or> 0 \<le> get_append_code key \<and> get_append_code key < 1021"
proof -
  have "uint (append_hash 0 k mod MAX_DRU_HASH_NODES) < 1021" for k
    by (simp add: MAX_DRU_HASH_NODES_def uint_mod_distrib)
  then show ?thesis by (simp add: get_append_code_def split: option.split)
qed

lemma check_set_mask: "msk \<noteq> 0 \<Longrightarrow> check_mask (set_mask base msk) msk"
proof -
  assume "msk \<noteq> 0"
  moreover have "(base OR msk) AND msk = msk"
    by (rule bit_eqI) (auto simp: bit_simps)
  ultimately show ?thesis by (simp add: check_mask_def set_mask_def)
qed

lemma check_clean_mask [simp]: "\<not> check_mask (clean_mask base) msk"
  by (simp add: check_mask_def clean_mask_def)

text \<open>What \<open>unset_mask\<close> does: any msk but 0 clears every bit, not the bits of the mask.\<close>

lemma unset_mask_clears_all: "msk \<noteq> 0 \<Longrightarrow> unset_mask base msk = 0"
  by (simp add: unset_mask_def)

section \<open>Properties\<close>

text \<open>Splitting a joined list of tokens gives the tokens back: for a delimiter that is not
  blank and tokens without it that are trimmed, the last one not empty, \<open>split\<close> with enough
  room returns exactly the list.\<close>

theorem split_of_join:
  assumes "\<not> isspace d" and "\<forall>t \<in> set ts. token_for d t" and "ts \<noteq> []"
    and "last ts \<noteq> []" and "int (length ts) \<le> n + 1"
  shows "split (join d ts) d n = ts"
  using assms by (rule split_join)

theorem split_of_join_witness:
  "split (join (CHR '';'') [''a'', ''b c'', [], ''d'']) (CHR '';'') 3 = [''a'', ''b c'', [], ''d'']"
  by (rule split_of_join)
    (simp_all add: isspace_def token_for_def clean_def)

end
