(* ===== verification/Url_Param_Map.thy ===== *)
theory Url_Param_Map
  imports Comm_Func
begin

text \<open>
  \<open>CTrpcUrlParamMap\<close> (\<open>base/trpc_url_param_map.cpp\<close>): the text protocol's parameter map. The
  escape table and the functions \<open>encodeUrl\<close>, \<open>decodeUrl\<close>, \<open>parseUrl\<close>, \<open>parseNV\<close>, \<open>packUrl\<close>
  and \<open>isEmpty\<close>, with the positions of the source; then a specification by segments, and the
  round trips.
\<close>

section \<open>Escaping\<close>

type_synonym url_map = "(string, string) omap"

abbreviation SEG_DEL :: char where "SEG_DEL \<equiv> CHR ''&''"
abbreviation ELE_DEL :: char where "ELE_DEL \<equiv> CHR ''=''"

definition chTable :: "string list" where
  "chTable = concat [
     [''%00'', ''%01'', ''%02'', ''%03'', ''%04'', ''%05'', ''%06'', ''%07''],
     [''%08'', ''%09'', ''%0a'', ''%0b'', ''%0c'', ''%0d'', ''%0e'', ''%0f''],
     [''%10'', ''%11'', ''%12'', ''%13'', ''%14'', ''%15'', ''%16'', ''%17''],
     [''%18'', ''%19'', ''%1a'', ''%1b'', ''%1c'', ''%1d'', ''%1e'', ''%1f''],
     ['' '', ''%21'', ''%22'', ''%23'', ''%24'', ''%25'', ''%26'', ''%27''],
     [''('', '')'', ''*'', ''%2b'', '','', ''-'', ''.'', ''%2f''],
     [''0'', ''1'', ''2'', ''3'', ''4'', ''5'', ''6'', ''7''],
     [''8'', ''9'', '':'', ''%3b'', ''%3c'', ''%3d'', ''%3e'', ''%3f''],
     [''%40'', ''A'', ''B'', ''C'', ''D'', ''E'', ''F'', ''G''],
     [''H'', ''I'', ''J'', ''K'', ''L'', ''M'', ''N'', ''O''],
     [''P'', ''Q'', ''R'', ''S'', ''T'', ''U'', ''V'', ''W''],
     [''X'', ''Y'', ''Z'', ''['', [CHR 0x5C], '']'', ''%5e'', ''_''],
     [''%60'', ''a'', ''b'', ''c'', ''d'', ''e'', ''f'', ''g''],
     [''h'', ''i'', ''j'', ''k'', ''l'', ''m'', ''n'', ''o''],
     [''p'', ''q'', ''r'', ''s'', ''t'', ''u'', ''v'', ''w''],
     [''x'', ''y'', ''z'', ''%7b'', ''|'', ''%7d'', ''~'', ''%7f''],
     [''%80'', ''%81'', ''%82'', ''%83'', ''%84'', ''%85'', ''%86'', ''%87''],
     [''%88'', ''%89'', ''%8a'', ''%8b'', ''%8c'', ''%8d'', ''%8e'', ''%8f''],
     [''%90'', ''%91'', ''%92'', ''%93'', ''%94'', ''%95'', ''%96'', ''%97''],
     [''%98'', ''%99'', ''%9a'', ''%9b'', ''%9c'', ''%9d'', ''%9e'', ''%9f''],
     [''%a0'', ''%a1'', ''%a2'', ''%a3'', ''%a4'', ''%a5'', ''%a6'', ''%a7''],
     [''%a8'', ''%a9'', ''%aa'', ''%ab'', ''%ac'', ''%ad'', ''%ae'', ''%af''],
     [''%b0'', ''%b1'', ''%b2'', ''%b3'', ''%b4'', ''%b5'', ''%b6'', ''%b7''],
     [''%b8'', ''%b9'', ''%ba'', ''%bb'', ''%bc'', ''%bd'', ''%be'', ''%bf''],
     [''%c0'', ''%c1'', ''%c2'', ''%c3'', ''%c4'', ''%c5'', ''%c6'', ''%c7''],
     [''%c8'', ''%c9'', ''%ca'', ''%cb'', ''%cc'', ''%cd'', ''%ce'', ''%cf''],
     [''%d0'', ''%d1'', ''%d2'', ''%d3'', ''%d4'', ''%d5'', ''%d6'', ''%d7''],
     [''%d8'', ''%d9'', ''%da'', ''%db'', ''%dc'', ''%dd'', ''%de'', ''%df''],
     [''%e0'', ''%e1'', ''%e2'', ''%e3'', ''%e4'', ''%e5'', ''%e6'', ''%e7''],
     [''%e8'', ''%e9'', ''%ea'', ''%eb'', ''%ec'', ''%ed'', ''%ee'', ''%ef''],
     [''%f0'', ''%f1'', ''%f2'', ''%f3'', ''%f4'', ''%f5'', ''%f6'', ''%f7''],
     [''%f8'', ''%f9'', ''%fa'', ''%fb'', ''%fc'', ''%fd'', ''%fe'', ''%ff'']]"

definition encodeUrl :: "string \<Rightarrow> string" where
  "encodeUrl str = concat (map (\<lambda>c. chTable ! of_char c) str)"

definition hex_digit :: "char \<Rightarrow> nat option" where
  "hex_digit c =
     (let n = of_char c :: nat
      in if 48 \<le> n \<and> n \<le> 57 then Some (n - 48)
         else if 97 \<le> n \<and> n \<le> 102 then Some (n - 87)
         else if 65 \<le> n \<and> n \<le> 70 then Some (n - 55)
         else None)"

text \<open>\<open>sscanf("0xXY", "%x", &val)\<close>: the hexadecimal digits up to the first other character; the
  C library of the platform reads the bare prefix \<open>0x\<close> as 0.\<close>

definition hextochar :: "char \<Rightarrow> char \<Rightarrow> char" where
  "hextochar c1 c2 =
     (case hex_digit c1 of
        None \<Rightarrow> char_of (0 :: nat)
      | Some a \<Rightarrow> (case hex_digit c2 of None \<Rightarrow> char_of a | Some b \<Rightarrow> char_of (16 * a + b)))"

text \<open>A percent sign is an escape only when two more characters follow.\<close>

fun decodeUrl :: "string \<Rightarrow> string" where
  "decodeUrl (c # c1 # c2 # s) =
     (if c = CHR ''%'' then hextochar c1 c2 # decodeUrl s else c # decodeUrl (c1 # c2 # s))"
| "decodeUrl (c # s) = c # decodeUrl s"
| "decodeUrl [] = []"

text \<open>Every entry of the table is the escape of its index, and holds no delimiter.\<close>

fun entry_ok :: "nat \<Rightarrow> string \<Rightarrow> bool" where
  "entry_ok n [c] \<longleftrightarrow> of_char c = n \<and> c \<noteq> CHR ''%'' \<and> c \<noteq> SEG_DEL \<and> c \<noteq> ELE_DEL"
| "entry_ok n [p, c1, c2] \<longleftrightarrow> p = CHR ''%'' \<and>
     (case hex_digit c1 of None \<Rightarrow> False | Some a \<Rightarrow>
       (case hex_digit c2 of None \<Rightarrow> False | Some b \<Rightarrow> 16 * a + b = n))"
| "entry_ok n _ \<longleftrightarrow> False"

fun entries_ok :: "nat \<Rightarrow> string list \<Rightarrow> bool" where
  "entries_ok n [] \<longleftrightarrow> True"
| "entries_ok n (t # ts) \<longleftrightarrow> entry_ok n t \<and> entries_ok (n + 1) ts"

lemma entries_ok_chTable: "entries_ok 0 chTable"
  unfolding chTable_def by (simp add: hex_digit_def)

lemma length_chTable: "length chTable = 256"
  unfolding chTable_def by simp

lemma entries_ok_nth: "entries_ok n ts \<Longrightarrow> i < length ts \<Longrightarrow> entry_ok (n + i) (ts ! i)"
proof (induction ts arbitrary: n i)
  case (Cons t ts)
  show ?case
  proof (cases i)
    case (Suc j)
    then show ?thesis using Cons.IH [of "n + 1" j] Cons.prems by simp
  qed (use Cons.prems in simp)
qed simp

lemma table_ok: "entry_ok (of_char c) (chTable ! of_char c)"
  using entries_ok_nth [OF entries_ok_chTable, of "of_char c"] by (simp add: length_chTable)

lemma hex_digit_not_delim:
  "hex_digit c = Some a \<Longrightarrow> c \<noteq> SEG_DEL \<and> c \<noteq> ELE_DEL \<and> c \<noteq> NUL"
  by (auto simp: hex_digit_def Let_def)

lemma table_cases:
  obtains "chTable ! of_char c = [c]" and "c \<noteq> CHR ''%''" and "c \<noteq> SEG_DEL" and "c \<noteq> ELE_DEL"
  | c1 c2 where "chTable ! of_char c = [CHR ''%'', c1, c2]" and "hextochar c1 c2 = c"
      and "{c1, c2} \<inter> {SEG_DEL, ELE_DEL, NUL} = {}"
proof (cases "(of_char c :: nat, chTable ! of_char c)" rule: entry_ok.cases)
  case (1 n c')
  then show ?thesis using table_ok [of c] that(1) by (auto simp: inj_eq [OF inj_of_char])
next
  case (2 n p c1 c2)
  then obtain a b where hd: "p = CHR ''%''" "hex_digit c1 = Some a" "hex_digit c2 = Some b"
    and "16 * a + b = of_char c"
    using table_ok [of c] by (auto split: option.splits)
  then have hx: "hextochar c1 c2 = c"
    by (simp add: hextochar_def)
  show ?thesis
    using that(2) [OF _ hx] 2 hd(1) hex_digit_not_delim [OF hd(2)] hex_digit_not_delim [OF hd(3)]
    by auto
qed (use table_ok [of c] in auto)

lemma encodeUrl_Nil [simp]: "encodeUrl [] = []"
  by (simp add: encodeUrl_def)

lemma encodeUrl_Cons: "encodeUrl (c # s) = chTable ! of_char c @ encodeUrl s"
  by (simp add: encodeUrl_def)

lemma decodeUrl_Cons: "c \<noteq> CHR ''%'' \<Longrightarrow> decodeUrl (c # s) = c # decodeUrl s"
  by (cases "c # s" rule: decodeUrl.cases) auto

lemma decode_encode: "decodeUrl (encodeUrl s) = s"
proof (induction s)
  case (Cons c s)
  show ?case
    by (cases c rule: table_cases) (simp_all add: encodeUrl_Cons decodeUrl_Cons Cons)
qed simp

lemma encodeUrl_no_delim: "SEG_DEL \<notin> set (encodeUrl s) \<and> ELE_DEL \<notin> set (encodeUrl s)"
proof (induction s)
  case (Cons c s)
  show ?case
    by (cases c rule: table_cases) (use Cons in \<open>auto simp: encodeUrl_Cons\<close>)
qed simp

lemma length_encodeUrl: "length s \<le> length (encodeUrl s) \<and> length (encodeUrl s) \<le> 3 * length s"
proof (induction s)
  case (Cons c s)
  show ?case
    by (cases c rule: table_cases) (use Cons in \<open>auto simp: encodeUrl_Cons\<close>)
qed simp

section \<open>Parsing and packing\<close>

text \<open>\<open>string::find(c, q)\<close>, with \<open>None\<close> for \<open>npos\<close>, and \<open>substr(b, n)\<close>.\<close>

definition str_find :: "char \<Rightarrow> string \<Rightarrow> nat \<Rightarrow> nat option" where
  "str_find c s q =
     (let k = length (takeWhile (\<lambda>x. x \<noteq> c) (drop q s))
      in if q + k < length s then Some (q + k) else None)"

definition substr :: "string \<Rightarrow> nat \<Rightarrow> nat \<Rightarrow> string" where
  "substr s b n = take n (drop b s)"

definition parseNV :: "url_map \<Rightarrow> string \<Rightarrow> nat \<Rightarrow> nat option \<Rightarrow> url_map" where
  "parseNV m strUrl beg stop =
     (case str_find ELE_DEL strUrl beg of
        None \<Rightarrow> m
      | Some pos \<Rightarrow>
          (case stop of
             None \<Rightarrow> omap_insert (substr strUrl beg (pos - beg)) (decodeUrl (drop (pos + 1) strUrl)) m
           | Some e \<Rightarrow>
               if pos \<le> e
               then omap_insert (substr strUrl beg (pos - beg))
                      (decodeUrl (substr strUrl (pos + 1) (e - pos - 1))) m
               else m))"

text \<open>The \<open>while\<close> loop of \<open>parseUrl\<close> at position \<open>q\<close>.\<close>

function parse_loop :: "url_map \<Rightarrow> string \<Rightarrow> nat \<Rightarrow> url_map" where
  "parse_loop m strUrl q =
     (case str_find SEG_DEL strUrl q of
        None \<Rightarrow> parseNV m strUrl q None
      | Some p \<Rightarrow> parse_loop (parseNV m strUrl q (Some p)) strUrl (p + 1))"
  by pat_completeness auto
termination
  by (relation "measure (\<lambda>(m, s, q). length s - q)")
    (auto simp: str_find_def Let_def split: if_splits)

declare parse_loop.simps [simp del]

definition parseUrl :: "string \<Rightarrow> url_map" where
  "parseUrl strUrl = parse_loop [] strUrl 0"

definition MUST_IN_FIRST_FIELD :: string where
  "MUST_IN_FIRST_FIELD = ''result''"

definition pack_pair :: "string \<times> string \<Rightarrow> string" where
  "pack_pair kv = fst kv @ ELE_DEL # encodeUrl (snd kv) @ [SEG_DEL]"

definition packUrl :: "url_map \<Rightarrow> string" where
  "packUrl m =
     (case omap_find m MUST_IN_FIRST_FIELD of
        None \<Rightarrow> [] | Some v \<Rightarrow> pack_pair (MUST_IN_FIRST_FIELD, v)) @
     concat (map pack_pair (filter (\<lambda>kv. fst kv \<noteq> MUST_IN_FIRST_FIELD) m))"

definition isEmpty :: "url_map \<Rightarrow> string \<Rightarrow> bool" where
  "isEmpty m key = (case omap_find m key of None \<Rightarrow> True | Some v \<Rightarrow> length v = 0)"

subsection \<open>The specification by segments\<close>

fun segments :: "char \<Rightarrow> string \<Rightarrow> string list" where
  "segments d [] = [[]]"
| "segments d (c # s) =
     (if c = d then [] # segments d s
      else (case segments d s of [] \<Rightarrow> [[c]] | t # ts \<Rightarrow> (c # t) # ts))"

definition nv_of :: "string \<Rightarrow> (string \<times> string) list" where
  "nv_of seg =
     (if ELE_DEL \<in> set seg
      then [(takeWhile (\<lambda>c. c \<noteq> ELE_DEL) seg, decodeUrl (tl (dropWhile (\<lambda>c. c \<noteq> ELE_DEL) seg)))]
      else [])"

definition url_pairs :: "string \<Rightarrow> (string \<times> string) list" where
  "url_pairs s = concat (map nv_of (segments SEG_DEL s))"

definition parse_spec :: "string \<Rightarrow> url_map" where
  "parse_spec s = fold (\<lambda>(k, v). omap_insert k v) (url_pairs s) []"

lemma segments_ne [simp]: "segments d s \<noteq> []"
  by (induction d s rule: segments.induct) (auto split: list.splits)

lemma segments_none: "d \<notin> set s \<Longrightarrow> segments d s = [s]"
  by (induction s) auto

lemma segments_append: "d \<notin> set s \<Longrightarrow> segments d (s @ d # t) = s # segments d t"
  by (induction s) auto

lemma str_find_Some:
  assumes "drop q s = a @ c # b" and "c \<notin> set a"
  shows "str_find c s q = Some (q + length a)"
proof -
  have "takeWhile (\<lambda>x. x \<noteq> c) (drop q s) = a"
    unfolding assms(1) using assms(2) by (rule takeWhile_token)
  moreover have "q + length a < length s"
    using arg_cong [OF assms(1), of length] by simp
  ultimately show ?thesis by (simp add: str_find_def Let_def)
qed

lemma str_find_None: "c \<notin> set (drop q s) \<Longrightarrow> q \<le> length s \<Longrightarrow> str_find c s q = None"
proof -
  assume c: "c \<notin> set (drop q s)" and q: "q \<le> length s"
  have "takeWhile (\<lambda>x. x \<noteq> c) (drop q s) = drop q s"
    using c by (metis (mono_tags) takeWhile_eq_all_conv)
  then have "length (takeWhile (\<lambda>x. x \<noteq> c) (drop q s)) = length s - q" by (simp only: length_drop)
  with q show ?thesis by (simp add: str_find_def Let_def)
qed

lemma first_split:
  assumes "c \<in> set s"
  obtains b where "s = takeWhile (\<lambda>x. x \<noteq> c) s @ c # b" and "c \<notin> set (takeWhile (\<lambda>x. x \<noteq> c) s)"
    and "b = tl (dropWhile (\<lambda>x. x \<noteq> c) s)"
proof -
  obtain a b where s: "s = a @ c # b" and a: "c \<notin> set a"
    using split_list_first [OF assms] by blast
  have "takeWhile (\<lambda>x. x \<noteq> c) s = a" unfolding s by (rule takeWhile_token [OF a])
  moreover have "dropWhile (\<lambda>x. x \<noteq> c) s = c # b" unfolding s by (rule dropWhile_token [OF a])
  ultimately show ?thesis by (intro that [of b]) (simp_all only: s [symmetric] list.sel a not_False_eq_True)
qed

text \<open>One segment: the text from \<open>beg\<close> up to \<open>p\<close>, the position of the next delimiter.\<close>

lemma parseNV_segment:
  assumes d: "drop beg s = seg @ SEG_DEL # t" and seg: "SEG_DEL \<notin> set seg"
  shows "parseNV m s beg (Some (beg + length seg)) = fold (\<lambda>(k, v). omap_insert k v) (nv_of seg) m"
proof (cases "ELE_DEL \<in> set seg")
  case True
  obtain b where b: "seg = takeWhile (\<lambda>x. x \<noteq> ELE_DEL) seg @ ELE_DEL # b"
    and nb: "ELE_DEL \<notin> set (takeWhile (\<lambda>x. x \<noteq> ELE_DEL) seg)"
    and bt: "b = tl (dropWhile (\<lambda>x. x \<noteq> ELE_DEL) seg)"
    using first_split [OF True] .
  define a where "a = takeWhile (\<lambda>x. x \<noteq> ELE_DEL) seg"
  have da: "drop beg s = a @ ELE_DEL # (b @ SEG_DEL # t)" and na: "ELE_DEL \<notin> set a"
    using d b nb by (simp_all add: a_def)
  have ls: "length seg = length a + 1 + length b" using arg_cong [OF b, of length] by (simp add: a_def)
  have "drop (beg + length a + 1) s = drop (length a + 1) (drop beg s)" by (simp add: add.commute)
  then have db: "drop (Suc (beg + length a)) s = b @ SEG_DEL # t" by (simp add: da)
  show ?thesis
    using str_find_Some [OF da na] True
    by (simp add: parseNV_def substr_def da db ls nv_of_def a_def [symmetric] bt [symmetric])
next
  case False
  have "str_find ELE_DEL s beg = None \<or> (\<exists>p. str_find ELE_DEL s beg = Some p \<and> beg + length seg < p)"
  proof (cases "ELE_DEL \<in> set t")
    case True
    then obtain u v where "t = u @ ELE_DEL # v" "ELE_DEL \<notin> set u"
      using split_list_first [OF True] by blast
    then show ?thesis
      using str_find_Some [of beg s "seg @ SEG_DEL # u" ELE_DEL v] d False by simp
  next
    case nt: False
    have "beg \<le> length s" using arg_cong [OF d, of length] by simp
    then show ?thesis using str_find_None [of ELE_DEL beg s] nt d False by simp
  qed
  then show ?thesis using False by (auto simp: parseNV_def nv_of_def)
qed

lemma parseNV_last:
  assumes "beg \<le> length s"
  shows "parseNV m s beg None = fold (\<lambda>(k, v). omap_insert k v) (nv_of (drop beg s)) m"
proof (cases "ELE_DEL \<in> set (drop beg s)")
  case True
  define a where "a = takeWhile (\<lambda>x. x \<noteq> ELE_DEL) (drop beg s)"
  obtain b where b: "drop beg s = a @ ELE_DEL # b" and na: "ELE_DEL \<notin> set a"
    and bt: "b = tl (dropWhile (\<lambda>x. x \<noteq> ELE_DEL) (drop beg s))"
    using first_split [OF True] unfolding a_def .
  have "drop (beg + length a + 1) s = drop (length a + 1) (drop beg s)" by (simp add: add.commute)
  then have db: "drop (Suc (beg + length a)) s = b" by (simp add: b)
  have "nv_of (drop beg s) = [(a, decodeUrl b)]"
    using True by (simp only: nv_of_def if_True a_def [symmetric] bt [symmetric])
  moreover have "parseNV m s beg None = omap_insert (take (length a) (drop beg s)) (decodeUrl b) m"
    using str_find_Some [OF b na] by (simp add: parseNV_def substr_def db)
  ultimately show ?thesis by (simp add: b)
next
  case False
  then show ?thesis using str_find_None [OF False assms] by (simp add: parseNV_def nv_of_def)
qed

lemma parse_loop_segments:
  "q \<le> length s \<Longrightarrow> parse_loop m s q
     = fold (\<lambda>(k, v). omap_insert k v) (concat (map nv_of (segments SEG_DEL (drop q s)))) m"
proof (induction m s q rule: parse_loop.induct)
  case (1 m s q)
  show ?case
  proof (cases "SEG_DEL \<in> set (drop q s)")
    case True
    then obtain a b where d: "drop q s = a @ SEG_DEL # b" and a: "SEG_DEL \<notin> set a"
      using split_list_first [OF True] by blast
    have f: "str_find SEG_DEL s q = Some (q + length a)" using d a by (rule str_find_Some)
    have l: "q + length a + 1 \<le> length s" using arg_cong [OF d, of length] by simp
    have "drop (q + length a + 1) s = drop (length a + 1) (drop q s)" by (simp add: add.commute)
    then have db: "drop (q + length a + 1) s = b" by (simp add: d)
    show ?thesis
      using "1.IH" [OF f l] parseNV_segment [OF d a, of m]
      by (subst parse_loop.simps) (simp add: f db [simplified] d segments_append [OF a])
  next
    case False
    then show ?thesis
      using str_find_None [OF False "1.prems"] parseNV_last [OF "1.prems", of m]
      by (subst parse_loop.simps) (simp add: segments_none)
  qed
qed

lemma parseUrl_spec: "parseUrl s = parse_spec s"
  using parse_loop_segments [of 0 s "[]"] by (simp add: parseUrl_def parse_spec_def url_pairs_def)

lemma omap_ok_parseUrl [simp]: "omap_ok (parseUrl s)"
  by (simp add: parseUrl_spec parse_spec_def om.valid_insert_all)

lemma find_parseUrl: "omap_find (parseUrl s) k = map_of (url_pairs s) k"
  by (simp add: parseUrl_spec parse_spec_def om.insert_all_first_wins)

subsection \<open>Packing, then parsing\<close>

text \<open>An escape function with its inverse and the map text built on one: the contract the
  text protocol rests on.\<close>

locale escape =
  fixes esc :: "string \<Rightarrow> string" and unesc :: "string \<Rightarrow> string"
  assumes unesc_esc: "unesc (esc s) = s"
    and esc_no_seg: "SEG_DEL \<notin> set (esc s)"
    and esc_no_ele: "ELE_DEL \<notin> set (esc s)"
begin

lemma esc_inj: "esc s = esc t \<longleftrightarrow> s = t"
  by (metis unesc_esc)

lemma field_split:
  "ELE_DEL \<notin> set k \<Longrightarrow> takeWhile (\<lambda>c. c \<noteq> ELE_DEL) (k @ ELE_DEL # esc v) = k
     \<and> unesc (tl (dropWhile (\<lambda>c. c \<noteq> ELE_DEL) (k @ ELE_DEL # esc v))) = v"
  by (simp add: takeWhile_token dropWhile_token unesc_esc)

end

interpretation url: escape encodeUrl decodeUrl
  by unfold_locales (auto simp: decode_encode encodeUrl_no_delim)

text \<open>A key is written as it is: it must not hold a delimiter to survive the round trip.\<close>

definition plain_key :: "string \<Rightarrow> bool" where
  "plain_key k \<longleftrightarrow> SEG_DEL \<notin> set k \<and> ELE_DEL \<notin> set k"

definition pack_list :: "url_map \<Rightarrow> (string \<times> string) list" where
  "pack_list m =
     (case omap_find m MUST_IN_FIRST_FIELD of None \<Rightarrow> [] | Some v \<Rightarrow> [(MUST_IN_FIRST_FIELD, v)]) @
     filter (\<lambda>kv. fst kv \<noteq> MUST_IN_FIRST_FIELD) m"

lemma packUrl_list: "packUrl m = concat (map pack_pair (pack_list m))"
  by (simp add: packUrl_def pack_list_def split: option.split)

lemma nv_of_pair: "ELE_DEL \<notin> set k \<Longrightarrow> nv_of (k @ ELE_DEL # encodeUrl v) = [(k, v)]"
  by (simp add: nv_of_def url.field_split)

lemma url_pairs_pack: "\<forall>kv \<in> set l. plain_key (fst kv) \<Longrightarrow> url_pairs (concat (map pack_pair l)) = l"
proof (induction l)
  case Nil
  then show ?case by (simp add: url_pairs_def nv_of_def)
next
  case (Cons kv l)
  obtain k v where kv: "kv = (k, v)" by (cases kv)
  have k: "SEG_DEL \<notin> set (k @ ELE_DEL # encodeUrl v)" "ELE_DEL \<notin> set k"
    using Cons.prems encodeUrl_no_delim [of v] by (auto simp: kv plain_key_def)
  have "segments SEG_DEL (concat (map pack_pair (kv # l)))
      = (k @ ELE_DEL # encodeUrl v) # segments SEG_DEL (concat (map pack_pair l))"
    using segments_append [OF k(1)] by (simp add: pack_pair_def kv)
  then show ?case
    using Cons nv_of_pair [OF k(2)] by (simp add: url_pairs_def kv)
qed

lemma plain_keys_pack_list:
  "\<forall>k \<in> fst ` set m. plain_key k \<Longrightarrow> \<forall>kv \<in> set (pack_list m). plain_key (fst kv)"
proof -
  have "plain_key MUST_IN_FIRST_FIELD" by (simp add: plain_key_def MUST_IN_FIRST_FIELD_def)
  then show "\<forall>k \<in> fst ` set m. plain_key k \<Longrightarrow> ?thesis"
    by (auto simp: pack_list_def split: option.splits)
qed

lemma map_of_pack_list: "map_of (pack_list m) k = omap_find m k"
proof (cases "k = MUST_IN_FIRST_FIELD")
  case True
  have "map_of (filter (\<lambda>kv. fst kv \<noteq> k) m) k = None" by (auto simp: map_of_eq_None_iff)
  with True show ?thesis by (auto simp: pack_list_def split: option.split)
next
  case False
  then have "map_of (filter (\<lambda>kv. fst kv \<noteq> MUST_IN_FIRST_FIELD) m) k = map_of m k"
    by (induction m) auto
  with False show ?thesis by (auto simp: pack_list_def omap_find_def split: option.split)
qed

lemma parse_pack: "omap_ok m \<Longrightarrow> \<forall>k \<in> fst ` set m. plain_key k \<Longrightarrow> parseUrl (packUrl m) = m"
  by (rule omap_eqI)
    (simp_all add: fun_eq_iff find_parseUrl packUrl_list url_pairs_pack plain_keys_pack_list
      map_of_pack_list)

lemma packUrl_result_first:
  "omap_find m MUST_IN_FIRST_FIELD = Some v \<Longrightarrow>
     \<exists>rest. packUrl m = ''result='' @ encodeUrl v @ SEG_DEL # rest"
  by (simp add: packUrl_def pack_pair_def MUST_IN_FIRST_FIELD_def)

section \<open>Properties\<close>

text \<open>C35: the text protocol is faithful: a map whose keys hold no delimiter is recovered from
  its packed text, whatever bytes its values hold, and a \<open>result\<close> entry is written first.\<close>

theorem packUrl_parseUrl:
  assumes "omap_ok m" and "\<forall>k \<in> fst ` set m. plain_key k"
  shows "parseUrl (packUrl m) = m \<and>
    (\<forall>v. omap_find m MUST_IN_FIRST_FIELD = Some v \<longrightarrow>
       (\<exists>rest. packUrl m = ''result='' @ encodeUrl v @ SEG_DEL # rest))"
  using parse_pack [OF assms] packUrl_result_first by blast

theorem packUrl_parseUrl_witness:
  "parseUrl (packUrl [(''msgno'', ''7''), (''result'', ''0''), (''text'', ''a=b&c%'')])
     = [(''msgno'', ''7''), (''result'', ''0''), (''text'', ''a=b&c%'')]"
  using packUrl_parseUrl [of "[(''msgno'', ''7''), (''result'', ''0''), (''text'', ''a=b&c%'')]"]
  by (simp add: plain_key_def)

text \<open>C36: \<open>parseUrl\<close>, with its moving positions and its two ways to cut a value, computes the
  specification by segments for every text: the map holds, for every name, the decoded
  value of the first segment that has the name, and its keys are in order.\<close>

theorem parseUrl_first_segment_wins:
  "omap_find (parseUrl s) k = map_of (url_pairs s) k \<and> omap_ok (parseUrl s)"
  by (simp add: find_parseUrl)

text \<open>The escape function loses nothing, hides both delimiters and at most triples a text.\<close>

theorem encodeUrl_faithful:
  "decodeUrl (encodeUrl s) = s \<and> SEG_DEL \<notin> set (encodeUrl s) \<and> ELE_DEL \<notin> set (encodeUrl s)
   \<and> length (encodeUrl s) \<le> 3 * length s"
  using decode_encode encodeUrl_no_delim length_encodeUrl by blast

end
