(* ===== verification/Socket_Opt.thy ===== *)
theory Socket_Opt
  imports Std_Lib
begin

unbundle bit_operations_syntax

text \<open>
  \<open>CSocketOpt\<close> (\<open>sys/trpc_socket_opt.cpp\<close>): the functions around the system calls. What the
  operating system answers is input: the record \<open>kernel\<close> holds, for each kind of call, the
  answers still to come, and what the calls did so far. An answer is \<open>Inl e\<close>, the call
  failed with \<open>errno = e\<close>, or \<open>Inr\<close> of what it returned. Where no answer is left, a call
  answers as a peer that does nothing would: a read or a write would block, a connect is in
  progress, a \<open>select\<close> times out, an option can be read and set.
\<close>

section \<open>The operating system\<close>

record kernel =
  k_errno :: int
  k_strerror :: "int \<Rightarrow> string"
  k_gai_strerror :: "int \<Rightarrow> string"
  k_addrinfo :: "string \<Rightarrow> string \<Rightarrow> int + string"
  k_socket :: "(int + int) list"
  k_kind :: "int \<Rightarrow> int \<times> int \<times> int"
  k_unlink :: "int list"
  k_bind :: "int list"
  k_listen :: "int list"
  k_connect :: "int list"
  k_accept :: "(int + int) list"
  k_fcntl :: "int list"
  k_flags :: "int \<Rightarrow> int"
  k_select :: "(int + int \<times> bool \<times> bool) list"
  k_getsockopt :: "(int + int) list"
  k_setsockopt :: "int list"
  k_opts :: "(int \<times> int \<times> int \<times> int) list"
  k_tcp_state :: "int \<Rightarrow> int"
  k_read :: "int \<Rightarrow> (int + string) list"
  k_write :: "int \<Rightarrow> (int + nat) list"
  k_sent :: "int \<Rightarrow> string"
  k_closed :: "int list"

definition INVALID_SOCKET :: int where "INVALID_SOCKET = - 1"

definition EINTR :: int where "EINTR = 4"
definition ENOENT :: int where "ENOENT = 2"
definition EFAULT :: int where "EFAULT = 14"
definition EAGAIN :: int where "EAGAIN = 11"
definition EMFILE :: int where "EMFILE = 24"
definition EPROTO :: int where "EPROTO = 71"
definition ECONNABORTED :: int where "ECONNABORTED = 103"
definition ECONNREFUSED :: int where "ECONNREFUSED = 111"
definition EINPROGRESS :: int where "EINPROGRESS = 115"
definition O_NONBLOCK :: int where "O_NONBLOCK = 2048"
definition TCP_ESTABLISHED :: int where "TCP_ESTABLISHED = 1"
definition SOL_SOCKET :: int where "SOL_SOCKET = 1"
definition SOL_TCP :: int where "SOL_TCP = 6"
definition SO_REUSEADDR :: int where "SO_REUSEADDR = 2"
definition SO_KEEPALIVE :: int where "SO_KEEPALIVE = 9"
definition TCP_KEEPIDLE :: int where "TCP_KEEPIDLE = 4"
definition TCP_KEEPINTVL :: int where "TCP_KEEPINTVL = 5"
definition TCP_KEEPCNT :: int where "TCP_KEEPCNT = 6"
definition AF_UNIX :: int where "AF_UNIX = 1"
definition AF_INET :: int where "AF_INET = 2"
definition SOCK_STREAM :: int where "SOCK_STREAM = 1"
definition SOCK_DGRAM :: int where "SOCK_DGRAM = 2"

lemmas errno_defs [code_numbers] = EINTR_def ENOENT_def EFAULT_def EAGAIN_def EMFILE_def EPROTO_def
  ECONNABORTED_def ECONNREFUSED_def EINPROGRESS_def INVALID_SOCKET_def TCP_ESTABLISHED_def

text \<open>The next answer of a queue; a call that returns only a status answers with its errno or 0.\<close>

definition pop :: "'a \<Rightarrow> 'a list \<Rightarrow> 'a \<times> 'a list" where
  "pop d q = (case q of [] \<Rightarrow> (d, []) | a # q' \<Rightarrow> (a, q'))"

definition sys_status :: "int \<Rightarrow> kernel \<Rightarrow> int \<times> kernel" where
  "sys_status e k = (if e = 0 then (0, k) else (- 1, k\<lparr>k_errno := e\<rparr>))"

definition sys_connect :: "kernel \<Rightarrow> int \<times> kernel" where
  "sys_connect k = (case pop EINPROGRESS (k_connect k) of (e, q) \<Rightarrow> sys_status e (k\<lparr>k_connect := q\<rparr>))"

definition sys_bind :: "kernel \<Rightarrow> int \<times> kernel" where
  "sys_bind k = (case pop 0 (k_bind k) of (e, q) \<Rightarrow> sys_status e (k\<lparr>k_bind := q\<rparr>))"

definition sys_listen :: "kernel \<Rightarrow> int \<times> kernel" where
  "sys_listen k = (case pop 0 (k_listen k) of (e, q) \<Rightarrow> sys_status e (k\<lparr>k_listen := q\<rparr>))"

definition sys_unlink :: "kernel \<Rightarrow> int \<times> kernel" where
  "sys_unlink k = (case pop 0 (k_unlink k) of (e, q) \<Rightarrow> sys_status e (k\<lparr>k_unlink := q\<rparr>))"

definition sys_getfl :: "int \<Rightarrow> kernel \<Rightarrow> int \<times> kernel" where
  "sys_getfl fd k =
     (case pop 0 (k_fcntl k) of (e, q) \<Rightarrow>
        (case sys_status e (k\<lparr>k_fcntl := q\<rparr>) of (r, k) \<Rightarrow> (if r < 0 then r else k_flags k fd, k)))"

definition sys_setfl :: "int \<Rightarrow> int \<Rightarrow> kernel \<Rightarrow> int \<times> kernel" where
  "sys_setfl fd t k =
     (case pop 0 (k_fcntl k) of (e, q) \<Rightarrow>
        (case sys_status e (k\<lparr>k_fcntl := q\<rparr>) of (r, k) \<Rightarrow>
           (r, if r < 0 then k else k\<lparr>k_flags := (k_flags k)(fd := t)\<rparr>)))"

definition sys_setsockopt :: "int \<Rightarrow> int \<Rightarrow> int \<Rightarrow> int \<Rightarrow> kernel \<Rightarrow> int \<times> kernel" where
  "sys_setsockopt fd level optname v k =
     (case pop 0 (k_setsockopt k) of (e, q) \<Rightarrow>
        (case sys_status e (k\<lparr>k_setsockopt := q\<rparr>) of (r, k) \<Rightarrow>
           (r, if r < 0 then k else k\<lparr>k_opts := k_opts k @ [(fd, level, optname, v)]\<rparr>)))"

text \<open>A call with a result of its own: \<open>- 1\<close> and \<open>errno\<close>, or the result.\<close>

definition sys_result :: "int + int \<Rightarrow> kernel \<Rightarrow> int \<times> kernel" where
  "sys_result r k = (case r of Inl e \<Rightarrow> (- 1, k\<lparr>k_errno := e\<rparr>) | Inr n \<Rightarrow> (n, k))"

definition sys_socket :: "int \<Rightarrow> int \<Rightarrow> int \<Rightarrow> kernel \<Rightarrow> int \<times> kernel" where
  "sys_socket domain type protocol k =
     (case pop (Inl EMFILE) (k_socket k) of (r, q) \<Rightarrow>
        (case sys_result r (k\<lparr>k_socket := q\<rparr>) of (fd, k) \<Rightarrow>
           (fd, if fd < 0 then k else k\<lparr>k_kind := (k_kind k)(fd := (domain, type, protocol))\<rparr>)))"

definition sys_accept :: "kernel \<Rightarrow> int \<times> kernel" where
  "sys_accept k = (case pop (Inl EAGAIN) (k_accept k) of (r, q) \<Rightarrow> sys_result r (k\<lparr>k_accept := q\<rparr>))"

definition sys_select :: "kernel \<Rightarrow> (int \<times> bool \<times> bool) \<times> kernel" where
  "sys_select k =
     (case k_select k of
        [] \<Rightarrow> ((0, False, False), k)
      | Inl e # q \<Rightarrow> ((- 1, False, False), k\<lparr>k_select := q, k_errno := e\<rparr>)
      | Inr r # q \<Rightarrow> (r, k\<lparr>k_select := q\<rparr>))"

text \<open>\<open>getsockopt\<close> of an integer option: the status and the value read.\<close>

definition sys_getsockopt :: "kernel \<Rightarrow> (int \<times> int) \<times> kernel" where
  "sys_getsockopt k =
     (case pop (Inr 0) (k_getsockopt k) of
        (Inl e, q) \<Rightarrow> ((- 1, 0), k\<lparr>k_getsockopt := q, k_errno := e\<rparr>)
      | (Inr v, q) \<Rightarrow> ((0, v), k\<lparr>k_getsockopt := q\<rparr>))"

text \<open>\<open>read\<close>: the bytes in the order they were sent, at most as many as asked for; the empty answer is a peer that has
  closed, and stays. A negative number becomes a \<open>size_t\<close> that no buffer can have: Linux answers \<open>EFAULT\<close> and reads
  nothing.\<close>

fun take_chunk :: "(int + string) list \<Rightarrow> int \<Rightarrow> (int + string) \<times> (int + string) list" where
  "take_chunk [] n = (if n = 0 then Inr [] else Inl EAGAIN, [])"
| "take_chunk (Inl e # q) n = (if n = 0 then (Inr [], Inl e # q) else (Inl e, q))"
| "take_chunk (Inr c # q) n =
     (if n = 0 \<or> c = [] then (Inr [], Inr c # q)
      else if int (length c) \<le> n then (Inr c, q)
      else (Inr (take (nat n) c), Inr (drop (nat n) c) # q))"

definition sys_read :: "int \<Rightarrow> int \<Rightarrow> kernel \<Rightarrow> (int \<times> string) \<times> kernel" where
  "sys_read fd count k =
     (if count < 0 then ((- 1, []), k\<lparr>k_errno := EFAULT\<rparr>)
      else case take_chunk (k_read k fd) count of
        (Inl e, q) \<Rightarrow> ((- 1, []), k\<lparr>k_read := (k_read k)(fd := q), k_errno := e\<rparr>)
      | (Inr c, q) \<Rightarrow> ((int (length c), c), k\<lparr>k_read := (k_read k)(fd := q)\<rparr>))"

text \<open>\<open>write\<close>: the kernel takes a prefix of the bytes offered.\<close>

definition sys_write :: "int \<Rightarrow> string \<Rightarrow> kernel \<Rightarrow> int \<times> kernel" where
  "sys_write fd bs k =
     (case pop (Inl EAGAIN) (k_write k fd) of
        (Inl e, q) \<Rightarrow> (- 1, k\<lparr>k_write := (k_write k)(fd := q), k_errno := e\<rparr>)
      | (Inr n, q) \<Rightarrow>
          (int (min n (length bs)),
           k\<lparr>k_write := (k_write k)(fd := q), k_sent := (k_sent k)(fd := k_sent k fd @ take n bs)\<rparr>))"

section \<open>Errors that end a connection\<close>

definition terminal_error :: "int \<Rightarrow> bool" where
  "terminal_error err =
     (if err = EAGAIN \<or> err = ECONNABORTED \<or> err = EPROTO \<or> err = EINTR
         \<or> err = EAGAIN \<or> err = EINPROGRESS
      then False else True)"

definition is_ok :: "int \<Rightarrow> bool" where
  "is_ok fd \<longleftrightarrow> fd \<noteq> INVALID_SOCKET"

text \<open>\<open>THROW(CSocketException, code, "...%s", strerror(errno))\<close>.\<close>

definition throw_errno :: "int \<Rightarrow> string \<Rightarrow> (kernel, 'a) op" where
  "throw_errno code msg k = (Inl (THROW CSocketException code (msg @ k_strerror k (k_errno k))), k)"

definition throw_sock :: "int \<Rightarrow> string \<Rightarrow> (kernel, 'a) op" where
  "throw_sock code msg = throwS (THROW CSocketException code msg)"

text \<open>A system call as an operation.\<close>

definition sysS :: "(kernel \<Rightarrow> 'a \<times> kernel) \<Rightarrow> (kernel, 'a) op" where
  "sysS f k = (case f k of (r, k') \<Rightarrow> (Inr r, k'))"

lemma bindS_sysS [simp]: "bindS (sysS f) g k = (case f k of (r, k') \<Rightarrow> g r k')"
  by (simp add: bindS_def sysS_def split: prod.split)

section \<open>Sockets, options and addresses\<close>

definition create :: "int \<Rightarrow> int \<Rightarrow> int \<Rightarrow> (kernel, int) op" where
  "create domain type protocol =
     bindS (sysS (sys_socket domain type protocol)) (\<lambda>fd.
       if fd < 0 then throw_errno ERR_SOCKET_TERMINAL ''create: '' else returnS fd)"

definition unix_tcp_sock :: "(kernel, int) op" where
  "unix_tcp_sock = create AF_UNIX SOCK_STREAM 0"

definition tcp_sock :: "(kernel, int) op" where
  "tcp_sock = create AF_INET SOCK_STREAM 0"

definition udp_sock :: "(kernel, int) op" where
  "udp_sock = create AF_INET SOCK_DGRAM 0"

text \<open>\<open>close\<close> takes its descriptor by reference: the operation returns what is left in it.\<close>

definition close :: "int \<Rightarrow> (kernel, int) op" where
  "close fd =
     (if fd \<noteq> INVALID_SOCKET
      then seqS (modS (\<lambda>k. k\<lparr>k_closed := k_closed k @ [fd]\<rparr>)) (returnS INVALID_SOCKET)
      else returnS fd)"

definition get_sock_opt :: "int \<Rightarrow> (kernel, int) op" where
  "get_sock_opt fd =
     bindS (sysS sys_getsockopt) (\<lambda>(ret, optval).
       if ret < 0 then throw_errno ERR_SOCKET_TERMINAL ''getsockopt: '' else returnS optval)"

definition set_sock_opt :: "int \<Rightarrow> int \<Rightarrow> int \<Rightarrow> int \<Rightarrow> (kernel, unit) op" where
  "set_sock_opt fd optname optval level =
     bindS (sysS (sys_setsockopt fd level optname optval)) (\<lambda>ret.
       if ret < 0 then throw_errno ERR_SOCKET_TERMINAL ''setsockopt: '' else returnS ())"

definition set_nonblock :: "int \<Rightarrow> bool \<Rightarrow> (kernel, unit) op" where
  "set_nonblock fd flag =
     bindS (sysS (sys_getfl fd)) (\<lambda>t.
       if t < 0 then throw_errno ERR_SOCKET_TERMINAL ''fcntl error: ''
       else bindS (sysS (sys_setfl fd (if flag then t OR O_NONBLOCK else t AND NOT O_NONBLOCK)))
              (\<lambda>_. returnS ()))"

definition set_keep_alive :: "int \<Rightarrow> int \<Rightarrow> int \<Rightarrow> int \<Rightarrow> int \<Rightarrow> (kernel, unit) op" where
  "set_keep_alive fd keep_alive keep_idle keep_interval keep_count =
     seqS (set_sock_opt fd SO_KEEPALIVE keep_alive SOL_SOCKET)
    (seqS (set_sock_opt fd TCP_KEEPIDLE keep_idle SOL_TCP)
    (seqS (set_sock_opt fd TCP_KEEPINTVL keep_interval SOL_TCP)
          (set_sock_opt fd TCP_KEEPCNT keep_count SOL_TCP)))"

definition set_reuser_addr :: "int \<Rightarrow> (kernel, unit) op" where
  "set_reuser_addr fd = set_sock_opt fd SO_REUSEADDR 1 SOL_SOCKET"

definition check_tcp_established :: "int \<Rightarrow> kernel \<Rightarrow> bool" where
  "check_tcp_established fd k =
     (if fd = INVALID_SOCKET then False else k_tcp_state k fd = TCP_ESTABLISHED)"

text \<open>\<open>check_tcp_ok\<close> has no test of the descriptor: \<open>k_tcp_state\<close> answers for \<open>- 1\<close> as well,
  where \<open>getsockopt\<close> fails and the structure keeps what the stack held.\<close>

definition check_tcp_ok :: "int \<Rightarrow> kernel \<Rightarrow> bool" where
  "check_tcp_ok fd k = (if k_tcp_state k fd \<noteq> TCP_ESTABLISHED then False else True)"

text \<open>\<open>parse_host\<close>: the text before the colon without blanks around it, and the number after.\<close>

definition parse_host :: "string \<Rightarrow> (kernel, string \<times> int) op" where
  "parse_host address =
     (let p = dropWhile isspace address;
          ip = takeWhile (\<lambda>c. c \<noteq> CHR '':'') p
      in if CHR '':'' \<notin> set p then throw_sock ERR_SOCKET_TERMINAL (''address error: '' @ address)
         else
           let space_len = length (takeWhile isspace (rev (tl ip)))
           in returnS (take (length ip - space_len) ip, atoi (drop (length ip + 1) p)))"

text \<open>The four low bytes of the word, lowest first.\<close>

definition hexIP_to_normal :: "int \<Rightarrow> string" where
  "hexIP_to_normal hex_ip =
     show_nat (of_char (byte_of 0 hex_ip)) @ ''.'' @ show_nat (of_char (byte_of 1 hex_ip)) @ ''.'' @
     show_nat (of_char (byte_of 2 hex_ip)) @ ''.'' @ show_nat (of_char (byte_of 3 hex_ip))"

section \<open>Servers: bind, listen, accept\<close>

definition sizeof_sun_path :: nat where
  "sizeof_sun_path = 108"

definition unix_bind :: "int \<Rightarrow> string \<Rightarrow> (kernel, unit) op" where
  "unix_bind fd address =
     (if length address \<ge> sizeof_sun_path
      then throw_sock ERR_SOCKET_TERMINAL (''unix_bind address: '' @ address @ '' too long'')
      else
        bindS (sysS sys_unlink) (\<lambda>ret k.
          if ret \<noteq> 0 \<and> k_errno k \<noteq> ENOENT
          then throw_errno ERR_SOCKET_TERMINAL (''unix_bind unlink '' @ address @ '': '') k
          else bindS (sysS sys_bind) (\<lambda>ret.
                 if ret < 0
                 then throw_errno ERR_SOCKET_TERMINAL (''unix_bind: '' @ address @ '', error: '')
                 else returnS ()) k))"

definition newline :: string where "newline = [CHR 0x0A]"

definition net_bind_ip :: "int \<Rightarrow> string \<Rightarrow> int \<Rightarrow> (kernel, unit) op" where
  "net_bind_ip fd ip port k =
     (case k_addrinfo k ip (show_int port) of
        Inl err \<Rightarrow> throw_sock ERR_SOCKET_TERMINAL
                      (''getaddrinfo error: '' @ k_gai_strerror k err @ newline) k
      | Inr addr \<Rightarrow>
          seqS (set_reuser_addr fd) (bindS (sysS sys_bind) (\<lambda>ret.
            if ret < 0
            then throw_errno ERR_SOCKET_TERMINAL
                   (''net_bind '' @ ip @ '':'' @ show_int port @ '' error: '')
            else returnS ())) k)"

definition net_bind :: "int \<Rightarrow> string \<Rightarrow> (kernel, unit) op" where
  "net_bind fd address = bindS (parse_host address) (\<lambda>(ip, port). net_bind_ip fd ip port)"

definition listen :: "int \<Rightarrow> int \<Rightarrow> (kernel, unit) op" where
  "listen fd backlog =
     bindS (sysS sys_listen) (\<lambda>ret.
       if ret < 0 then throw_errno ERR_SOCKET_TERMINAL ''listen error: '' else returnS ())"

definition nonblock_listen :: "int \<Rightarrow> int \<Rightarrow> (kernel, unit) op" where
  "nonblock_listen fd backlog = seqS (set_nonblock fd True) (listen fd backlog)"

definition accept :: "int \<Rightarrow> (kernel, int) op" where
  "accept fd =
     bindS (sysS sys_accept) (\<lambda>client_fd k.
       if client_fd < 0 then
         if terminal_error (k_errno k)
         then throw_errno ERR_SOCKET_TERMINAL (''accept error '' @ show_int (k_errno k) @ '': '') k
         else returnS (- 1) k
       else returnS client_fd k)"

section \<open>Clients: connect\<close>

definition throw_connect :: "string \<Rightarrow> (kernel, 'a) op" where
  "throw_connect msg k =
     (if k_errno k = ECONNREFUSED \<or> k_errno k = ENOENT
      then throw_errno ERR_SOCKET_CONN_REFUSED msg k
      else throw_errno ERR_SOCKET_TERMINAL msg k)"

definition unix_connect :: "int \<Rightarrow> string \<Rightarrow> (kernel, unit) op" where
  "unix_connect fd dst_address =
     (if \<not> is_ok fd then throw_sock ERR_SOCKET_TERMINAL ''unix_connect error: INVALID_SOCKET''
      else if length dst_address \<ge> sizeof_sun_path
      then throw_sock ERR_SOCKET_TERMINAL (''unix_connect address too long: '' @ dst_address)
      else bindS (sysS sys_connect) (\<lambda>ret.
             if ret \<noteq> 0 then throw_connect ''asyn_connect error: '' else returnS ()))"

definition asyn_connect :: "int \<Rightarrow> int \<Rightarrow> (kernel, unit) op" where
  "asyn_connect fd time_out =
     bindS (sysS (sys_getfl fd)) (\<lambda>back_stat.
       if back_stat < 0 then throw_errno ERR_SOCKET_TERMINAL ''fcntl error: ''
       else
         seqS (set_nonblock fd True)
        (seqS
           (bindS (sysS sys_connect) (\<lambda>ret k.
              if ret < 0 then
                if k_errno k = EINPROGRESS \<or> k_errno k = EAGAIN then
                  bindS (sysS sys_select) (\<lambda>(num, rset, wset).
                    if num = 0
                    then throw_sock ERR_SOCKET_TIME_OUT (''asyn_connect time out: '' @ show_int time_out)
                    else if num < 0 then throw_errno ERR_SOCKET_TERMINAL ''connect error: ''
                    else if \<not> rset \<and> \<not> wset
                    then throw_sock ERR_SOCKET_TERMINAL ''asyn_connect error: FD_ISSET''
                    else bindS (get_sock_opt fd) (\<lambda>socket_ret.
                      if socket_ret \<noteq> 0
                      then throw_errno ERR_SOCKET_TERMINAL
                             (''connect error socket_ret '' @ show_int socket_ret @ '', '')
                      else returnS ())) k
                else throw_connect ''asyn_connect error: '' k
              else returnS () k))
        (bindS (sysS (sys_setfl fd back_stat)) (\<lambda>_. returnS ()))))"

text \<open>The two address look-ups of \<open>net_connect\<close> and \<open>nonblock_connect\<close>.\<close>

definition net_connect_ip :: "int \<Rightarrow> string \<Rightarrow> int \<Rightarrow> int \<Rightarrow> (kernel, unit) op" where
  "net_connect_ip fd ip port time_out k =
     (case k_addrinfo k ip (show_int port) of
        Inl err \<Rightarrow> throw_sock ERR_SOCKET_TERMINAL
                      (''net_connect getaddrinfo error: '' @ k_gai_strerror k err @ newline) k
      | Inr addr \<Rightarrow> asyn_connect fd time_out k)"

definition net_connect :: "int \<Rightarrow> string \<Rightarrow> int \<Rightarrow> (kernel, unit) op" where
  "net_connect fd dst_address time_out =
     bindS (parse_host dst_address) (\<lambda>(ip, port). net_connect_ip fd ip port time_out)"

definition nonblock_connect_addr :: "int \<Rightarrow> (kernel, unit) op" where
  "nonblock_connect_addr fd =
     bindS (sysS sys_connect) (\<lambda>ret k.
       if ret < 0 \<and> terminal_error (k_errno k)
       then throw_errno ERR_SOCKET_TERMINAL (''connect error '' @ show_int (k_errno k) @ '': '') k
       else returnS () k)"

definition nonblock_connect :: "int \<Rightarrow> string \<Rightarrow> int \<Rightarrow> (kernel, unit) op" where
  "nonblock_connect fd ip port k =
     (case k_addrinfo k ip (show_int port) of
        Inl err \<Rightarrow> throw_sock ERR_SOCKET_TERMINAL
                      (''net_connect getaddrinfo error: '' @ k_gai_strerror k err @ newline) k
      | Inr addr \<Rightarrow> nonblock_connect_addr fd k)"

definition check_connect_status :: "int \<Rightarrow> (kernel, unit) op" where
  "check_connect_status fd =
     bindS (get_sock_opt fd) (\<lambda>socket_ret.
       if socket_ret \<noteq> 0
       then throw_errno ERR_SOCKET_TERMINAL (''connect error socket_ret '' @ show_int socket_ret @ '', '')
       else returnS ())"

section \<open>Reading and writing\<close>

definition sock_read :: "int \<Rightarrow> int \<Rightarrow> (kernel, int \<times> string) op" where
  "sock_read fd count =
     (if \<not> is_ok fd then throw_sock ERR_IPC_ERROR ''read error: invalid socket''
      else bindS (sysS (sys_read fd count)) (\<lambda>(n, bs) k.
        if n = 0 then throw_sock ERR_SOCKET_RECV_CLOSE (''recv close fd: '' @ show_int fd) k
        else if n < 0 \<and> terminal_error (k_errno k) then throw_errno ERR_IPC_ERROR ''read: '' k
        else returnS (n, bs) k))"

definition sock_write :: "int \<Rightarrow> string \<Rightarrow> (kernel, int) op" where
  "sock_write fd buf =
     (if \<not> is_ok fd then throw_sock ERR_IPC_ERROR ''write error: invalid socket''
      else bindS (sysS (sys_write fd buf)) (\<lambda>n k.
        if n < 0 \<and> terminal_error (k_errno k)
        then throw_errno ERR_IPC_ERROR (''write '' @ show_int fd @ '': '') k
        else returnS n k))"

text \<open>The wait before each step of \<open>read_all\<close> and \<open>write_all\<close>.\<close>

definition wait_ready :: "int \<Rightarrow> (kernel, unit) op" where
  "wait_ready time_out =
     bindS (sysS sys_select) (\<lambda>(n, _, _) k.
       if n = 0 then throw_sock ERR_SOCKET_TIME_OUT (''read time out: '' @ show_int time_out) k
       else if n < 0 \<and> terminal_error (k_errno k)
       then throw_errno ERR_SOCKET_TERMINAL ''select error: '' k
       else returnS () k)"

lemma k_select_sys_select: "k_select (snd (sys_select k)) = tl (k_select k)"
  by (simp add: sys_select_def split: list.split sum.split)

lemma k_select_wait_ready: "wait_ready t k = (Inr u, k') \<Longrightarrow> length (k_select k') < length (k_select k)"
  using k_select_sys_select [of k]
  by (cases "k_select k")
    (auto simp: wait_ready_def throw_sock_def throw_errno_def sys_select_def
      split: prod.splits if_splits sum.splits)

lemma k_select_read: "sock_read fd n k = (r, k') \<Longrightarrow> k_select k' = k_select k"
  by (auto simp: sock_read_def throw_sock_def throw_errno_def sys_read_def
      split: prod.splits if_splits sum.splits)

lemma k_select_write: "sock_write fd bs k = (r, k') \<Longrightarrow> k_select k' = k_select k"
  by (auto simp: sock_write_def throw_sock_def throw_errno_def sys_write_def
      split: prod.splits if_splits sum.splits)

text \<open>The loop of \<open>read_all\<close>: \<open>buf\<close> is the caller's array of \<open>cap\<close> bytes. A read that would
  block returns \<open>- 1\<close>, which the loop adds to its total like a count. Each round needs an
  answer of \<open>select\<close>, so the loop ends.\<close>

function read_all_loop ::
  "int \<Rightarrow> int \<Rightarrow> int \<Rightarrow> int \<Rightarrow> string \<Rightarrow> int \<Rightarrow> kernel \<Rightarrow> (fault + int \<times> string) \<times> kernel" where
  "read_all_loop fd read_count time_out cap buf total_read k =
     (case wait_ready time_out k of
        (Inl e, k1) \<Rightarrow> (Inl e, k1)
      | (Inr _, k1) \<Rightarrow>
          (case sock_read fd (read_count - total_read) k1 of
             (Inl e, k2) \<Rightarrow> (Inl e, k2)
           | (Inr (this_read, bs), k2) \<Rightarrow>
               if bs \<noteq> [] \<and> (total_read < 0 \<or> total_read + int (length bs) > cap)
               then (Inl MemoryFault, k2)
               else
                 let buf = (if bs = [] then buf else write_at buf (nat total_read) bs);
                     total_read = total_read + this_read
                 in if total_read < read_count
                    then read_all_loop fd read_count time_out cap buf total_read k2
                    else (Inr (total_read, buf), k2)))"
  by pat_completeness auto
termination
  by (relation "measure (\<lambda>(fd, n, t, cap, buf, tot, k). length (k_select k))")
    (auto dest!: k_select_wait_ready [OF sym] k_select_read [OF sym])

declare read_all_loop.simps [simp del]

definition read_all :: "int \<Rightarrow> string \<Rightarrow> int \<Rightarrow> int \<Rightarrow> int \<Rightarrow> (kernel, int \<times> string) op" where
  "read_all fd buffer cap count time_out =
     (if \<not> is_ok fd then throw_sock ERR_IPC_ERROR ''read error: invalid socket''
      else bindS (read_all_loop fd count time_out cap buffer 0) (\<lambda>(total_read, buf).
        if total_read \<noteq> count
        then throw_sock ERR_SOCKET_TERMINAL
               (''read errror, total: '' @ show_int total_read @ '' != expect: '' @ show_int count)
        else returnS (total_read, buf)))"

definition read_relay_packet :: "int \<Rightarrow> string \<Rightarrow> int \<Rightarrow> int \<Rightarrow> (kernel, int \<times> string) op" where
  "read_relay_packet fd buffer len time_out =
     bindS (read_all fd [] 4 4 time_out) (\<lambda>(_, hd).
       let packet_len = get_int hd
       in if packet_len > len
          then throw_sock ERR_SYS_UNKNOWN
                 (''too big packet length:'' @ show_int packet_len @ '', recv buffer length:''
                   @ show_int len)
          else read_all fd buffer len packet_len time_out)"

function write_all_loop ::
  "int \<Rightarrow> string \<Rightarrow> int \<Rightarrow> int \<Rightarrow> int \<Rightarrow> kernel \<Rightarrow> (fault + int) \<times> kernel" where
  "write_all_loop fd buffer write_count time_out total_write k =
     (case wait_ready time_out k of
        (Inl e, k1) \<Rightarrow> (Inl e, k1)
      | (Inr _, k1) \<Rightarrow>
          if total_write < 0 \<or> write_count < total_write then (Inl MemoryFault, k1)
          else
            (case sock_write fd (read_at buffer (nat total_write) (nat (write_count - total_write))) k1 of
               (Inl e, k2) \<Rightarrow> (Inl e, k2)
             | (Inr this_write, k2) \<Rightarrow>
                 let total_write = total_write + this_write
                 in if total_write < write_count
                    then write_all_loop fd buffer write_count time_out total_write k2
                    else (Inr total_write, k2)))"
  by pat_completeness auto
termination
  by (relation "measure (\<lambda>(fd, b, n, t, tot, k). length (k_select k))")
    (auto dest!: k_select_wait_ready [OF sym] k_select_write [OF sym])

declare write_all_loop.simps [simp del]

definition write_all :: "int \<Rightarrow> string \<Rightarrow> int \<Rightarrow> int \<Rightarrow> (kernel, int) op" where
  "write_all fd buffer count time_out =
     (if \<not> is_ok fd then throw_sock ERR_IPC_ERROR ''read error: invalid socket''
      else bindS (write_all_loop fd buffer count time_out 0) (\<lambda>total_write.
        if total_write \<noteq> count
        then throw_sock ERR_SOCKET_TERMINAL
               (''write errror, total: '' @ show_int total_write @ '' != expect: '' @ show_int count)
        else returnS total_write))"

definition write_relay_packet :: "int \<Rightarrow> string \<Rightarrow> int \<Rightarrow> int \<Rightarrow> (kernel, int) op" where
  "write_relay_packet fd buffer len time_out =
     bindS (write_all fd (put_int len) 4 time_out) (\<lambda>_. write_all fd buffer len time_out)"

section \<open>What the calls can raise\<close>

lemma no_mem_throws [no_mem_intros]:
  "no_mem (throw_errno c m)" "no_mem (throw_sock c m)" "no_mem (throw_connect m)"
  by (simp_all add: no_mem_def throw_errno_def throw_sock_def throw_connect_def)

lemma no_mem_sysS [no_mem_intros]: "no_mem (sysS f)"
  by (simp add: no_mem_def sysS_def split: prod.splits)

lemma no_mem_set_sock_opt [no_mem_intros]: "no_mem (set_sock_opt fd n v l)"
  unfolding set_sock_opt_def by (intro no_mem_intros)

lemma no_mem_connect [no_mem_intros]:
  "no_mem tcp_sock" "no_mem (set_nonblock fd b)" "no_mem (set_keep_alive fd a i v c)"
  "no_mem (check_connect_status fd)" "no_mem (close fd)"
  unfolding tcp_sock_def create_def set_nonblock_def set_keep_alive_def check_connect_status_def
    get_sock_opt_def close_def
  by (intro no_mem_intros)+

lemma no_mem_nonblock_connect [no_mem_intros]: "no_mem (nonblock_connect fd ip port)"
proof -
  have "no_mem (nonblock_connect_addr fd)"
    unfolding nonblock_connect_addr_def
    by (intro no_mem_intros) (auto simp: no_mem_def throw_errno_def)
  then show ?thesis
    by (simp add: nonblock_connect_def no_mem_def throw_sock_def split: sum.splits)
qed

lemma tcp_sock_ok: "tcp_sock k = (Inr fd, k') \<Longrightarrow> is_ok fd"
  by (auto simp: tcp_sock_def create_def throw_errno_def is_ok_def INVALID_SOCKET_def
      split: prod.splits if_splits)

section \<open>Streams\<close>

text \<open>The bytes a peer sends, whatever the pieces they arrive in; the answers that are only data.\<close>

definition stream :: "(int + string) list \<Rightarrow> string" where
  "stream q = concat (map (case_sum (\<lambda>_. []) id) q)"

definition data_only :: "(int + string) list \<Rightarrow> bool" where
  "data_only q \<longleftrightarrow> (\<forall>a \<in> set q. \<exists>c. a = Inr c \<and> c \<noteq> [])"

lemma stream_simps [simp]:
  "stream [] = []" "stream (Inl e # q) = stream q" "stream (Inr c # q) = c @ stream q"
  by (simp_all add: stream_def)

lemma data_only_simps [simp]:
  "data_only []" "\<not> data_only (Inl e # q)" "data_only (Inr c # q) \<longleftrightarrow> c \<noteq> [] \<and> data_only q"
  by (auto simp: data_only_def)

text \<open>A read loses no byte and changes no order.\<close>

lemma take_chunk_Inr: "take_chunk q n = (Inr c, q') \<Longrightarrow> stream q = c @ stream q'"
  by (induction q n rule: take_chunk.induct) (auto split: if_splits)

lemma take_chunk_Inl: "take_chunk q n = (Inl e, q') \<Longrightarrow> stream q' = stream q"
  by (induction q n rule: take_chunk.induct) (auto split: if_splits)

lemma take_chunk_le: "take_chunk q n = (Inr c, q') \<Longrightarrow> 0 \<le> n \<Longrightarrow> int (length c) \<le> n"
  by (induction q n rule: take_chunk.induct) (auto split: if_splits)

lemma take_chunk_data:
  "data_only q \<Longrightarrow> stream q \<noteq> [] \<Longrightarrow> 0 < n \<Longrightarrow> \<exists>c q'. take_chunk q n = (Inr c, q') \<and> c \<noteq> [] \<and> data_only q'"
  by (induction q n rule: take_chunk.induct) auto

lemma sock_read_cases:
  assumes "sock_read fd n k = (r, k')"
  shows "\<exists>c. stream (k_read k fd) = c @ stream (k_read k' fd) \<and> k_sent k' = k_sent k
    \<and> (\<forall>fd'. fd' \<noteq> fd \<longrightarrow> k_read k' fd' = k_read k fd')
    \<and> (case r of Inl e \<Rightarrow> c = [] | Inr (m, bs) \<Rightarrow>
         bs = c \<and> (if c = [] then m = - 1 else m = int (length c)) \<and> (0 \<le> n \<longrightarrow> int (length c) \<le> n))"
proof (cases "n < 0")
  case True
  then show ?thesis
    using assms by (auto simp: sock_read_def sys_read_def throw_sock_def throw_errno_def split: if_splits)
next
  case False
  note pos = False
  show ?thesis
  proof (cases "take_chunk (k_read k fd) n")
    case (Pair a q)
    then show ?thesis
    proof (cases a)
      case (Inl e)
      then show ?thesis
        using assms pos Pair take_chunk_Inl [of "k_read k fd" n e q]
        by (auto simp: sock_read_def sys_read_def throw_sock_def throw_errno_def split: if_splits)
    next
      case (Inr c)
      then have "stream (k_read k fd) = c @ stream q" "0 \<le> n \<longrightarrow> int (length c) \<le> n"
        using Pair take_chunk_Inr take_chunk_le by auto
      then show ?thesis
        using assms pos Pair Inr
        by (intro exI [of _ "if is_ok fd then c else []"])
          (auto simp: sock_read_def sys_read_def throw_sock_def throw_errno_def split: if_splits)
    qed
  qed
qed

lemma sock_read_size:
  assumes "sock_read fd n k = (r, k')"
  shows "r \<noteq> Inl MemoryFault \<and> (\<forall>m bs. r = Inr (m, bs) \<longrightarrow> m = (if bs = [] then - 1 else int (length bs)))"
  using assms
  by (auto simp: sock_read_def sys_read_def throw_sock_def throw_errno_def split: prod.splits sum.splits if_splits)

lemma sock_read_data:
  assumes "is_ok fd" and "data_only (k_read k fd)" and "stream (k_read k fd) \<noteq> []" and "0 < n"
  shows "\<exists>c k'. sock_read fd n k = (Inr (int (length c), c), k') \<and> c \<noteq> []
    \<and> data_only (k_read k' fd) \<and> stream (k_read k fd) = c @ stream (k_read k' fd)
    \<and> (0 \<le> n \<longrightarrow> int (length c) \<le> n) \<and> k_select k' = k_select k"
proof -
  obtain c q where c: "take_chunk (k_read k fd) n = (Inr c, q)" "c \<noteq> []" "data_only q"
    using take_chunk_data assms by blast
  then show ?thesis
    using assms(1,4) take_chunk_Inr [OF c(1)] take_chunk_le [OF c(1)]
    by (auto simp: sock_read_def sys_read_def)
qed

text \<open>A descriptor that \<open>select\<close> reports ready at least \<open>m\<close> times.\<close>

definition ready_for :: "nat \<Rightarrow> kernel \<Rightarrow> bool" where
  "ready_for m k \<longleftrightarrow> m \<le> length (k_select k) \<and> (\<forall>a \<in> set (take m (k_select k)). \<exists>n r w. a = Inr (n, r, w) \<and> n > 0)"

lemma wait_ready_ok:
  assumes "ready_for (Suc m) k"
  shows "\<exists>k'. wait_ready t k = (Inr (), k') \<and> ready_for m k' \<and> k_read k' = k_read k
    \<and> k_write k' = k_write k \<and> k_sent k' = k_sent k"
proof -
  obtain n r w q where q: "k_select k = Inr (n, r, w) # q" "n > 0"
    using assms by (cases "k_select k") (auto simp: ready_for_def)
  then show ?thesis
    using assms by (auto simp: wait_ready_def sys_select_def ready_for_def)
qed

lemma ready_for_mono: "ready_for m k \<Longrightarrow> m' \<le> m \<Longrightarrow> ready_for m' k"
  unfolding ready_for_def by (meson order_trans set_take_subset_set_take subsetD)

lemma ready_for_cong: "k_select k' = k_select k \<Longrightarrow> ready_for m k' = ready_for m k"
  by (simp add: ready_for_def)

text \<open>\<open>read_all\<close> puts together any pieces.\<close>

lemma read_all_loop_ok:
  assumes "is_ok fd" and "data_only (k_read k fd)" and "tot < cnt"
    and "cnt - tot \<le> length (stream (k_read k fd))" and "int cnt \<le> cap"
    and "ready_for (cnt - tot + m) k"
  shows "\<exists>k'. read_all_loop fd (int cnt) t cap buf (int tot) k
       = (Inr (int cnt, write_at buf tot (take (cnt - tot) (stream (k_read k fd)))), k')
     \<and> data_only (k_read k' fd) \<and> stream (k_read k' fd) = drop (cnt - tot) (stream (k_read k fd))
     \<and> ready_for m k'"
  using assms
proof (induction "cnt - tot" arbitrary: tot buf k rule: less_induct)
  case less
  obtain d where d: "cnt - tot = Suc d" using less.prems(3) by (metis Suc_diff_Suc)
  obtain k1 where k1: "wait_ready t k = (Inr (), k1)" "ready_for (d + m) k1" "k_read k1 = k_read k"
    using wait_ready_ok [of "d + m" k t] less.prems(6) d by auto
  have "is_ok fd" "data_only (k_read k1 fd)" "stream (k_read k1 fd) \<noteq> []" "int cnt - int tot \<noteq> 0"
    using less.prems k1 d by auto
  then obtain c k2 where k2: "sock_read fd (int cnt - int tot) k1 = (Inr (int (length c), c), k2)"
    "c \<noteq> []" "data_only (k_read k2 fd)" "stream (k_read k fd) = c @ stream (k_read k2 fd)"
    "int (length c) \<le> int cnt - int tot" "k_select k2 = k_select k1"
    using sock_read_data [of fd k1 "int cnt - int tot"] k1(3) less.prems(3) by auto
  have lc: "length c \<le> cnt - tot" using k2(5) less.prems(3) by linarith
  have eq: "read_all_loop fd (int cnt) t cap buf (int tot) k =
     (if tot + length c < cnt
      then read_all_loop fd (int cnt) t cap (write_at buf tot c) (int (tot + length c)) k2
      else (Inr (int (tot + length c), write_at buf tot c), k2))"
    using k1(1) k2 lc less.prems(3,5) by (subst read_all_loop.simps) (auto simp: Let_def)
  show ?case
  proof (cases "tot + length c < cnt")
    case True
    have "cnt - (tot + length c) + m \<le> d + m" using k2(2) d by (cases c) auto
    then have r: "ready_for (cnt - (tot + length c) + m) k2"
      using k1(2) ready_for_mono ready_for_cong [OF k2(6)] by blast
    have "\<exists>k'. read_all_loop fd (int cnt) t cap (write_at buf tot c) (int (tot + length c)) k2
       = (Inr (int cnt, write_at (write_at buf tot c) (tot + length c)
            (take (cnt - (tot + length c)) (stream (k_read k2 fd)))), k')
     \<and> data_only (k_read k' fd)
     \<and> stream (k_read k' fd) = drop (cnt - (tot + length c)) (stream (k_read k2 fd)) \<and> ready_for m k'"
      using less.hyps [of "tot + length c" k2] k2 less.prems True r by (cases c) auto
    then show ?thesis
      using eq True k2(4) lc by (auto simp: write_at_append)
  next
    case False
    then have "cnt = tot + length c" using lc less.prems(3) by linarith
    moreover have "ready_for m k2"
      using k1(2) k2(6) ready_for_mono [of "d + m" k1 m] by (simp add: ready_for_def)
    ultimately show ?thesis using eq k2 by auto
  qed
qed

text \<open>A peer that takes at least one byte at each of the next \<open>m\<close> writes.\<close>

definition takes_for :: "nat \<Rightarrow> (int + nat) list \<Rightarrow> bool" where
  "takes_for m q \<longleftrightarrow> m \<le> length q \<and> (\<forall>a \<in> set (take m q). \<exists>n. a = Inr n \<and> n > 0)"

lemma takes_for_mono: "takes_for m q \<Longrightarrow> m' \<le> m \<Longrightarrow> takes_for m' q"
  unfolding takes_for_def by (meson order_trans set_take_subset_set_take subsetD)

lemma sock_write_ok:
  assumes "is_ok fd" and "takes_for (Suc m) (k_write k fd)" and "bs \<noteq> []"
  shows "\<exists>n k'. sock_write fd bs k = (Inr (int n), k') \<and> 0 < n \<and> n \<le> length bs
    \<and> takes_for m (k_write k' fd) \<and> k_sent k' fd = k_sent k fd @ take n bs \<and> k_select k' = k_select k"
proof -
  obtain n q where q: "k_write k fd = Inr n # q" "n > 0"
    using assms(2) by (cases "k_write k fd") (auto simp: takes_for_def)
  have "sock_write fd bs k = (Inr (int (min n (length bs))),
     k\<lparr>k_write := (k_write k)(fd := q), k_sent := (k_sent k)(fd := k_sent k fd @ take n bs)\<rparr>)"
    using q assms(1,3) by (auto simp: sock_write_def sys_write_def pop_def)
  then show ?thesis
    using assms q
    by (intro exI [of _ "min n (length bs)"]) (auto simp: takes_for_def min_def)
qed

lemma write_all_loop_ok:
  assumes "is_ok fd" and "tot < cnt" and "ready_for (cnt - tot + m) k"
    and "takes_for (cnt - tot + m) (k_write k fd)"
  shows "\<exists>k'. write_all_loop fd buffer (int cnt) t (int tot) k = (Inr (int cnt), k')
     \<and> k_sent k' fd = k_sent k fd @ read_at buffer tot (cnt - tot)
     \<and> ready_for m k' \<and> takes_for m (k_write k' fd)"
  using assms
proof (induction "cnt - tot" arbitrary: tot k rule: less_induct)
  case less
  obtain d where d: "cnt - tot = Suc d" using less.prems(2) by (metis Suc_diff_Suc)
  obtain k1 where k1: "wait_ready t k = (Inr (), k1)" "ready_for (d + m) k1"
    "k_write k1 = k_write k" "k_sent k1 = k_sent k"
    using wait_ready_ok [of "d + m" k t] less.prems(3) d by auto
  define bs where "bs = read_at buffer tot (cnt - tot)"
  have bs: "bs \<noteq> []" "length bs = cnt - tot"
    using d by (auto simp: bs_def simp flip: length_greater_0_conv)
  obtain n k2 where k2: "sock_write fd bs k1 = (Inr (int n), k2)" "0 < n" "n \<le> cnt - tot"
    "takes_for (d + m) (k_write k2 fd)" "k_sent k2 fd = k_sent k fd @ take n bs" "k_select k2 = k_select k1"
    using sock_write_ok [of fd "d + m" k1 bs] less.prems(1,4) k1(3,4) d bs by auto
  have le: "cnt - (tot + n) + m \<le> d + m" using k2(2) d by auto
  have eq: "write_all_loop fd buffer (int cnt) t (int tot) k =
     (if tot + n < cnt then write_all_loop fd buffer (int cnt) t (int (tot + n)) k2
      else (Inr (int (tot + n)), k2))"
    using k1(1) k2(1) less.prems(2)
    by (subst write_all_loop.simps) (auto simp: Let_def bs_def nat_diff_distrib')
  have part: "take n bs @ read_at buffer (tot + n) (cnt - (tot + n)) = bs"
  proof -
    have "n + (cnt - (tot + n)) = cnt - tot" using k2(3) by simp
    then show ?thesis
      using read_at_split [of buffer tot n "cnt - (tot + n)"] k2(3) by (simp add: bs_def take_read_at)
  qed
  show ?case
  proof (cases "tot + n < cnt")
    case True
    have "\<exists>k'. write_all_loop fd buffer (int cnt) t (int (tot + n)) k2 = (Inr (int cnt), k')
       \<and> k_sent k' fd = k_sent k2 fd @ read_at buffer (tot + n) (cnt - (tot + n))
       \<and> ready_for m k' \<and> takes_for m (k_write k' fd)"
      using k1(2) k2 le True less.prems(1) ready_for_mono ready_for_cong [OF k2(6)] takes_for_mono
      by (intro less.hyps) auto
    then show ?thesis using eq True k2(5) part by (auto simp: bs_def)
  next
    case False
    then have "cnt = tot + n" using k2(3) less.prems(2) by linarith
    moreover have "ready_for m k2" "takes_for m (k_write k2 fd)"
      using k1(2) k2(4) ready_for_mono ready_for_cong [OF k2(6)] takes_for_mono le_add2 by blast+
    ultimately show ?thesis using eq k2(5) part by (auto simp: bs_def)
  qed
qed

text \<open>Both halves of the relay packet: four bytes of length, then the payload.\<close>

lemma read_all_ok:
  assumes "is_ok fd" and "data_only (k_read k fd)" and "0 < cnt"
    and "cnt \<le> length (stream (k_read k fd))" and "int cnt \<le> cap" and "ready_for (cnt + m) k"
  shows "\<exists>k'. read_all fd buf cap (int cnt) t k
       = (Inr (int cnt, write_at buf 0 (take cnt (stream (k_read k fd)))), k')
     \<and> data_only (k_read k' fd) \<and> stream (k_read k' fd) = drop cnt (stream (k_read k fd))
     \<and> ready_for m k'"
  using assms read_all_loop_ok [of fd k 0 cnt cap m t buf]
  by (auto simp: read_all_def bindS_def)

lemma write_all_ok:
  assumes "is_ok fd" and "0 < cnt" and "ready_for (cnt + m) k" and "takes_for (cnt + m) (k_write k fd)"
  shows "\<exists>k'. write_all fd buffer (int cnt) t k = (Inr (int cnt), k')
     \<and> k_sent k' fd = k_sent k fd @ read_at buffer 0 cnt
     \<and> ready_for m k' \<and> takes_for m (k_write k' fd)"
  using assms write_all_loop_ok [of fd 0 cnt m k buffer t]
  by (auto simp: write_all_def bindS_def)

lemma write_relay_packet_ok:
  assumes "is_ok fd" and "0 < n" and "ready_for (4 + n) k" and "takes_for (4 + n) (k_write k fd)"
  shows "\<exists>k'. write_relay_packet fd buffer (int n) t k = (Inr (int n), k')
     \<and> k_sent k' fd = k_sent k fd @ put_int (int n) @ read_at buffer 0 n"
proof -
  obtain k1 where k1: "write_all fd (put_int (int n)) 4 t k = (Inr 4, k1)"
    "k_sent k1 fd = k_sent k fd @ put_int (int n)" "ready_for n k1" "takes_for n (k_write k1 fd)"
    using write_all_ok [of fd 4 n k "put_int (int n)" t] assms by (auto simp: read_at_in)
  then show ?thesis
    using write_all_ok [of fd n 0 k1 buffer t] assms
    by (auto simp: write_relay_packet_def bindS_def)
qed

lemma read_relay_packet_ok:
  assumes "is_ok fd" and "data_only (k_read k fd)" and "stream (k_read k fd) = put_int (int n) @ body @ rest"
    and "length body = n" and "0 < n" and "int n \<le> len" and "in_i32 (int n)" and "ready_for (4 + n) k"
  shows "\<exists>k'. read_relay_packet fd buffer len t k = (Inr (int n, write_at buffer 0 body), k')
     \<and> stream (k_read k' fd) = rest"
proof -
  obtain k1 where k1: "read_all fd [] 4 4 t k = (Inr (4, put_int (int n)), k1)" "data_only (k_read k1 fd)"
    "stream (k_read k1 fd) = body @ rest" "ready_for n k1"
    using read_all_ok [of fd k 4 4 n "[]" t] assms by (auto simp: write_at_Nil)
  then show ?thesis
    using read_all_ok [of fd k1 n len 0 buffer t] assms
    by (auto simp: read_relay_packet_def bindS_def
        host.get_put_exact [where r = "[]", simplified])
qed

section \<open>Properties\<close>

text \<open>A kernel with no answers left, for the concrete runs.\<close>

definition kernel0 :: kernel where
  "kernel0 = \<lparr>k_errno = 0, k_strerror = (\<lambda>_. ''error''), k_gai_strerror = (\<lambda>_. ''error''),
     k_addrinfo = (\<lambda>ip port. Inr ip), k_socket = [], k_kind = (\<lambda>_. (0, 0, 0)), k_unlink = [],
     k_bind = [], k_listen = [], k_connect = [], k_accept = [], k_fcntl = [], k_flags = (\<lambda>_. 0),
     k_select = [], k_getsockopt = [], k_setsockopt = [], k_opts = [], k_tcp_state = (\<lambda>_. 1),
     k_read = (\<lambda>_. []), k_write = (\<lambda>_. []), k_sent = (\<lambda>_. []), k_closed = []\<rparr>"

text \<open>C27: the relay framing is faithful over any transport: \<open>write_relay_packet\<close> succeeds on a peer
  that takes bytes and sends four bytes of length and the payload, in whatever portions it
  is let; and \<open>read_relay_packet\<close>, given these bytes cut into any pieces and followed by
  anything, succeeds, returns the payload and leaves what follows unread.\<close>

theorem relay_packet_roundtrip:
  assumes "is_ok fdw" and "is_ok fdr" and "0 < n" and "in_i32 (int n)" and "int n \<le> cap"
    and "ready_for (4 + n) kw" and "takes_for (4 + n) (k_write kw fdw)"
  shows "\<exists>kw'. write_relay_packet fdw msg (int n) t kw = (Inr (int n), kw')
    \<and> (\<forall>kr rest. data_only (k_read kr fdr) \<longrightarrow> ready_for (4 + n) kr \<longrightarrow>
         k_sent kw fdw @ stream (k_read kr fdr) = k_sent kw' fdw @ rest \<longrightarrow>
         (\<exists>kr'. read_relay_packet fdr buf cap t kr = (Inr (int n, write_at buf 0 (read_at msg 0 n)), kr')
            \<and> stream (k_read kr' fdr) = rest))"
proof -
  obtain kw' where w: "write_relay_packet fdw msg (int n) t kw = (Inr (int n), kw')"
    "k_sent kw' fdw = k_sent kw fdw @ put_int (int n) @ read_at msg 0 n"
    using write_relay_packet_ok assms by blast
  show ?thesis
    using assms w(2) read_relay_packet_ok [where body = "read_at msg 0 n" and fd = fdr]
    by (intro exI [of _ kw']) (simp add: w(1))
qed

theorem relay_packet_roundtrip_witness:
  "\<exists>kw'. write_relay_packet 3 ''abc'' 3 5
      (kernel0\<lparr>k_select := replicate 7 (Inr (1, False, True)), k_write := (\<lambda>_. replicate 7 (Inr 1))\<rparr>)
     = (Inr 3, kw')"
  using relay_packet_roundtrip [of 3 4 3 100
      "kernel0\<lparr>k_select := replicate 7 (Inr (1, False, True)), k_write := (\<lambda>_. replicate 7 (Inr 1))\<rparr>"
      "''abc''" 5 "[]"]
  by (simp add: is_ok_def INVALID_SOCKET_def in_i32_def ready_for_def takes_for_def) blast

text \<open>A read that would block in the middle of \<open>read_all\<close> moves its total back by one: the next
  piece overwrites the last byte, and the call succeeds with a byte of the peer lost.\<close>

lemma read_all_again_loses_a_byte:
  "fst (read_all 3 [] 8 8 5
     (kernel0\<lparr>k_select := [Inr (1, True, False), Inr (1, True, False), Inr (1, True, False)],
        k_read := (\<lambda>_. [Inr ''abcd'', Inl EAGAIN, Inr ''efghi''])\<rparr>)) = Inr (8, ''abcefghi'')"
  by (simp add: read_all_def bindS_def sysS_def read_all_loop.simps wait_ready_def sys_select_def sock_read_def
      sys_read_def is_ok_def kernel0_def terminal_error_def write_at_def code_numbers)

end
