(* ===== verification/Socket_Base.thy ===== *)
theory Socket_Base
  imports Socket_Opt
begin

text \<open>
  \<open>CSocketBase\<close> (\<open>sys/socket_base.h\<close>, \<open>sys/socket_base.cpp\<close>): the non-blocking receive and
  send of one packet through the process buffer. The client sockets of the server and the
  connections to the back ends extend the record. The lemmas say that no byte is lost,
  doubled or reordered, however the packet is cut.
\<close>

section \<open>State and constants\<close>

record sock_base =
  s_fd :: int
  process_buf :: string
  process_total :: int
  processed :: int

definition MAX_PACKET_LEN :: int where "MAX_PACKET_LEN = 32000"
definition RECV_OK :: int where "RECV_OK = 1"
definition RECV_HAVE_MORE :: int where "RECV_HAVE_MORE = 2"
definition SEND_OK :: int where "SEND_OK = 5"
definition SEND_HAVE_MORE :: int where "SEND_HAVE_MORE = 6"
definition CONNECTING :: int where "CONNECTING = 7"
definition INIT_OK :: int where "INIT_OK = 8"

lemmas process_codes [code_numbers] =
  RECV_OK_def RECV_HAVE_MORE_def SEND_OK_def SEND_HAVE_MORE_def CONNECTING_def INIT_OK_def

text \<open>Objects on the heap own their socket; the system is the other half of the state.\<close>

type_synonym 'o world = "kernel \<times> 'o"

definition sock_init :: sock_base where
  "sock_init = \<lparr>s_fd = INVALID_SOCKET, process_buf = [], process_total = 0, processed = 0\<rparr>"

text \<open>An operation of the system within the world, and a change of the object.\<close>

definition sysW :: "(kernel, 'a) op \<Rightarrow> ('o world, 'a) op" where
  "sysW m = (\<lambda>(k, s). case m k of (r, k') \<Rightarrow> (r, (k', s)))"

definition objW :: "('o \<Rightarrow> 'o) \<Rightarrow> ('o world, unit) op" where
  "objW f = modS (\<lambda>(k, s). (k, f s))"

definition readW :: "('o \<Rightarrow> 'a) \<Rightarrow> ('o world, 'a) op" where
  "readW f = getS (\<lambda>(k, s). f s)"

lemma no_mem_sysW [no_mem_intros]: "no_mem m \<Longrightarrow> no_mem (sysW m)"
  by (auto simp: no_mem_def sysW_def split: prod.splits) (metis fst_conv)

lemma no_mem_objW [no_mem_intros]: "no_mem (objW f)" "no_mem (readW g)"
  by (simp_all add: objW_def readW_def no_mem_basic)

section \<open>Operations\<close>

text \<open>Bytes beyond the buffer, or before it, are a \<open>MemoryFault\<close>.\<close>

definition base_recv :: "('a sock_base_scheme world, int) op" where
  "base_recv = (\<lambda>(k, s).
     case sock_read (s_fd s) (process_total s - processed s) k of
       (Inl e, k') \<Rightarrow> (Inl e, (k', s))
     | (Inr (sz, bs), k') \<Rightarrow>
         if bs \<noteq> [] \<and> (processed s < 0 \<or> processed s + int (length bs) > MAX_PACKET_LEN)
         then (Inl MemoryFault, (k', s))
         else if sz < 0 then (Inr RECV_HAVE_MORE, (k', s))
         else
           let s' = s\<lparr>process_buf := write_at (process_buf s) (nat (processed s)) bs,
                      processed := processed s + sz\<rparr>
           in if processed s' < process_total s' then (Inr RECV_HAVE_MORE, (k', s'))
              else if processed s' > process_total s'
              then (Inl (THROW CTrpcException ERR_SYS_UNKNOWN
                     (''processed: '' @ show_int (processed s') @ '' > _process_total: '' @
                      show_int (process_total s'))), (k', s'))
              else (Inr RECV_OK, (k', s')))"

definition base_send :: "('a sock_base_scheme world, int) op" where
  "base_send = (\<lambda>(k, s).
     if is_ok (s_fd s) \<and>
        (processed s < 0 \<or> process_total s < processed s \<or> process_total s > MAX_PACKET_LEN)
     then (Inl MemoryFault, (k, s))
     else
       case sock_write (s_fd s)
              (read_at (process_buf s) (nat (processed s)) (nat (process_total s - processed s))) k of
         (Inl e, k') \<Rightarrow> (Inl e, (k', s))
       | (Inr sz, k') \<Rightarrow>
           if sz < 0 then (Inr SEND_HAVE_MORE, (k', s))
           else
             let s' = s\<lparr>processed := processed s + sz\<rparr>
             in if processed s' < process_total s' then (Inr SEND_HAVE_MORE, (k', s'))
                else if processed s' > process_total s'
                then (Inl (THROW CTrpcException ERR_SYS_UNKNOWN
                       (''processed: '' @ show_int (processed s') @ '' > _process_total: '' @
                        show_int (process_total s'))), (k', s'))
                else (Inr SEND_OK, (k', s')))"

text \<open>Only the buffer and the count of bytes processed change.\<close>

lemma no_buf_change [simp]:
  "\<exists>bs n. s = s\<lparr>process_buf := bs, processed := n\<rparr>"
  by (rule exI [of _ "process_buf s"], rule exI [of _ "processed s"]) simp

lemma no_send_change [simp]: "\<exists>n. s = s\<lparr>processed := n\<rparr>"
  by (rule exI [of _ "processed s"]) simp

lemma base_send_frame: "base_send (k, s) = (r, (k', s')) \<Longrightarrow> \<exists>n. s' = s\<lparr>processed := n\<rparr>"
  by (auto simp: base_send_def Let_def split: prod.splits sum.splits if_splits)

lemma base_recv_frame:
  "base_recv (k, s) = (r, (k', s')) \<Longrightarrow> \<exists>bs n. s' = s\<lparr>process_buf := bs, processed := n\<rparr>"
  by (auto simp: base_recv_def Let_def split: prod.splits sum.splits if_splits)

section \<open>No byte is lost\<close>

text \<open>A buffer in use: \<open>processed\<close> of \<open>total\<close> bytes, all inside the array.\<close>

definition buf_ok :: "'a sock_base_scheme \<Rightarrow> bool" where
  "buf_ok s \<longleftrightarrow> 0 \<le> processed s \<and> processed s \<le> process_total s \<and> process_total s \<le> MAX_PACKET_LEN"

definition received :: "'a sock_base_scheme \<Rightarrow> string" where
  "received s = read_at (process_buf s) 0 (nat (processed s))"

definition unsent :: "'a sock_base_scheme \<Rightarrow> string" where
  "unsent s = read_at (process_buf s) (nat (processed s)) (nat (process_total s - processed s))"

lemma read_at_write_end: "read_at (write_at b n bs) 0 (n + length bs) = read_at b 0 n @ bs"
  by (simp add: read_at_split read_write_same read_write_other)

text \<open>Whatever the call returns, the bytes received followed by the bytes still to come are the
  same, and only the bytes received and their number change.\<close>

lemma base_recv_keeps:
  assumes "base_recv (k, s) = (r, (k', s'))" and "buf_ok s"
  shows "buf_ok s' \<and> (\<exists>c. received s' = received s @ c \<and> stream (k_read k (s_fd s)) = c @ stream (k_read k' (s_fd s)))
    \<and> s' = s\<lparr>process_buf := process_buf s', processed := processed s'\<rparr>
    \<and> (case r of Inr c \<Rightarrow> c = (if processed s' = process_total s' then RECV_OK else RECV_HAVE_MORE)
         \<or> (c = RECV_HAVE_MORE \<and> s' = s)
       | Inl e \<Rightarrow> s' = s \<and> e \<noteq> MemoryFault)"
proof -
  obtain r1 k1 where rd: "sock_read (s_fd s) (process_total s - processed s) k = (r1, k1)"
    by (cases "sock_read (s_fd s) (process_total s - processed s) k") auto
  obtain c where c: "stream (k_read k (s_fd s)) = c @ stream (k_read k1 (s_fd s))"
    and r1: "case r1 of Inl e \<Rightarrow> c = [] | Inr (m, bs) \<Rightarrow> bs = c \<and> (if c = [] then m = - 1 else m = int (length c))
      \<and> (0 \<le> process_total s - processed s \<longrightarrow> int (length c) \<le> process_total s - processed s)"
    using sock_read_cases [OF rd] by blast
  show ?thesis
  proof (cases r1)
    case (Inl e)
    have "e \<noteq> MemoryFault"
      using rd Inl by (auto simp: sock_read_def throw_sock_def throw_errno_def THROW_def split: prod.splits if_splits)
    then show ?thesis using assms rd Inl c r1 by (auto simp: base_recv_def)
  next
    case (Inr mb)
    then obtain m where m: "r1 = Inr (m, c)" using r1 by (cases mb) auto
    show ?thesis
    proof (cases "c = []")
      case True
      then show ?thesis using assms rd m r1 c by (auto simp: base_recv_def)
    next
      case False
      define p where "p = nat (processed s)"
      have p: "processed s = int p" using assms(2) by (simp add: p_def buf_ok_def)
      have le: "int (length c) \<le> process_total s - processed s" "m = int (length c)"
        using r1 m False assms(2) by (auto simp: buf_ok_def)
      then have "k' = k1" and s': "s' = s\<lparr>process_buf := write_at (process_buf s) p c, processed := int p + int (length c)\<rparr>"
        and rr: "r = Inr (if processed s' = process_total s' then RECV_OK else RECV_HAVE_MORE)"
        using assms rd m False p by (auto simp: base_recv_def buf_ok_def Let_def split: if_splits)
      have "received s' = received s @ c"
        using read_at_write_end [of "process_buf s" p c]
        by (simp add: received_def s' p nat_add_distrib)
      then show ?thesis
        using \<open>k' = k1\<close> rr s' c le p assms(2) by (auto simp: buf_ok_def)
    qed
  qed
qed

lemma sock_write_cases:
  assumes "sock_write fd bs k = (r, k')"
  shows "\<exists>n \<le> length bs. k_sent k' fd = k_sent k fd @ take n bs \<and> k_read k' = k_read k
    \<and> (case r of Inl e \<Rightarrow> n = 0 \<and> e \<noteq> MemoryFault | Inr m \<Rightarrow> (m = - 1 \<and> n = 0) \<or> m = int n)"
proof (cases "is_ok fd")
  case False
  then show ?thesis
    using assms by (auto simp: sock_write_def throw_sock_def THROW_def)
next
  case True
  show ?thesis
  proof (cases "pop (Inl EAGAIN) (k_write k fd)")
    case (Pair a q)
    show ?thesis
    proof (cases a)
      case (Inl e)
      then show ?thesis
        using assms True Pair
        by (auto simp: sock_write_def sys_write_def throw_errno_def THROW_def split: if_splits)
    next
      case (Inr n)
      then show ?thesis
        using assms True Pair
        by (intro exI [of _ "min n (length bs)"]) (auto simp: sock_write_def sys_write_def min_def)
    qed
  qed
qed

text \<open>The bytes sent followed by the bytes still to send are the same after every call.\<close>

lemma base_send_keeps:
  assumes "base_send (k, s) = (r, (k', s'))" and "buf_ok s"
  shows "buf_ok s' \<and> k_sent k' (s_fd s) @ unsent s' = k_sent k (s_fd s) @ unsent s
    \<and> s' = s\<lparr>processed := processed s'\<rparr>
    \<and> (case r of Inr c \<Rightarrow> c = (if processed s' = process_total s' then SEND_OK else SEND_HAVE_MORE)
         \<or> (c = SEND_HAVE_MORE \<and> s' = s)
       | Inl e \<Rightarrow> s' = s \<and> e \<noteq> MemoryFault)"
proof -
  define bs where "bs = unsent s"
  have lb: "int (length bs) = process_total s - processed s"
    using assms(2) by (simp add: bs_def unsent_def buf_ok_def)
  obtain r1 k1 where wr: "sock_write (s_fd s) bs k = (r1, k1)"
    by (cases "sock_write (s_fd s) bs k") auto
  obtain n where n: "n \<le> length bs" "k_sent k1 (s_fd s) = k_sent k (s_fd s) @ take n bs"
    and r1: "case r1 of Inl e \<Rightarrow> n = 0 \<and> e \<noteq> MemoryFault | Inr m \<Rightarrow> (m = - 1 \<and> n = 0) \<or> m = int n"
    using sock_write_cases [OF wr] by blast
  have no_mem: "\<not> (processed s < 0 \<or> process_total s < processed s \<or> process_total s > MAX_PACKET_LEN)"
    using assms(2) by (auto simp: buf_ok_def)
  have step: "base_send (k, s) = (case r1 of
      Inl e \<Rightarrow> (Inl e, (k1, s))
    | Inr sz \<Rightarrow> if sz < 0 then (Inr SEND_HAVE_MORE, (k1, s))
        else (Inr (if processed s + sz < process_total s then SEND_HAVE_MORE else SEND_OK),
              (k1, s\<lparr>processed := processed s + sz\<rparr>)))"
  proof -
    have "sz < 0 \<or> \<not> processed s + sz > process_total s" if "r1 = Inr sz" for sz
      using that r1 n(1) lb by auto
    then show ?thesis
      using no_mem wr unfolding base_send_def bs_def unsent_def
      by (auto simp: Let_def split: sum.splits)
  qed
  show ?thesis
  proof (cases r1)
    case (Inl e)
    then show ?thesis using assms step r1 n by auto
  next
    case (Inr m)
    show ?thesis
    proof (cases "m < 0")
      case True
      then show ?thesis using assms step Inr r1 n by auto
    next
      case False
      then have m: "m = int n" using r1 Inr by auto
      define p where "p = nat (processed s)"
      have p: "processed s = int p" using assms(2) by (simp add: p_def buf_ok_def)
      have s': "s' = s\<lparr>processed := int (p + n)\<rparr>" "k' = k1"
        "r = Inr (if processed s' < process_total s' then SEND_HAVE_MORE else SEND_OK)"
        using assms step Inr m by (auto simp: p)
      have "take n bs @ unsent s' = bs"
      proof -
        have "nat (process_total s - processed s) = n + nat (process_total s - int (p + n))"
          using n(1) lb p by simp
        then show ?thesis
          using read_at_split [of "process_buf s" p n "nat (process_total s - int (p + n))"]
          by (simp add: s'(1) bs_def unsent_def p take_read_at nat_add_distrib)
      qed
      then show ?thesis
        using n(1,2) s' lb p assms(2) by (auto simp: bs_def buf_ok_def)
    qed
  qed
qed

section \<open>Repeated calls\<close>

text \<open>The server calls again, on each event of the descriptor, while the answer is \<open>again\<close>.\<close>

fun until :: "nat \<Rightarrow> int \<Rightarrow> ('s, int) op \<Rightarrow> ('s, int) op" where
  "until 0 again m = m"
| "until (Suc n) again m = bindS m (\<lambda>r. if r = again then until n again m else returnS r)"

lemma base_recv_data:
  assumes "is_ok (s_fd s)" and "buf_ok s" and "processed s < process_total s"
    and "data_only (k_read k (s_fd s))" and "stream (k_read k (s_fd s)) \<noteq> []"
  shows "\<exists>c k' pb. base_recv (k, s) =
      (Inr (if processed s + int (length c) = process_total s then RECV_OK else RECV_HAVE_MORE),
       (k', s\<lparr>process_buf := pb, processed := processed s + int (length c)\<rparr>))
    \<and> c \<noteq> [] \<and> int (length c) \<le> process_total s - processed s
    \<and> stream (k_read k (s_fd s)) = c @ stream (k_read k' (s_fd s)) \<and> data_only (k_read k' (s_fd s))
    \<and> read_at pb 0 (nat (processed s + int (length c))) = received s @ c"
proof -
  have nz: "0 < process_total s - processed s" using assms(3) by simp
  obtain c k1 where rd: "sock_read (s_fd s) (process_total s - processed s) k = (Inr (int (length c), c), k1)"
    "c \<noteq> []" "data_only (k_read k1 (s_fd s))" "stream (k_read k (s_fd s)) = c @ stream (k_read k1 (s_fd s))"
    "int (length c) \<le> process_total s - processed s"
    using sock_read_data [OF assms(1,4,5) nz] assms(3) by auto
  define pb where "pb = write_at (process_buf s) (nat (processed s)) c"
  have "base_recv (k, s) =
      (Inr (if processed s + int (length c) = process_total s then RECV_OK else RECV_HAVE_MORE),
       (k1, s\<lparr>process_buf := pb, processed := processed s + int (length c)\<rparr>))"
    using rd assms(2) by (auto simp: base_recv_def buf_ok_def Let_def pb_def)
  moreover have "read_at pb 0 (nat (processed s + int (length c))) = received s @ c"
    using read_at_write_end [of "process_buf s" "nat (processed s)" c] assms(2)
    by (simp add: received_def pb_def buf_ok_def nat_add_distrib)
  ultimately show ?thesis using rd by blast
qed

lemma recv_until_ok:
  assumes "is_ok (s_fd s)" and "buf_ok s" and "processed s < process_total s"
    and "data_only (k_read k (s_fd s))" and "process_total s - processed s \<le> int (length (stream (k_read k (s_fd s))))"
    and "process_total s - processed s \<le> int n + 1"
  shows "\<exists>k' pb. until n RECV_HAVE_MORE base_recv (k, s)
      = (Inr RECV_OK, (k', s\<lparr>process_buf := pb, processed := process_total s\<rparr>))
    \<and> read_at pb 0 (nat (process_total s)) = received s @ take (nat (process_total s - processed s)) (stream (k_read k (s_fd s)))
    \<and> stream (k_read k' (s_fd s)) = drop (nat (process_total s - processed s)) (stream (k_read k (s_fd s)))
    \<and> data_only (k_read k' (s_fd s))"
  using assms
proof (induction n arbitrary: k s)
  case (0 k s)
  obtain c k' pb where c: "base_recv (k, s) =
      (Inr (if processed s + int (length c) = process_total s then RECV_OK else RECV_HAVE_MORE),
       (k', s\<lparr>process_buf := pb, processed := processed s + int (length c)\<rparr>))"
    "c \<noteq> []" "int (length c) \<le> process_total s - processed s"
    "stream (k_read k (s_fd s)) = c @ stream (k_read k' (s_fd s))" "data_only (k_read k' (s_fd s))"
    "read_at pb 0 (nat (processed s + int (length c))) = received s @ c"
    using base_recv_data [of s k] "0.prems" by (cases "stream (k_read k (s_fd s))") auto
  have "processed s + int (length c) = process_total s"
    using c(2,3) "0.prems"(6) by (cases c) auto
  moreover from this have "nat (process_total s - processed s) = length c" by linarith
  ultimately show ?case using c by auto
next
  case (Suc n k s)
  obtain c k1 pb where c: "base_recv (k, s) =
      (Inr (if processed s + int (length c) = process_total s then RECV_OK else RECV_HAVE_MORE),
       (k1, s\<lparr>process_buf := pb, processed := processed s + int (length c)\<rparr>))"
    "c \<noteq> []" "int (length c) \<le> process_total s - processed s"
    "stream (k_read k (s_fd s)) = c @ stream (k_read k1 (s_fd s))" "data_only (k_read k1 (s_fd s))"
    "read_at pb 0 (nat (processed s + int (length c))) = received s @ c"
    using base_recv_data [of s k] Suc.prems by (cases "stream (k_read k (s_fd s))") auto
  define s1 where "s1 = s\<lparr>process_buf := pb, processed := processed s + int (length c)\<rparr>"
  show ?case
  proof (cases "processed s + int (length c) = process_total s")
    case True
    then have "nat (process_total s - processed s) = length c" by linarith
    then show ?thesis using c True by (auto simp: bindS_def RECV_OK_def RECV_HAVE_MORE_def)
  next
    case False
    have d: "nat (process_total s - processed s) = length c + nat (process_total s1 - processed s1)"
      using c(3) by (simp add: s1_def nat_diff_distrib' Suc.prems(3))
    have t: "s_fd s1 = s_fd s" "process_total s1 = process_total s" "received s1 = received s @ c"
      using c(6) by (simp_all add: s1_def received_def)
    have "is_ok (s_fd s1)" "buf_ok s1" "processed s1 < process_total s1"
      "data_only (k_read k1 (s_fd s1))"
      "process_total s1 - processed s1 \<le> int (length (stream (k_read k1 (s_fd s1))))"
      "process_total s1 - processed s1 \<le> int n + 1"
      using Suc.prems c False by (auto simp: buf_ok_def s1_def neq_Nil_conv)
    from Suc.IH [OF this] obtain k' pb' where ih:
      "until n RECV_HAVE_MORE base_recv (k1, s1) = (Inr RECV_OK, (k', s1\<lparr>process_buf := pb', processed := process_total s1\<rparr>))"
      "read_at pb' 0 (nat (process_total s1)) = received s1 @ take (nat (process_total s1 - processed s1)) (stream (k_read k1 (s_fd s1)))"
      "stream (k_read k' (s_fd s1)) = drop (nat (process_total s1 - processed s1)) (stream (k_read k1 (s_fd s1)))"
      "data_only (k_read k' (s_fd s1))" by blast
    moreover have "until (Suc n) RECV_HAVE_MORE base_recv (k, s) = until n RECV_HAVE_MORE base_recv (k1, s1)"
      using c(1) False by (simp add: bindS_def s1_def)
    moreover have "s1\<lparr>process_buf := pb', processed := process_total s1\<rparr> = s\<lparr>process_buf := pb', processed := process_total s\<rparr>"
      by (simp add: s1_def)
    ultimately show ?thesis using c(4) d t by auto
  qed
qed

lemma unsent_advance:
  assumes "buf_ok s" and "int n \<le> process_total s - processed s"
  shows "take n (unsent s) @ unsent (s\<lparr>processed := processed s + int n\<rparr>) = unsent s"
proof -
  define p where "p = nat (processed s)"
  have p: "processed s = int p" using assms(1) by (simp add: p_def buf_ok_def)
  have "nat (process_total s - int p) = n + nat (process_total s - (int p + int n))"
    using assms p by simp
  then show ?thesis
    using read_at_split [of "process_buf s" p n "nat (process_total s - (int p + int n))"]
    by (simp add: unsent_def p take_read_at nat_add_distrib)
qed

lemma base_send_data:
  assumes "is_ok (s_fd s)" and "buf_ok s" and "processed s < process_total s"
    and "takes_for (Suc m) (k_write k (s_fd s))"
  shows "\<exists>n k'. base_send (k, s) =
      (Inr (if processed s + int n = process_total s then SEND_OK else SEND_HAVE_MORE),
       (k', s\<lparr>processed := processed s + int n\<rparr>))
    \<and> 0 < n \<and> int n \<le> process_total s - processed s \<and> takes_for m (k_write k' (s_fd s))
    \<and> k_sent k' (s_fd s) = k_sent k (s_fd s) @ take n (unsent s) \<and> k_read k' = k_read k"
proof -
  have lb: "int (length (unsent s)) = process_total s - processed s"
    using assms(2) by (simp add: unsent_def buf_ok_def)
  then have "unsent s \<noteq> []" using assms(3) by auto
  then obtain n k1 where w: "sock_write (s_fd s) (unsent s) k = (Inr (int n), k1)" "0 < n"
    "n \<le> length (unsent s)" "takes_for m (k_write k1 (s_fd s))"
    "k_sent k1 (s_fd s) = k_sent k (s_fd s) @ take n (unsent s)"
    using sock_write_ok assms(1,4) by blast
  have "\<not> (processed s < 0 \<or> process_total s < processed s \<or> process_total s > MAX_PACKET_LEN)"
    using assms(2) by (auto simp: buf_ok_def)
  moreover have "int n \<le> process_total s - processed s" using w(3) lb by linarith
  ultimately have "base_send (k, s) =
      (Inr (if processed s + int n = process_total s then SEND_OK else SEND_HAVE_MORE),
       (k1, s\<lparr>processed := processed s + int n\<rparr>))"
    using w(1) unfolding base_send_def unsent_def by (auto simp: Let_def)
  then show ?thesis
    using w \<open>int n \<le> process_total s - processed s\<close> sock_write_cases [OF w(1)] by blast
qed

end
