(* ===== verification/Api_Base.thy ===== *)
theory Api_Base
  imports Socket_Base
begin

text \<open>
  \<open>CApiBase\<close> (\<open>api/api_base.h\<close>, \<open>api/api_base.cpp\<close>): a connection to a back end as a state
  machine that the server drives, one call of \<open>process\<close> for each event of the descriptor.
  The virtual functions of the two protocols are an argument, the record \<open>vtable\<close>; the
  locale \<open>api_protocol\<close> is the contract a protocol must keep, and the two protocols
  (theories \<open>Middle_Api\<close> and \<open>Relay_Api\<close>) interpret it.
\<close>

section \<open>State\<close>

datatype em_api_status =
  EM_FREE | EM_CONNECT | EM_SEND | EM_READ | EM_TIME_OUT | EM_CLOSED | EM_OVER | EM_INITING
| EM_READ_OK | EM_READY

fun api_status_no :: "em_api_status \<Rightarrow> int" where
  "api_status_no EM_FREE = 0"
| "api_status_no EM_CONNECT = 1"
| "api_status_no EM_SEND = 2"
| "api_status_no EM_READ = 3"
| "api_status_no EM_TIME_OUT = 4"
| "api_status_no EM_CLOSED = 5"
| "api_status_no EM_OVER = 6"
| "api_status_no EM_INITING = 7"
| "api_status_no EM_READ_OK = 8"
| "api_status_no EM_READY = 9"

text \<open>Pointers to packets are the bytes they point to; \<open>NULL\<close> is \<open>None\<close>.\<close>

record api_base = sock_base +
  a_status :: em_api_status
  a_index :: int
  a_is_init :: bool
  a_is_used :: bool
  a_req_packet :: "string option"
  a_req_len :: int
  a_other_info :: "string option"
  a_client_seq_no :: int
  a_idc :: string
  a_ip :: string
  a_port :: int
  a_time_out :: int

record 'o vtable =
  v_init :: "('o world, int) op"
  v_fini :: "bool \<Rightarrow> ('o world, unit) op"
  v_encode :: "string option \<Rightarrow> int \<Rightarrow> string option \<Rightarrow> ('o world, unit) op"
  v_decode :: "string \<Rightarrow> ('o world, string \<times> int) op"
  v_recv :: "('o world, int) op"

text \<open>The fields the constructor sets.\<close>

definition api_base_init :: "string \<Rightarrow> string \<Rightarrow> int \<Rightarrow> int \<Rightarrow> int \<Rightarrow> api_base" where
  "api_base_init idc ip port index time_out =
     sock_base.extend sock_init
       \<lparr>a_status = EM_FREE, a_index = index, a_is_init = False, a_is_used = False,
        a_req_packet = None, a_req_len = 0, a_other_info = None, a_client_seq_no = 0,
        a_idc = idc, a_ip = ip, a_port = port, a_time_out = time_out\<rparr>"

section \<open>Operations\<close>

definition set_initing :: "('o api_base_scheme world, unit) op" where
  "set_initing = objW (\<lambda>s. s\<lparr>a_status := EM_INITING\<rparr>)"

definition api_init :: "'o api_base_scheme vtable \<Rightarrow> ('o api_base_scheme world, int) op" where
  "api_init vt =
     bindS (readW a_is_init) (\<lambda>is_init.
       if is_init then returnS INIT_OK
       else bindS (v_init vt) (\<lambda>ret.
         if ret = INIT_OK
         then seqS (objW (\<lambda>s. s\<lparr>a_is_init := True\<rparr>)) (returnS ret)
         else returnS ret))"

definition process_initing :: "'o api_base_scheme vtable \<Rightarrow> ('o api_base_scheme world, int) op" where
  "process_initing vt =
     bindS (api_init vt) (\<lambda>ret.
       if ret = INIT_OK then
         bindS (readW (\<lambda>s. (a_req_packet s, a_req_len s, a_other_info s))) (\<lambda>(packet, len, info).
           seqS (v_encode vt packet len info)
          (seqS (objW (\<lambda>s. s\<lparr>a_status := EM_SEND\<rparr>)) (returnS ret)))
       else returnS ret)"

definition process_send :: "('o api_base_scheme world, int) op" where
  "process_send =
     bindS base_send (\<lambda>ret.
       if ret = SEND_OK
       then seqS (objW (\<lambda>s. s\<lparr>a_status := EM_READ, processed := 0, process_total := 0,
                               process_buf := []\<rparr>)) (returnS ret)
       else returnS ret)"

definition process_read :: "'o api_base_scheme vtable \<Rightarrow> ('o api_base_scheme world, int) op" where
  "process_read vt =
     bindS (v_recv vt) (\<lambda>ret.
       if ret = RECV_OK
       then seqS (objW (\<lambda>s. s\<lparr>a_status := EM_READ_OK\<rparr>)) (returnS ret)
       else returnS ret)"

definition api_process :: "'o api_base_scheme vtable \<Rightarrow> ('o api_base_scheme world, int) op" where
  "api_process vt =
     bindS (readW a_status) (\<lambda>st.
       if st = EM_READY \<or> st = EM_FREE \<or> st = EM_INITING then process_initing vt
       else if st = EM_SEND then process_send
       else if st = EM_READ then process_read vt
       else throwS (THROW CTrpcException ERR_SYS_UNKNOWN (''status error: '' @ show_int (api_status_no st))))"

definition api_encode :: "string option \<Rightarrow> int \<Rightarrow> string option \<Rightarrow> ('o api_base_scheme world, unit) op" where
  "api_encode packet packet_len other_info =
     seqS (assertS (\<lambda>(k, s). a_status s = EM_FREE \<or> a_status s = EM_OVER))
    (seqS (assertS (\<lambda>(k, s). a_req_packet s = None))
    (seqS (assertS (\<lambda>(k, s). a_req_len s = 0))
    (seqS (assertS (\<lambda>(k, s). a_other_info s = None))
          (objW (\<lambda>s. s\<lparr>a_req_packet := packet, a_req_len := packet_len, a_other_info := other_info,
                       a_status := EM_READY\<rparr>)))))"

definition api_decode :: "'o api_base_scheme vtable \<Rightarrow> string \<Rightarrow> ('o api_base_scheme world, string \<times> int) op" where
  "api_decode vt packet =
     seqS (assertS (\<lambda>(k, s). a_status s = EM_READ_OK))
       (bindS (v_decode vt packet) (\<lambda>r.
          seqS (objW (\<lambda>s. s\<lparr>a_status := EM_OVER\<rparr>)) (returnS r)))"

definition api_fini :: "'o api_base_scheme vtable \<Rightarrow> bool \<Rightarrow> ('o api_base_scheme world, unit) op" where
  "api_fini vt force_close =
     seqS (v_fini vt force_close)
       (objW (\<lambda>s. s\<lparr>a_req_packet := None, a_req_len := 0, a_other_info := None, a_client_seq_no := 0,
                    processed := 0, process_total := 0, a_status := EM_FREE\<rparr>))"

definition is_free :: "'o api_base_scheme \<Rightarrow> bool" where
  "is_free s \<longleftrightarrow> a_is_used s = False"

definition set_used :: "'o api_base_scheme vtable \<Rightarrow> ('o api_base_scheme world, unit) op" where
  "set_used vt =
     seqS (assertS (\<lambda>(k, s). \<not> a_is_used s))
    (seqS (\<lambda>(k, s). if \<not> check_tcp_ok (s_fd s) k then api_fini vt True (k, s) else (Inr (), (k, s)))
          (objW (\<lambda>s. s\<lparr>a_is_used := True\<rparr>)))"

definition set_free :: "'o api_base_scheme vtable \<Rightarrow> bool \<Rightarrow> ('o api_base_scheme world, unit) op" where
  "set_free vt force_close =
     seqS (api_fini vt force_close) (objW (\<lambda>s. s\<lparr>a_is_used := False\<rparr>))"

section \<open>The contract of a protocol\<close>

text \<open>What no protocol function may touch: the call being served and the configuration.\<close>

definition same_call :: "'o api_base_scheme \<Rightarrow> 'o api_base_scheme \<Rightarrow> bool" where
  "same_call s s' \<longleftrightarrow>
     a_index s' = a_index s \<and> a_is_used s' = a_is_used s \<and> a_req_packet s' = a_req_packet s \<and>
     a_req_len s' = a_req_len s \<and> a_other_info s' = a_other_info s \<and>
     a_client_seq_no s' = a_client_seq_no s \<and> a_idc s' = a_idc s \<and> a_ip s' = a_ip s \<and>
     a_port s' = a_port s \<and> a_time_out s' = a_time_out s"

text \<open>The transitions of the status in one call of \<open>process\<close> that answered \<open>r\<close>.\<close>

definition status_step :: "em_api_status \<Rightarrow> fault + int \<Rightarrow> em_api_status \<Rightarrow> bool" where
  "status_step st r st' \<longleftrightarrow>
     (if st \<in> {EM_READY, EM_FREE, EM_INITING}
      then if r = Inr INIT_OK then st' = EM_SEND else st' = st \<or> st' = EM_INITING
      else if st = EM_SEND then st' = (if r = Inr SEND_OK then EM_READ else EM_SEND)
      else if st = EM_READ then st' = (if r = Inr RECV_OK then EM_READ_OK else EM_READ)
      else st' = st \<and> (\<exists>e. r = Inl e))"

text \<open>A connection at rest: nothing of an earlier call is left.\<close>

definition at_rest :: "'o api_base_scheme \<Rightarrow> bool" where
  "at_rest s \<longleftrightarrow> a_status s = EM_FREE \<and> a_req_packet s = None \<and> a_req_len s = 0 \<and> a_other_info s = None
     \<and> a_client_seq_no s = 0 \<and> processed s = 0 \<and> process_total s = 0 \<and> \<not> a_is_used s"

lemma same_call_refl [simp]: "same_call s s"
  by (simp add: same_call_def)

lemma same_call_trans: "same_call s t \<Longrightarrow> same_call t u \<Longrightarrow> same_call s u"
  by (simp add: same_call_def)

text \<open>What a receive may change: the buffer, its counters and the fields of the protocol.\<close>

definition recv_keeps :: "'o api_base_scheme \<Rightarrow> 'o api_base_scheme \<Rightarrow> bool" where
  "recv_keeps s s' \<longleftrightarrow>
     same_call s s' \<and> a_status s' = a_status s \<and> a_is_init s' = a_is_init s \<and> s_fd s' = s_fd s"

lemma recv_keeps_trans: "recv_keeps s t \<Longrightarrow> recv_keeps t u \<Longrightarrow> recv_keeps s u"
  by (auto simp: recv_keeps_def intro: same_call_trans)

lemma same_call_updates [simp]:
  "same_call s (s'\<lparr>a_status := x\<rparr>) = same_call s s'"
  "same_call s (s'\<lparr>a_is_init := b\<rparr>) = same_call s s'"
  "same_call s (s'\<lparr>processed := n\<rparr>) = same_call s s'"
  "same_call s (s'\<lparr>process_total := n\<rparr>) = same_call s s'"
  "same_call s (s'\<lparr>process_buf := bs\<rparr>) = same_call s s'"
  "same_call s (s'\<lparr>s_fd := n\<rparr>) = same_call s s'"
  by (simp_all add: same_call_def)

lemma buf_ok_updates [simp]:
  "buf_ok (s\<lparr>a_status := x\<rparr>) = buf_ok s" "buf_ok (s\<lparr>a_is_init := b\<rparr>) = buf_ok s"
  "buf_ok (s\<lparr>a_is_used := b\<rparr>) = buf_ok s"
  by (simp_all add: buf_ok_def)

text \<open>The operations without the monad.\<close>

lemmas world_ops = readW_def objW_def seqS_def bindS_def getS_def modS_def returnS_def

lemma api_init_eq:
  "api_init vt w =
     (if a_is_init (snd w) then (Inr INIT_OK, w)
      else case v_init vt w of
        (Inl e, w1) \<Rightarrow> (Inl e, w1)
      | (Inr ret, w1) \<Rightarrow>
          (Inr ret, if ret = INIT_OK then (fst w1, (snd w1)\<lparr>a_is_init := True\<rparr>) else w1))"
  by (simp add: api_init_def world_ops split: prod.splits sum.splits)

lemma process_initing_eq:
  "process_initing vt w =
     (case api_init vt w of
        (Inl e, w1) \<Rightarrow> (Inl e, w1)
      | (Inr ret, w1) \<Rightarrow>
          if ret = INIT_OK then
            (case v_encode vt (a_req_packet (snd w1)) (a_req_len (snd w1)) (a_other_info (snd w1)) w1 of
               (Inl e, w2) \<Rightarrow> (Inl e, w2)
             | (Inr _, w2) \<Rightarrow> (Inr ret, (fst w2, (snd w2)\<lparr>a_status := EM_SEND\<rparr>)))
          else (Inr ret, w1))"
  by (simp add: process_initing_def world_ops split: prod.splits sum.splits)

lemma process_send_eq:
  "process_send w =
     (case base_send w of
        (Inl e, w1) \<Rightarrow> (Inl e, w1)
      | (Inr ret, w1) \<Rightarrow>
          (Inr ret, if ret = SEND_OK
             then (fst w1, (snd w1)\<lparr>a_status := EM_READ, processed := 0, process_total := 0, process_buf := []\<rparr>)
             else w1))"
  by (simp add: process_send_def world_ops split: prod.splits sum.splits)

lemma process_read_eq:
  "process_read vt w =
     (case v_recv vt w of
        (Inl e, w1) \<Rightarrow> (Inl e, w1)
      | (Inr ret, w1) \<Rightarrow>
          (Inr ret, if ret = RECV_OK then (fst w1, (snd w1)\<lparr>a_status := EM_READ_OK\<rparr>) else w1))"
  by (simp add: process_read_def world_ops split: prod.splits sum.splits)

lemma api_process_eq:
  "api_process vt w =
     (let st = a_status (snd w)
      in if st = EM_READY \<or> st = EM_FREE \<or> st = EM_INITING then process_initing vt w
         else if st = EM_SEND then process_send w
         else if st = EM_READ then process_read vt w
         else (Inl (THROW CTrpcException ERR_SYS_UNKNOWN (''status error: '' @ show_int (api_status_no st))), w))"
  by (simp add: api_process_def world_ops throwS_def split: prod.splits)

lemma api_fini_eq:
  "api_fini vt b w =
     (case v_fini vt b w of
        (Inl e, w1) \<Rightarrow> (Inl e, w1)
      | (Inr _, w1) \<Rightarrow>
          (Inr (), (fst w1, (snd w1)\<lparr>a_req_packet := None, a_req_len := 0, a_other_info := None,
             a_client_seq_no := 0, processed := 0, process_total := 0, a_status := EM_FREE\<rparr>)))"
  by (simp add: api_fini_def world_ops split: prod.splits sum.splits)

lemma set_free_eq:
  "set_free vt b w =
     (case api_fini vt b w of
        (Inl e, w1) \<Rightarrow> (Inl e, w1)
      | (Inr _, w1) \<Rightarrow> (Inr (), (fst w1, (snd w1)\<lparr>a_is_used := False\<rparr>)))"
  by (simp add: set_free_def world_ops split: prod.splits sum.splits)

lemma set_used_eq:
  "set_used vt w =
     (if a_is_used (snd w) then (Inl AssertFail, w)
      else case (if \<not> check_tcp_ok (s_fd (snd w)) (fst w) then api_fini vt True w else (Inr (), w)) of
        (Inl e, w1) \<Rightarrow> (Inl e, w1)
      | (Inr _, w1) \<Rightarrow> (Inr (), (fst w1, (snd w1)\<lparr>a_is_used := True\<rparr>)))"
  by (simp add: set_used_def seqS_def bindS_def assertS_def objW_def modS_def split: prod.splits sum.splits)

lemma api_encode_eq:
  "api_encode packet n info w =
     (let s = snd w
      in if (a_status s = EM_FREE \<or> a_status s = EM_OVER) \<and> a_req_packet s = None \<and> a_req_len s = 0
            \<and> a_other_info s = None
         then (Inr (), (fst w, s\<lparr>a_req_packet := packet, a_req_len := n, a_other_info := info,
                       a_status := EM_READY\<rparr>))
         else (Inl AssertFail, w))"
  by (cases w) (simp add: api_encode_def objW_def modS_def)

lemma api_decode_eq:
  "api_decode vt packet w =
     (if a_status (snd w) \<noteq> EM_READ_OK then (Inl AssertFail, w)
      else case v_decode vt packet w of
        (Inl e, w1) \<Rightarrow> (Inl e, w1)
      | (Inr r, w1) \<Rightarrow> (Inr r, (fst w1, (snd w1)\<lparr>a_status := EM_OVER\<rparr>)))"
  by (cases w) (simp add: api_decode_def bindS_def objW_def split: prod.splits sum.splits)

lemma base_recv_keeps_call: "base_recv (k, s) = (r, (k', s')) \<Longrightarrow> recv_keeps s s'"
  using base_recv_frame by (fastforce simp: recv_keeps_def)

locale api_protocol =
  fixes vt :: "'o api_base_scheme vtable"
  assumes init_frame: "v_init vt (k, s) = (r, (k', s')) \<Longrightarrow>
      same_call s s' \<and> a_is_init s' = a_is_init s \<and> (a_status s' = a_status s \<or> a_status s' = EM_INITING)"
    and fini_total: "\<exists>k' s'. v_fini vt b (k, s) = (Inr (), (k', s')) \<and> same_call s s' \<and> a_status s' = a_status s"
    and fini_force: "v_fini vt True (k, s) = (u, (k', s')) \<Longrightarrow>
      s_fd s' = INVALID_SOCKET \<and> \<not> a_is_init s' \<and>
      k_closed k' = k_closed k @ (if s_fd s = INVALID_SOCKET then [] else [s_fd s])"
    and encode_frame: "v_encode vt p n i (k, s) = (u, (k', s')) \<Longrightarrow>
      k' = k \<and> same_call s s' \<and> a_status s' = a_status s \<and> a_is_init s' = a_is_init s \<and> s_fd s' = s_fd s"
    and decode_frame: "v_decode vt pk (k, s) = (q, (k', s')) \<Longrightarrow> k' = k \<and> s' = s"
    and recv_frame: "v_recv vt (k, s) = (r, (k', s')) \<Longrightarrow>
      recv_keeps s s'"
begin

lemma api_init_frame:
  assumes "api_init vt (k, s) = (r, (k', s'))"
  shows "same_call s s' \<and> (a_status s' = a_status s \<or> a_status s' = EM_INITING)"
proof -
  obtain r1 k1 s1 where i: "v_init vt (k, s) = (r1, (k1, s1))" by (cases "v_init vt (k, s)") auto
  show ?thesis
    using assms i init_frame [OF i] by (auto simp: api_init_eq split: sum.splits if_splits)
qed

lemma process_initing_step:
  assumes "process_initing vt (k, s) = (r, (k', s'))"
  shows "same_call s s' \<and> (if r = Inr INIT_OK then a_status s' = EM_SEND
      else a_status s' = a_status s \<or> a_status s' = EM_INITING)"
proof -
  obtain r1 k1 s1 where i: "api_init vt (k, s) = (r1, (k1, s1))" by (cases "api_init vt (k, s)") auto
  obtain r2 k2 s2 where e: "v_encode vt (a_req_packet s1) (a_req_len s1) (a_other_info s1) (k1, s1) = (r2, (k2, s2))"
    by (cases "v_encode vt (a_req_packet s1) (a_req_len s1) (a_other_info s1) (k1, s1)") auto
  show ?thesis
    using assms i e api_init_frame [OF i] encode_frame [OF e] same_call_trans [of s s1 s2]
    by (auto simp: process_initing_eq split: sum.splits if_splits)
qed

lemma process_step:
  assumes "api_process vt (k, s) = (r, (k', s'))"
  shows "same_call s s' \<and> status_step (a_status s) r (a_status s')"
proof -
  obtain r1 k1 s1 where b: "base_send (k, s) = (r1, (k1, s1))" by (cases "base_send (k, s)") auto
  have b1: "same_call s s1" "a_status s1 = a_status s"
    using base_send_frame [OF b] by auto
  obtain r2 k2 s2 where v: "v_recv vt (k, s) = (r2, (k2, s2))" by (cases "v_recv vt (k, s)") auto
  show ?thesis
    using assms process_initing_step [of k s r k' s'] b b1 v recv_frame [OF v, unfolded recv_keeps_def]
    by (cases "a_status s")
      (auto simp: api_process_eq process_send_eq process_read_eq status_step_def split: sum.splits if_splits)
qed

lemma fini_rest:
  "\<exists>k' s'. api_fini vt b (k, s) = (Inr (), (k', s')) \<and> at_rest (s'\<lparr>a_is_used := False\<rparr>)
     \<and> a_is_used s' = a_is_used s
     \<and> (b \<longrightarrow> s_fd s' = INVALID_SOCKET \<and> \<not> a_is_init s'
          \<and> k_closed k' = k_closed k @ (if s_fd s = INVALID_SOCKET then [] else [s_fd s]))"
proof -
  obtain k1 s1 where f: "v_fini vt b (k, s) = (Inr (), (k1, s1))" "same_call s s1"
    using fini_total by blast
  then show ?thesis
    using fini_force [of k s "Inr ()" k1 s1]
    by (cases b) (auto simp: api_fini_def world_ops at_rest_def same_call_def)
qed

lemma set_free_rest:
  "\<exists>k' s'. set_free vt b (k, s) = (Inr (), (k', s')) \<and> at_rest s'
     \<and> (b \<longrightarrow> s_fd s' = INVALID_SOCKET \<and> \<not> a_is_init s'
          \<and> k_closed k' = k_closed k @ (if s_fd s = INVALID_SOCKET then [] else [s_fd s]))"
proof -
  obtain k1 s1 where f: "api_fini vt b (k, s) = (Inr (), (k1, s1))" "at_rest (s1\<lparr>a_is_used := False\<rparr>)"
    "b \<longrightarrow> s_fd s1 = INVALID_SOCKET \<and> \<not> a_is_init s1
          \<and> k_closed k1 = k_closed k @ (if s_fd s = INVALID_SOCKET then [] else [s_fd s])"
    using fini_rest by blast
  then show ?thesis by (auto simp: set_free_def world_ops)
qed

text \<open>A connection at rest can be taken and given a request, whatever its socket does.\<close>

lemma take_and_encode:
  assumes "at_rest s"
  shows "\<exists>k' s'. seqS (set_used vt) (api_encode p n i) (k, s) = (Inr (), (k', s'))
     \<and> a_is_used s' \<and> a_status s' = EM_READY \<and> a_req_packet s' = p \<and> a_req_len s' = n \<and> a_other_info s' = i"
proof (cases "check_tcp_ok (s_fd s) k")
  case True
  then show ?thesis
    using assms by (auto simp: set_used_def api_encode_def world_ops assertS_def at_rest_def)
next
  case False
  obtain k1 s1 where f: "api_fini vt True (k, s) = (Inr (), (k1, s1))" "at_rest (s1\<lparr>a_is_used := False\<rparr>)"
    using fini_rest by blast
  then show ?thesis
    using False assms by (auto simp: set_used_def api_encode_def world_ops assertS_def at_rest_def)
qed

end

section \<open>Sending and receiving through \<open>process\<close>\<close>

lemma process_send_until:
  assumes "a_status s = EM_SEND" and "is_ok (s_fd s)" and "buf_ok s" and "processed s < process_total s"
    and "takes_for (Suc n) (k_write k (s_fd s))" and "process_total s - processed s \<le> int n + 1"
  shows "\<exists>k'. until n SEND_HAVE_MORE (api_process vt) (k, s) = (Inr SEND_OK, (k', s\<lparr>a_status := EM_READ,
        processed := 0, process_total := 0, process_buf := []\<rparr>))
     \<and> k_sent k' (s_fd s) = k_sent k (s_fd s) @ unsent s \<and> k_read k' = k_read k"
  using assms
proof (induction n arbitrary: k s)
  case (0 k s)
  obtain n k' where b: "base_send (k, s) =
      (Inr (if processed s + int n = process_total s then SEND_OK else SEND_HAVE_MORE),
       (k', s\<lparr>processed := processed s + int n\<rparr>))"
    "0 < n" "int n \<le> process_total s - processed s"
    "k_sent k' (s_fd s) = k_sent k (s_fd s) @ take n (unsent s)" "k_read k' = k_read k"
    using base_send_data [OF "0.prems"(2-5)] by blast
  have "processed s + int n = process_total s" using b(2,3) "0.prems"(6) by linarith
  then have "n = length (unsent s)" using "0.prems"(3) by (simp add: unsent_def buf_ok_def)
  then show ?case
    using b "0.prems"(1) \<open>processed s + int n = process_total s\<close>
    by (simp add: api_process_eq process_send_eq)
next
  case (Suc m k s)
  obtain n k1 where b: "base_send (k, s) =
      (Inr (if processed s + int n = process_total s then SEND_OK else SEND_HAVE_MORE),
       (k1, s\<lparr>processed := processed s + int n\<rparr>))"
    "0 < n" "int n \<le> process_total s - processed s" "takes_for (Suc m) (k_write k1 (s_fd s))"
    "k_sent k1 (s_fd s) = k_sent k (s_fd s) @ take n (unsent s)" "k_read k1 = k_read k"
    using base_send_data [OF Suc.prems(2-5)] by blast
  show ?case
  proof (cases "processed s + int n = process_total s")
    case True
    then have "n = length (unsent s)" using Suc.prems(3) by (simp add: unsent_def buf_ok_def)
    then show ?thesis
      using b Suc.prems(1) True
      by (simp add: bindS_def api_process_eq process_send_eq code_numbers)
  next
    case False
    define s1 where "s1 = s\<lparr>processed := processed s + int n\<rparr>"
    have p: "a_status s1 = EM_SEND" "is_ok (s_fd s1)" "buf_ok s1" "processed s1 < process_total s1"
      "takes_for (Suc m) (k_write k1 (s_fd s1))" "process_total s1 - processed s1 \<le> int m + 1"
      using Suc.prems b False by (auto simp: s1_def buf_ok_def)
    have "s1\<lparr>a_status := EM_READ, processed := 0, process_total := 0, process_buf := []\<rparr>
        = s\<lparr>a_status := EM_READ, processed := 0, process_total := 0, process_buf := []\<rparr>"
      by (simp add: s1_def)
    moreover have "until (Suc m) SEND_HAVE_MORE (api_process vt) (k, s) = until m SEND_HAVE_MORE (api_process vt) (k1, s1)"
      using b(1) Suc.prems(1) False
      by (simp add: bindS_def api_process_eq process_send_eq s1_def SEND_HAVE_MORE_def SEND_OK_def)
    moreover have "k_sent k1 (s_fd s) @ unsent s1 = k_sent k (s_fd s) @ unsent s"
      using b(5) unsent_advance [OF Suc.prems(3) b(3)] by (simp add: s1_def)
    ultimately show ?thesis
      using Suc.IH [OF p] b(6) by (auto simp: s1_def)
  qed
qed

section \<open>Histories of a connection\<close>

text \<open>What the server does with a connection, in any order: the system's answers are whatever
  they are (\<open>env\<close>), and a request has at most \<open>cap\<close> bytes.\<close>

inductive api_step :: "'o api_base_scheme vtable \<Rightarrow> int \<Rightarrow> 'o api_base_scheme world \<Rightarrow> 'o api_base_scheme world \<Rightarrow> bool"
  for vt cap where
    env: "api_step vt cap (k, s) (k', s)"
  | take: "set_used vt w = (u, w') \<Longrightarrow> api_step vt cap w w'"
  | give: "set_free vt b w = (u, w') \<Longrightarrow> api_step vt cap w w'"
  | request: "api_encode p n i w = (u, w') \<Longrightarrow> 0 \<le> n \<Longrightarrow> n \<le> cap \<Longrightarrow> api_step vt cap w w'"
  | event: "api_process vt w = (r, w') \<Longrightarrow> api_step vt cap w w'"
  | answer: "api_decode vt pk w = (q, w') \<Longrightarrow> api_step vt cap w w'"

definition api_reachable :: "'o api_base_scheme vtable \<Rightarrow> int \<Rightarrow> 'o api_base_scheme \<Rightarrow> 'o api_base_scheme world \<Rightarrow> bool" where
  "api_reachable vt cap s0 w \<longleftrightarrow> (\<exists>k0. (api_step vt cap)\<^sup>*\<^sup>* (k0, s0) w)"

lemma api_reachable_invariant:
  assumes "api_reachable vt cap s0 w" and "I s0"
    and "\<And>w w'. I (snd w) \<Longrightarrow> api_step vt cap w w' \<Longrightarrow> I (snd w')"
  shows "I (snd w)"
proof -
  obtain k0 where "(api_step vt cap)\<^sup>*\<^sup>* (k0, s0) w"
    using assms(1) by (auto simp: api_reachable_def)
  then show ?thesis
    by (induction rule: rtranclp_induct) (use assms(2,3) in auto)
qed

end
