(* ===== verification/Trpc_Package.thy ===== *)
theory Trpc_Package
  imports Std_Lib
begin

text \<open>
  \<open>CTrpcPackage\<close> (\<open>api/trpc_package.h\<close>, \<open>api/trpc_package.cpp\<close>): the packet format of the
  middle protocol. The structure with its setters, \<open>Encode\<close> into a caller's buffer and
  \<open>Decode\<close> out of one, byte for byte, and their round trip.
\<close>

section \<open>The package\<close>

record trpc_package =
  cStx :: char
  iLen :: int
  iVersion :: int
  iSeqNo :: int
  iMsgType :: int
  sServiceName :: string
  iResult :: int
  iDataLen :: int
  sData :: string

definition PACK_STX :: char where "PACK_STX = CHR 0x02"
definition PACK_ETX :: char where "PACK_ETX = CHR 0x03"
definition TYPE_LOGIN_REQUEST :: int where "TYPE_LOGIN_REQUEST = 1"
definition TYPE_LOGIN_RESPOND :: int where "TYPE_LOGIN_RESPOND = 2"
definition TYPE_CALL_REQUEST :: int where "TYPE_CALL_REQUEST = 3"
definition TYPE_CALL_RESPOND :: int where "TYPE_CALL_RESPOND = 4"
definition VERSION :: int where "VERSION = 1000000"

lemmas package_numbers [code_numbers] =
  TYPE_LOGIN_REQUEST_def TYPE_LOGIN_RESPOND_def TYPE_CALL_REQUEST_def TYPE_CALL_RESPOND_def
  VERSION_def

text \<open>\<open>sizeof(Trpc_Package_Net_T)\<close> is 90: 1 + 4 * 4 + 32 + 4 + 32 + 4 + 1.\<close>

definition sizeof_Package_Net :: int where
  "sizeof_Package_Net = 90"

definition PackSize :: "int \<Rightarrow> int" where
  "PackSize dataLen = dataLen + sizeof_Package_Net - 1 + 1"

definition OFF_LEN :: nat where "OFF_LEN = 1"
definition OFF_VERSION :: nat where "OFF_VERSION = 5"
definition OFF_SEQ :: nat where "OFF_SEQ = 9"
definition OFF_TYPE :: nat where "OFF_TYPE = 13"
definition OFF_SERVICE :: nat where "OFF_SERVICE = 17"
definition OFF_RESULT :: nat where "OFF_RESULT = 49"
definition OFF_DATALEN :: nat where "OFF_DATALEN = 85"
definition OFF_DATA :: nat where "OFF_DATA = 89"

lemmas OFF_defs = OFF_LEN_def OFF_VERSION_def OFF_SEQ_def OFF_TYPE_def OFF_SERVICE_def
  OFF_RESULT_def OFF_DATALEN_def OFF_DATA_def

text \<open>\<open>SetServiceName\<close> keeps 31 characters.\<close>

definition SetServiceName :: "string \<Rightarrow> trpc_package \<Rightarrow> trpc_package" where
  "SetServiceName s m = m\<lparr>sServiceName := take 31 (cstr s)\<rparr>"

text \<open>\<open>Encode\<close> returns 0 or -1, and sets the size of the packet and the buffer. It does not
  write the reserved bytes.\<close>

definition Encode :: "trpc_package \<Rightarrow> string \<Rightarrow> int \<Rightarrow> int \<times> int \<times> string" where
  "Encode m buf iMaxBufSize =
     (let iBufSize = PackSize (iDataLen m)
      in if iBufSize > iMaxBufSize then (- 1, iBufSize, buf)
         else
           let buf = write_at buf 0 [PACK_STX];
               buf = write_at buf OFF_LEN (TRPC_PUT_INT32 iBufSize);
               buf = write_at buf OFF_VERSION (TRPC_PUT_INT32 (iVersion m));
               buf = write_at buf OFF_SEQ (TRPC_PUT_INT32 (iSeqNo m));
               buf = write_at buf OFF_TYPE (TRPC_PUT_INT32 (iMsgType m));
               buf = write_at buf OFF_SERVICE (strncpy (sServiceName m) 32);
               buf = write_at buf OFF_RESULT (TRPC_PUT_INT32 (iResult m));
               buf = write_at buf OFF_DATALEN (TRPC_PUT_INT32 (iDataLen m));
               buf = (if iDataLen m > 0
                      then write_at buf OFF_DATA (read_at (sData m) 0 (nat (iDataLen m))) else buf);
               buf = write_at buf (nat (int OFF_DATA + iDataLen m)) [PACK_ETX]
           in (0, iBufSize, buf))"

text \<open>\<open>Decode\<close> fills the structure and compares the data length with the size of the packet;
  \<open>sData\<close> points into the buffer.\<close>

definition Decode :: "string \<Rightarrow> int \<Rightarrow> int \<times> trpc_package" where
  "Decode buf iBufSize =
     (let m = \<lparr>cStx = mem buf 0,
               iLen = TRPC_GET_INT32 (read_at buf OFF_LEN 4),
               iVersion = TRPC_GET_INT32 (read_at buf OFF_VERSION 4),
               iSeqNo = TRPC_GET_INT32 (read_at buf OFF_SEQ 4),
               iMsgType = TRPC_GET_INT32 (read_at buf OFF_TYPE 4),
               sServiceName = cstr (take 31 (read_at buf OFF_SERVICE 32)),
               iResult = TRPC_GET_INT32 (read_at buf OFF_RESULT 4),
               iDataLen = TRPC_GET_INT32 (read_at buf OFF_DATALEN 4),
               sData = drop OFF_DATA buf\<rparr>
      in if iDataLen m \<noteq> iBufSize - int OFF_DATA - 1 then (- 1, m) else (0, m))"

text \<open>What \<open>get_error_text\<close> holds after a failure.\<close>

definition Encode_error_text :: "trpc_package \<Rightarrow> int \<Rightarrow> string" where
  "Encode_error_text m iMaxBufSize =
     ''iBufSize=='' @ show_int (PackSize (iDataLen m)) @ '', but iMaxBufSize=='' @ show_int iMaxBufSize"

definition Decode_error_text :: "trpc_package \<Rightarrow> int \<Rightarrow> string" where
  "Decode_error_text m iBufSize =
     ''_stMsg.iDataLen=='' @ show_int (iDataLen m) @ '', but iDataLen=='' @
     show_int (iBufSize - int OFF_DATA - 1)"

section \<open>Encoding, then decoding\<close>

definition package_ok :: "trpc_package \<Rightarrow> bool" where
  "package_ok m \<longleftrightarrow>
     in_i32 (iVersion m) \<and> in_i32 (iSeqNo m) \<and> in_i32 (iMsgType m) \<and> in_i32 (iResult m) \<and>
     0 \<le> iDataLen m \<and> in_i32 (PackSize (iDataLen m)) \<and>
     NUL \<notin> set (sServiceName m) \<and> length (sServiceName m) \<le> 31"

lemma net_get_put_exact: "in_i32 x \<Longrightarrow> TRPC_GET_INT32 (TRPC_PUT_INT32 x) = x"
  using net.get_put_exact [of x "[]"] by simp

lemma Encode_too_big: "PackSize (iDataLen m) > n \<Longrightarrow> Encode m buf n = (- 1, PackSize (iDataLen m), buf)"
  by (simp add: Encode_def)

lemma Encode_fits:
  "PackSize (iDataLen m) \<le> n \<Longrightarrow> \<exists>buf'. Encode m buf n = (0, PackSize (iDataLen m), buf')"
  by (simp add: Encode_def Let_def)

lemma cstr_take_31: "NUL \<notin> set s \<Longrightarrow> length s \<le> 31 \<Longrightarrow> cstr (take 31 (strncpy s 32)) = s"
proof -
  assume s: "NUL \<notin> set s" and l: "length s \<le> 31"
  have "take 31 (strncpy s 32) = s @ replicate (31 - length s) NUL"
    using l by (simp add: strncpy_def min_def)
  then show ?thesis
    using s by (cases "31 - length s") (simp_all add: cstr_id cstr_append_NUL)
qed

lemma Decode_Encode_fields:
  assumes ok: "package_ok m" and e: "Encode m buf n = (0, sz, buf')"
  shows "sz = PackSize (iDataLen m)" and "fst (Decode buf' sz) = 0"
    and "snd (Decode buf' sz) = m\<lparr>cStx := PACK_STX, iLen := sz, sData := drop 89 buf'\<rparr>"
    and "read_at buf' 89 (nat (iDataLen m)) = read_at (sData m) 0 (nat (iDataLen m))"
    and "mem buf' (nat sz - 1) = PACK_ETX"
proof -
  have d0: "0 \<le> iDataLen m" using ok by (simp add: package_ok_def)
  define b where "b = write_at (write_at (write_at (write_at (write_at (write_at (write_at
     (write_at buf 0 [PACK_STX]) 1 (TRPC_PUT_INT32 sz)) 5 (TRPC_PUT_INT32 (iVersion m)))
     9 (TRPC_PUT_INT32 (iSeqNo m))) 13 (TRPC_PUT_INT32 (iMsgType m)))
     17 (strncpy (sServiceName m) 32)) 49 (TRPC_PUT_INT32 (iResult m)))
     85 (TRPC_PUT_INT32 (iDataLen m))"
  define c where "c = (if iDataLen m > 0
     then write_at b 89 (read_at (sData m) 0 (nat (iDataLen m))) else b)"
  show sz: "sz = PackSize (iDataLen m)"
    using e by (auto simp: Encode_def Let_def split: if_splits)
  have buf': "buf' = write_at c (89 + nat (iDataLen m)) [PACK_ETX]"
    using e d0 by (auto simp: Encode_def Let_def OFF_defs b_def c_def sz nat_add_distrib split: if_splits)
  have low: "read_at buf' k n = read_at b k n" if "k + n \<le> 89" for k n
    using that by (simp add: buf' c_def read_write_other)
  have i: "in_i32 (iDataLen m)" "in_i32 sz"
    using ok d0 by (auto simp: package_ok_def in_i32_def sz PackSize_def sizeof_Package_Net_def)
  have ints: "TRPC_GET_INT32 (read_at b 1 4) = sz" "TRPC_GET_INT32 (read_at b 5 4) = iVersion m"
    "TRPC_GET_INT32 (read_at b 9 4) = iSeqNo m" "TRPC_GET_INT32 (read_at b 13 4) = iMsgType m"
    "TRPC_GET_INT32 (read_at b 49 4) = iResult m" "TRPC_GET_INT32 (read_at b 85 4) = iDataLen m"
    using ok i unfolding package_ok_def b_def
    by (simp_all add: read_write_other read_write_same net_get_put_exact)
  have name: "cstr (take 31 (read_at b 17 32)) = sServiceName m"
    using ok unfolding package_ok_def b_def
    by (simp add: read_write_other read_write_same cstr_take_31)
  have stx: "mem buf' 0 = PACK_STX"
    by (simp add: buf' c_def b_def mem_write_at)
  have dec: "Decode buf' sz = (0, m\<lparr>cStx := PACK_STX, iLen := sz, sData := drop 89 buf'\<rparr>)"
    unfolding Decode_def Let_def OFF_defs
    by (subst low, simp)+ (simp add: ints [simplified] name stx sz PackSize_def sizeof_Package_Net_def
      trpc_package.equality)
  then show "fst (Decode buf' sz) = 0"
    and "snd (Decode buf' sz) = m\<lparr>cStx := PACK_STX, iLen := sz, sData := drop 89 buf'\<rparr>"
    by simp_all
  show "read_at buf' 89 (nat (iDataLen m)) = read_at (sData m) 0 (nat (iDataLen m))"
    by (cases "0 < iDataLen m") (simp_all add: buf' c_def read_write_other read_write_same)
  show "mem buf' (nat sz - 1) = PACK_ETX"
    using d0 by (simp add: buf' mem_write_at sz PackSize_def sizeof_Package_Net_def nat_add_distrib)
qed

text \<open>\<open>Decode\<close> looks at the first 89 bytes only; the data pointer is the reader's.\<close>

lemma Decode_prefix:
  assumes "read_at b 0 n = read_at b' 0 n" and "89 \<le> n"
  shows "Decode b' sz = (fst (Decode b sz), (snd (Decode b sz))\<lparr>sData := drop 89 b'\<rparr>)"
proof -
  have r: "read_at b' i m = read_at b i m" if "i + m \<le> 89" for i m
    using read_at_prefix [OF assms(1), of i m] that assms(2) by simp
  then have "mem b' 0 = mem b 0" by (simp add: mem_eq_read_at)
  then show ?thesis
    by (simp add: Decode_def Let_def OFF_defs r)
qed

section \<open>Properties\<close>

text \<open>C37: \<open>Encode\<close> refuses a packet larger than the buffer and leaves the buffer alone;
  otherwise \<open>Decode\<close> of the bytes it wrote accepts them and returns every field, and the
  data and the end mark stand where the format puts them.\<close>

theorem Decode_Encode:
  assumes "package_ok m"
  shows "if PackSize (iDataLen m) > n then Encode m buf n = (- 1, PackSize (iDataLen m), buf)
    else (\<exists>buf'. Encode m buf n = (0, PackSize (iDataLen m), buf')
       \<and> Decode buf' (PackSize (iDataLen m))
           = (0, m\<lparr>cStx := PACK_STX, iLen := PackSize (iDataLen m), sData := drop 89 buf'\<rparr>)
       \<and> read_at buf' 89 (nat (iDataLen m)) = read_at (sData m) 0 (nat (iDataLen m))
       \<and> mem buf' (nat (PackSize (iDataLen m)) - 1) = PACK_ETX)"
proof (cases "PackSize (iDataLen m) > n")
  case True
  then show ?thesis by (simp add: Encode_too_big)
next
  case False
  then obtain b where b: "Encode m buf n = (0, PackSize (iDataLen m), b)"
    using Encode_fits by (metis linorder_not_less)
  show ?thesis
    using False b Decode_Encode_fields [OF assms b] by (auto simp: prod_eq_iff)
qed

theorem Decode_Encode_witness:
  "\<exists>buf'. Encode \<lparr>cStx = NUL, iLen = 0, iVersion = VERSION, iSeqNo = 7, iMsgType = 3,
      sServiceName = ''query'', iResult = - 5, iDataLen = 3, sData = ''a=b''\<rparr> [] 32000 = (0, 93, buf')
    \<and> read_at buf' 89 3 = ''a=b''"
  using Decode_Encode [of "\<lparr>cStx = NUL, iLen = 0, iVersion = VERSION, iSeqNo = 7, iMsgType = 3,
      sServiceName = ''query'', iResult = - 5, iDataLen = 3, sData = ''a=b''\<rparr>" 32000 "[]"]
  by (auto simp: package_ok_def in_i32_def PackSize_def sizeof_Package_Net_def VERSION_def
      read_at_in)

end
