(* ===== verification/Middle_Api.thy ===== *)
theory Middle_Api
  imports Relay_Api Trpc_Package
begin

text \<open>
  \<open>CMiddleApi\<close> (\<open>api/middle_api.cpp\<close>): the protocol of the middle servers, packets of
  \<open>CTrpcPackage\<close> after a login. The theory interprets the contract of \<open>Api_Base\<close>, shows
  what a request and a login look like to the peer, what is done with its answers, and
  where a header of less than five bytes leads.
\<close>

section \<open>State and operations\<close>

datatype em_login_status = EM_NO_CONNECT | EM_CONNECTING | EM_SENDING | EM_RECVING | EM_LOGIN_OK

fun login_status_no :: "em_login_status \<Rightarrow> int" where
  "login_status_no EM_NO_CONNECT = 1"
| "login_status_no EM_CONNECTING = 2"
| "login_status_no EM_SENDING = 3"
| "login_status_no EM_RECVING = 4"
| "login_status_no EM_LOGIN_OK = 5"

record middle_api = api_base +
  m_login_status :: em_login_status
  m_is_head :: bool
  m_seq_no :: int
  m_user :: string
  m_passwd :: string

type_synonym middle_world = "middle_api world"

definition middle_api_init :: "string \<Rightarrow> string \<Rightarrow> int \<Rightarrow> string \<Rightarrow> string \<Rightarrow> int \<Rightarrow> int \<Rightarrow> middle_api" where
  "middle_api_init idc ip port user passwd index time_out =
     api_base.extend (api_base_init idc ip port index time_out)
       \<lparr>m_login_status = EM_NO_CONNECT, m_is_head = False, m_seq_no = 0, m_user = user, m_passwd = passwd\<rparr>"

text \<open>The package a request is put into; what the constructor of the package leaves open is not
  written by \<open>Encode\<close>.\<close>

definition in_pack :: "int \<Rightarrow> int \<Rightarrow> string \<Rightarrow> int \<Rightarrow> string \<Rightarrow> trpc_package" where
  "in_pack seq msg_type service data_len data =
     SetServiceName service
       \<lparr>cStx = NUL, iLen = 0, iVersion = VERSION, iSeqNo = seq, iMsgType = msg_type, sServiceName = [],
        iResult = 0, iDataLen = data_len, sData = data\<rparr>"

text \<open>\<open>_seq_no++\<close>, \<open>Encode\<close> into the process buffer, and the error it can report.\<close>

definition encode_package :: "int \<Rightarrow> string \<Rightarrow> int \<Rightarrow> string \<Rightarrow> (middle_world, unit) op" where
  "encode_package msg_type service data_len data = (\<lambda>(k, s).
     let inPack = in_pack (m_seq_no s) msg_type service data_len data;
         (ret, buf_size, buf) = Encode inPack (process_buf s) MAX_PACKET_LEN;
         s = s\<lparr>m_seq_no := i32 (m_seq_no s + 1), process_buf := buf, process_total := buf_size\<rparr>
     in if ret \<noteq> 0
        then (Inl (THROW CServerException ERR_PACKET_ERROR
               (''encode packet error: '' @ Encode_error_text inPack MAX_PACKET_LEN)), (k, s))
        else (Inr (), (k, s\<lparr>processed := 0\<rparr>)))"

text \<open>A null service name, a null packet with a length, and a negative length are accesses
  through a bad pointer.\<close>

definition middle_encode :: "string option \<Rightarrow> int \<Rightarrow> string option \<Rightarrow> (middle_world, unit) op" where
  "middle_encode packet packet_len other_info =
     (case (packet, other_info) of
        (Some p, Some service) \<Rightarrow>
          if packet_len < - 89 then throwS MemoryFault
          else encode_package TYPE_CALL_REQUEST service packet_len p
      | (None, Some service) \<Rightarrow>
          if packet_len > 0 \<and> PackSize packet_len \<le> MAX_PACKET_LEN \<or> packet_len < - 89 then throwS MemoryFault
          else encode_package TYPE_CALL_REQUEST service packet_len []
      | (_, None) \<Rightarrow> throwS MemoryFault)"

text \<open>The checks on an answer, shared by \<open>_decode\<close> and \<open>_decode_login_packet\<close>; the text of an
  error answer is read up to its first \<open>NUL\<close>.\<close>

definition check_answer :: "int \<Rightarrow> string \<Rightarrow> int \<Rightarrow> fault + trpc_package" where
  "check_answer msg_type buf buf_size =
     (let (ret, outPack) = Decode buf buf_size
      in if ret \<noteq> 0
         then Inl (THROW CServerException ERR_PACKET_ERROR (''Decode: '' @ Decode_error_text outPack buf_size))
         else if iMsgType outPack \<noteq> msg_type
         then Inl (THROW CServerException ERR_PACKET_ERROR
                (''Respond MsgType('' @ show_int (iMsgType outPack) @ '') != TYPE_LOGIN_RESPOND''))
         else if iResult outPack \<noteq> 0
         then Inl (THROW CServerException ERR_SERVER_ERROR (''Login error: '' @ cstr (sData outPack)))
         else Inr outPack)"

definition middle_decode :: "string \<Rightarrow> (middle_world, string \<times> int) op" where
  "middle_decode packet = (\<lambda>(k, s).
     case check_answer TYPE_CALL_RESPOND (process_buf s) (process_total s) of
       Inl e \<Rightarrow> (Inl e, (k, s))
     | Inr outPack \<Rightarrow>
         if iDataLen outPack < 0 \<or> iDataLen outPack > MAX_PACKET_LEN - 89 then (Inl MemoryFault, (k, s))
         else (Inr (write_at packet 0 (read_at (sData outPack) 0 (nat (iDataLen outPack))), iDataLen outPack),
               (k, s)))"

text \<open>\<open>Trpc_Login_Body_T\<close>: two fields of 32 bytes, each ending with a \<open>NUL\<close>.\<close>

definition login_body :: "string \<Rightarrow> string \<Rightarrow> string" where
  "login_body user passwd =
     take 31 (strncpy (cstr user) 32) @ [NUL] @ take 31 (strncpy (cstr passwd) 32) @ [NUL]"

definition encode_login_packet :: "(middle_world, unit) op" where
  "encode_login_packet = (\<lambda>(k, s).
     encode_package TYPE_LOGIN_REQUEST [] 64 (login_body (m_user s) (m_passwd s)) (k, s))"

definition decode_login_packet :: "(middle_world, unit) op" where
  "decode_login_packet = (\<lambda>(k, s).
     case check_answer TYPE_LOGIN_RESPOND (process_buf s) (process_total s) of
       Inl e \<Rightarrow> (Inl e, (k, s))
     | Inr outPack \<Rightarrow> (Inr (), (k, s\<lparr>m_login_status := EM_LOGIN_OK\<rparr>)))"

definition middle_recv_head :: "(middle_world, int) op" where
  "middle_recv_head = (\<lambda>(k, s).
     case sock_read (s_fd s) 5 k of
       (Inl e, k') \<Rightarrow> (Inl e, (k', s))
     | (Inr (sz, bs), k') \<Rightarrow>
         let s = (if bs = [] then s else s\<lparr>process_buf := write_at (process_buf s) 0 bs\<rparr>)
         in if sz < 5
            then (Inl (THROW CSocketException ERR_IPC_ERROR (''read size error: '' @ show_int sz @ '' < 5'')), (k', s))
            else if mem (process_buf s) 0 \<noteq> PACK_STX
            then (Inl (THROW CServerException ERR_PACKET_FMT
                   (''buf[0] == 0x'' @ show_02x (mem (process_buf s) 0) @ '', not STX'')), (k', s))
            else
              let s = s\<lparr>process_total := TRPC_GET_INT32 (read_at (process_buf s) 1 4)\<rparr>
              in if process_total s \<le> 0 \<or> process_total s > MAX_PACKET_LEN
                 then (Inl (THROW CServerException ERR_PACKET_LENGTH
                        (''req packet len error: '' @ show_int (process_total s))), (k', s))
                 else (Inr RECV_HAVE_MORE, (k', s\<lparr>processed := 5, m_is_head := True\<rparr>)))"

definition middle_recv :: "(middle_world, int) op" where
  "middle_recv = (\<lambda>(k, s).
     bindS (if \<not> m_is_head s then middle_recv_head else returnS RECV_HAVE_MORE) (\<lambda>_.
       bindS base_recv (\<lambda>ret.
         if ret = RECV_OK then seqS (objW (\<lambda>s. s\<lparr>m_is_head := False\<rparr>)) (returnS ret) else returnS ret))
     (k, s))"

definition send_login :: "(middle_world, int) op" where
  "send_login =
     bindS base_send (\<lambda>ret.
       if ret \<noteq> SEND_OK then returnS ret
       else seqS (objW (\<lambda>s. s\<lparr>processed := 0, process_total := 0, m_login_status := EM_RECVING\<rparr>)) (returnS ret))"

definition middle_init :: "int \<Rightarrow> (middle_world, int) op" where
  "middle_init keepalive_idle = (\<lambda>(k, s).
     (case m_login_status s of
        EM_NO_CONNECT \<Rightarrow>
          seqS (assertS (\<lambda>(k, s). s_fd s = INVALID_SOCKET))
         (bindS (sysW tcp_sock) (\<lambda>fd.
          seqS (objW (\<lambda>s. s\<lparr>s_fd := fd\<rparr>))
         (seqS (sysW (set_nonblock fd True))
         (seqS (sysW (nonblock_connect fd (a_ip s) (a_port s)))
         (seqS (sysW (set_keep_alive fd 1 keepalive_idle 5 3))
         (seqS set_initing
         (seqS (objW (\<lambda>s. s\<lparr>m_login_status := EM_CONNECTING\<rparr>)) (returnS CONNECTING))))))))
      | EM_CONNECTING \<Rightarrow>
          seqS (sysW (check_connect_status (s_fd s)))
         (seqS encode_login_packet
         (seqS (objW (\<lambda>s. s\<lparr>m_login_status := EM_SENDING\<rparr>)) send_login))
      | EM_SENDING \<Rightarrow> send_login
      | EM_RECVING \<Rightarrow>
          bindS middle_recv (\<lambda>ret.
            if ret \<noteq> RECV_OK then returnS ret else seqS decode_login_packet (returnS INIT_OK))
      | EM_LOGIN_OK \<Rightarrow>
          throwS (THROW CServerException ERR_SYS_UNKNOWN
            (''unknown login status: '' @ show_int (login_status_no (m_login_status s))))) (k, s))"

definition middle_fini :: "bool \<Rightarrow> (middle_world, unit) op" where
  "middle_fini force_close = (\<lambda>(k, s).
     if force_close then
       bindS (sysW (close (s_fd s))) (\<lambda>fd.
         objW (\<lambda>s. s\<lparr>m_login_status := EM_NO_CONNECT, m_is_head := False, m_seq_no := 0, s_fd := fd,
                       a_is_init := False\<rparr>)) (k, s)
     else (Inr (), (k, s)))"

definition middle_vtable :: "int \<Rightarrow> middle_api vtable" where
  "middle_vtable keepalive_idle =
     \<lparr>v_init = middle_init keepalive_idle, v_fini = middle_fini, v_encode = middle_encode,
      v_decode = middle_decode, v_recv = middle_recv\<rparr>"

section \<open>The contract\<close>

lemma middle_updates [simp]:
  "same_call s (s'\<lparr>m_login_status := x\<rparr>) = same_call s s'"
  "same_call s (s'\<lparr>m_is_head := b\<rparr>) = same_call s s'"
  "same_call s (s'\<lparr>m_seq_no := n\<rparr>) = same_call s s'"
  by (simp_all add: same_call_def)

lemma recv_keeps_updates [simp]:
  "recv_keeps s (s'\<lparr>m_login_status := x\<rparr>) = recv_keeps s s'"
  "recv_keeps s (s'\<lparr>m_is_head := b\<rparr>) = recv_keeps s s'"
  "recv_keeps s (s'\<lparr>m_seq_no := n\<rparr>) = recv_keeps s s'"
  "recv_keeps s (s'\<lparr>processed := n\<rparr>) = recv_keeps s s'"
  "recv_keeps s (s'\<lparr>process_total := n\<rparr>) = recv_keeps s s'"
  "recv_keeps s (s'\<lparr>process_buf := bs\<rparr>) = recv_keeps s s'"
  by (simp_all add: recv_keeps_def)

lemma recv_keeps_refl [simp]: "recv_keeps s s"
  by (simp add: recv_keeps_def)

lemma encode_package_keeps:
  "encode_package t sv n d (k, s) = (u, (k', s')) \<Longrightarrow> k' = k \<and> recv_keeps s s'"
  by (auto simp: encode_package_def Let_def split: prod.splits if_splits)

lemma middle_encode_keeps:
  "middle_encode p n i (k, s) = (u, (k', s')) \<Longrightarrow> k' = k \<and> recv_keeps s s'"
  by (auto simp: middle_encode_def throwS_def dest: encode_package_keeps split: option.splits if_splits)

lemma middle_recv_head_keeps: "middle_recv_head (k, s) = (r, (k', s')) \<Longrightarrow> recv_keeps s s'"
  by (auto simp: middle_recv_head_def Let_def split: prod.splits sum.splits if_splits)

lemma middle_recv_eq:
  "middle_recv (k, s) =
     (case (if m_is_head s then (Inr RECV_HAVE_MORE, (k, s)) else middle_recv_head (k, s)) of
        (Inl e, w) \<Rightarrow> (Inl e, w)
      | (Inr _, w) \<Rightarrow>
          (case base_recv w of
             (Inl e, w1) \<Rightarrow> (Inl e, w1)
           | (Inr ret, w1) \<Rightarrow>
               (Inr ret, if ret = RECV_OK then (fst w1, (snd w1)\<lparr>m_is_head := False\<rparr>) else w1)))"
  by (simp add: middle_recv_def bindS_def seqS_def objW_def modS_def returnS_def split: prod.splits sum.splits)

lemma middle_recv_keeps:
  assumes "middle_recv (k, s) = (r, (k', s'))"
  shows "recv_keeps s s'"
proof -
  obtain r1 k1 s1 where h: "(if m_is_head s then (Inr RECV_HAVE_MORE, (k, s)) else middle_recv_head (k, s)) = (r1, (k1, s1))"
    by (cases "if m_is_head s then (Inr RECV_HAVE_MORE, (k, s)) else middle_recv_head (k, s)") auto
  obtain r2 k2 s2 where b: "base_recv (k1, s1) = (r2, (k2, s2))" by (cases "base_recv (k1, s1)") auto
  have "recv_keeps s s1" using h middle_recv_head_keeps by (auto split: if_splits)
  moreover have "recv_keeps s1 s2" using b by (rule base_recv_keeps_call)
  ultimately show ?thesis
    using assms h b recv_keeps_trans [of s s1 s2]
    unfolding middle_recv_eq h by (auto split: sum.splits if_splits)
qed

lemma send_login_eq:
  "send_login w =
     (case base_send w of
        (Inl e, w1) \<Rightarrow> (Inl e, w1)
      | (Inr ret, w1) \<Rightarrow>
          (Inr ret, if ret = SEND_OK
             then (fst w1, (snd w1)\<lparr>processed := 0, process_total := 0, m_login_status := EM_RECVING\<rparr>) else w1))"
  by (simp add: send_login_def bindS_def seqS_def objW_def modS_def returnS_def split: prod.splits sum.splits)

lemma send_login_keeps:
  assumes "send_login (k, s) = (r, (k', s'))"
  shows "recv_keeps s s'"
proof -
  obtain r1 k1 s1 where b: "base_send (k, s) = (r1, (k1, s1))" by (cases "base_send (k, s)") auto
  obtain n where "s1 = s\<lparr>processed := n\<rparr>" using base_send_frame [OF b] by blast
  then show ?thesis using assms b unfolding send_login_eq by (auto split: sum.splits if_splits)
qed

lemma middle_init_keeps:
  assumes "m_login_status s \<noteq> EM_NO_CONNECT" and "middle_init i (k, s) = (r, (k', s'))"
  shows "recv_keeps s s'"
proof (cases "m_login_status s")
  case EM_CONNECTING
  obtain r1 k1 where c: "check_connect_status (s_fd s) k = (r1, k1)" by (cases "check_connect_status (s_fd s) k") auto
  obtain r2 k2 s2 where e: "encode_login_packet (k1, s) = (r2, (k2, s2))" by (cases "encode_login_packet (k1, s)") auto
  have s2: "recv_keeps s s2" using e encode_package_keeps by (auto simp: encode_login_packet_def)
  obtain r3 k3 s3 where l: "send_login (k2, s2\<lparr>m_login_status := EM_SENDING\<rparr>) = (r3, (k3, s3))"
    by (cases "send_login (k2, s2\<lparr>m_login_status := EM_SENDING\<rparr>)") auto
  have "recv_keeps s s3"
    using send_login_keeps [OF l] s2 recv_keeps_trans recv_keeps_updates(1) recv_keeps_refl by blast
  then show ?thesis
    using assms EM_CONNECTING c e l s2
    by (auto simp: middle_init_def sysW_def seqS_def bindS_def objW_def modS_def split: sum.splits)
next
  case EM_SENDING
  then show ?thesis using assms send_login_keeps by (simp add: middle_init_def)
next
  case EM_RECVING
  obtain r1 k1 s1 where b: "middle_recv (k, s) = (r1, (k1, s1))" by (cases "middle_recv (k, s)") auto
  then show ?thesis
    using assms EM_RECVING middle_recv_keeps [OF b]
    by (auto simp: middle_init_def bindS_def seqS_def decode_login_packet_def split: sum.splits if_splits)
next
  case EM_LOGIN_OK
  then show ?thesis using assms by (auto simp: middle_init_def throwS_def)
qed (use assms in simp)

lemma middle_connect_frame:
  assumes "m_login_status s = EM_NO_CONNECT" and "middle_init i (k, s) = (r, (k', s'))"
  shows "same_call s s' \<and> a_is_init s' = a_is_init s \<and> (a_status s' = a_status s \<or> a_status s' = EM_INITING)"
  using assms
  by (auto simp: middle_init_def set_initing_def assertS_def world_ops sysW_def
      split: prod.splits sum.splits if_splits)

interpretation middle: api_protocol "middle_vtable i"
proof (unfold_locales, goal_cases)
  case (1 k s r k' s')
  then have i: "middle_init i (k, s) = (r, (k', s'))" by (simp add: middle_vtable_def)
  show ?case
    using middle_connect_frame [OF _ i] middle_init_keeps [OF _ i]
    by (cases "m_login_status s = EM_NO_CONNECT") (auto simp: recv_keeps_def)
next
  case (2 b k s)
  then show ?case
    by (simp add: middle_vtable_def middle_fini_def world_ops sysW_def close_def)
next
  case (3 k s u k' s')
  then show ?case
    by (auto simp: middle_vtable_def middle_fini_def world_ops sysW_def close_def split: if_splits)
next
  case (4 p n i k s u k' s')
  then show ?case using middle_encode_keeps by (auto simp: middle_vtable_def recv_keeps_def)
next
  case (5 pk k s q k' s')
  then show ?case by (auto simp: middle_vtable_def middle_decode_def split: sum.splits if_splits)
next
  case (6 k s r k' s')
  then show ?case using middle_recv_keeps by (simp add: middle_vtable_def)
qed

section \<open>Sending a request\<close>

lemma encode_package_result:
  assumes "encode_package t sv n d (k, s) = (Inr (), (k', s'))"
  shows "\<exists>b. Encode (in_pack (m_seq_no s) t sv n d) (process_buf s) MAX_PACKET_LEN = (0, PackSize n, b)
    \<and> s' = s\<lparr>m_seq_no := i32 (m_seq_no s + 1), process_buf := b, process_total := PackSize n, processed := 0\<rparr>
    \<and> PackSize n \<le> MAX_PACKET_LEN"
proof -
  obtain r sz b where e: "Encode (in_pack (m_seq_no s) t sv n d) (process_buf s) MAX_PACKET_LEN = (r, sz, b)"
    by (cases "Encode (in_pack (m_seq_no s) t sv n d) (process_buf s) MAX_PACKET_LEN") auto
  have r: "r = 0" using assms e by (auto simp: encode_package_def Let_def split: if_splits)
  have "iDataLen (in_pack (m_seq_no s) t sv n d) = n" by (simp add: in_pack_def SetServiceName_def)
  then have "sz = PackSize n" "PackSize n \<le> MAX_PACKET_LEN"
    using e r by (auto simp: Encode_def Let_def split: if_splits)
  then show ?thesis
    using assms e r by (auto simp: encode_package_def Let_def)
qed

lemma in_pack_ok:
  assumes "in_i32 seq" and "in_i32 t" and "0 \<le> n" and "PackSize n \<le> MAX_PACKET_LEN"
  shows "package_ok (in_pack seq t sv n d)"
proof -
  have "NUL \<notin> set (take 31 (cstr sv))" using NUL_notin_cstr [of sv] by (metis in_set_takeD)
  then show ?thesis
    using assms
    by (simp add: package_ok_def in_pack_def SetServiceName_def VERSION_def in_i32_def PackSize_def
        sizeof_Package_Net_def MAX_PACKET_LEN_def)
qed

text \<open>What a logged-in connection has in its buffer after \<open>process\<close>.\<close>

lemma middle_request_ready:
  assumes "a_status s0 = EM_READY" and "a_is_init s0" and "a_req_packet s0 = Some p" and "a_req_len s0 = int n"
    and "a_other_info s0 = Some sv" and "int n + 90 \<le> MAX_PACKET_LEN"
  shows "\<exists>b. Encode (in_pack (m_seq_no s0) TYPE_CALL_REQUEST sv (int n) p) (process_buf s0) MAX_PACKET_LEN
        = (0, int n + 90, b)
     \<and> api_process (middle_vtable i) (k, s0) = (Inr INIT_OK, (k, s0\<lparr>m_seq_no := i32 (m_seq_no s0 + 1),
          process_buf := b, process_total := int n + 90, processed := 0, a_status := EM_SEND\<rparr>))"
proof -
  have "iDataLen (in_pack (m_seq_no s0) TYPE_CALL_REQUEST sv (int n) p) = int n"
    by (simp add: in_pack_def SetServiceName_def)
  moreover have sz: "PackSize (int n) = int n + 90" by (simp add: PackSize_def sizeof_Package_Net_def)
  ultimately obtain b where b: "Encode (in_pack (m_seq_no s0) TYPE_CALL_REQUEST sv (int n) p) (process_buf s0) MAX_PACKET_LEN
        = (0, int n + 90, b)"
    using Encode_fits [of "in_pack (m_seq_no s0) TYPE_CALL_REQUEST sv (int n) p"] assms(6) by auto
  show ?thesis
    using assms b
    by (intro exI [of _ b])
      (simp add: api_process_eq process_initing_eq api_init_eq middle_vtable_def middle_encode_def encode_package_def)
qed

section \<open>Receiving an answer\<close>

lemma process_read_middle:
  assumes "a_status s = EM_READ" and "m_is_head s"
  shows "api_process (middle_vtable i) (k, s) =
     (case base_recv (k, s) of
        (Inl e, w1) \<Rightarrow> (Inl e, w1)
      | (Inr ret, w1) \<Rightarrow>
          (Inr ret, if ret = RECV_OK then (fst w1, (snd w1)\<lparr>m_is_head := False, a_status := EM_READ_OK\<rparr>) else w1))"
  using assms
  by (simp add: api_process_eq process_read_eq middle_vtable_def middle_recv_eq split: prod.splits sum.splits)

lemma until_process_middle:
  assumes "a_status s = EM_READ" and "m_is_head s"
    and "until m RECV_HAVE_MORE base_recv (k, s) = (Inr RECV_OK, (k', s'))"
  shows "until m RECV_HAVE_MORE (api_process (middle_vtable i)) (k, s)
    = (Inr RECV_OK, (k', s'\<lparr>m_is_head := False, a_status := EM_READ_OK\<rparr>))"
  using assms
proof (induction m arbitrary: k s)
  case 0
  then show ?case by (simp add: process_read_middle)
next
  case (Suc m)
  obtain r1 k1 s1 where b: "base_recv (k, s) = (r1, (k1, s1))" by (cases "base_recv (k, s)") auto
  obtain bs n where s1: "s1 = s\<lparr>process_buf := bs, processed := n\<rparr>" using base_recv_frame [OF b] by blast
  show ?case
  proof (cases "r1 = Inr RECV_HAVE_MORE")
    case True
    then show ?thesis
      using Suc.prems b s1 Suc.IH [of s1 k1] by (simp add: bindS_def process_read_middle code_numbers)
  next
    case False
    then show ?thesis
      using Suc.prems b by (cases r1) (auto simp: bindS_def process_read_middle)
  qed
qed

text \<open>The first five bytes: the start mark and the length of the whole packet.\<close>

definition packet_head :: "int \<Rightarrow> string" where
  "packet_head n = PACK_STX # TRPC_PUT_INT32 n"

lemma packet_head_facts:
  "length (packet_head n) = 5" "mem (packet_head n) 0 = PACK_STX"
  "in_i32 n \<Longrightarrow> TRPC_GET_INT32 (read_at (packet_head n) 1 4) = n"
  using net.get_put_exact [of n "[]"] by (simp_all add: packet_head_def mem_def read_at_in)

lemma middle_head_step:
  assumes "is_ok (s_fd s)" and "k_read k (s_fd s) = Inr c # q" and "5 \<le> length c" and "data_only q"
    and "stream (Inr c # q) = packet_head m @ rest" and "0 < m" and "m \<le> MAX_PACKET_LEN" and "process_buf s = []"
  shows "\<exists>k1. middle_recv_head (k, s) = (Inr RECV_HAVE_MORE, (k1, s\<lparr>process_buf := packet_head m,
      processed := 5, process_total := m, m_is_head := True\<rparr>))
    \<and> data_only (k_read k1 (s_fd s)) \<and> stream (k_read k1 (s_fd s)) = rest
    \<and> k_read k1 (s_fd s) = (if length c \<le> 5 then q else Inr (drop 5 c) # q)"
proof -
  have c: "take 5 c = packet_head m"
    using arg_cong [OF assms(5), of "take 5"] assms(3) packet_head_facts(1) [of m] by simp
  have t: "drop 5 c @ stream q = rest"
    using arg_cong [OF assms(5), of "drop 5"] assms(3) packet_head_facts(1) [of m] by simp
  define q1 where "q1 = (if length c \<le> 5 then q else Inr (drop 5 c) # q)"
  have tc: "take_chunk (Inr c # q) 5 = (Inr (take 5 c), q1)"
    using assms(3) by (auto simp: q1_def)
  have ne: "packet_head m \<noteq> []" by (simp add: packet_head_def)
  have rd: "sock_read (s_fd s) 5 k = (Inr (5, packet_head m), k\<lparr>k_read := (k_read k)(s_fd s := q1)\<rparr>)"
    using assms(1-3) tc ne packet_head_facts(1) [of m]
    by (simp add: sock_read_def sys_read_def c del: take_chunk.simps)
  have "in_i32 m" using assms(6,7) by (simp add: in_i32_def MAX_PACKET_LEN_def)
  note h = packet_head_facts(1,2) [of m] packet_head_facts(3) [OF this]
  have "data_only q1 \<and> stream q1 = rest"
    using t assms(3,4) by (auto simp: q1_def)
  then show ?thesis
    using rd assms(6-8) h ne q1_def by (simp add: middle_recv_head_def write_at_Nil Let_def del: One_nat_def)
qed

lemma middle_receive:
  assumes "a_status s = EM_READ" and "\<not> m_is_head s" and "process_buf s = []" and "is_ok (s_fd s)"
    and "k_read k (s_fd s) = Inr c # q" and "5 \<le> length c" and "data_only q"
    and "stream (Inr c # q) = packet_head (int sz) @ body @ rest" and "length body + 5 = sz" and "body \<noteq> []"
    and "int sz \<le> MAX_PACKET_LEN"
  shows "\<exists>k' s'. until sz RECV_HAVE_MORE (api_process (middle_vtable i)) (k, s) = (Inr RECV_OK, (k', s'))
    \<and> read_at (process_buf s') 0 sz = packet_head (int sz) @ body \<and> process_total s' = int sz
    \<and> a_status s' = EM_READ_OK \<and> stream (k_read k' (s_fd s)) = rest"
proof -
  define s1 where "s1 = s\<lparr>process_buf := packet_head (int sz), processed := 5, process_total := int sz, m_is_head := True\<rparr>"
  have pos: "0 < int sz" "5 < sz" using assms(9,10) by (cases body; simp)+
  obtain k1 where h: "middle_recv_head (k, s) = (Inr RECV_HAVE_MORE, (k1, s1))"
    "data_only (k_read k1 (s_fd s))" "stream (k_read k1 (s_fd s)) = body @ rest"
    using middle_head_step [OF assms(4-8) pos(1) assms(11,3)] by (auto simp: s1_def)
  have s1: "s_fd s1 = s_fd s" "a_status s1 = EM_READ" "m_is_head s1" "received s1 = packet_head (int sz)"
    "processed s1 = 5" "process_total s1 = int sz"
    using assms(1) packet_head_facts(1) by (simp_all add: s1_def received_def read_at_in)
  have "buf_ok s1" using assms(11) pos s1 by (simp add: buf_ok_def)
  then obtain k' pb where u: "until sz RECV_HAVE_MORE base_recv (k1, s1)
      = (Inr RECV_OK, (k', s1\<lparr>process_buf := pb, processed := process_total s1\<rparr>))"
    "read_at pb 0 sz = packet_head (int sz) @ take (nat (int sz - 5)) (body @ rest)"
    "stream (k_read k' (s_fd s)) = drop (nat (int sz - 5)) (body @ rest)"
    using recv_until_ok [of s1 k1 sz] h assms(4,9) s1 pos by auto
  have n5: "nat (int sz - 5) = length body" using assms(9) by simp
  define s2 where "s2 = s1\<lparr>process_buf := pb, processed := process_total s1, m_is_head := False, a_status := EM_READ_OK\<rparr>"
  have p: "api_process (middle_vtable i) (k, s) = api_process (middle_vtable i) (k1, s1)"
    using assms(1,2) s1(2,3) h(1) by (simp add: api_process_eq process_read_eq middle_vtable_def middle_recv_eq)
  have "until sz RECV_HAVE_MORE (api_process (middle_vtable i)) (k, s)
      = until sz RECV_HAVE_MORE (api_process (middle_vtable i)) (k1, s1)"
    using pos by (cases sz) (simp_all add: bindS_def p)
  also have "\<dots> = (Inr RECV_OK, (k', s2))"
    using until_process_middle [OF s1(2,3) u(1), of i] by (simp add: s2_def)
  finally show ?thesis
    using u(2,3) s1(6) unfolding n5 by (intro exI [of _ k'] exI [of _ s2]) (simp add: s2_def)
qed

text \<open>The bytes of an encoded package, as the peer writes them.\<close>

lemma Encode_head:
  assumes "package_ok m" and "Encode m buf n = (0, sz, b)"
  shows "read_at b 0 5 = packet_head sz"
proof -
  have "mem b 0 = PACK_STX" "read_at b 1 4 = TRPC_PUT_INT32 sz"
  proof -
    have sz: "sz = PackSize (iDataLen m)" using Decode_Encode_fields(1) [OF assms] .
    have "0 \<le> iDataLen m" using assms(1) by (simp add: package_ok_def)
    then show "read_at b 1 4 = TRPC_PUT_INT32 sz" "mem b 0 = PACK_STX"
      using assms(2)
      by (auto simp: Encode_def Let_def OFF_defs sz read_write_other read_write_same mem_write_at split: if_splits)
  qed
  moreover have "read_at b 0 5 = mem b 0 # read_at b 1 4"
    using read_at_split [of b 0 1 4] by (simp add: read_at_def)
  ultimately show ?thesis by (simp add: packet_head_def)
qed

lemma middle_decode_of_encode:
  assumes "package_ok m" and "Encode m buf n = (0, sz, b)" and "iMsgType m = TYPE_CALL_RESPOND"
    and "sz \<le> MAX_PACKET_LEN"
    and "a_status s = EM_READ_OK" and "read_at (process_buf s) 0 (nat sz) = read_at b 0 (nat sz)"
    and "process_total s = sz"
  shows "api_decode (middle_vtable i) pk (k, s) =
     (if iResult m = 0
      then (Inr (write_at pk 0 (read_at (sData m) 0 (nat (iDataLen m))), iDataLen m), (k, s\<lparr>a_status := EM_OVER\<rparr>))
      else (Inl (THROW CServerException ERR_SERVER_ERROR (''Login error: '' @ cstr (drop 89 (process_buf s)))), (k, s)))"
proof -
  note f = Decode_Encode_fields [OF assms(1,2)]
  have d0: "0 \<le> iDataLen m" using assms(1) by (simp add: package_ok_def)
  have sz: "sz = iDataLen m + 90" using f(1) by (simp add: PackSize_def sizeof_Package_Net_def)
  then have n89: "89 \<le> nat sz" using d0 by simp
  have dec: "Decode (process_buf s) sz = (0, m\<lparr>cStx := PACK_STX, iLen := sz, sData := drop 89 (process_buf s)\<rparr>)"
    using Decode_prefix [OF assms(6) [symmetric] n89, of sz] f(2,3) by simp
  have data: "read_at (drop 89 (process_buf s)) 0 (nat (iDataLen m)) = read_at (sData m) 0 (nat (iDataLen m))"
  proof -
    have "read_at (drop 89 (process_buf s)) 0 (nat (iDataLen m)) = read_at (process_buf s) 89 (nat (iDataLen m))"
      by (rule nth_equalityI) (auto simp: read_at_def mem_def add.commute)
    also have "\<dots> = read_at b 89 (nat (iDataLen m))"
      using read_at_prefix [OF assms(6), of 89 "nat (iDataLen m)"] sz d0 by simp
    finally show ?thesis using f(4) by simp
  qed
  show ?thesis
    using assms(3-5,7) dec data d0 sz
    by (simp add: api_decode_eq middle_vtable_def middle_decode_def check_answer_def)
qed

section \<open>Properties\<close>

text \<open>Releasing a connection, of either protocol, in any state whatever, forced or not,
  always succeeds and leaves it at rest; a forced release also closes its socket, exactly
  once. A connection at rest can be taken and given a new request, whatever its socket
  does.\<close>

theorem released_api_is_reusable:
  "(\<exists>k' s'. set_free (middle_vtable i) b (k, s) = (Inr (), (k', s')) \<and> at_rest s'
      \<and> (if b then s_fd s' = INVALID_SOCKET \<and> k_closed k' = k_closed k @ (if s_fd s = INVALID_SOCKET then [] else [s_fd s]) else True)
      \<and> (\<forall>k'' p n info. \<exists>w. seqS (set_used (middle_vtable i)) (api_encode p n info) (k'', s') = (Inr (), w)
            \<and> a_is_used (snd w) \<and> a_status (snd w) = EM_READY \<and> a_req_packet (snd w) = p))
   \<and> (\<exists>k' s'. set_free (relay_vtable i) b (k, t) = (Inr (), (k', s')) \<and> at_rest s'
      \<and> (if b then s_fd s' = INVALID_SOCKET \<and> k_closed k' = k_closed k @ (if s_fd t = INVALID_SOCKET then [] else [s_fd t]) else True)
      \<and> (\<forall>k'' p n info. \<exists>w. seqS (set_used (relay_vtable i)) (api_encode p n info) (k'', s') = (Inr (), w)
            \<and> a_is_used (snd w) \<and> a_status (snd w) = EM_READY \<and> a_req_packet (snd w) = p))"
  using middle.set_free_rest [of i b k s] relay.set_free_rest [of i b k t]
    middle.take_and_encode relay.take_and_encode by (metis snd_conv)

text \<open>C23: an event moves a connection of either protocol along the automaton
  READY/FREE/INITING, SEND, READ, READ_OK only, forward exactly when the step of the
  protocol completes, and never touches the request being served.\<close>

theorem process_follows_automaton:
  "(case api_process (middle_vtable i) (k, s) of (r, (k', s')) \<Rightarrow>
      same_call s s' \<and> status_step (a_status s) r (a_status s'))
   \<and> (case api_process (relay_vtable i) (k, t) of (r, (k', t')) \<Rightarrow>
      same_call t t' \<and> status_step (a_status t) r (a_status t'))"
  using middle.process_step relay.process_step by (simp split: prod.split)

text \<open>C20: a logged-in \<open>CMiddleApi\<close> delivers the request: the next event encodes it, the events of
  a peer that takes bytes send one packet, and \<open>Decode\<close> of the bytes sent gives the peer a
  call request with the service name, the sequence number and exactly the request.\<close>

theorem middle_request_delivered:
  assumes "a_status s0 = EM_READY" and "a_is_init s0" and "a_req_packet s0 = Some p" and "a_req_len s0 = int n"
    and "a_other_info s0 = Some sv" and "int n + 90 \<le> MAX_PACKET_LEN" and "in_i32 (m_seq_no s0)"
    and "is_ok (s_fd s0)" and "takes_for (n + 90) (k_write k (s_fd s0))"
  shows "\<exists>s k1 s1 bs. api_process (middle_vtable i) (k, s0) = (Inr INIT_OK, (k, s))
    \<and> until (n + 89) SEND_HAVE_MORE (api_process (middle_vtable i)) (k, s) = (Inr SEND_OK, (k1, s1))
    \<and> a_status s1 = EM_READ
    \<and> k_sent k1 (s_fd s0) = k_sent k (s_fd s0) @ bs \<and> length bs = n + 90
    \<and> fst (Decode bs (int (length bs))) = 0
    \<and> snd (Decode bs (int (length bs))) = (in_pack (m_seq_no s0) TYPE_CALL_REQUEST sv (int n) p)
         \<lparr>cStx := PACK_STX, iLen := int n + 90, sData := drop 89 bs\<rparr>
    \<and> read_at bs 89 n = read_at p 0 n"
proof -
  define m where "m = in_pack (m_seq_no s0) TYPE_CALL_REQUEST sv (int n) p"
  obtain b where b: "Encode m (process_buf s0) MAX_PACKET_LEN = (0, int n + 90, b)"
    and pr: "api_process (middle_vtable i) (k, s0) = (Inr INIT_OK, (k, s0\<lparr>m_seq_no := i32 (m_seq_no s0 + 1),
          process_buf := b, process_total := int n + 90, processed := 0, a_status := EM_SEND\<rparr>))"
    using middle_request_ready [OF assms(1-6), of i k] by (auto simp: m_def)
  define s where "s = s0\<lparr>m_seq_no := i32 (m_seq_no s0 + 1), process_buf := b, process_total := int n + 90,
      processed := 0, a_status := EM_SEND\<rparr>"
  have m: "package_ok m" "iDataLen m = int n" "sData m = p"
    using assms(6,7) in_pack_ok [of "m_seq_no s0" TYPE_CALL_REQUEST "int n" sv p]
    by (simp_all add: m_def in_pack_def SetServiceName_def TYPE_CALL_REQUEST_def in_i32_def PackSize_def
        sizeof_Package_Net_def)
  note f = Decode_Encode_fields [OF m(1) b]
  define bs where "bs = read_at b 0 (n + 90)"
  have dec: "Decode bs (int n + 90) = (0, m\<lparr>cStx := PACK_STX, iLen := int n + 90, sData := drop 89 bs\<rparr>)"
    using Decode_prefix [of b "n + 90" bs "int n + 90"] f(2,3) by (simp add: bs_def read_at_read_at)
  have "read_at bs 89 n = read_at b 89 n"
    using read_at_prefix [of bs "n + 90" b 89 n] by (simp add: bs_def read_at_read_at)
  then have data: "read_at bs 89 n = read_at p 0 n" using f(4) m(2,3) by simp
  have "a_status s = EM_SEND" "is_ok (s_fd s)" "buf_ok s" "processed s < process_total s" "s_fd s = s_fd s0"
    "takes_for (Suc (n + 89)) (k_write k (s_fd s))" "process_total s - processed s \<le> int (n + 89) + 1"
    "unsent s = bs"
    using assms(6,8,9) by (simp_all add: s_def buf_ok_def unsent_def bs_def nat_add_distrib numeral_eq_Suc)
  then obtain k1 where "until (n + 89) SEND_HAVE_MORE (api_process (middle_vtable i)) (k, s) = (Inr SEND_OK, (k1,
      s\<lparr>a_status := EM_READ, processed := 0, process_total := 0, process_buf := []\<rparr>))"
    "k_sent k1 (s_fd s0) = k_sent k (s_fd s0) @ bs"
    using process_send_until [of s "n + 89" k] by metis
  then show ?thesis
    using pr dec data
    by (intro exI [of _ s] exI [of _ k1] exI [of _ "s\<lparr>a_status := EM_READ, processed := 0, process_total := 0,
          process_buf := []\<rparr>"] exI [of _ bs]) (simp add: s_def m_def bs_def add.commute)
qed

text \<open>A logged-in connection with a request of three bytes for the service \<open>query\<close>.\<close>

definition middle_example :: middle_api where
  "middle_example = (middle_api_init ''sz'' ''1.2.3.4'' 22000 ''u'' ''p'' 0 5)\<lparr>s_fd := 7,
     m_login_status := EM_LOGIN_OK, a_is_init := True, a_is_used := True, a_status := EM_READY,
     a_req_packet := Some ''a=1'', a_req_len := 3, a_other_info := Some ''query''\<rparr>"

lemmas middle_example_defs = middle_example_def middle_api_init_def api_base_init_def sock_init_def
  api_base.defs sock_base.defs middle_api.defs

theorem middle_request_delivered_witness:
  "\<exists>s k1 s1 bs. api_process (middle_vtable 600) (kernel0\<lparr>k_write := (\<lambda>_. replicate 93 (Inr 1))\<rparr>, middle_example)
       = (Inr INIT_OK, (kernel0\<lparr>k_write := (\<lambda>_. replicate 93 (Inr 1))\<rparr>, s))
     \<and> until 92 SEND_HAVE_MORE (api_process (middle_vtable 600)) (kernel0\<lparr>k_write := (\<lambda>_. replicate 93 (Inr 1))\<rparr>, s)
       = (Inr SEND_OK, (k1, s1))
     \<and> k_sent k1 7 = bs \<and> read_at bs 89 3 = ''a=1'' \<and> iMsgType (snd (Decode bs 93)) = TYPE_CALL_REQUEST"
proof -
  have p: "a_status middle_example = EM_READY" "a_is_init middle_example"
    "a_req_packet middle_example = Some ''a=1''" "a_req_len middle_example = int 3"
    "a_other_info middle_example = Some ''query''" "int 3 + 90 \<le> MAX_PACKET_LEN"
    "in_i32 (m_seq_no middle_example)" "is_ok (s_fd middle_example)"
    "takes_for (3 + 90) (k_write (kernel0\<lparr>k_write := (\<lambda>_. replicate 93 (Inr 1))\<rparr>) (s_fd middle_example))"
    by (simp_all add: middle_example_defs MAX_PACKET_LEN_def in_i32_def is_ok_def INVALID_SOCKET_def
        takes_for_def)
  have "s_fd middle_example = 7" "k_sent (kernel0\<lparr>k_write := (\<lambda>_. replicate 93 (Inr 1))\<rparr>) 7 = []"
    by (simp_all add: middle_example_defs kernel0_def)
  then show ?thesis
    using middle_request_delivered [OF p, of 600]
    by (auto simp: in_pack_def SetServiceName_def read_at_in)
qed

text \<open>C21: the answer of a middle server is received and decoded: the bytes of an encoded call
  response, cut anywhere behind the first five bytes and followed by anything, end the events
  with \<open>RECV_OK\<close>; then \<open>decode\<close> yields exactly the data when the result is 0, and otherwise
  throws \<open>CServerException\<close> with the code of a failed service.\<close>

theorem middle_answer_decoded:
  assumes "package_ok m" and "iMsgType m = TYPE_CALL_RESPOND" and "Encode m buf n = (0, sz, b)"
    and "sz \<le> MAX_PACKET_LEN"
    and "a_status s = EM_READ" and "\<not> m_is_head s" and "process_buf s = []" and "is_ok (s_fd s)"
    and "k_read k (s_fd s) = Inr c # q" and "5 \<le> length c" and "data_only q"
    and "stream (Inr c # q) = read_at b 0 (nat sz) @ rest"
  shows "\<exists>k' s'. until (nat sz) RECV_HAVE_MORE (api_process (middle_vtable i)) (k, s) = (Inr RECV_OK, (k', s'))
    \<and> stream (k_read k' (s_fd s)) = rest
    \<and> (if iResult m = 0
       then fst (api_decode (middle_vtable i) pk (k', s'))
              = Inr (write_at pk 0 (read_at (sData m) 0 (nat (iDataLen m))), iDataLen m)
       else (\<exists>text. fst (api_decode (middle_vtable i) pk (k', s'))
              = Inl (THROW CServerException ERR_SERVER_ERROR (''Login error: '' @ text))))"
proof -
  have d0: "0 \<le> iDataLen m" using assms(1) by (simp add: package_ok_def)
  have sz: "sz = iDataLen m + 90"
    using Decode_Encode_fields(1) [OF assms(1,3)] by (simp add: PackSize_def sizeof_Package_Net_def)
  define body where "body = read_at b 5 (nat sz - 5)"
  have "read_at b 0 (nat sz) = read_at b 0 5 @ body"
    using read_at_split [of b 0 5 "nat sz - 5"] sz d0 by (simp add: body_def)
  then have eq: "read_at b 0 (nat sz) = packet_head (int (nat sz)) @ body"
    using Encode_head [OF assms(1,3)] sz d0 by simp
  have len: "length body + 5 = nat sz" "body \<noteq> []" "int (nat sz) \<le> MAX_PACKET_LEN"
    using sz d0 assms(4) by (auto simp: body_def simp flip: length_greater_0_conv)
  have st: "stream (Inr c # q) = packet_head (int (nat sz)) @ body @ rest"
    using assms(12) eq by simp
  obtain k' s' where u: "until (nat sz) RECV_HAVE_MORE (api_process (middle_vtable i)) (k, s) = (Inr RECV_OK, (k', s'))"
    "read_at (process_buf s') 0 (nat sz) = read_at b 0 (nat sz)" "process_total s' = sz"
    "a_status s' = EM_READ_OK" "stream (k_read k' (s_fd s)) = rest"
    using middle_receive [OF assms(5-11) st len, where i = i] eq sz d0 by auto
  then show ?thesis
    using middle_decode_of_encode [OF assms(1,3,2,4) u(4) u(2) u(3), of i pk k'] by auto
qed

theorem middle_answer_decoded_witness:
  "\<exists>b k' s'. Encode \<lparr>cStx = NUL, iLen = 0, iVersion = VERSION, iSeqNo = 0, iMsgType = TYPE_CALL_RESPOND,
        sServiceName = ''query'', iResult = 0, iDataLen = 2, sData = ''ok''\<rparr> [] 32000 = (0, 92, b)
     \<and> until 92 RECV_HAVE_MORE (api_process (middle_vtable 600))
         (kernel0\<lparr>k_read := (\<lambda>_. [Inr (read_at b 0 92)])\<rparr>, middle_example\<lparr>a_status := EM_READ\<rparr>) = (Inr RECV_OK, (k', s'))
     \<and> fst (api_decode (middle_vtable 600) [] (k', s')) = Inr (''ok'', 2)"
proof -
  define m where "m = \<lparr>cStx = NUL, iLen = 0, iVersion = VERSION, iSeqNo = 0, iMsgType = TYPE_CALL_RESPOND,
        sServiceName = ''query'', iResult = 0, iDataLen = 2, sData = ''ok''\<rparr>"
  have m: "package_ok m" "iMsgType m = TYPE_CALL_RESPOND" "PackSize (iDataLen m) = 92" "iResult m = 0"
    "iDataLen m = 2" "sData m = ''ok''"
    by (simp_all add: m_def package_ok_def in_i32_def PackSize_def sizeof_Package_Net_def code_numbers)
  obtain b where b: "Encode m [] 32000 = (0, 92, b)" using Encode_fits [of m 32000 "[]"] m(3) by auto
  define k where "k = kernel0\<lparr>k_read := (\<lambda>_. [Inr (read_at b 0 92)])\<rparr>"
  define s where "s = middle_example\<lparr>a_status := EM_READ\<rparr>"
  have p: "92 \<le> MAX_PACKET_LEN" "a_status s = EM_READ" "\<not> m_is_head s" "process_buf s = []" "is_ok (s_fd s)"
    "k_read k (s_fd s) = Inr (read_at b 0 92) # []" "5 \<le> length (read_at b 0 92)" "data_only []"
    "stream (Inr (read_at b 0 92) # []) = read_at b 0 (nat 92) @ []"
    by (simp_all add: k_def s_def middle_example_defs MAX_PACKET_LEN_def is_ok_def INVALID_SOCKET_def)
  have "\<exists>k' s'. until (nat 92) RECV_HAVE_MORE (api_process (middle_vtable 600)) (k, s) = (Inr RECV_OK, (k', s'))
      \<and> fst (api_decode (middle_vtable 600) [] (k', s')) = Inr (''ok'', 2)"
    using middle_answer_decoded [OF m(1,2) b p, of 600 "[]"] m(4-6)
    by (auto simp: read_at_in write_at_Nil)
  then show ?thesis
    using b unfolding m_def k_def s_def by auto
qed

text \<open>A header that announces 1 to 4 bytes passes the length check of \<open>_recv_head\<close> although five bytes are already
  counted as received: the number of bytes still to read is negative, \<open>read\<close> gets it as a huge \<open>size_t\<close>, and only
  the system's refusal ends the call, with an exception that says nothing of the length.\<close>

lemma middle_short_length_fails:
  assumes "a_status s = EM_READ" and "\<not> m_is_head s" and "process_buf s = []" and "is_ok (s_fd s)"
    and "k_read k (s_fd s) = Inr (packet_head t) # Inr junk # q" and "1 \<le> t" and "t \<le> 4" and "junk \<noteq> []"
  shows "fst (api_process (middle_vtable i) (k, s)) = Inl (THROW CSocketException ERR_IPC_ERROR (''read: '' @ k_strerror k EFAULT))"
proof -
  have i32: "in_i32 t" using assms(6,7) by (simp add: in_i32_def)
  have ne: "packet_head t \<noteq> []" by (simp add: packet_head_def)
  have h: "middle_recv_head (k, s) = (Inr RECV_HAVE_MORE, (k\<lparr>k_read := (k_read k)(s_fd s := Inr junk # q)\<rparr>,
      s\<lparr>process_buf := packet_head t, processed := 5, process_total := t, m_is_head := True\<rparr>))"
    using assms(3-7) ne packet_head_facts(1,2) [of t] packet_head_facts(3) [OF i32]
    by (simp add: middle_recv_head_def sock_read_def sys_read_def write_at_Nil MAX_PACKET_LEN_def
        del: One_nat_def)
  have "terminal_error EFAULT" by (simp add: terminal_error_def code_numbers)
  then show ?thesis
    using assms h
    by (simp add: api_process_eq process_read_eq middle_vtable_def middle_recv_eq base_recv_def
        sock_read_def sys_read_def throw_errno_def)
qed

end
