(* ===== verification/Event_Queue.thy ===== *)
theory Event_Queue
  imports Comm_Func
begin

text \<open>
  \<open>CEventBase\<close> (\<open>sys/event_base.cpp\<close>) and its queues \<open>CEventQueue\<close> and \<open>CEventDecQueue\<close>
  (\<open>sys/event_queue.cpp\<close>): a doubly linked list of objects on a heap, ended by a dummy object and kept in
  descending order of the descriptors. The lists are refined to a map from descriptors to objects, which is the
  contract \<open>fd_table\<close> the monitor uses. The two loops are partial functions: not returning is \<open>None\<close>, and the
  lemmas show that they return on every queue the operations can build.
\<close>

section \<open>\<open>CEventBase\<close>\<close>

definition EV_TIMEOUT :: int where "EV_TIMEOUT = 1"
definition EV_READ :: int where "EV_READ = 2"
definition EV_WRITE :: int where "EV_WRITE = 4"
definition EV_SIGNAL :: int where "EV_SIGNAL = 8"
definition EV_PERSIST :: int where "EV_PERSIST = 16"
definition EV_NO_EVENT :: int where "EV_NO_EVENT = 0"

text \<open>A pointer to an object is an address or \<open>NULL\<close>; the parameter and the function of the handler are opaque
  numbers to the queue. A time is its seconds and microseconds.\<close>

record event =
  ev_next :: "nat option"
  ev_prev :: "nat option"
  ev_fd :: int
  ev_event :: int
  ev_param :: int
  ev_in_queue :: bool
  ev_active_event :: int
  ev_time_out :: int
  ev_init_time :: "int \<times> int"
  ev_handler :: "nat option"

definition DEFAULT_TIME_OUT :: int where "DEFAULT_TIME_OUT = 2"

text \<open>The constructor without arguments leaves \<open>_in_queue\<close>, \<open>_active_event\<close>, \<open>_time_out\<close> and \<open>_init_time\<close>
  as they are; the object it is used for, the end of a queue, never has them read.\<close>

definition event_default :: event where
  "event_default = \<lparr>ev_next = None, ev_prev = None, ev_fd = - 1, ev_event = EV_NO_EVENT, ev_param = 0,
     ev_in_queue = False, ev_active_event = 0, ev_time_out = 0, ev_init_time = (0, 0), ev_handler = None\<rparr>"

definition event_init :: "int \<times> int \<Rightarrow> int \<Rightarrow> int \<Rightarrow> nat option \<Rightarrow> int \<Rightarrow> int \<Rightarrow> event \<Rightarrow> event" where
  "event_init now fd event handler param time_out e =
     e\<lparr>ev_fd := fd, ev_event := event, ev_handler := handler, ev_param := param, ev_init_time := now,
       ev_time_out := (if time_out \<le> 0 then DEFAULT_TIME_OUT * 1000 else i32 (time_out * 1000)),
       ev_in_queue := False\<rparr>"

definition event_new :: "int \<times> int \<Rightarrow> int \<Rightarrow> int \<Rightarrow> nat option \<Rightarrow> int \<Rightarrow> int \<Rightarrow> event" where
  "event_new now fd event handler param time_out =
     event_init now fd event handler param time_out
       (event_default\<lparr>ev_fd := fd, ev_event := event, ev_param := param, ev_handler := handler\<rparr>)"

definition event_update :: "int \<Rightarrow> nat option \<Rightarrow> int \<Rightarrow> event \<Rightarrow> event" where
  "event_update event handler param e = e\<lparr>ev_event := event, ev_handler := handler, ev_param := param\<rparr>"

definition check_event :: "int \<Rightarrow> event \<Rightarrow> bool" where
  "check_event event e = check_mask (ev_event e) event"

definition set_active :: "int \<Rightarrow> event \<Rightarrow> event" where
  "set_active event e = e\<lparr>ev_active_event := set_mask (ev_active_event e) event\<rparr>"

definition clean_active :: "event \<Rightarrow> event" where
  "clean_active e = e\<lparr>ev_active_event := clean_mask (ev_active_event e)\<rparr>"

text \<open>The difference of the times is computed in \<open>long\<close> and stored in an \<open>int\<close>.\<close>

definition is_time_out :: "int \<times> int \<Rightarrow> event \<Rightarrow> bool" where
  "is_time_out now e =
     (if check_event EV_PERSIST e then False
      else ev_time_out e < i32 ((fst now - fst (ev_init_time e)) * 1000000 + snd now - snd (ev_init_time e)))"

section \<open>The queues\<close>

type_synonym event_heap = "nat \<rightharpoonup> event"

record event_queue =
  q_head :: "nat option"
  q_tail :: nat
  q_size :: int

type_synonym queue_world = "event_heap \<times> event_queue"

text \<open>A member read, and changed, through a pointer.\<close>

definition ev_get :: "(event \<Rightarrow> 'a) \<Rightarrow> nat option \<Rightarrow> (queue_world, 'a) op" where
  "ev_get f p = (\<lambda>(h, q). (case Option.bind p h of None \<Rightarrow> Inl MemoryFault | Some e \<Rightarrow> Inr (f e), (h, q)))"

definition ev_set :: "(event \<Rightarrow> event) \<Rightarrow> nat option \<Rightarrow> (queue_world, unit) op" where
  "ev_set f p = (\<lambda>(h, q). case p of
     None \<Rightarrow> (Inl MemoryFault, (h, q))
   | Some a \<Rightarrow> (case h a of None \<Rightarrow> (Inl MemoryFault, (h, q)) | Some e \<Rightarrow> (Inr (), (h(a \<mapsto> f e), q))))"

definition q_head_of :: "(queue_world, nat option) op" where
  "q_head_of = getS (\<lambda>w. q_head (snd w))"

definition set_head :: "nat option \<Rightarrow> (queue_world, unit) op" where
  "set_head p = modS (\<lambda>(h, q). (h, q\<lparr>q_head := p\<rparr>))"

definition add_size :: "int \<Rightarrow> (queue_world, unit) op" where
  "add_size d = modS (\<lambda>(h, q). (h, q\<lparr>q_size := i32 (q_size q + d)\<rparr>))"

text \<open>The constructor puts the dummy object at the address \<open>t\<close>.\<close>

definition queue_new :: "nat \<Rightarrow> event_heap \<Rightarrow> queue_world" where
  "queue_new t h = (h(t \<mapsto> event_default), \<lparr>q_head = Some t, q_tail = t, q_size = 0\<rparr>)"

definition queue_add :: "nat \<Rightarrow> (queue_world, unit) op" where
  "queue_add value =
     bindS (ev_get ev_in_queue (Some value)) (\<lambda>in_queue.
     if in_queue then throwS AssertFail
     else
       bindS q_head_of (\<lambda>head.
       seqS (ev_set (ev_next_update (\<lambda>_. head)) (Some value))
      (seqS (ev_set (ev_prev_update (\<lambda>_. Some value)) head)
      (seqS (set_head (Some value))
      (seqS (add_size 1)
            (ev_set (ev_in_queue_update (\<lambda>_. True)) (Some value)))))))"

definition queue_insert :: "nat \<Rightarrow> nat option \<Rightarrow> nat option \<Rightarrow> (queue_world, unit) op" where
  "queue_insert value prev next =
     bindS (ev_get ev_in_queue (Some value)) (\<lambda>in_queue.
     if in_queue then throwS AssertFail
     else
       seqS (assertS (\<lambda>w. next \<noteq> q_head (snd w)))
      (seqS (assertS (\<lambda>w. prev \<noteq> Some (q_tail (snd w))))
      (seqS (ev_set (\<lambda>e. e\<lparr>ev_next := next, ev_prev := prev\<rparr>) (Some value))
      (seqS (ev_set (ev_next_update (\<lambda>_. Some value)) prev)
      (seqS (ev_set (ev_prev_update (\<lambda>_. Some value)) next)
      (seqS (ev_set (ev_in_queue_update (\<lambda>_. True)) (Some value))
            (add_size 1)))))))"

definition queue_del :: "nat option \<Rightarrow> (queue_world, unit) op" where
  "queue_del value =
     bindS (ev_get ev_in_queue value) (\<lambda>in_queue.
     if \<not> in_queue then throwS AssertFail
     else
       seqS (ev_set (ev_in_queue_update (\<lambda>_. False)) value)
      (seqS (assertS (\<lambda>w. value \<noteq> Some (q_tail (snd w))))
      (bindS q_head_of (\<lambda>head.
       seqS (if value = head
             then bindS (ev_get ev_next value) (\<lambda>next.
                  seqS (set_head next) (ev_set (ev_prev_update (\<lambda>_. None)) next))
             else bindS (ev_get ev_next value) (\<lambda>next.
                  bindS (ev_get ev_prev value) (\<lambda>prev.
                  seqS (ev_set (ev_prev_update (\<lambda>_. prev)) next)
                       (ev_set (ev_next_update (\<lambda>_. next)) prev))))
      (seqS (ev_set (\<lambda>e. e\<lparr>ev_next := None, ev_prev := None\<rparr>) value)
            (add_size (- 1)))))))"

text \<open>\<open>while (size() != 0) del(_head)\<close>.\<close>

partial_function (option) queue_clean :: "queue_world \<Rightarrow> ((fault + unit) \<times> queue_world) option" where
  "queue_clean w =
     (if q_size (snd w) = 0 then Some (Inr (), w)
      else case queue_del (q_head (snd w)) w of
             (Inl f, w') \<Rightarrow> Some (Inl f, w')
           | (Inr _, w') \<Rightarrow> queue_clean w')"

text \<open>The loop of \<open>CEventDecQueue::add\<close>: from \<open>p\<close> on while the next object is not the end and has a greater
  descriptor.\<close>

partial_function (option) dec_walk :: "event_heap \<Rightarrow> nat \<Rightarrow> int \<Rightarrow> nat \<Rightarrow> (fault + nat) option" where
  "dec_walk h tail fd p =
     (case h p of
        None \<Rightarrow> Some (Inl MemoryFault)
      | Some e \<Rightarrow>
          if ev_next e = Some tail then Some (Inr p)
          else (case ev_next e of
                  None \<Rightarrow> Some (Inl MemoryFault)
                | Some n \<Rightarrow> (case h n of
                               None \<Rightarrow> Some (Inl MemoryFault)
                             | Some en \<Rightarrow> if ev_fd en > fd then dec_walk h tail fd n else Some (Inr p))))"

definition equal_fd :: "int \<Rightarrow> fault" where
  "equal_fd fd = THROW CIpcException ERR_SYS_UNKNOWN (''equal fd: '' @ show_int fd)"

definition dec_add :: "nat \<Rightarrow> queue_world \<Rightarrow> ((fault + unit) \<times> queue_world) option" where
  "dec_add value w =
     (case ev_get ev_fd (Some value) w of
        (Inl f, _) \<Rightarrow> Some (Inl f, w)
      | (Inr fd, _) \<Rightarrow>
          if q_head (snd w) = Some (q_tail (snd w)) then Some (queue_add value w)
          else (case (q_head (snd w), ev_get ev_fd (q_head (snd w)) w) of
                  (Some p, (Inr pfd, _)) \<Rightarrow>
                    if pfd < fd then Some (queue_add value w)
                    else if pfd = fd then Some (Inl (equal_fd fd), w)
                    else (case dec_walk (fst w) (q_tail (snd w)) fd p of
                            None \<Rightarrow> None
                          | Some (Inl f) \<Rightarrow> Some (Inl f, w)
                          | Some (Inr p) \<Rightarrow> Some (
                              bindS (ev_get ev_next (Some p)) (\<lambda>next.
                              bindS (ev_get ev_fd next) (\<lambda>nfd.
                                if nfd = fd then throwS (equal_fd fd)
                                else queue_insert value (Some p) next)) w))
                | _ \<Rightarrow> Some (Inl MemoryFault, w)))"

section \<open>The list a queue represents\<close>

text \<open>\<open>seg h pr xs nx\<close>: the objects \<open>xs\<close> are linked in both directions, between \<open>pr\<close> and \<open>nx\<close>.\<close>

fun seg :: "event_heap \<Rightarrow> nat option \<Rightarrow> nat list \<Rightarrow> nat \<Rightarrow> bool" where
  "seg h pr [] nx = True"
| "seg h pr (x # xs) nx =
     ((case h x of None \<Rightarrow> False
       | Some e \<Rightarrow> ev_in_queue e \<and> ev_prev e = pr \<and> ev_next e = Some (hd (xs @ [nx]))) \<and> seg h (Some x) xs nx)"

definition before :: "nat option \<Rightarrow> nat list \<Rightarrow> nat option" where
  "before pr xs = (if xs = [] then pr else Some (last xs))"

text \<open>The rest of a queue, with the object at its end.\<close>

definition rest :: "event_heap \<Rightarrow> nat option \<Rightarrow> nat list \<Rightarrow> nat \<Rightarrow> bool" where
  "rest h pr xs t \<longleftrightarrow> seg h pr xs t \<and> (case h t of None \<Rightarrow> False | Some e \<Rightarrow> ev_prev e = before pr xs \<and> ev_fd e = - 1)"

lemma before_simps [simp]: "before pr [] = pr" "before pr (x # xs) = before (Some x) xs"
  "before pr (xs @ ys) = before (before pr xs) ys"
  by (auto simp: before_def)

lemma hd_append_snoc: "hd ((xs @ ys) @ [t]) = hd (xs @ [hd (ys @ [t])])"
  by (cases xs) simp_all

lemma seg_append: "seg h pr (xs @ ys) t \<longleftrightarrow> seg h pr xs (hd (ys @ [t])) \<and> seg h (before pr xs) ys t"
  by (induction xs arbitrary: pr) (auto simp: hd_append_snoc [simplified] split: option.splits)

lemma rest_append: "rest h pr (xs @ ys) t \<longleftrightarrow> seg h pr xs (hd (ys @ [t])) \<and> rest h (before pr xs) ys t"
  by (auto simp: rest_def seg_append split: option.splits)

lemma rest_Cons: "rest h pr (x # xs) t \<longleftrightarrow>
    (case h x of None \<Rightarrow> False
     | Some e \<Rightarrow> ev_in_queue e \<and> ev_prev e = pr \<and> ev_next e = Some (hd (xs @ [t]))) \<and> rest h (Some x) xs t"
  by (auto simp: rest_def split: option.splits)

lemma seg_frame: "(\<And>x. x \<in> set xs \<Longrightarrow> h' x = h x) \<Longrightarrow> seg h' pr xs nx = seg h pr xs nx"
  by (induction xs arbitrary: pr) auto

lemma rest_frame: "(\<And>x. x \<in> set (xs @ [t]) \<Longrightarrow> h' x = h x) \<Longrightarrow> rest h' pr xs t = rest h pr xs t"
  using seg_frame [of xs h' h pr t] by (simp add: rest_def)

lemma rest_first:
  assumes "rest h pr xs t" shows "\<exists>e. h (hd (xs @ [t])) = Some e \<and> ev_prev e = pr"
  using assms by (cases xs) (auto simp: rest_def split: option.splits)

text \<open>The first object of a rest gets another predecessor.\<close>

lemma rest_prev:
  assumes "rest h pr xs t" and "distinct (xs @ [t])" and "h (hd (xs @ [t])) = Some e"
    and "\<And>x. x \<in> set (xs @ [t]) \<Longrightarrow> x \<noteq> hd (xs @ [t]) \<Longrightarrow> h' x = h x"
    and "h' (hd (xs @ [t])) = Some (e\<lparr>ev_prev := pr'\<rparr>)"
  shows "rest h' pr' xs t"
proof (cases xs)
  case Nil
  then show ?thesis using assms by (simp add: rest_def)
next
  case (Cons y ys)
  have "rest h' (Some y) ys t = rest h (Some y) ys t" using assms(2,4) Cons by (intro rest_frame) auto
  then show ?thesis using assms Cons by (simp add: rest_Cons)
qed

definition fd_at :: "event_heap \<Rightarrow> nat \<Rightarrow> int" where
  "fd_at h x = (case h x of None \<Rightarrow> 0 | Some e \<Rightarrow> ev_fd e)"

definition queue_rep :: "queue_world \<Rightarrow> nat list \<Rightarrow> bool" where
  "queue_rep w xs \<longleftrightarrow>
     (let (h, q) = w
      in q_head q = Some (hd (xs @ [q_tail q])) \<and> distinct (xs @ [q_tail q]) \<and> rest h None xs (q_tail q) \<and>
         q_size q = int (length xs) \<and> length xs < 2 ^ 31)"

text \<open>What an operation on the links leaves alone.\<close>

definition unlinked :: "event \<Rightarrow> event" where
  "unlinked e = e\<lparr>ev_next := None, ev_prev := None, ev_in_queue := False\<rparr>"

definition same_data :: "event_heap \<Rightarrow> event_heap \<Rightarrow> bool" where
  "same_data h h' \<longleftrightarrow> (\<forall>x. map_option unlinked (h' x) = map_option unlinked (h x))"

lemma same_data_fd: "same_data h h' \<Longrightarrow> fd_at h' = fd_at h"
proof
  fix x assume "same_data h h'"
  then have "map_option unlinked (h' x) = map_option unlinked (h x)" by (simp add: same_data_def)
  then have "map_option (ev_fd \<circ> unlinked) (h' x) = map_option (ev_fd \<circ> unlinked) (h x)"
    by (metis option.map_comp)
  then show "fd_at h' x = fd_at h x"
    by (auto simp: fd_at_def unlinked_def split: option.splits)
qed

lemma ev_simps:
  "h a = Some e \<Longrightarrow> ev_get f (Some a) (h, q) = (Inr (f e), (h, q))"
  "h a = Some e \<Longrightarrow> ev_set g (Some a) (h, q) = (Inr (), (h(a \<mapsto> g e), q))"
  by (simp_all add: ev_get_def ev_set_def)

lemmas queue_ops = seqS_def bindS_def q_head_of_def set_head_def add_size_def assertS_def

section \<open>Adding in front and behind an object\<close>

lemma queue_add_rep:
  assumes rep: "queue_rep (h, q) xs" and v: "h v = Some e" "\<not> ev_in_queue e" "ev_prev e = None"
    "v \<notin> set (xs @ [q_tail q])" and len: "Suc (length xs) < 2 ^ 31"
  shows "\<exists>h' q'. queue_add v (h, q) = (Inr (), (h', q')) \<and> queue_rep (h', q') (v # xs) \<and> same_data h h'
    \<and> q_tail q' = q_tail q"
proof -
  define t where "t = q_tail q"
  define y where "y = hd (xs @ [t])"
  have y: "y \<in> set (xs @ [t])" by (cases xs) (simp_all add: y_def)
  then have vy: "v \<noteq> y" using v(4) by (auto simp: t_def)
  have r: "rest h None xs t" "distinct (xs @ [t])" and hd: "q_head q = Some y" and sz: "q_size q = int (length xs)"
    using rep by (simp_all add: queue_rep_def t_def y_def)
  obtain ey where ey: "h y = Some ey" "ev_prev ey = None" using rest_first [OF r(1)] by (auto simp: y_def)
  define h' where "h' = h(v \<mapsto> e\<lparr>ev_next := Some y, ev_in_queue := True\<rparr>, y \<mapsto> ey\<lparr>ev_prev := Some v\<rparr>)"
  define q' where "q' = q\<lparr>q_head := Some v, q_size := q_size q + 1\<rparr>"
  have i: "i32 (q_size q + 1) = q_size q + 1" using sz len by (intro i32_id) (auto simp: in_i32_def)
  have op: "queue_add v (h, q) = (Inr (), (h', q'))"
    using v vy hd ey i unfolding queue_add_def
    by (simp add: queue_ops ev_simps h'_def q'_def fun_upd_twist)
  have "rest h' (Some v) xs t"
    using ey vy v(4) unfolding t_def [symmetric]
    by (intro rest_prev [OF r, of ey]) (auto simp: h'_def y_def [symmetric])
  moreover have "h' v = Some (e\<lparr>ev_next := Some y, ev_in_queue := True\<rparr>)" using vy by (simp add: h'_def)
  ultimately have "rest h' None (v # xs) t" using v(3) by (simp add: rest_Cons y_def)
  moreover have "same_data h h'" using v(1) ey vy by (auto simp: same_data_def h'_def unlinked_def)
  ultimately show ?thesis
    using op v(4) r(2) sz len
    by (intro exI [of _ h'] exI [of _ q']) (auto simp: queue_rep_def q'_def t_def)
qed

lemma queue_insert_rep:
  assumes rep: "queue_rep (h, q) (xs @ p # ys)" and v: "h v = Some e" "\<not> ev_in_queue e"
    "v \<notin> set (xs @ p # ys @ [q_tail q])" and len: "Suc (length (xs @ p # ys)) < 2 ^ 31"
  shows "\<exists>h' q'. queue_insert v (Some p) (Some (hd (ys @ [q_tail q]))) (h, q) = (Inr (), (h', q'))
    \<and> queue_rep (h', q') (xs @ p # v # ys) \<and> same_data h h' \<and> q_tail q' = q_tail q"
proof -
  define t where "t = q_tail q"
  define y where "y = hd (ys @ [t])"
  have y: "y \<in> set (ys @ [t])" by (cases ys) (simp_all add: y_def)
  have d: "distinct (xs @ p # ys @ [t])" and r: "rest h None (xs @ p # ys) t"
    and hd: "q_head q = Some (hd (xs @ [p]))" and sz: "q_size q = int (length (xs @ p # ys))"
    using rep by (auto simp: queue_rep_def t_def hd_append)
  have ne: "v \<noteq> y" "v \<noteq> p" "p \<noteq> y" "v \<noteq> t" "v \<notin> set xs" "y \<notin> set xs" "p \<noteq> t" "v \<notin> set ys" "p \<notin> set xs"
    using y v(3) d by (auto simp: t_def)
  have yh: "Some y \<noteq> q_head q" using hd y d by (cases xs) auto
  obtain ep where ep: "h p = Some ep" "ev_in_queue ep" "ev_prev ep = before None xs"
    and rs: "seg h None xs p" "rest h (Some p) ys t"
    using r by (auto simp: rest_append rest_Cons split: option.splits)
  obtain ey where ey: "h y = Some ey" using rest_first [OF rs(2)] by (auto simp: y_def)
  define h' where "h' = h(v \<mapsto> e\<lparr>ev_next := Some y, ev_prev := Some p, ev_in_queue := True\<rparr>,
    p \<mapsto> ep\<lparr>ev_next := Some v\<rparr>, y \<mapsto> ey\<lparr>ev_prev := Some v\<rparr>)"
  define q' where "q' = q\<lparr>q_size := q_size q + 1\<rparr>"
  have i: "i32 (q_size q + 1) = q_size q + 1" using sz len by (intro i32_id) (auto simp: in_i32_def)
  have op: "queue_insert v (Some p) (Some y) (h, q) = (Inr (), (h', q'))"
    using v ne yh ep ey i unfolding queue_insert_def
    by (simp add: queue_ops ev_simps h'_def q'_def t_def fun_upd_twist)
  have "rest h' (Some v) ys t"
    using ey ne d by (intro rest_prev [OF rs(2), of ey]) (auto simp: h'_def y_def [symmetric])
  moreover have "seg h' None xs p" using rs(1) ne by (subst seg_frame [of xs h' h]) (auto simp: h'_def)
  ultimately have "rest h' None (xs @ p # v # ys) t"
    using ep ne by (simp add: rest_append rest_Cons h'_def y_def)
  moreover have "same_data h h'" using v(1) ep ey ne by (auto simp: same_data_def h'_def unlinked_def)
  ultimately show ?thesis
    using op d ne hd sz len unfolding y_def [symmetric] t_def [symmetric]
    by (intro exI [of _ h'] exI [of _ q']) (auto simp: queue_rep_def q'_def t_def hd_append)
qed

section \<open>Taking out\<close>

definition taken_out :: "event \<Rightarrow> event" where
  "taken_out e = e\<lparr>ev_in_queue := False, ev_next := None, ev_prev := None\<rparr>"

lemma queue_del_first:
  assumes rep: "queue_rep (h, q) (x # ys)"
  shows "\<exists>h' q' e. queue_del (Some x) (h, q) = (Inr (), (h', q')) \<and> queue_rep (h', q') ys \<and> same_data h h'
    \<and> q_tail q' = q_tail q \<and> h x = Some e \<and> h' x = Some (taken_out e)"
proof -
  define t where "t = q_tail q"
  define y where "y = hd (ys @ [t])"
  have y: "y \<in> set (ys @ [t])" by (cases ys) (simp_all add: y_def)
  have d: "distinct (x # ys @ [t])" and r: "rest h None (x # ys) t" and hd: "q_head q = Some x"
    and sz: "q_size q = int (length (x # ys))" "length (x # ys) < 2 ^ 31"
    using rep by (simp_all add: queue_rep_def t_def)
  have ne: "x \<noteq> y" "x \<noteq> t" using y d by auto
  obtain e where e: "h x = Some e" "ev_in_queue e" "ev_next e = Some y" and rs: "rest h (Some x) ys t"
    using r by (auto simp: rest_Cons y_def split: option.splits)
  obtain ey where ey: "h y = Some ey" using rest_first [OF rs] by (auto simp: y_def)
  define h' where "h' = h(x \<mapsto> taken_out e, y \<mapsto> ey\<lparr>ev_prev := None\<rparr>)"
  define q' where "q' = q\<lparr>q_head := Some y, q_size := q_size q - 1\<rparr>"
  have i: "i32 (q_size q - 1) = q_size q - 1" using sz by (intro i32_id) (auto simp: in_i32_def)
  have op: "queue_del (Some x) (h, q) = (Inr (), (h', q'))"
    using e ne hd ey i unfolding queue_del_def
    by (simp add: queue_ops ev_simps h'_def q'_def t_def taken_out_def fun_upd_twist)
  have "rest h' None ys t"
    using ey ne d by (intro rest_prev [OF rs, of ey]) (auto simp: h'_def y_def [symmetric])
  moreover have "same_data h h'" using e ey ne by (auto simp: same_data_def h'_def unlinked_def taken_out_def)
  ultimately show ?thesis
    using op d e ne hd sz unfolding y_def [symmetric] t_def [symmetric]
    by (intro exI [of _ h'] exI [of _ q'] exI [of _ e]) (auto simp: queue_rep_def q'_def t_def y_def h'_def)
qed

lemma queue_del_later:
  assumes rep: "queue_rep (h, q) (xs @ p # x # ys)"
  shows "\<exists>h' q' e. queue_del (Some x) (h, q) = (Inr (), (h', q')) \<and> queue_rep (h', q') (xs @ p # ys) \<and> same_data h h'
    \<and> q_tail q' = q_tail q \<and> h x = Some e \<and> h' x = Some (taken_out e)"
proof -
  define t where "t = q_tail q"
  define y where "y = hd (ys @ [t])"
  have y: "y \<in> set (ys @ [t])" by (cases ys) (simp_all add: y_def)
  have d: "distinct (xs @ p # x # ys @ [t])" and r: "rest h None (xs @ p # x # ys) t"
    and hd: "q_head q = Some (hd (xs @ [p]))" and sz: "q_size q = int (length (xs @ p # x # ys))" "length (xs @ p # x # ys) < 2 ^ 31"
    using rep by (auto simp: queue_rep_def t_def hd_append)
  have ne: "x \<noteq> y" "x \<noteq> t" "p \<noteq> x" "p \<noteq> y" "p \<noteq> t" "x \<notin> set xs" "y \<notin> set xs" "p \<notin> set xs" "x \<notin> set ys"
    using y d by auto
  have xh: "Some x \<noteq> q_head q" using hd d by (cases xs) auto
  obtain ep e where ep: "h p = Some ep" "ev_in_queue ep" "ev_prev ep = before None xs"
    and e: "h x = Some e" "ev_in_queue e" "ev_next e = Some y" "ev_prev e = Some p"
    and rs: "seg h None xs p" "rest h (Some x) ys t"
    using r by (auto simp: rest_append rest_Cons y_def split: option.splits)
  obtain ey where ey: "h y = Some ey" using rest_first [OF rs(2)] by (auto simp: y_def)
  define h' where "h' = h(x \<mapsto> taken_out e, y \<mapsto> ey\<lparr>ev_prev := Some p\<rparr>, p \<mapsto> ep\<lparr>ev_next := Some y\<rparr>)"
  define q' where "q' = q\<lparr>q_size := q_size q - 1\<rparr>"
  have i: "i32 (q_size q - 1) = q_size q - 1" using sz by (intro i32_id) (auto simp: in_i32_def)
  have op: "queue_del (Some x) (h, q) = (Inr (), (h', q'))"
    using e ep ne xh ey i unfolding queue_del_def
    by (simp add: queue_ops ev_simps h'_def q'_def t_def taken_out_def fun_upd_twist)
  have "rest h' (Some p) ys t"
    using ey ne d by (intro rest_prev [OF rs(2), of ey]) (auto simp: h'_def y_def [symmetric])
  moreover have "seg h' None xs p" using rs(1) ne by (subst seg_frame [of xs h' h]) (auto simp: h'_def)
  ultimately have "rest h' None (xs @ p # ys) t" using ep ne by (simp add: rest_append rest_Cons h'_def y_def)
  moreover have "same_data h h'" using e ep ey ne by (auto simp: same_data_def h'_def unlinked_def taken_out_def)
  ultimately show ?thesis
    using op d e ne hd sz unfolding t_def [symmetric]
    by (intro exI [of _ h'] exI [of _ q'] exI [of _ e]) (auto simp: queue_rep_def q'_def t_def h'_def hd_append)
qed

lemma queue_del_rep:
  assumes "queue_rep (h, q) (xs @ x # ys)"
  shows "\<exists>h' q' e. queue_del (Some x) (h, q) = (Inr (), (h', q')) \<and> queue_rep (h', q') (xs @ ys) \<and> same_data h h'
    \<and> q_tail q' = q_tail q \<and> h x = Some e \<and> h' x = Some (taken_out e)"
proof (cases xs rule: rev_cases)
  case Nil
  then show ?thesis using queue_del_first assms by simp
next
  case (snoc zs p)
  then show ?thesis using queue_del_later [of h q zs p x ys] assms by simp
qed

text \<open>\<open>clean\<close> returns on every queue, with every object taken out.\<close>

lemma queue_clean_returns:
  "queue_rep (h, q) xs \<Longrightarrow> \<exists>h' q'. queue_clean (h, q) = Some (Inr (), (h', q')) \<and> queue_rep (h', q') [] \<and> same_data h h'
     \<and> q_tail q' = q_tail q"
proof (induction xs arbitrary: h q)
  case Nil
  then show ?case by (subst queue_clean.simps) (simp add: queue_rep_def same_data_def)
next
  case (Cons x xs)
  obtain h1 q1 e where d: "queue_del (Some x) (h, q) = (Inr (), (h1, q1))" "queue_rep (h1, q1) xs" "same_data h h1"
    "q_tail q1 = q_tail q" using queue_del_first [OF Cons.prems] by blast
  obtain h' q' where c: "queue_clean (h1, q1) = Some (Inr (), (h', q'))" "queue_rep (h', q') []" "same_data h1 h'"
    "q_tail q' = q_tail q1" using Cons.IH [OF d(2)] by blast
  have "q_size q \<noteq> 0" "q_head q = Some x" using Cons.prems by (simp_all add: queue_rep_def)
  then have "queue_clean (h, q) = Some (Inr (), (h', q'))" using d(1) c(1) by (subst queue_clean.simps) simp
  moreover have "same_data h h'" using d(3) c(3) by (simp add: same_data_def)
  ultimately show ?case using c d(4) by auto
qed

section \<open>The descending queue\<close>

definition dec_rep :: "queue_world \<Rightarrow> nat list \<Rightarrow> bool" where
  "dec_rep w xs \<longleftrightarrow> queue_rep w xs \<and> sorted_wrt (\<lambda>x y. fd_at (fst w) y < fd_at (fst w) x) xs \<and>
     (\<forall>x \<in> set xs. 0 \<le> fd_at (fst w) x)"

lemma rest_fd: "rest h pr ys t \<Longrightarrow> h (hd (ys @ [t])) = Some e \<Longrightarrow> ys = [] \<Longrightarrow> ev_fd e = - 1"
  by (simp add: rest_def)

lemma dec_walk_stops:
  assumes "rest h pr (p # ys) t" and "t \<notin> set ys"
  shows "\<exists>as q bs. p # ys = as @ q # bs \<and> dec_walk h t fd p = Some (Inr q)
    \<and> (\<forall>x \<in> set (tl (as @ [q])). fd < fd_at h x) \<and> (bs = [] \<or> fd_at h (hd bs) \<le> fd)"
  using assms
proof (induction ys arbitrary: pr p)
  case Nil
  then obtain e where "h p = Some e" "ev_next e = Some t" by (auto simp: rest_Cons split: option.splits)
  then have "dec_walk h t fd p = Some (Inr p)" by (subst dec_walk.simps) simp
  then show ?case by (intro exI [of _ "[]"] exI [of _ p]) simp
next
  case (Cons y ys)
  obtain e where e: "h p = Some e" "ev_next e = Some y" and r: "rest h (Some p) (y # ys) t"
    using Cons.prems(1) by (auto simp: rest_Cons [of _ _ p] split: option.splits)
  obtain ey where ey: "h y = Some ey" using r by (auto simp: rest_Cons split: option.splits)
  have yt: "y \<noteq> t" "t \<notin> set ys" using Cons.prems(2) by auto
  have f: "fd_at h y = ev_fd ey" using ey by (simp add: fd_at_def)
  show ?case
  proof (cases "fd < ev_fd ey")
    case True
    obtain as q bs where i: "y # ys = as @ q # bs" "dec_walk h t fd y = Some (Inr q)"
      "\<forall>x \<in> set (tl (as @ [q])). fd < fd_at h x" "bs = [] \<or> fd_at h (hd bs) \<le> fd"
      using Cons.IH [OF r yt(2)] by blast
    have w: "dec_walk h t fd p = Some (Inr q)" using e ey yt True i(2) by (subst dec_walk.simps) simp
    have "\<forall>x \<in> set (as @ [q]). fd < fd_at h x"
      using i(1,3) True f by (cases as) auto
    then show ?thesis using i w by (intro exI [of _ "p # as"] exI [of _ q] exI [of _ bs]) simp
  next
    case False
    then have "dec_walk h t fd p = Some (Inr p)" using e ey yt by (subst dec_walk.simps) simp
    then show ?thesis using False f by (intro exI [of _ "[]"] exI [of _ p] exI [of _ "y # ys"]) simp
  qed
qed

lemma sorted_before:
  assumes "sorted_wrt (\<lambda>x y. f y < (f x :: int)) (x # xs)" "y \<in> set (x # xs)"
  shows "f y \<le> f x"
  using assms by auto

text \<open>The position \<open>dec_walk\<close> finds is the one of the descriptor.\<close>

lemma sorted_wrt_insert:
  assumes "sorted_wrt (\<lambda>x y. f y < (f x :: int)) (as @ bs)" and "\<forall>x \<in> set as. k < f x" and "\<forall>x \<in> set bs. f x < k"
    and "f v = k"
  shows "sorted_wrt (\<lambda>x y. f y < f x) (as @ v # bs)"
  using assms by (auto simp: sorted_wrt_append)

lemma dec_rep_insert:
  assumes rep: "dec_rep (h, q) (as @ bs)" and q: "queue_rep (h', q') (as @ v # bs)" and s: "same_data h h'"
    and k: "\<forall>x \<in> set as. fd_at h v < fd_at h x" "\<forall>x \<in> set bs. fd_at h x < fd_at h v" "0 \<le> fd_at h v"
  shows "dec_rep (h', q') (as @ v # bs)"
proof -
  have "fd_at h' = fd_at h" by (rule same_data_fd [OF s])
  moreover have "sorted_wrt (\<lambda>x y. fd_at h y < fd_at h x) (as @ v # bs)"
    using rep k by (intro sorted_wrt_insert [where k = "fd_at h v"]) (simp_all add: dec_rep_def)
  ultimately show ?thesis using rep q k(3) unfolding dec_rep_def fst_conv by auto
qed

lemma dec_add_new:
  assumes rep: "dec_rep (h, q) xs" and v: "h v = Some e" "\<not> ev_in_queue e" "ev_prev e = None" "0 \<le> ev_fd e"
      "v \<notin> set (xs @ [q_tail q])" and len: "Suc (length xs) < 2 ^ 31" and new: "ev_fd e \<notin> fd_at h ` set xs"
  shows "\<exists>h' q' as bs. xs = as @ bs \<and> dec_add v (h, q) = Some (Inr (), (h', q')) \<and> dec_rep (h', q') (as @ v # bs)
    \<and> same_data h h' \<and> q_tail q' = q_tail q"
proof -
  define t where "t = q_tail q"
  have qr: "queue_rep (h, q) xs" and srt: "sorted_wrt (\<lambda>x y. fd_at h y < fd_at h x) xs"
    using rep by (simp_all add: dec_rep_def)
  have fv: "fd_at h v = ev_fd e" using v(1) by (simp add: fd_at_def)
  have front: ?thesis if lt: "\<forall>x \<in> set xs. fd_at h x < ev_fd e"
    and eq: "dec_add v (h, q) = Some (queue_add v (h, q))"
  proof -
    obtain h' q' where a: "queue_add v (h, q) = (Inr (), (h', q'))" "queue_rep (h', q') (v # xs)" "same_data h h'"
      "q_tail q' = q_tail q" using queue_add_rep [OF qr v(1-3,5) len] by blast
    have "dec_rep (h', q') ([] @ v # xs)" using rep a lt v(4) fv by (intro dec_rep_insert [of h q]) simp_all
    then show ?thesis using a eq by (intro exI [of _ h'] exI [of _ q'] exI [of _ "[]"] exI [of _ xs]) simp
  qed
  have g: "ev_get ev_fd (Some v) (h, q) = (Inr (ev_fd e), (h, q))" using v(1) by (simp add: ev_simps)
  show ?thesis
  proof (cases xs)
    case Nil
    then have "q_head q = Some (q_tail q)" using qr by (simp add: queue_rep_def)
    then show ?thesis using Nil g by (intro front) (simp_all add: dec_add_def)
  next
    case (Cons p ys)
    have hd: "q_head q = Some p" "p \<noteq> t" and r: "rest h None (p # ys) t" and d: "distinct (p # ys @ [t])"
      using qr Cons by (auto simp: queue_rep_def t_def)
    obtain ep where ep: "h p = Some ep" using r by (auto simp: rest_Cons split: option.splits)
    have fp: "fd_at h p = ev_fd ep" using ep by (simp add: fd_at_def)
    have gp: "ev_get ev_fd (Some p) (h, q) = (Inr (ev_fd ep), (h, q))" using ep by (simp add: ev_simps)
    show ?thesis
    proof (cases "ev_fd ep < ev_fd e")
      case True
      then have "\<forall>x \<in> set xs. fd_at h x < ev_fd e" using sorted_before [OF srt [unfolded Cons]] fp Cons by fastforce
      then show ?thesis using g gp hd True by (intro front) (simp_all add: dec_add_def t_def)
    next
      case False
      have pe: "ev_fd e < ev_fd ep" using False new fp Cons by force
      obtain as u bs where w: "p # ys = as @ u # bs" "dec_walk h t (ev_fd e) p = Some (Inr u)"
        "\<forall>x \<in> set (tl (as @ [u])). ev_fd e < fd_at h x" "bs = [] \<or> fd_at h (hd bs) \<le> ev_fd e"
        using dec_walk_stops [OF r, of "ev_fd e"] d by auto
      have big: "\<forall>x \<in> set (as @ [u]). ev_fd e < fd_at h x"
        using w(1,3) pe fp by (cases as) auto
      have small: "\<forall>x \<in> set bs. fd_at h x < ev_fd e"
      proof (cases bs)
        case (Cons b bs')
        have "sorted_wrt (\<lambda>x y. fd_at h y < fd_at h x) bs"
          using srt w(1) \<open>xs = p # ys\<close> by (simp add: sorted_wrt_append)
        moreover have "fd_at h b < ev_fd e" using w new Cons \<open>xs = p # ys\<close> by force
        ultimately show ?thesis using Cons by fastforce
      qed simp
      have qr': "queue_rep (h, q) (as @ u # bs)" using qr w(1) Cons by simp
      obtain h' q' where a: "queue_insert v (Some u) (Some (hd (bs @ [q_tail q]))) (h, q) = (Inr (), (h', q'))"
          "queue_rep (h', q') (as @ u # v # bs)" "same_data h h'" "q_tail q' = q_tail q"
        using queue_insert_rep [OF qr' v(1,2)] v(5) len w(1) Cons by auto
      obtain eu where eu: "h u = Some eu" "ev_next eu = Some (hd (bs @ [t]))" and rb: "rest h (Some u) bs t"
        using r unfolding w(1) by (auto simp: rest_append rest_Cons split: option.splits)
      obtain en where en: "h (hd (bs @ [t])) = Some en" using rest_first [OF rb] by blast
      have "ev_fd en \<noteq> ev_fd e"
        using en small rest_fd [OF rb en] v(4) by (cases bs) (auto simp: fd_at_def)
      then have "dec_add v (h, q) = Some (Inr (), (h', q'))"
        using g gp hd pe w(2) eu en a(1)
        by (simp add: dec_add_def t_def [symmetric] queue_ops ev_simps)
      moreover have "dec_rep (h', q') ((as @ [u]) @ v # bs)"
        using rep a(2,3) big small v(4) fv Cons w(1) by (intro dec_rep_insert [of h q]) simp_all
      ultimately show ?thesis
        using a(3,4) Cons w(1) by (intro exI [of _ h'] exI [of _ q'] exI [of _ "as @ [u]"] exI [of _ bs]) simp
    qed
  qed
qed

lemma dec_add_old:
  assumes rep: "dec_rep (h, q) xs" and v: "h v = Some e" "0 \<le> ev_fd e" and old: "ev_fd e \<in> fd_at h ` set xs"
  shows "dec_add v (h, q) = Some (Inl (equal_fd (ev_fd e)), (h, q))"
proof -
  define t where "t = q_tail q"
  have qr: "queue_rep (h, q) xs" and srt: "sorted_wrt (\<lambda>x y. fd_at h y < fd_at h x) xs"
    using rep by (simp_all add: dec_rep_def)
  have g: "ev_get ev_fd (Some v) (h, q) = (Inr (ev_fd e), (h, q))" using v(1) by (simp add: ev_simps)
  obtain p ys where Cons: "xs = p # ys" using old by (cases xs) auto
  have hd: "q_head q = Some p" "p \<noteq> t" and r: "rest h None (p # ys) t" and d: "distinct (p # ys @ [t])"
    using qr Cons by (auto simp: queue_rep_def t_def)
  obtain ep where ep: "h p = Some ep" using r by (auto simp: rest_Cons split: option.splits)
  have fp: "fd_at h p = ev_fd ep" using ep by (simp add: fd_at_def)
  have gp: "ev_get ev_fd (Some p) (h, q) = (Inr (ev_fd ep), (h, q))" using ep by (simp add: ev_simps)
  have ge: "ev_fd e \<le> ev_fd ep" using old sorted_before [OF srt [unfolded Cons]] fp Cons by auto
  show ?thesis
  proof (cases "ev_fd ep = ev_fd e")
    case True
    then show ?thesis using g gp hd by (simp add: dec_add_def t_def)
  next
    case False
    then have pe: "ev_fd e < ev_fd ep" using ge by simp
    obtain as u bs where w: "p # ys = as @ u # bs" "dec_walk h t (ev_fd e) p = Some (Inr u)"
      "\<forall>x \<in> set (tl (as @ [u])). ev_fd e < fd_at h x" "bs = [] \<or> fd_at h (hd bs) \<le> ev_fd e"
      using dec_walk_stops [OF r, of "ev_fd e"] d by auto
    have big: "\<forall>x \<in> set (as @ [u]). ev_fd e < fd_at h x" using w(1,3) pe fp by (cases as) auto
    have "\<exists>x \<in> set (as @ [u]) \<union> set bs. fd_at h x = ev_fd e" using old Cons w(1) by fastforce
    then obtain x where x: "x \<in> set bs" "fd_at h x = ev_fd e" using big by fastforce
    then obtain b bs' where bs: "bs = b # bs'" by (cases bs) auto
    have "sorted_wrt (\<lambda>x y. fd_at h y < fd_at h x) bs" using srt w(1) Cons by (simp add: sorted_wrt_append)
    then have "fd_at h x \<le> fd_at h b" using sorted_before [of "fd_at h" b bs' x] x(1) bs by simp
    then have fb: "fd_at h b = ev_fd e" using w(4) bs x(2) by simp
    obtain eu where eu: "h u = Some eu" "ev_next eu = Some b" and rb: "rest h (Some u) bs t"
      using r bs unfolding w(1) by (auto simp: rest_append rest_Cons [of _ _ u] split: option.splits)
    obtain eb where eb: "h b = Some eb" using rest_first [OF rb] bs by auto
    show ?thesis using g gp hd pe w(2) eu eb fb
      by (simp add: dec_add_def t_def [symmetric] queue_ops ev_simps fd_at_def)
  qed
qed

section \<open>The contract: a map from descriptors to objects\<close>

text \<open>\<open>rep s m\<close>: the state represents the map \<open>m\<close>. \<open>ready s v fd\<close>: \<open>v\<close> is an object for \<open>fd\<close> in no queue.
  \<open>same s s'\<close>: the data of all objects are the same.\<close>

locale fd_table =
  fixes rep :: "'s \<Rightarrow> (int \<rightharpoonup> nat) \<Rightarrow> bool" and ready :: "'s \<Rightarrow> nat \<Rightarrow> int \<Rightarrow> bool"
    and same :: "'s \<Rightarrow> 's \<Rightarrow> bool"
    and add del :: "nat \<Rightarrow> 's \<Rightarrow> ((fault + unit) \<times> 's) option" and clean :: "'s \<Rightarrow> ((fault + unit) \<times> 's) option"
  assumes add_new: "rep s m \<Longrightarrow> ready s v fd \<Longrightarrow> m fd = None \<Longrightarrow> card (dom m) < 2 ^ 31 - 1 \<Longrightarrow>
      \<exists>s'. add v s = Some (Inr (), s') \<and> rep s' (m(fd \<mapsto> v)) \<and> same s s'"
    and add_old: "rep s m \<Longrightarrow> ready s v fd \<Longrightarrow> m fd \<noteq> None \<Longrightarrow> add v s = Some (Inl (equal_fd fd), s)"
    and del: "rep s m \<Longrightarrow> m fd = Some v \<Longrightarrow>
      \<exists>s'. del v s = Some (Inr (), s') \<and> rep s' (m(fd := None)) \<and> ready s' v fd \<and> same s s'"
    and clean: "rep s m \<Longrightarrow> \<exists>s'. clean s = Some (Inr (), s') \<and> rep s' Map.empty \<and> same s s'"
begin

text \<open>No operation gets lost in a loop.\<close>

lemma returns:
  "rep s m \<Longrightarrow> ready s v fd \<Longrightarrow> card (dom m) < 2 ^ 31 - 1 \<Longrightarrow> add v s \<noteq> None"
  "rep s m \<Longrightarrow> m fd = Some v \<Longrightarrow> del v s \<noteq> None"
  "rep s m \<Longrightarrow> clean s \<noteq> None"
proof -
  show "add v s \<noteq> None" if "rep s m" "ready s v fd" "card (dom m) < 2 ^ 31 - 1"
    by (cases "m fd") (use add_new [OF that(1,2) _ that(3)] add_old [OF that(1,2)] in auto)
  show "del v s \<noteq> None" if "rep s m" "m fd = Some v" using del [OF that] by auto
  show "clean s \<noteq> None" if "rep s m" using clean [OF that] by auto
qed

text \<open>What was taken out can be put in again.\<close>

lemma del_add:
  assumes "rep s m" "m fd = Some v" "card (dom m) < 2 ^ 31 - 1" "finite (dom m)"
  shows "\<exists>s1 s2. del v s = Some (Inr (), s1) \<and> add v s1 = Some (Inr (), s2) \<and> rep s2 m"
proof -
  obtain s1 where d: "del v s = Some (Inr (), s1)" "rep s1 (m(fd := None))" "ready s1 v fd"
    using del [OF assms(1,2)] by blast
  have "card (dom (m(fd := None))) \<le> card (dom m)" using assms(4) by (intro card_mono) auto
  then obtain s2 where "add v s1 = Some (Inr (), s2)" "rep s2 (m(fd := None, fd \<mapsto> v))"
    using add_new [OF d(2,3)] assms(3) by auto
  moreover have "m(fd := None, fd \<mapsto> v) = m" using assms(2) by auto
  ultimately show ?thesis using d by auto
qed

end

definition table_of :: "event_heap \<Rightarrow> nat list \<Rightarrow> int \<rightharpoonup> nat" where
  "table_of h xs = map_of (map (\<lambda>x. (fd_at h x, x)) xs)"

definition table_rep :: "queue_world \<Rightarrow> (int \<rightharpoonup> nat) \<Rightarrow> bool" where
  "table_rep w m \<longleftrightarrow> (\<exists>xs. dec_rep w xs \<and> m = table_of (fst w) xs)"

definition table_ready :: "queue_world \<Rightarrow> nat \<Rightarrow> int \<Rightarrow> bool" where
  "table_ready w v fd \<longleftrightarrow> (\<exists>e. fst w v = Some e \<and> \<not> ev_in_queue e \<and> ev_prev e = None \<and> ev_fd e = fd \<and> 0 \<le> fd)
     \<and> v \<noteq> q_tail (snd w)"

definition table_same :: "queue_world \<Rightarrow> queue_world \<Rightarrow> bool" where
  "table_same w w' \<longleftrightarrow> same_data (fst w) (fst w') \<and> q_tail (snd w') = q_tail (snd w)"

lemma distinct_fds: "sorted_wrt (\<lambda>x y. f y < (f x :: int)) xs \<Longrightarrow> distinct (map f xs)"
  by (induction xs) auto

lemma table_of_eq: "distinct (map (fd_at h) xs) \<Longrightarrow> table_of h xs fd = Some v \<longleftrightarrow> v \<in> set xs \<and> fd_at h v = fd"
  by (auto simp: table_of_def comp_def)

lemma table_of_None: "table_of h xs fd = None \<longleftrightarrow> fd \<notin> fd_at h ` set xs"
  by (simp add: table_of_def map_of_eq_None_iff image_image)

lemma table_of_dom: "dom (table_of h xs) = fd_at h ` set xs"
  by (simp add: table_of_def dom_map_of_conv_image_fst image_image)

lemma dec_rep_distinct: "dec_rep w xs \<Longrightarrow> distinct (map (fd_at (fst w)) xs)"
  by (simp add: dec_rep_def distinct_fds)

lemma table_of_perm:
  assumes "distinct (map (fd_at h) xs)" "distinct (map (fd_at h) ys)" "set xs = set ys"
  shows "table_of h xs = table_of h ys"
proof
  fix fd show "table_of h xs fd = table_of h ys fd"
    using assms table_of_eq [of h xs fd] table_of_eq [of h ys fd] by (metis option.exhaust)
qed

lemma table_of_Cons: "table_of h (v # xs) = (table_of h xs)(fd_at h v \<mapsto> v)"
  by (simp add: table_of_def)

lemma in_queue_member: "queue_rep (h, q) xs \<Longrightarrow> x \<in> set xs \<Longrightarrow> \<exists>e. h x = Some e \<and> ev_in_queue e"
  by (auto simp: queue_rep_def rest_append rest_Cons dest!: split_list split: option.splits)

interpretation events: fd_table table_rep table_ready table_same dec_add "\<lambda>v w. Some (queue_del (Some v) w)" queue_clean
proof
  fix s m v fd
  assume r: "table_rep s m" and y: "table_ready s v fd"
  obtain h q where s: "s = (h, q)" by (cases s)
  obtain xs where xs: "dec_rep (h, q) xs" "m = table_of h xs" using r s by (auto simp: table_rep_def)
  obtain e where e: "h v = Some e" "\<not> ev_in_queue e" "ev_prev e = None" "ev_fd e = fd" "0 \<le> ev_fd e" "v \<noteq> q_tail q"
    using y s by (auto simp: table_ready_def)
  have d: "distinct (map (fd_at h) xs)" and qr: "queue_rep (h, q) xs"
    using dec_rep_distinct [OF xs(1)] xs(1) by (simp_all add: dec_rep_def)
  have nv: "v \<notin> set (xs @ [q_tail q])" using in_queue_member [OF qr, of v] e by auto
  have fv: "fd_at h v = fd" using e by (simp add: fd_at_def)
  show "\<exists>s'. dec_add v s = Some (Inr (), s') \<and> table_rep s' (m(fd \<mapsto> v)) \<and> table_same s s'" if "m fd = None" "card (dom m) < 2 ^ 31 - 1"
  proof -
    have "card (dom m) = length xs" using d by (simp add: xs(2) table_of_dom card_image distinct_card distinct_map)
    then have len: "Suc (length xs) < 2 ^ 31" using that(2) by simp
    have new: "ev_fd e \<notin> fd_at h ` set xs" using that(1) xs(2) e(4) by (simp add: table_of_None)
    obtain h' q' as bs where a: "xs = as @ bs" "dec_add v (h, q) = Some (Inr (), (h', q'))" "dec_rep (h', q') (as @ v # bs)"
      "same_data h h'" "q_tail q' = q_tail q" using dec_add_new [OF xs(1) e(1-3,5) nv len new] by blast
    have f: "fd_at h' = fd_at h" by (rule same_data_fd [OF a(4)])
    have t: "table_of h' = table_of h" by (simp add: table_of_def fun_eq_iff f)
    have "table_of h (as @ v # bs) = table_of h (v # xs)"
      using d fv new e(4) a(1) dec_rep_distinct [OF a(3)] f by (intro table_of_perm) auto
    then have "table_of h' (as @ v # bs) = m(fd \<mapsto> v)" by (simp add: t table_of_Cons fv xs(2))
    then have "table_rep (h', q') (m(fd \<mapsto> v))" using a(3) unfolding table_rep_def by (metis fst_conv)
    then show ?thesis using a s by (auto simp: table_same_def)
  qed
  show "dec_add v s = Some (Inl (equal_fd fd), s)" if "m fd \<noteq> None"
    using dec_add_old [OF xs(1) e(1,5)] that xs(2) e(4) s by (simp add: table_of_None)
next
  fix s m v fd
  assume r: "table_rep s m" and v: "m fd = Some v"
  obtain h q where s: "s = (h, q)" by (cases s)
  obtain xs where xs: "dec_rep (h, q) xs" "m = table_of h xs" using r s by (auto simp: table_rep_def)
  have d: "distinct (map (fd_at h) xs)" and qr: "queue_rep (h, q) xs"
    using dec_rep_distinct [OF xs(1)] xs(1) by (simp_all add: dec_rep_def)
  have vx: "v \<in> set xs" "fd_at h v = fd" using v xs(2) table_of_eq [OF d] by auto
  then obtain as bs where ab: "xs = as @ v # bs" by (meson split_list)
  obtain h' q' e where a: "queue_del (Some v) (h, q) = (Inr (), (h', q'))" "queue_rep (h', q') (as @ bs)" "same_data h h'"
    "q_tail q' = q_tail q" "h v = Some e" "h' v = Some (taken_out e)" using queue_del_rep qr unfolding ab by blast
  have f: "fd_at h' = fd_at h" by (rule same_data_fd [OF a(3)])
  have "dec_rep (h', q') (as @ bs)" using xs(1) a(2) f ab by (auto simp: dec_rep_def sorted_wrt_append)
  moreover have "table_of h' (as @ bs) = m(fd := None)"
  proof
    fix k
    have d2: "distinct (map (fd_at h) (as @ bs))" and "fd_at h v \<notin> fd_at h ` set (as @ bs)"
      using d unfolding ab by auto
    then have nf: "\<forall>x \<in> set (as @ bs). fd_at h x \<noteq> fd" using vx(2) by (metis image_eqI)
    have "table_of h (as @ bs) k = Some w \<longleftrightarrow> (m(fd := None)) k = Some w" for w
      using table_of_eq [OF d2, of k w] table_of_eq [OF d, of k w] nf vx(2) unfolding xs(2) ab by auto
    moreover have "table_of h' (as @ bs) = table_of h (as @ bs)" by (simp add: table_of_def f)
    ultimately have "table_of h' (as @ bs) k = Some w \<longleftrightarrow> (m(fd := None)) k = Some w" for w by simp
    then show "table_of h' (as @ bs) k = (m(fd := None)) k" by (metis option.exhaust)
  qed
  moreover have "0 \<le> fd" "v \<noteq> q_tail q" using xs(1) vx ab qr by (auto simp: dec_rep_def queue_rep_def)
  then have "table_ready (h', q') v fd"
    using a(4,5,6) vx(2) by (auto simp: table_ready_def taken_out_def fd_at_def)
  ultimately show "\<exists>s'. Some (queue_del (Some v) s) = Some (Inr (), s') \<and> table_rep s' (m(fd := None)) \<and> table_ready s' v fd
      \<and> table_same s s'"
    using a(1,3,4) s unfolding table_rep_def table_same_def by (metis fst_conv snd_conv)
next
  fix s m assume r: "table_rep s m"
  obtain h q where s: "s = (h, q)" by (cases s)
  obtain xs where "queue_rep (h, q) xs" using r s by (auto simp: table_rep_def dec_rep_def)
  from queue_clean_returns [OF this] obtain h' q' where "queue_clean s = Some (Inr (), (h', q'))" "queue_rep (h', q') []"
    "same_data h h'" "q_tail q' = q_tail q" using s by blast
  then show "\<exists>s'. queue_clean s = Some (Inr (), s') \<and> table_rep s' Map.empty \<and> table_same s s'"
    unfolding table_rep_def table_same_def using s by (intro exI [of _ "(h', q')"]) (auto simp: dec_rep_def table_of_def intro!: exI [of _ "[]"])
qed

lemmas event_table = events.add_new events.add_old events.del events.clean events.returns

text \<open>C13: a queue the operations have built represents a map from descriptors to objects: adding a new object enters
  it and a second object for the same descriptor is refused without any effect.\<close>

theorem event_queue_adds:
  assumes "table_rep w m" and "table_ready w v fd" and "card (dom m) < 2 ^ 31 - 1"
  shows "case dec_add v w of None \<Rightarrow> False
    | Some (r, w') \<Rightarrow> if m fd = None then r = Inr () \<and> table_rep w' (m(fd \<mapsto> v)) else r = Inl (equal_fd fd) \<and> w' = w"
  using event_table(1) [OF assms(1,2) _ assms(3)] event_table(2) [OF assms(1,2)] by (cases "m fd") auto

lemma queue_new_rep: "table_rep (queue_new t h) Map.empty"
  by (auto simp: table_rep_def dec_rep_def queue_new_def queue_rep_def rest_def table_of_def event_default_def
      intro!: exI [of _ "[]"])

definition queue1 :: queue_world where
  "queue1 = queue_new 0 (Map.empty(1 \<mapsto> event_new (0, 0) 7 EV_READ None 0 0))"

lemma queue1_ready: "table_ready queue1 1 7"
  by (simp add: queue1_def queue_new_def table_ready_def event_new_def event_init_def event_default_def)

lemma event_queue_adds_witness:
  "case dec_add 1 queue1 of None \<Rightarrow> False | Some (r, w') \<Rightarrow> r = Inr () \<and> table_rep w' [7 \<mapsto> 1]"
  using event_queue_adds [OF queue_new_rep queue1_ready [unfolded queue1_def]]
  by (auto simp: queue1_def split: option.splits prod.splits)

text \<open>C25: the loops of the queue end on every queue the operations have built: adding finds its place, and \<open>clean\<close>
  takes out every object.\<close>

theorem event_queue_loops_end:
  assumes "table_rep w m" and "table_ready w v fd" and "card (dom m) < 2 ^ 31 - 1"
  shows "dec_add v w \<noteq> None \<and> (\<exists>w'. queue_clean w = Some (Inr (), w') \<and> table_rep w' Map.empty)"
  using event_table(5) [OF assms] event_table(4) [OF assms(1)] by blast

lemma event_queue_loops_end_witness:
  "dec_add 1 queue1 \<noteq> None \<and> (\<exists>w'. queue_clean queue1 = Some (Inr (), w') \<and> table_rep w' Map.empty)"
  using event_queue_loops_end [OF queue_new_rep queue1_ready [unfolded queue1_def]] by (simp add: queue1_def)

section \<open>Changes that do not concern the queue\<close>

definition links :: "event \<Rightarrow> nat option \<times> nat option \<times> bool \<times> int" where
  "links e = (ev_next e, ev_prev e, ev_in_queue e, ev_fd e)"

definition keeps_links :: "event_heap \<Rightarrow> nat \<Rightarrow> event_heap \<Rightarrow> bool" where
  "keeps_links h t h' \<longleftrightarrow> (\<forall>x e. h x = Some e \<longrightarrow> ev_in_queue e \<or> x = t \<longrightarrow> (\<exists>e'. h' x = Some e' \<and> links e' = links e))"

lemma seg_links: "seg h pr xs nx \<Longrightarrow> keeps_links h t h' \<Longrightarrow> seg h' pr xs nx"
  by (induction xs arbitrary: pr) (fastforce simp: keeps_links_def links_def split: option.splits)+

lemma rest_links: "rest h pr xs t \<Longrightarrow> keeps_links h t h' \<Longrightarrow> rest h' pr xs t"
  using seg_links [of h pr xs t t h'] by (fastforce simp: rest_def keeps_links_def links_def split: option.splits)

lemma dec_rep_cong:
  assumes "dec_rep (h, q) xs" and "queue_rep (h', q) xs" and f: "\<And>x. x \<in> set xs \<Longrightarrow> fd_at h' x = fd_at h x"
  shows "dec_rep (h', q) xs \<and> table_of h' xs = table_of h xs"
proof -
  have "sorted_wrt (\<lambda>a b. b < a) (map (fd_at h) xs)" using assms(1) by (simp add: dec_rep_def sorted_wrt_map)
  moreover have eq: "map (fd_at h') xs = map (fd_at h) xs" using f by simp
  ultimately have "sorted_wrt (\<lambda>a b. b < a) (map (fd_at h') xs)" unfolding eq by blast
  then have srt: "sorted_wrt (\<lambda>x y. fd_at h' y < fd_at h' x) xs" by (simp add: sorted_wrt_map)
  have eq2: "map (\<lambda>x. (fd_at h' x, x)) xs = map (\<lambda>x. (fd_at h x, x)) xs" using f by simp
  have "table_of h' xs = table_of h xs" unfolding table_of_def eq2 by (rule refl)
  then show ?thesis using srt assms(1,2) f by (simp add: dec_rep_def)
qed

lemma table_rep_links:
  assumes "table_rep (h, q) m" and k: "keeps_links h (q_tail q) h'"
  shows "table_rep (h', q) m"
proof -
  obtain xs where xs: "dec_rep (h, q) xs" "m = table_of h xs" using assms(1) by (auto simp: table_rep_def)
  have qr: "queue_rep (h, q) xs" using xs by (simp add: dec_rep_def)
  have f: "fd_at h' x = fd_at h x" if "x \<in> set xs" for x
    using in_queue_member [OF qr that] k by (fastforce simp: keeps_links_def links_def fd_at_def)
  have "queue_rep (h', q) xs" using qr rest_links [OF _ k] by (simp add: queue_rep_def)
  from dec_rep_cong [OF xs(1) this f] xs(2) show ?thesis unfolding table_rep_def by (intro exI [of _ xs]) simp
qed

lemma table_entry:
  assumes "table_rep (h, q) m" "m fd = Some p"
  shows "\<exists>e. h p = Some e \<and> ev_in_queue e \<and> ev_fd e = fd \<and> 0 \<le> fd \<and> p \<noteq> q_tail q"
proof -
  obtain xs where xs: "dec_rep (h, q) xs" "m = table_of h xs" using assms(1) by (auto simp: table_rep_def)
  have p: "p \<in> set xs" "fd_at h p = fd"
    using assms(2) xs table_of_eq [OF dec_rep_distinct [OF xs(1)]] by auto
  have qr: "queue_rep (h, q) xs" using xs by (simp add: dec_rep_def)
  obtain e where e: "h p = Some e" "ev_in_queue e" using in_queue_member [OF qr p(1)] by blast
  have "p \<noteq> q_tail q" using qr p(1) by (auto simp: queue_rep_def)
  moreover have "0 \<le> fd" using xs(1) p by (auto simp: dec_rep_def)
  ultimately show ?thesis using e p(2) by (simp add: fd_at_def)
qed

lemma queued_in_table:
  assumes "table_rep (h, q) m" "h p = Some e" "m (ev_fd e) \<noteq> Some p" "p \<noteq> q_tail q"
  shows "\<And>h'. (\<forall>x. x \<noteq> p \<longrightarrow> h' x = h x) \<Longrightarrow> table_rep (h', q) m"
proof -
  fix h' :: event_heap assume a: "\<forall>x. x \<noteq> p \<longrightarrow> h' x = h x"
  obtain xs where xs: "dec_rep (h, q) xs" "m = table_of h xs" using assms(1) by (auto simp: table_rep_def)
  have "p \<notin> set xs"
    using assms(2,3) xs table_of_eq [OF dec_rep_distinct [OF xs(1)]] by (auto simp: fd_at_def)
  then have s: "\<forall>x \<in> set (xs @ [q_tail q]). h' x = h x" using a assms(4) by auto
  then have "rest h' None xs (q_tail q) = rest h None xs (q_tail q)" by (intro rest_frame) blast
  then have "queue_rep (h', q) xs" using xs(1) by (simp add: dec_rep_def queue_rep_def)
  moreover have "\<And>x. x \<in> set xs \<Longrightarrow> fd_at h' x = fd_at h x" using s by (simp add: fd_at_def)
  ultimately show "table_rep (h', q) m"
    using dec_rep_cong [OF xs(1)] xs(2) unfolding table_rep_def by (intro exI [of _ xs]) simp
qed

end
