(* ===== verification/Epoll_Monitor.thy ===== *)
theory Epoll_Monitor
  imports Event_Queue
begin

text \<open>
  \<open>CEpollMonitor\<close> (\<open>sys/epoll_monitor.cpp\<close>) and its wrapper \<open>CEventThread\<close> (\<open>sys/event_thread.cpp\<close>): the
  events of a thread, their registration with \<open>epoll\<close> and their dispatch to the handlers. What the system answers
  is input: the errors of \<open>fstat\<close> and \<open>epoll_ctl\<close>, the events \<open>epoll_wait\<close> reports, the clock. The kernel's
  interest list is part of the state; it refuses a descriptor twice. The mutex makes \<open>add\<close>, \<open>update\<close> and \<open>del\<close>
  atomic. A handler is an operation on the whole state, which may extend the monitor's.
\<close>

section \<open>State\<close>

definition EPOLLIN :: int where "EPOLLIN = 1"
definition EPOLLOUT :: int where "EPOLLOUT = 4"
definition DEFAULT_BEAT_COUNT :: int where "DEFAULT_BEAT_COUNT = 32"
definition MAX_ERRMSG_LEN :: nat where "MAX_ERRMSG_LEN = 256"

text \<open>\<open>mo_fresh\<close> is the next address \<open>new\<close> returns.\<close>

record monitor =
  mo_heap :: event_heap
  mo_fresh :: nat
  mo_queue :: event_queue
  mo_stop :: bool
  mo_epoll_fd :: int
  mo_interest :: "int \<rightharpoonup> (int \<times> nat)"
  mo_heart_beat_count :: int
  mo_heart_beats :: "int list"
  mo_error_text :: string

text \<open>What the system and the memory show to a call: \<open>error_info\<close> of an exception returns the address of a text
  that has been freed, so what is read there is input as well.\<close>

record monitor_env =
  me_now :: "int \<times> int"
  me_fstat :: "string option"
  me_ctl :: "string option"
  me_freed :: string

text \<open>An operation that may not return is \<open>None\<close>.\<close>

type_synonym ('s, 'a) pop = "'s \<Rightarrow> ((fault + 'a) \<times> 's) option"

definition bindP :: "('s, 'a) pop \<Rightarrow> ('a \<Rightarrow> ('s, 'b) pop) \<Rightarrow> ('s, 'b) pop" where
  "bindP m f s = (case m s of
     None \<Rightarrow> None
   | Some (Inl e, s') \<Rightarrow> Some (Inl e, s')
   | Some (Inr x, s') \<Rightarrow> f x s')"

definition liftP :: "('s, 'a) op \<Rightarrow> ('s, 'a) pop" where
  "liftP m s = Some (m s)"

definition catchP :: "('s, 'a) pop \<Rightarrow> (int \<Rightarrow> string \<Rightarrow> ('s, 'a) pop) \<Rightarrow> ('s, 'a) pop" where
  "catchP m f s = (case m s of
     Some (Inl (Throw k n w), s') \<Rightarrow> f n w s'
   | r \<Rightarrow> r)"

lemma bindP_simps [simp]: "m s = Some (Inr x, s') \<Longrightarrow> bindP m f s = f x s'"
  "m s = Some (Inl e, s') \<Longrightarrow> bindP m f s = Some (Inl e, s')"
  by (simp_all add: bindP_def)

lemma liftP_apply [simp]: "liftP m s = Some (m s)"
  by (simp add: liftP_def)

definition queueP :: "(queue_world, 'b) pop \<Rightarrow> ('a monitor_scheme, 'b) pop" where
  "queueP m mo = (case m (mo_heap mo, mo_queue mo) of
     None \<Rightarrow> None
   | Some (r, (h, q)) \<Rightarrow> Some (r, mo\<lparr>mo_heap := h, mo_queue := q\<rparr>))"

section \<open>Registration\<close>

definition epoll_flags :: "event \<Rightarrow> int" where
  "epoll_flags e = (if check_event EV_READ e then EPOLLIN else 0) + (if check_event EV_WRITE e then EPOLLOUT else 0)"

text \<open>The outcome of \<open>epoll_ctl\<close>: an error of its own for a bad \<open>epoll_fd\<close> and for a descriptor that is, or is
  not, registered; any other error is input.\<close>

definition epoll_ctl_error :: "monitor_env \<Rightarrow> bool \<Rightarrow> int \<Rightarrow> 'a monitor_scheme \<Rightarrow> string option" where
  "epoll_ctl_error env needed fd mo =
     (if mo_epoll_fd mo < 0 then Some ''Bad file descriptor''
      else case me_ctl env of
             Some err \<Rightarrow> Some err
           | None \<Rightarrow> if needed \<and> mo_interest mo fd = None then Some ''No such file or directory''
                     else if \<not> needed \<and> mo_interest mo fd \<noteq> None then Some ''File exists''
                     else None)"

definition add_fd :: "monitor_env \<Rightarrow> nat \<Rightarrow> ('a monitor_scheme, unit) op" where
  "add_fd env event mo =
     (case mo_heap mo event of
        None \<Rightarrow> (Inl MemoryFault, mo)
      | Some e \<Rightarrow>
          (case epoll_ctl_error env False (ev_fd e) mo of
             Some err \<Rightarrow> (Inl (THROW CIpcException ERR_SYS_UNKNOWN (''epoll_ctl add error: '' @ err)), mo)
           | None \<Rightarrow> (Inr (), mo\<lparr>mo_interest := (mo_interest mo)(ev_fd e \<mapsto> (epoll_flags e, event))\<rparr>)))"

definition update_fd :: "monitor_env \<Rightarrow> nat \<Rightarrow> ('a monitor_scheme, unit) op" where
  "update_fd env event mo =
     (case mo_heap mo event of
        None \<Rightarrow> (Inl MemoryFault, mo)
      | Some e \<Rightarrow>
          (case epoll_ctl_error env True (ev_fd e) mo of
             Some err \<Rightarrow> (Inl (THROW CIpcException ERR_SYS_UNKNOWN (''epoll_ctl error: '' @ err)), mo)
           | None \<Rightarrow> (Inr (), mo\<lparr>mo_interest := (mo_interest mo)(ev_fd e \<mapsto> (epoll_flags e, event))\<rparr>)))"

text \<open>An error of the removal is only logged.\<close>

definition del_fd :: "monitor_env \<Rightarrow> nat \<Rightarrow> ('a monitor_scheme, unit) op" where
  "del_fd env event mo =
     (case mo_heap mo event of
        None \<Rightarrow> (Inl MemoryFault, mo)
      | Some e \<Rightarrow>
          (case epoll_ctl_error env True (ev_fd e) mo of
             Some err \<Rightarrow> (Inr (), mo)
           | None \<Rightarrow> (Inr (), mo\<lparr>mo_interest := (mo_interest mo)(ev_fd e := None)\<rparr>)))"

text \<open>The protected \<open>add\<close>: into the queue first, then the checks.\<close>

definition monitor_enter :: "monitor_env \<Rightarrow> nat \<Rightarrow> ('a monitor_scheme, unit) pop" where
  "monitor_enter env event =
     bindP (queueP (dec_add event)) (\<lambda>_.
     liftP (\<lambda>mo. case mo_heap mo event of
         None \<Rightarrow> (Inl MemoryFault, mo)
       | Some e \<Rightarrow>
           (case me_fstat env of
              Some err \<Rightarrow> (Inl (THROW CIpcException ERR_SYS_UNKNOWN
                              (''fd: '' @ show_int (ev_fd e) @ '', fstat error: '' @ err)), mo)
            | None \<Rightarrow> add_fd env event mo)))"

definition set_error_text :: "monitor_env \<Rightarrow> ('a monitor_scheme, int) pop" where
  "set_error_text env mo = Some (Inr (- 1), mo\<lparr>mo_error_text := take (MAX_ERRMSG_LEN - 1) (cstr (me_freed env))\<rparr>)"

definition monitor_add :: "monitor_env \<Rightarrow> int \<Rightarrow> int \<Rightarrow> nat option \<Rightarrow> int \<Rightarrow> int \<Rightarrow> ('a monitor_scheme, int) pop" where
  "monitor_add env fd event event_handler param time_out mo =
     (let obj = mo_fresh mo;
          mo = mo\<lparr>mo_heap := (mo_heap mo)(obj \<mapsto> event_new (me_now env) fd event event_handler param time_out),
                  mo_fresh := obj + 1\<rparr>
      in catchP (bindP (monitor_enter env obj) (\<lambda>_. liftP (returnS 0))) (\<lambda>n w. set_error_text env) mo)"

definition monitor_update :: "monitor_env \<Rightarrow> nat option \<Rightarrow> int \<Rightarrow> nat option \<Rightarrow> int \<Rightarrow> ('a monitor_scheme, int) pop" where
  "monitor_update env event_base event event_handler param mo =
     (case event_base of
        None \<Rightarrow> Some (Inl MemoryFault, mo)
      | Some p \<Rightarrow>
          (case mo_heap mo p of
             None \<Rightarrow> Some (Inl MemoryFault, mo)
           | Some e \<Rightarrow>
               catchP (bindP (liftP (update_fd env p)) (\<lambda>_. liftP (returnS 0))) (\<lambda>n w. set_error_text env)
                 (mo\<lparr>mo_heap := (mo_heap mo)(p \<mapsto> event_update event event_handler param e)\<rparr>)))"

text \<open>\<open>del\<close> takes the pointer by reference: the result is its new value. \<open>delete\<close> leaves no object.\<close>

definition monitor_del :: "monitor_env \<Rightarrow> nat option \<Rightarrow> ('a monitor_scheme, nat option) op" where
  "monitor_del env event mo =
     (case event of
        None \<Rightarrow> (Inl MemoryFault, mo)
      | Some p \<Rightarrow>
          (case mo_heap mo p of
             None \<Rightarrow> (Inl MemoryFault, mo)
           | Some e \<Rightarrow>
               if \<not> ev_in_queue e then (Inr event, mo)
               else if check_event EV_PERSIST e then (Inr event, mo)
               else (case queue_del event (mo_heap mo, mo_queue mo) of
                       (Inl f, (h, q)) \<Rightarrow> (Inl f, mo\<lparr>mo_heap := h, mo_queue := q\<rparr>)
                     | (Inr _, (h, q)) \<Rightarrow>
                         bindS (del_fd env p) (\<lambda>_ mo. (Inr None, mo\<lparr>mo_heap := (mo_heap mo)(p := None)\<rparr>))
                           (mo\<lparr>mo_heap := h, mo_queue := q\<rparr>))))"

definition monitor_clean :: "('a monitor_scheme, unit) pop" where
  "monitor_clean = queueP queue_clean"

definition monitor_stop :: "'a monitor_scheme \<Rightarrow> 'a monitor_scheme" where
  "monitor_stop mo = mo\<lparr>mo_stop := True\<rparr>"

text \<open>\<open>epoll_create\<close> answers the descriptor or an error; a new one has an empty interest list.\<close>

definition INVALID_EPOLL :: int where "INVALID_EPOLL = - 1"

definition monitor_init :: "int \<Rightarrow> ('a monitor_scheme, unit) op" where
  "monitor_init epoll_fd mo =
     (if mo_epoll_fd mo \<noteq> INVALID_EPOLL then (Inl AssertFail, mo)
      else if epoll_fd < 0
      then (Inl (THROW CIpcException ERR_SYS_UNKNOWN ''select monitor INVALID_SOCKET''), mo\<lparr>mo_epoll_fd := epoll_fd\<rparr>)
      else (Inr (), mo\<lparr>mo_epoll_fd := epoll_fd, mo_interest := Map.empty\<rparr>))"

definition monitor_fini :: "('a monitor_scheme, unit) pop" where
  "monitor_fini mo = monitor_clean (mo\<lparr>mo_epoll_fd := INVALID_EPOLL, mo_interest := Map.empty\<rparr>)"

section \<open>Dispatch\<close>

definition reset_event :: "int \<times> int \<Rightarrow> int \<Rightarrow> event \<Rightarrow> event" where
  "reset_event now what e =
     (let e = clean_active e;
          e = (if check_mask what EPOLLIN then set_active EV_READ e else e);
          e = (if check_mask what EPOLLOUT then set_active EV_WRITE e else e)
      in if \<not> check_mask what EPOLLIN \<and> \<not> check_mask what EPOLLOUT \<and> is_time_out now e
         then set_active EV_TIMEOUT e else e)"

text \<open>A handler is called with its descriptor, the active events, its parameter and the event itself.\<close>

type_synonym 's handler = "nat \<Rightarrow> int \<Rightarrow> int \<Rightarrow> int \<Rightarrow> nat \<Rightarrow> ('s, unit) pop"

definition handler_run :: "('a monitor_scheme) handler \<Rightarrow> nat \<Rightarrow> ('a monitor_scheme, unit) pop" where
  "handler_run run p mo =
     (case mo_heap mo p of
        None \<Rightarrow> Some (Inl MemoryFault, mo)
      | Some e \<Rightarrow>
          if check_mask (ev_active_event e) (ev_event e)
          then (case ev_handler e of
                  None \<Rightarrow> Some (Inl MemoryFault, mo)
                | Some f \<Rightarrow> run f (ev_fd e) (ev_active_event e) (ev_param e) p mo)
          else Some (Inr (), mo))"

definition process_event :: "('a monitor_scheme) handler \<Rightarrow> int \<times> int \<Rightarrow> nat \<Rightarrow> int \<Rightarrow> ('a monitor_scheme, unit) pop" where
  "process_event run now p what mo =
     (case mo_heap mo p of
        None \<Rightarrow> Some (Inl MemoryFault, mo)
      | Some e \<Rightarrow> handler_run run p (mo\<lparr>mo_heap := (mo_heap mo)(p \<mapsto> reset_event now what e)\<rparr>))"

text \<open>The events \<open>epoll_wait\<close> reports, each with the time at which it is processed.\<close>

fun process_events :: "('a monitor_scheme) handler \<Rightarrow> ((int \<times> int) \<times> nat \<times> int) list \<Rightarrow> ('a monitor_scheme, unit) pop" where
  "process_events run [] = liftP (returnS ())"
| "process_events run ((now, p, what) # evs) = bindP (process_event run now p what) (\<lambda>_. process_events run evs)"

text \<open>\<open>process_heart_beat\<close> of the thread notes the time; no other handler is ever set.\<close>

definition heart_beat :: "int \<Rightarrow> ('a monitor_scheme, unit) pop" where
  "heart_beat time = liftP (modS (\<lambda>mo.
     if DEFAULT_BEAT_COUNT < mo_heart_beat_count mo + 1
     then mo\<lparr>mo_heart_beat_count := 0, mo_heart_beats := time # mo_heart_beats mo\<rparr>
     else mo\<lparr>mo_heart_beat_count := mo_heart_beat_count mo + 1\<rparr>))"

text \<open>One round: false is the end of the process by \<open>exit(-1)\<close>. \<open>ready\<close> is \<open>None\<close> when \<open>epoll_wait\<close> fails.\<close>

definition monitor_once :: "('a monitor_scheme) handler \<Rightarrow> int \<Rightarrow> ((int \<times> int) \<times> nat \<times> int) list option \<Rightarrow>
    ('a monitor_scheme, bool) pop" where
  "monitor_once run time ready mo =
     (if q_size (mo_queue mo) = 0 then Some (Inr False, mo)
      else bindP (case ready of None \<Rightarrow> liftP (returnS ()) | Some evs \<Rightarrow> process_events run evs) (\<lambda>_.
           bindP (heart_beat time) (\<lambda>_. liftP (returnS True))) mo)"

text \<open>\<open>while (!_stop) monitor_once()\<close>, for the rounds the list gives.\<close>

fun monitor_rounds :: "('a monitor_scheme) handler \<Rightarrow> (int \<times> ((int \<times> int) \<times> nat \<times> int) list option) list \<Rightarrow>
    ('a monitor_scheme, bool) pop" where
  "monitor_rounds run [] = liftP (returnS True)"
| "monitor_rounds run ((time, ready) # rounds) =
     bindP (liftP (getS mo_stop)) (\<lambda>stop.
       if stop then liftP (returnS True)
       else bindP (monitor_once run time ready) (\<lambda>goes_on.
              if goes_on then monitor_rounds run rounds else liftP (returnS False)))"

section \<open>\<open>CEventThread\<close>\<close>

definition add_event :: "monitor_env \<Rightarrow> int \<Rightarrow> int \<Rightarrow> nat option \<Rightarrow> int \<Rightarrow> int \<Rightarrow> ('a monitor_scheme, unit) pop" where
  "add_event env fd event event_handler param time_out =
     bindP (monitor_add env fd event event_handler param time_out) (\<lambda>r.
     liftP (\<lambda>mo. if r \<noteq> 0 then (Inl (THROW CTrpcException ERR_SYS_UNKNOWN (''event add error: '' @ mo_error_text mo)), mo)
                 else (Inr (), mo)))"

definition update_event :: "monitor_env \<Rightarrow> nat option \<Rightarrow> int \<Rightarrow> nat option \<Rightarrow> int \<Rightarrow> ('a monitor_scheme, unit) pop" where
  "update_event env event_base event event_handler param =
     bindP (monitor_update env event_base event event_handler param) (\<lambda>r.
     liftP (\<lambda>mo. if r \<noteq> 0 then (Inl (THROW CTrpcException ERR_SYS_UNKNOWN (''event update error: '' @ mo_error_text mo)), mo)
                 else (Inr (), mo)))"

definition del_event :: "monitor_env \<Rightarrow> nat option \<Rightarrow> ('a monitor_scheme, nat option) pop" where
  "del_event env event_base = liftP (monitor_del env event_base)"

section \<open>What the monitor keeps\<close>

text \<open>The queue represents the map \<open>m\<close>, every registered pointer is the queued object of its descriptor, a queued
  object has a handler, and nothing lives at the addresses not handed out yet.\<close>

definition monitor_ok :: "'a monitor_scheme \<Rightarrow> (int \<rightharpoonup> nat) \<Rightarrow> bool" where
  "monitor_ok mo m \<longleftrightarrow> table_rep (mo_heap mo, mo_queue mo) m \<and>
     (\<forall>fd x p. mo_interest mo fd = Some (x, p) \<longrightarrow> m fd = Some p) \<and>
     (\<forall>fd p e. m fd = Some p \<longrightarrow> mo_heap mo p = Some e \<longrightarrow> ev_handler e \<noteq> None) \<and>
     (\<forall>a \<ge> mo_fresh mo. mo_heap mo a = None) \<and> q_tail (mo_queue mo) < mo_fresh mo"

lemma monitor_okI:
  assumes "table_rep (mo_heap mo, mo_queue mo) m"
    and "\<And>fd x p. mo_interest mo fd = Some (x, p) \<Longrightarrow> m fd = Some p"
    and "\<And>fd p e. m fd = Some p \<Longrightarrow> mo_heap mo p = Some e \<Longrightarrow> ev_handler e \<noteq> None"
    and "\<And>a. mo_fresh mo \<le> a \<Longrightarrow> mo_heap mo a = None" and "q_tail (mo_queue mo) < mo_fresh mo"
  shows "monitor_ok mo m"
  using assms unfolding monitor_ok_def by blast

lemma monitor_okD:
  assumes "monitor_ok mo m"
  shows "table_rep (mo_heap mo, mo_queue mo) m"
    and "mo_interest mo fd = Some (x, p) \<Longrightarrow> m fd = Some p"
    and "m fd = Some p \<Longrightarrow> mo_heap mo p = Some e \<Longrightarrow> ev_handler e \<noteq> None"
    and "mo_fresh mo \<le> a \<Longrightarrow> mo_heap mo a = None" and "q_tail (mo_queue mo) < mo_fresh mo"
  using assms unfolding monitor_ok_def by blast+

lemma monitor_entry:
  assumes "monitor_ok mo m" and "m fd = Some p"
  shows "\<exists>e. mo_heap mo p = Some e \<and> ev_in_queue e \<and> ev_fd e = fd \<and> 0 \<le> fd \<and> p \<noteq> q_tail (mo_queue mo) \<and>
    ev_handler e \<noteq> None \<and> p < mo_fresh mo"
proof -
  obtain e where e: "mo_heap mo p = Some e" "ev_in_queue e" "ev_fd e = fd" "0 \<le> fd" "p \<noteq> q_tail (mo_queue mo)"
    using table_entry [of "mo_heap mo" "mo_queue mo" m fd p] assms by (auto simp: monitor_ok_def)
  moreover have "ev_handler e \<noteq> None" using assms e(1) unfolding monitor_ok_def by blast
  moreover have "p < mo_fresh mo" using assms(1) e(1) by (metis monitor_ok_def linorder_not_less option.distinct(1))
  ultimately show ?thesis by blast
qed

text \<open>A change of the data of an object, not of its links, keeps all this.\<close>

lemma monitor_ok_data:
  assumes ok: "monitor_ok mo m" and e: "mo_heap mo p = Some e" and e': "links e' = links e" "ev_handler e \<noteq> None \<Longrightarrow> ev_handler e' \<noteq> None"
  shows "monitor_ok (mo\<lparr>mo_heap := (mo_heap mo)(p \<mapsto> e')\<rparr>) m"
proof -
  have "keeps_links (mo_heap mo) (q_tail (mo_queue mo)) ((mo_heap mo)(p \<mapsto> e'))"
    using e e'(1) by (auto simp: keeps_links_def)
  then have rep: "table_rep ((mo_heap mo)(p \<mapsto> e'), mo_queue mo) m"
    by (rule table_rep_links [OF monitor_okD(1) [OF ok]])
  have p: "p < mo_fresh mo" using monitor_okD(4) [OF ok, of p] e by (cases "mo_fresh mo \<le> p") auto
  have h: "ev_handler d \<noteq> None" if "m fd = Some q" "((mo_heap mo)(p \<mapsto> e')) q = Some d" for fd q d
  proof (cases "q = p")
    case True
    then have "ev_handler e \<noteq> None" using monitor_entry [OF ok that(1)] e by simp
    then show ?thesis using that(2) True e'(2) by simp
  next
    case False
    then show ?thesis using monitor_entry [OF ok that(1)] that(2) by auto
  qed
  show ?thesis
  proof (rule monitor_okI)
    fix fd q d assume "m fd = Some q" "mo_heap (mo\<lparr>mo_heap := (mo_heap mo)(p \<mapsto> e')\<rparr>) q = Some d"
    then show "ev_handler d \<noteq> None" using h by simp
  next
    fix a assume "mo_fresh (mo\<lparr>mo_heap := (mo_heap mo)(p \<mapsto> e')\<rparr>) \<le> a"
    then show "mo_heap (mo\<lparr>mo_heap := (mo_heap mo)(p \<mapsto> e')\<rparr>) a = None" using p monitor_okD(4) [OF ok, of a] by simp
  next
    fix fd x q assume "mo_interest (mo\<lparr>mo_heap := (mo_heap mo)(p \<mapsto> e')\<rparr>) fd = Some (x, q)"
    then show "m fd = Some q" using monitor_okD(2) [OF ok] by simp
  qed (simp_all add: rep monitor_okD(5) [OF ok])
qed

lemma same_data_handler:
  assumes "same_data h h'" "h' x = Some e'"
  shows "\<exists>e. h x = Some e \<and> ev_handler e' = ev_handler e \<and> ev_event e' = ev_event e"
proof -
  have "map_option unlinked (h' x) = map_option unlinked (h x)" using assms(1) by (simp add: same_data_def)
  then obtain e where e: "h x = Some e" "unlinked e = unlinked e'" using assms(2) by (cases "h x") auto
  then have "ev_handler (unlinked e) = ev_handler (unlinked e')" "ev_event (unlinked e) = ev_event (unlinked e')" by simp_all
  then show ?thesis using e(1) by (simp add: unlinked_def)
qed

lemma monitor_ok_other [simp]:
  "monitor_ok (mo\<lparr>mo_error_text := t\<rparr>) m = monitor_ok mo m"
  "monitor_ok (mo\<lparr>mo_heart_beat_count := n\<rparr>) m = monitor_ok mo m"
  "monitor_ok (mo\<lparr>mo_heart_beats := l\<rparr>) m = monitor_ok mo m"
  "monitor_ok (mo\<lparr>mo_stop := b\<rparr>) m = monitor_ok mo m"
  by (simp_all add: monitor_ok_def)

text \<open>An operation on the queue, and a new entry of the interest list.\<close>

lemma monitor_ok_queue:
  assumes ok: "monitor_ok mo m" and rep: "table_rep (h', q') m'" and same: "table_same (mo_heap mo, mo_queue mo) (h', q')"
    and reg: "\<And>fd x p. mo_interest mo fd = Some (x, p) \<Longrightarrow> m' fd = Some p"
    and new: "\<And>fd p. m' fd = Some p \<Longrightarrow> m fd = Some p \<or> (\<exists>e. mo_heap mo p = Some e \<and> ev_handler e \<noteq> None)"
  shows "monitor_ok (mo\<lparr>mo_heap := h', mo_queue := q'\<rparr>) m'"
proof (rule monitor_okI)
  have sd: "same_data (mo_heap mo) h'" "q_tail q' = q_tail (mo_queue mo)" using same by (simp_all add: table_same_def)
  show "table_rep (mo_heap (mo\<lparr>mo_heap := h', mo_queue := q'\<rparr>), mo_queue (mo\<lparr>mo_heap := h', mo_queue := q'\<rparr>)) m'"
    using rep by simp
  show "q_tail (mo_queue (mo\<lparr>mo_heap := h', mo_queue := q'\<rparr>)) < mo_fresh (mo\<lparr>mo_heap := h', mo_queue := q'\<rparr>)"
    using sd(2) monitor_okD(5) [OF ok] by simp
  fix fd x p assume "mo_interest (mo\<lparr>mo_heap := h', mo_queue := q'\<rparr>) fd = Some (x, p)"
  then show "m' fd = Some p" using reg by simp
next
  have sd: "same_data (mo_heap mo) h'" using same by (simp add: table_same_def)
  fix fd p e assume a: "m' fd = Some p" "mo_heap (mo\<lparr>mo_heap := h', mo_queue := q'\<rparr>) p = Some e"
  then obtain e1 where e1: "mo_heap mo p = Some e1" "ev_handler e = ev_handler e1"
    using same_data_handler [OF sd, of p e] by auto
  then have "ev_handler e1 \<noteq> None" using new [OF a(1)] monitor_okD(3) [OF ok] by auto
  then show "ev_handler e \<noteq> None" using e1 by simp
next
  have sd: "same_data (mo_heap mo) h'" using same by (simp add: table_same_def)
  fix a assume "mo_fresh (mo\<lparr>mo_heap := h', mo_queue := q'\<rparr>) \<le> a"
  then have "mo_heap mo a = None" using monitor_okD(4) [OF ok] by simp
  then show "mo_heap (mo\<lparr>mo_heap := h', mo_queue := q'\<rparr>) a = None"
    using same_data_handler [OF sd, of a] by (cases "h' a") auto
qed

lemma monitor_ok_register:
  assumes ok: "monitor_ok mo m" and "m fd = Some p"
  shows "monitor_ok (mo\<lparr>mo_interest := (mo_interest mo)(fd \<mapsto> (x, p))\<rparr>) m"
proof (rule monitor_okI)
  fix k y q assume "mo_interest (mo\<lparr>mo_interest := (mo_interest mo)(fd \<mapsto> (x, p))\<rparr>) k = Some (y, q)"
  then show "m k = Some q" using assms(2) monitor_okD(2) [OF ok] by (cases "k = fd") auto
qed (use monitor_okD [OF ok] in simp_all)

definition with_new :: "event \<Rightarrow> 'a monitor_scheme \<Rightarrow> 'a monitor_scheme" where
  "with_new e mo = mo\<lparr>mo_heap := (mo_heap mo)(mo_fresh mo \<mapsto> e), mo_fresh := mo_fresh mo + 1\<rparr>"

lemma monitor_ok_new:
  assumes ok: "monitor_ok mo m"
  shows "monitor_ok (with_new e mo) m"
proof (rule monitor_okI)
  have none: "mo_heap mo (mo_fresh mo) = None" using monitor_okD(4) [OF ok] by simp
  have "keeps_links (mo_heap mo) (q_tail (mo_queue mo)) ((mo_heap mo)(mo_fresh mo \<mapsto> e))"
    using none by (auto simp: keeps_links_def)
  then show "table_rep (mo_heap (with_new e mo), mo_queue (with_new e mo)) m"
    using table_rep_links [OF monitor_okD(1) [OF ok]] by (simp add: with_new_def)
  show "q_tail (mo_queue (with_new e mo)) < mo_fresh (with_new e mo)"
    using monitor_okD(5) [OF ok] by (simp add: with_new_def)
  show "m fd = Some p" if "mo_interest (with_new e mo) fd = Some (x, p)" for fd x p
    using monitor_okD(2) [OF ok] that by (simp add: with_new_def)
  show "mo_heap (with_new e mo) a = None" if "mo_fresh (with_new e mo) \<le> a" for a
    using monitor_okD(4) [OF ok, of a] that by (simp add: with_new_def)
  show "ev_handler d \<noteq> None" if "m fd = Some p" "mo_heap (with_new e mo) p = Some d" for fd p d
    using monitor_entry [OF ok that(1)] that(2) by (auto simp: with_new_def)
qed

section \<open>Adding, updating and deleting\<close>

lemma monitor_add_eq:
  "monitor_add env fd event handler param time_out mo =
     catchP (bindP (monitor_enter env (mo_fresh mo)) (\<lambda>_. liftP (returnS 0))) (\<lambda>n w. set_error_text env)
       (with_new (event_new (me_now env) fd event handler param time_out) mo)"
  by (simp add: monitor_add_def Let_def with_new_def)

lemma event_new_simps [simp]:
  "ev_fd (event_new now fd event handler param t) = fd" "ev_handler (event_new now fd event handler param t) = handler"
  "ev_event (event_new now fd event handler param t) = event" "\<not> ev_in_queue (event_new now fd event handler param t)"
  "ev_prev (event_new now fd event handler param t) = None" "ev_param (event_new now fd event handler param t) = param"
  by (simp_all add: event_new_def event_init_def event_default_def)

lemma monitor_add_spec:
  assumes ok: "monitor_ok mo m" and card: "card (dom m) < 2 ^ 31 - 1" and fd: "0 \<le> fd" and hd: "handler \<noteq> None"
  shows "\<exists>r mo'. monitor_add env fd event handler param t mo = Some (Inr r, mo') \<and> mo_fresh mo' = mo_fresh mo + 1 \<and>
    mo_epoll_fd mo' = mo_epoll_fd mo \<and> (if m fd \<noteq> None then r = - 1 \<and> monitor_ok mo' m \<and> mo_interest mo' = mo_interest mo
     else monitor_ok mo' (m(fd \<mapsto> mo_fresh mo)) \<and> (\<exists>e. mo_heap mo' (mo_fresh mo) = Some e \<and> ev_event e = event) \<and>
       (if me_fstat env = None \<and> epoll_ctl_error env False fd mo = None
        then r = 0 \<and> (\<exists>x. mo_interest mo' = (mo_interest mo)(fd \<mapsto> (x, mo_fresh mo)))
        else r = - 1 \<and> mo_interest mo' = mo_interest mo))"
proof -
  define a where "a = mo_fresh mo"
  define e where "e = event_new (me_now env) fd event handler param t"
  define mo1 where "mo1 = with_new e mo"
  have ok1: "monitor_ok mo1 m" unfolding mo1_def by (rule monitor_ok_new [OF ok])
  have e: "mo_heap mo1 a = Some e" by (simp add: mo1_def with_new_def a_def)
  have same: "mo_fresh mo1 = mo_fresh mo + 1" "mo_interest mo1 = mo_interest mo" "mo_epoll_fd mo1 = mo_epoll_fd mo"
    "mo_queue mo1 = mo_queue mo" by (simp_all add: mo1_def with_new_def)
  have ctl1: "epoll_ctl_error env False fd mo' = epoll_ctl_error env False fd mo"
    if "mo_interest mo' = mo_interest mo" "mo_epoll_fd mo' = mo_epoll_fd mo" for mo' :: "'a monitor_scheme"
    by (simp only: epoll_ctl_error_def that)
  have rep: "table_rep (mo_heap mo1, mo_queue mo1) m" by (rule monitor_okD(1) [OF ok1])
  have ready: "table_ready (mo_heap mo1, mo_queue mo1) a fd"
    using e fd monitor_okD(5) [OF ok] by (simp add: table_ready_def e_def same a_def)
  have eq: "monitor_add env fd event handler param t mo =
      catchP (bindP (monitor_enter env a) (\<lambda>_. liftP (returnS 0))) (\<lambda>n w. set_error_text env) mo1"
    by (simp add: monitor_add_eq a_def mo1_def e_def)
  show ?thesis
  proof (cases "m fd")
    case (Some p)
    then have "dec_add a (mo_heap mo1, mo_queue mo1) = Some (Inl (equal_fd fd), (mo_heap mo1, mo_queue mo1))"
      using event_table(2) [OF rep ready] by simp
    then have "monitor_add env fd event handler param t mo
        = Some (Inr (- 1), mo1\<lparr>mo_error_text := take (MAX_ERRMSG_LEN - 1) (cstr (me_freed env))\<rparr>)"
      by (simp add: eq catchP_def bindP_def monitor_enter_def queueP_def equal_fd_def THROW_def set_error_text_def)
    then show ?thesis using Some ok1 same by simp
  next
    case None
    then obtain h' q' where d: "dec_add a (mo_heap mo1, mo_queue mo1) = Some (Inr (), (h', q'))"
        "table_rep (h', q') (m(fd \<mapsto> a))" "table_same (mo_heap mo1, mo_queue mo1) (h', q')"
      using event_table(1) [OF rep ready _ card] by auto
    define mo2 where "mo2 = mo1\<lparr>mo_heap := h', mo_queue := q'\<rparr>"
    have ok2: "monitor_ok mo2 (m(fd \<mapsto> a))"
      unfolding mo2_def
    proof (rule monitor_ok_queue [OF ok1 d(2,3)])
      show "(m(fd \<mapsto> a)) k = Some p" if "mo_interest mo1 k = Some (x, p)" for k x p
        using monitor_okD(2) [OF ok1 that] None by auto
      show "m k = Some p \<or> (\<exists>e. mo_heap mo1 p = Some e \<and> ev_handler e \<noteq> None)" if "(m(fd \<mapsto> a)) k = Some p" for k p
        using that e hd by (cases "k = fd") (auto simp: e_def)
    qed
    obtain e2 where e2: "mo_heap mo2 a = Some e2" "ev_fd e2 = fd" "ev_event e2 = event"
      using monitor_entry [OF ok2, of fd a] same_data_handler [of "mo_heap mo1" h' a] d(3) e
      by (auto simp: table_same_def mo2_def e_def)
    have same2: "mo_fresh mo2 = mo_fresh mo + 1" "mo_interest mo2 = mo_interest mo" "mo_epoll_fd mo2 = mo_epoll_fd mo"
      by (simp_all add: mo2_def same)
    have enter: "monitor_enter env a mo1 = Some (case me_fstat env of
         Some err \<Rightarrow> (Inl (THROW CIpcException ERR_SYS_UNKNOWN (''fd: '' @ show_int fd @ '', fstat error: '' @ err)), mo2)
       | None \<Rightarrow> add_fd env a mo2)"
      using d(1) e2 by (cases "me_fstat env") (simp_all add: monitor_enter_def queueP_def bindP_def mo2_def)
    show ?thesis
    proof (cases "me_fstat env = None \<and> epoll_ctl_error env False fd mo = None")
      case True
      have "epoll_ctl_error env False (ev_fd e2) mo2 = None" using ctl1 [OF same2(2,3)] True e2(2) by simp
      then have "add_fd env a mo2 = (Inr (), mo2\<lparr>mo_interest := (mo_interest mo2)(fd \<mapsto> (epoll_flags e2, a))\<rparr>)"
        using e2 by (simp add: add_fd_def)
      then have "monitor_enter env a mo1 = Some (Inr (), mo2\<lparr>mo_interest := (mo_interest mo2)(fd \<mapsto> (epoll_flags e2, a))\<rparr>)"
        using True enter by simp
      then have "monitor_add env fd event handler param t mo
          = Some (Inr 0, mo2\<lparr>mo_interest := (mo_interest mo2)(fd \<mapsto> (epoll_flags e2, a))\<rparr>)"
        unfolding eq by (simp add: catchP_def bindP_def)
      moreover have "monitor_ok (mo2\<lparr>mo_interest := (mo_interest mo2)(fd \<mapsto> (epoll_flags e2, a))\<rparr>) (m(fd \<mapsto> a))"
        by (rule monitor_ok_register [OF ok2]) simp
      ultimately show ?thesis using None True same2 e2 by (auto simp: a_def)
    next
      case False
      have "epoll_ctl_error env False (ev_fd e2) mo2 = epoll_ctl_error env False fd mo" using ctl1 [OF same2(2,3)] e2(2) by simp
      then have "me_fstat env = None \<Longrightarrow> \<exists>w. add_fd env a mo2 = (Inl (THROW CIpcException ERR_SYS_UNKNOWN w), mo2)"
        using e2 False by (auto simp: add_fd_def)
      then have "\<exists>w. monitor_enter env a mo1 = Some (Inl (THROW CIpcException ERR_SYS_UNKNOWN w), mo2)"
        using enter by (cases "me_fstat env") auto
      then have "monitor_add env fd event handler param t mo
          = Some (Inr (- 1), mo2\<lparr>mo_error_text := take (MAX_ERRMSG_LEN - 1) (cstr (me_freed env))\<rparr>)"
        by (auto simp: eq catchP_def bindP_def set_error_text_def THROW_def)
      then show ?thesis using None False ok2 same2 e2 by (simp add: a_def)
    qed
  qed
qed

text \<open>A monitor right after \<open>init\<close>, its queue ended by the object at address 0.\<close>

definition monitor1 :: monitor where
  "monitor1 = \<lparr>mo_heap = fst (queue_new 0 Map.empty), mo_fresh = 1, mo_queue = snd (queue_new 0 Map.empty), mo_stop = False,
     mo_epoll_fd = 5, mo_interest = Map.empty, mo_heart_beat_count = 0, mo_heart_beats = [], mo_error_text = []\<rparr>"

lemma monitor1_ok: "monitor_ok monitor1 Map.empty"
proof (rule monitor_okI)
  show "table_rep (mo_heap monitor1, mo_queue monitor1) Map.empty"
    using queue_new_rep [of 0 Map.empty] by (simp add: monitor1_def)
qed (auto simp: monitor1_def queue_new_def)

lemma monitor_ok_unregister:
  assumes ok: "monitor_ok mo m"
  shows "monitor_ok (mo\<lparr>mo_interest := (mo_interest mo)(fd := None)\<rparr>) m"
proof (rule monitor_okI)
  fix k y q assume "mo_interest (mo\<lparr>mo_interest := (mo_interest mo)(fd := None)\<rparr>) k = Some (y, q)"
  then show "m k = Some q" using monitor_okD(2) [OF ok] by (cases "k = fd") auto
qed (use monitor_okD [OF ok] in simp_all)

lemma monitor_ok_free:
  assumes ok: "monitor_ok mo m" and e: "mo_heap mo p = Some e" "m (ev_fd e) \<noteq> Some p" "p \<noteq> q_tail (mo_queue mo)"
  shows "monitor_ok (mo\<lparr>mo_heap := (mo_heap mo)(p := None)\<rparr>) m"
proof (rule monitor_okI)
  show "table_rep (mo_heap (mo\<lparr>mo_heap := (mo_heap mo)(p := None)\<rparr>), mo_queue (mo\<lparr>mo_heap := (mo_heap mo)(p := None)\<rparr>)) m"
    using queued_in_table [OF monitor_okD(1) [OF ok] e] by simp
  fix fd q d assume a: "m fd = Some q" "mo_heap (mo\<lparr>mo_heap := (mo_heap mo)(p := None)\<rparr>) q = Some d"
  then have "mo_heap mo q = Some d" by (cases "q = p") auto
  then show "ev_handler d \<noteq> None" by (rule monitor_okD(3) [OF ok a(1)])
qed (use monitor_okD(2,4,5) [OF ok] in simp_all)

lemma monitor_del_spec:
  assumes ok: "monitor_ok mo m" and m: "m fd = Some p" and e: "mo_heap mo p = Some e" "\<not> check_event EV_PERSIST e"
    and env: "me_ctl env = None" "0 \<le> mo_epoll_fd mo"
  shows "\<exists>mo'. monitor_del env (Some p) mo = (Inr None, mo') \<and> monitor_ok mo' (m(fd := None)) \<and> mo_heap mo' p = None \<and>
    mo_interest mo' = (mo_interest mo)(fd := None) \<and> mo_fresh mo' = mo_fresh mo \<and> mo_epoll_fd mo' = mo_epoll_fd mo"
proof -
  have en: "ev_in_queue e" "ev_fd e = fd" "p \<noteq> q_tail (mo_queue mo)" using monitor_entry [OF ok m] e by auto
  obtain h' q' where d: "queue_del (Some p) (mo_heap mo, mo_queue mo) = (Inr (), (h', q'))"
    "table_rep (h', q') (m(fd := None))" "table_ready (h', q') p fd" "table_same (mo_heap mo, mo_queue mo) (h', q')"
    using event_table(3) [OF monitor_okD(1) [OF ok] m] by auto
  define mo1 where "mo1 = mo\<lparr>mo_heap := h', mo_queue := q', mo_interest := (mo_interest mo)(fd := None)\<rparr>"
  obtain e1 where e1: "h' p = Some e1" "ev_fd e1 = fd" "p \<noteq> q_tail q'" using d(3) by (auto simp: table_ready_def)
  have ok1: "monitor_ok mo1 (m(fd := None))"
  proof -
    have "monitor_ok (mo\<lparr>mo_interest := (mo_interest mo)(fd := None), mo_heap := h', mo_queue := q'\<rparr>) (m(fd := None))"
    proof (rule monitor_ok_queue [OF monitor_ok_unregister [OF ok]])
      show "(m(fd := None)) k = Some q" if "mo_interest (mo\<lparr>mo_interest := (mo_interest mo)(fd := None)\<rparr>) k = Some (x, q)" for k x q
        using that monitor_okD(2) [OF ok] by (cases "k = fd") auto
      show "m k = Some q \<or> (\<exists>e. mo_heap (mo\<lparr>mo_interest := (mo_interest mo)(fd := None)\<rparr>) q = Some e \<and> ev_handler e \<noteq> None)"
        if "(m(fd := None)) k = Some q" for k q using that by (cases "k = fd") auto
    qed (use d in simp_all)
    then show ?thesis unfolding mo1_def by (cases mo) simp
  qed
  have "del_fd env p (mo\<lparr>mo_heap := h', mo_queue := q'\<rparr>) = (Inr (), mo1)"
  proof (cases "mo_interest mo fd")
    case None
    then have "(mo_interest mo)(fd := None) = mo_interest mo" by auto
    then show ?thesis using None e1 env by (simp add: del_fd_def epoll_ctl_error_def mo1_def)
  next
    case (Some x)
    then show ?thesis using e1 env by (simp add: del_fd_def epoll_ctl_error_def mo1_def)
  qed
  then have "monitor_del env (Some p) mo = (Inr None, mo1\<lparr>mo_heap := (mo_heap mo1)(p := None)\<rparr>)"
    using e en d(1) by (simp add: monitor_del_def bindS_def)
  moreover have "monitor_ok (mo1\<lparr>mo_heap := (mo_heap mo1)(p := None)\<rparr>) (m(fd := None))"
    using e1 by (intro monitor_ok_free [OF ok1, of p e1]) (simp_all add: mo1_def)
  ultimately show ?thesis by (simp add: mo1_def)
qed

section \<open>A failed \<open>add\<close> blocks its descriptor\<close>

text \<open>What the callers of a thread's monitor do with it: they add descriptors, and delete the event whose pointer
  \<open>epoll\<close> hands out for a descriptor, the only pointer to it that anybody has, for \<open>add\<close> returns none.\<close>

datatype monitor_call =
    Add_Call monitor_env int int nat int int
  | Del_Call monitor_env int

fun call_run :: "monitor_call \<Rightarrow> ('a monitor_scheme, int) pop" where
  "call_run (Add_Call env fd event handler param t) mo = monitor_add env fd event (Some handler) param t mo"
| "call_run (Del_Call env k) mo =
     (case mo_interest mo k of
        None \<Rightarrow> Some (Inr 0, mo)
      | Some (x, p) \<Rightarrow> Some (map_prod (map_sum (\<lambda>f. f) (\<lambda>_. 0)) (\<lambda>mo. mo) (monitor_del env (Some p) mo)))"

fun call_answers :: "monitor_call list \<Rightarrow> 'a monitor_scheme \<Rightarrow> (fault + int) option list" where
  "call_answers [] mo = []"
| "call_answers (c # cs) mo =
     (case call_run c mo of None \<Rightarrow> [None] | Some (r, mo') \<Rightarrow> Some r # call_answers cs mo')"

text \<open>An \<open>epoll_ctl\<close> that fails to take a descriptor out of the interest list would leave a pointer to a deleted event.\<close>

fun call_ok :: "monitor_call \<Rightarrow> bool" where
  "call_ok (Add_Call env fd event handler param t) = (0 \<le> fd)"
| "call_ok (Del_Call env k) = (me_ctl env = None)"

fun adds_fd :: "int \<Rightarrow> monitor_call \<Rightarrow> bool" where
  "adds_fd fd (Add_Call env k event handler param t) = (k = fd)"
| "adds_fd fd (Del_Call env k) = False"

text \<open>The state the failed \<open>add\<close> leaves: an event of the descriptor is queued, and \<open>epoll\<close> does not know it.\<close>

definition stale :: "int \<Rightarrow> nat \<Rightarrow> 'a monitor_scheme \<Rightarrow> bool" where
  "stale fd n mo \<longleftrightarrow> (\<exists>m. monitor_ok mo m \<and> m fd \<noteq> None \<and> mo_interest mo fd = None \<and> 0 \<le> mo_epoll_fd mo \<and>
     card (dom m) + n < 2 ^ 31 - 1)"

lemma card_dom_upd: "card (dom (m(k \<mapsto> v))) \<le> Suc (card (dom m))" "card (dom (m(k := None))) \<le> card (dom m)"
  by (cases "finite (dom m)"; auto simp: card_insert_if card_Diff_singleton_if)+

lemma stale_call:
  assumes st: "stale fd (Suc n) mo" and c: "call_ok c"
  shows "\<exists>r mo'. call_run c mo = Some (r, mo') \<and> stale fd n mo' \<and> (if adds_fd fd c then r = Inr (- 1) else True)"
proof -
  obtain m where m: "monitor_ok mo m" "m fd \<noteq> None" "mo_interest mo fd = None" "0 \<le> mo_epoll_fd mo"
    "card (dom m) + Suc n < 2 ^ 31 - 1" using st by (auto simp: stale_def)
  show ?thesis
  proof (cases c)
    case (Add_Call env k event handler param t)
    have "card (dom m) < 2 ^ 31 - 1" "0 \<le> k" using m(5) c Add_Call by simp_all
    then obtain r mo' where a: "monitor_add env k event (Some handler) param t mo = Some (Inr r, mo')"
      "mo_epoll_fd mo' = mo_epoll_fd mo"
      "if m k \<noteq> None then r = - 1 \<and> monitor_ok mo' m \<and> mo_interest mo' = mo_interest mo
       else monitor_ok mo' (m(k \<mapsto> mo_fresh mo)) \<and>
         (mo_interest mo' = mo_interest mo \<or> (\<exists>x. mo_interest mo' = (mo_interest mo)(k \<mapsto> (x, mo_fresh mo))))"
      using monitor_add_spec [OF m(1), of k "Some handler" env event param t] by (smt (verit) option.distinct(1))
    show ?thesis
    proof (cases "m k")
      case None
      then have "k \<noteq> fd" "mo_interest mo' fd = None" using a(3) m(2,3) by auto
      moreover have "card (dom (m(k \<mapsto> mo_fresh mo))) + n < 2 ^ 31 - 1" using m(5) card_dom_upd(1) [of m k "mo_fresh mo"] by linarith
      ultimately have "stale fd n mo'"
        using a(2,3) None m(2,4) unfolding stale_def by (intro exI [of _ "m(k \<mapsto> mo_fresh mo)"]) simp
      then show ?thesis using a(1) Add_Call \<open>k \<noteq> fd\<close> by simp
    next
      case (Some p)
      then have "stale fd n mo'" using a(2,3) m unfolding stale_def by (intro exI [of _ m]) simp
      then show ?thesis using a(1,3) Some Add_Call by simp
    qed
  next
    case (Del_Call env k)
    show ?thesis
    proof (cases "mo_interest mo k")
      case None
      then have "stale fd n mo" using m unfolding stale_def by (intro exI [of _ m]) simp
      then show ?thesis using None Del_Call by simp
    next
      case (Some xp)
      obtain x p where xp: "xp = (x, p)" by (cases xp)
      have mk: "m k = Some p" "k \<noteq> fd" using monitor_okD(2) [OF m(1)] Some m(3) xp by auto
      obtain e where e: "mo_heap mo p = Some e" "ev_in_queue e" using monitor_entry [OF m(1) mk(1)] by auto
      show ?thesis
      proof (cases "check_event EV_PERSIST e")
        case True
        then have "monitor_del env (Some p) mo = (Inr (Some p), mo)" using e by (simp add: monitor_del_def)
        moreover have "stale fd n mo" using m unfolding stale_def by (intro exI [of _ m]) simp
        ultimately show ?thesis using Some xp Del_Call by simp
      next
        case False
        obtain mo' where d: "monitor_del env (Some p) mo = (Inr None, mo')" "monitor_ok mo' (m(k := None))"
          "mo_interest mo' = (mo_interest mo)(k := None)" "mo_epoll_fd mo' = mo_epoll_fd mo"
          using monitor_del_spec [OF m(1) mk(1) e(1) False, of env] m(4) c Del_Call by auto
        have "card (dom (m(k := None))) + n < 2 ^ 31 - 1" using m(5) card_dom_upd(2) [of m k] by linarith
        then have "stale fd n mo'"
          using d m(2,3,4) mk(2) unfolding stale_def by (intro exI [of _ "m(k := None)"]) simp
        then show ?thesis using d(1) Some xp Del_Call by simp
      qed
    qed
  qed
qed

lemma stale_calls:
  assumes "stale fd (length cs) mo" and "list_all call_ok cs"
  shows "list_all2 (\<lambda>c r. r \<noteq> None \<and> (if adds_fd fd c then r = Some (Inr (- 1)) else True)) cs (call_answers cs mo)"
  using assms
proof (induction cs arbitrary: mo)
  case (Cons c cs)
  then obtain r mo' where "call_run c mo = Some (r, mo')" "stale fd (length cs) mo'"
    "if adds_fd fd c then r = Inr (- 1) else True"
    using stale_call [of fd "length cs" mo c] by auto
  then show ?case using Cons by auto
qed simp

text \<open>C24: an \<open>add\<close> that fails after the event went into the queue leaves it there, and nobody has a pointer to it:
  every later \<open>add\<close> for that descriptor is refused, whatever the system answers to it and whatever descriptors are
  added and deleted in between, for as long as the monitor is not cleaned. The bound is on the events in the queue,
  which counts them in an \<open>int\<close>.\<close>

theorem failed_add_blocks_descriptor:
  assumes "monitor_ok mo m" and "Suc (card (dom m) + length calls) < 2 ^ 31 - 1" and "0 \<le> fd" and "0 \<le> mo_epoll_fd mo"
    and "m fd = None" and "me_fstat env \<noteq> None \<or> epoll_ctl_error env False fd mo \<noteq> None" and "list_all call_ok calls"
  shows "case monitor_add env fd event (Some handler) param t mo of None \<Rightarrow> False
    | Some (r, mo') \<Rightarrow> r = Inr (- 1) \<and> mo_interest mo' = mo_interest mo \<and>
        list_all2 (\<lambda>c r. r \<noteq> None \<and> (if adds_fd fd c then r = Some (Inr (- 1)) else True)) calls (call_answers calls mo')"
proof -
  have "card (dom m) < 2 ^ 31 - 1" using assms(2) by simp
  then obtain r mo' where a: "monitor_add env fd event (Some handler) param t mo = Some (Inr r, mo')" "r = - 1"
      "mo_interest mo' = mo_interest mo" "monitor_ok mo' (m(fd \<mapsto> mo_fresh mo))" "mo_epoll_fd mo' = mo_epoll_fd mo"
    using monitor_add_spec [OF assms(1) _ assms(3), of "Some handler" env event param t] assms(5,6) by (auto split: if_splits)
  have "card (dom (m(fd \<mapsto> mo_fresh mo))) + length calls < 2 ^ 31 - 1"
    using assms(2) card_dom_upd(1) [of m fd "mo_fresh mo"] by linarith
  moreover have "mo_interest mo' fd = None"
    using a(3) assms(5) monitor_okD(2) [OF assms(1), of fd] by (cases "mo_interest mo fd") auto
  ultimately have "stale fd (length calls) mo'"
    using a(4,5) assms(4) unfolding stale_def by (intro exI [of _ "m(fd \<mapsto> mo_fresh mo)"]) simp
  from stale_calls [OF this assms(7)] show ?thesis using a(1-3) by simp
qed

text \<open>The system when nothing fails.\<close>

definition env0_ok :: monitor_env where
  "env0_ok = \<lparr>me_now = (0, 0), me_fstat = None, me_ctl = None, me_freed = []\<rparr>"

lemma failed_add_blocks_descriptor_witness:
  "case monitor_add (env0_ok\<lparr>me_fstat := Some ''Bad file descriptor''\<rparr>) 9 EV_READ (Some 1) 0 0 monitor1 of None \<Rightarrow> False
   | Some (r, mo') \<Rightarrow> r = Inr (- 1) \<and> mo_interest mo' = mo_interest monitor1 \<and>
       list_all2 (\<lambda>c r. r \<noteq> None \<and> (if adds_fd 9 c then r = Some (Inr (- 1)) else True))
         [Add_Call env0_ok 9 EV_READ 1 0 0, Del_Call env0_ok 9, Add_Call env0_ok 9 EV_READ 1 0 0]
         (call_answers [Add_Call env0_ok 9 EV_READ 1 0 0, Del_Call env0_ok 9, Add_Call env0_ok 9 EV_READ 1 0 0] mo')"
  by (rule failed_add_blocks_descriptor [OF monitor1_ok]) (simp_all add: monitor1_def env0_ok_def)

section \<open>Time-outs\<close>

text \<open>A time-out is only looked at for an event \<open>epoll_wait\<close> reports: however many rounds pass, an event that is not
  reported keeps its place and its handler is not called.\<close>

lemma silent_rounds:
  assumes "\<forall>(time, ready) \<in> set rounds. ready = None \<or> ready = Some []"
  shows "case monitor_rounds run rounds mo of None \<Rightarrow> False
    | Some (r, mo') \<Rightarrow> r \<in> range Inr \<and> mo_heap mo' = mo_heap mo \<and> mo_queue mo' = mo_queue mo \<and> mo_interest mo' = mo_interest mo"
  using assms
proof (induction rounds arbitrary: mo)
  case (Cons round rounds)
  obtain time ready where r: "round = (time, ready)" "ready = None \<or> ready = Some []" using Cons.prems by (cases round) auto
  show ?case
  proof (cases "mo_stop mo \<or> q_size (mo_queue mo) = 0")
    case True
    then show ?thesis using r by (auto simp: bindP_def monitor_once_def)
  next
    case False
    define mo1 where "mo1 = snd (the (heart_beat time mo))"
    have h: "heart_beat time mo = Some (Inr (), mo1)" "mo_heap mo1 = mo_heap mo" "mo_queue mo1 = mo_queue mo" "mo_interest mo1 = mo_interest mo"
      by (simp_all add: mo1_def heart_beat_def)
    have "monitor_once run time ready mo = Some (Inr True, mo1)"
      using False r(2) h(1) by (auto simp: monitor_once_def bindP_def)
    then have eq: "monitor_rounds run (round # rounds) mo = monitor_rounds run rounds mo1"
      using False r(1) by (simp add: bindP_def)
    have "\<forall>(time, ready) \<in> set rounds. ready = None \<or> ready = Some []" using Cons.prems by simp
    then show ?thesis unfolding eq using Cons.IH [of mo1, unfolded h(2-4)] by blast
  qed
qed simp

text \<open>The age of an event is kept in 32 bits of microseconds: after half an hour and more it is negative again.\<close>

lemma time_out_wraps:
  "is_time_out (2200, 0) (event_new (0, 0) 9 (EV_READ + EV_TIMEOUT) (Some 1) 0 500) = False"
  "is_time_out (1, 0) (event_new (0, 0) 9 (EV_READ + EV_TIMEOUT) (Some 1) 0 500) = True"
  by (simp_all add: is_time_out_def event_new_def event_init_def event_default_def check_event_def check_mask_def
      EV_PERSIST_def EV_READ_def EV_TIMEOUT_def i32_def DEFAULT_TIME_OUT_def)

end
