(* ===== verification/Config.thy ===== *)
theory Config
  imports Comm_Func
begin

text \<open>
  Reading configuration files line by line: \<open>CConfig\<close> (\<open>sys/trpc_config.cpp\<close>). A file is input: the error of
  \<open>fopen\<close>, or its bytes with the error that ends reading them, if one does. The theory shows which lines reach the
  line function.
\<close>

section \<open>Files and lines\<close>

datatype conf_file = NoFile (open_error: string) | File (file_content: string) (read_error: "string option")

text \<open>\<open>fgets\<close> with room for \<open>n\<close> bytes before the terminator: up to and with the next newline.\<close>

definition NL :: char where "NL = CHR 0x0A"

fun fgets :: "nat \<Rightarrow> string \<Rightarrow> string \<times> string" where
  "fgets 0 s = ([], s)"
| "fgets (Suc n) [] = ([], [])"
| "fgets (Suc n) (c # cs) = (if c = NL then ([c], cs) else let (a, b) = fgets n cs in (c # a, b))"

lemma fgets_length: "s \<noteq> [] \<Longrightarrow> length (snd (fgets (Suc n) s)) < length s"
proof -
  have le: "length (snd (fgets n s)) \<le> length s" for n s
    by (induction n s rule: fgets.induct) (auto simp: Let_def split: prod.splits)
  assume "s \<noteq> []"
  then show ?thesis using le by (cases s) (auto simp: less_Suc_eq_le split: prod.splits, metis snd_conv)
qed

text \<open>The calls of \<open>fgets\<close> until the end of the file; a buffer of \<open>n + 2\<close> bytes.\<close>

function fgets_lines :: "nat \<Rightarrow> string \<Rightarrow> string list" where
  "fgets_lines n s = (if s = [] then [] else let (a, b) = fgets (Suc n) s in a # fgets_lines n b)"
  by pat_completeness auto
termination
proof (relation "measure (\<lambda>(n, s). length s)")
  fix n :: nat and s :: string and p and a b :: string
  assume "s \<noteq> []" "p = fgets (Suc n) s" "(a, b) = p"
  then show "((n, b), n, s) \<in> measure (\<lambda>(n, s). length s)"
    using fgets_length [of s n] by (metis case_prod_conv in_measure snd_conv)
qed simp

declare fgets_lines.simps [simp del]

lemma fgets_line: "NL \<notin> set l \<Longrightarrow> length l \<le> n \<Longrightarrow> fgets (Suc n) (l @ NL # r) = (l @ [NL], r)"
proof (induction l arbitrary: n)
  case (Cons c l)
  then obtain m where "n = Suc m" "length l \<le> m" by (cases n) auto
  with Cons show ?case by auto
qed simp

lemma fgets_lines_concat:
  assumes "\<forall>l \<in> set ls. NL \<notin> set l \<and> length l \<le> n"
  shows "fgets_lines n (concat (map (\<lambda>l. l @ [NL]) ls)) = map (\<lambda>l. l @ [NL]) ls"
  using assms
proof (induction ls)
  case (Cons l ls)
  then show ?case
    by (subst fgets_lines.simps) (simp add: fgets_line)
qed (simp add: fgets_lines.simps)

section \<open>\<open>strtok_r\<close>\<close>

text \<open>A token after leading separators and the text behind it, \<open>None\<close> for \<open>NULL\<close>. Every caller
  passes one separator.\<close>

definition strtok :: "char \<Rightarrow> string \<Rightarrow> (string \<times> string) option" where
  "strtok d s =
     (let s' = dropWhile (\<lambda>c. c = d) s
      in if s' = [] then None
         else Some (takeWhile (\<lambda>c. c \<noteq> d) s', drop 1 (dropWhile (\<lambda>c. c \<noteq> d) s')))"

lemma strtok_tok:
  "d \<notin> set t \<Longrightarrow> t \<noteq> [] \<Longrightarrow> strtok d (t @ d # r) = Some (t, r)"
  "d \<notin> set t \<Longrightarrow> t \<noteq> [] \<Longrightarrow> strtok d t = Some (t, [])"
proof -
  assume t: "d \<notin> set t" "t \<noteq> []"
  have dw: "dropWhile (\<lambda>c. c = d) (t @ r) = t @ r" for r using t by (cases t) auto
  have p: "\<forall>x \<in> set t. x \<noteq> d" using t by auto
  show "strtok d (t @ d # r) = Some (t, r)"
    using t p dw [of "d # r"] dropWhile_append2 [of t "\<lambda>c. c \<noteq> d" "d # r"] takeWhile_append2 [of t "\<lambda>c. c \<noteq> d" "d # r"]
    by (simp add: strtok_def Let_def)
  have tn: "takeWhile (\<lambda>c. c \<noteq> d) t = t" "dropWhile (\<lambda>c. c \<noteq> d) t = []"
    using p by (auto simp: takeWhile_eq_all_conv dropWhile_eq_Nil_conv)
  show "strtok d t = Some (t, [])"
    using t dw [of "[]"] by (simp add: strtok_def Let_def tn)
qed

text \<open>The next token, stripped; \<open>what\<close> is the text of the exception where there is none.\<close>

definition next_tok :: "string \<Rightarrow> char \<Rightarrow> string \<Rightarrow> ('d, string \<times> string) op" where
  "next_tok what d rest =
     (case strtok d rest of
        None \<Rightarrow> throwS (THROW CConfigException ERR_CONF what)
      | Some (tok, rest') \<Rightarrow> returnS (strstrip tok, rest'))"

section \<open>\<open>CConfig\<close>\<close>

record 'd config =
  c_data :: 'd
  c_rows :: int

definition MAX_CONF_LENGTH_SIZE :: nat where "MAX_CONF_LENGTH_SIZE = 4196"

text \<open>\<open>get_line_entrance\<close>: an exception of the line function is reported in the log and the line
  skipped (the answer 1).\<close>

definition get_line_entrance :: "(string \<Rightarrow> ('d, unit) op) \<Rightarrow> string \<Rightarrow> ('d config, int) op" where
  "get_line_entrance get_line str = (\<lambda>c.
     case get_line str (c_data c) of
       (Inl (Throw k n w), d) \<Rightarrow> (Inr 1, c\<lparr>c_data := d\<rparr>)
     | (Inl f, d) \<Rightarrow> (Inl f, c\<lparr>c_data := d\<rparr>)
     | (Inr _, d) \<Rightarrow> (Inr 0, c\<lparr>c_data := d\<rparr>))"

definition conf_text :: "string \<Rightarrow> string" where
  "conf_text line = strstrip (cstr line)"

definition is_comment :: "string \<Rightarrow> bool" where
  "is_comment s \<longleftrightarrow> (case s of [] \<Rightarrow> True | c # _ \<Rightarrow> c = CHR ''#'')"

fun read_lines :: "(string \<Rightarrow> ('d config, int) op) \<Rightarrow> string list \<Rightarrow> ('d config, unit) op" where
  "read_lines fnGetRecord [] = returnS ()"
| "read_lines fnGetRecord (l # ls) =
     (let buf = conf_text l
      in if is_comment buf then read_lines fnGetRecord ls
         else bindS (fnGetRecord buf) (\<lambda>iRetVal.
           if iRetVal = 0 then seqS (modS (\<lambda>c. c\<lparr>c_rows := i32 (c_rows c + 1)\<rparr>)) (read_lines fnGetRecord ls)
           else if iRetVal < 0 then throwS (THROW CConfigException ERR_CONF ''read record error'')
           else read_lines fnGetRecord ls))"

definition config_read_conf ::
  "(string \<Rightarrow> ('d config, int) op) \<Rightarrow> string \<Rightarrow> conf_file \<Rightarrow> ('d config, unit) op" where
  "config_read_conf fnGetRecord name file =
     (case file of
        NoFile err \<Rightarrow> throwS (THROW CConfigException ERR_CONF (''fopen '' @ name @ '': '' @ err))
      | File content err \<Rightarrow>
          seqS (read_lines fnGetRecord (fgets_lines (MAX_CONF_LENGTH_SIZE - 2) content))
            (case err of None \<Rightarrow> returnS ()
             | Some e \<Rightarrow> throwS (THROW CConfigException ERR_CONF (''fgets '' @ name @ '': '' @ e))))"

definition config_clear :: "('d \<Rightarrow> 'd) \<Rightarrow> ('d config, unit) op" where
  "config_clear clear_data = modS (\<lambda>c. c\<lparr>c_data := clear_data (c_data c), c_rows := 0\<rparr>)"

text \<open>What reading amounts to: the line function on the texts of the lines that are neither empty
  nor comments, in order, the failing ones skipped.\<close>

definition conf_lines :: "string list \<Rightarrow> string list" where
  "conf_lines ls = filter (\<lambda>s. \<not> is_comment s) (map conf_text ls)"

definition line_effect :: "(string \<Rightarrow> ('d, unit) op) \<Rightarrow> string \<Rightarrow> 'd \<Rightarrow> 'd" where
  "line_effect get_line s d = snd (get_line s d)"

definition only_throws :: "('d, 'a) op \<Rightarrow> bool" where
  "only_throws m \<longleftrightarrow> (\<forall>d. fst (m d) \<noteq> Inl MemoryFault \<and> fst (m d) \<noteq> Inl AssertFail)"

lemma read_lines_effect:
  assumes "\<And>s. s \<in> set (conf_lines ls) \<Longrightarrow> only_throws (get_line s)"
  shows "\<exists>c'. read_lines (get_line_entrance get_line) ls c = (Inr (), c')
     \<and> c_data c' = fold (line_effect get_line) (conf_lines ls) (c_data c)"
  using assms
proof (induction ls arbitrary: c)
  case Nil
  then show ?case by (simp add: returnS_def conf_lines_def)
next
  case (Cons l ls)
  have IH: "\<exists>c'. read_lines (get_line_entrance get_line) ls c = (Inr (), c')
     \<and> c_data c' = fold (line_effect get_line) (conf_lines ls) (c_data c)" for c
    using Cons by (auto simp: conf_lines_def)
  show ?case
  proof (cases "is_comment (conf_text l)")
    case True
    then show ?thesis using IH [of c] by (simp add: conf_lines_def)
  next
    case False
    then have cl: "conf_lines (l # ls) = conf_text l # conf_lines ls" by (simp add: conf_lines_def)
    obtain r d where g: "get_line (conf_text l) (c_data c) = (r, d)"
      by (cases "get_line (conf_text l) (c_data c)") auto
    have "only_throws (get_line (conf_text l))" using Cons.prems cl by simp
    then have r: "r \<noteq> Inl MemoryFault" "r \<noteq> Inl AssertFail"
      using g by (auto simp: only_throws_def) (metis fst_conv)+
    have le: "line_effect get_line (conf_text l) (c_data c) = d" using g by (simp add: line_effect_def)
    show ?thesis
    proof (cases r)
      case (Inl f)
      then obtain k n w where f: "f = Throw k n w" using r by (cases f) auto
      have "get_line_entrance get_line (conf_text l) c = (Inr 1, c\<lparr>c_data := d\<rparr>)"
        using g f Inl by (simp add: get_line_entrance_def)
      then show ?thesis
        using IH [of "c\<lparr>c_data := d\<rparr>"] False le cl by (simp add: Let_def bindS_def)
    next
      case (Inr u)
      have "get_line_entrance get_line (conf_text l) c = (Inr 0, c\<lparr>c_data := d\<rparr>)"
        using g Inr by (simp add: get_line_entrance_def)
      then show ?thesis
        using IH [of "c\<lparr>c_data := d, c_rows := i32 (c_rows c + 1)\<rparr>"] False le cl
        by (simp add: Let_def bindS_def seqS_def)
    qed
  qed
qed

lemma config_read_effect:
  assumes "\<And>s. s \<in> set (conf_lines (fgets_lines (MAX_CONF_LENGTH_SIZE - 2) content)) \<Longrightarrow> only_throws (get_line s)"
  shows "\<exists>c'. config_read_conf (get_line_entrance get_line) name (File content None) c = (Inr (), c')
     \<and> c_data c' = fold (line_effect get_line) (conf_lines (fgets_lines (MAX_CONF_LENGTH_SIZE - 2) content)) (c_data c)"
  using read_lines_effect [of "fgets_lines (MAX_CONF_LENGTH_SIZE - 2) content" get_line c, OF assms] by (auto simp: config_read_conf_def seqS_def bindS_def returnS_def)

text \<open>Whatever the file, an invariant of the line function is one of reading it, and no fault is
  raised.\<close>

lemma config_read_inv:
  assumes "\<And>s d. P d \<Longrightarrow> P (line_effect get_line s d)" and "\<And>s. only_throws (get_line s)" and "P (c_data c)"
    and r: "config_read_conf (get_line_entrance get_line) name file c = (r, c')"
  shows "P (c_data c') \<and> r \<noteq> Inl MemoryFault \<and> r \<noteq> Inl AssertFail"
proof (cases "file")
  case (NoFile err)
  then show ?thesis using assms(3) r by (auto simp: config_read_conf_def throwS_def)
next
  case (File content err)
  obtain c1 where c1: "read_lines (get_line_entrance get_line) (fgets_lines (MAX_CONF_LENGTH_SIZE - 2) content) c = (Inr (), c1)"
    "c_data c1 = fold (line_effect get_line) (conf_lines (fgets_lines (MAX_CONF_LENGTH_SIZE - 2) content)) (c_data c)"
    using read_lines_effect [of "fgets_lines (MAX_CONF_LENGTH_SIZE - 2) content" get_line c, OF assms(2)] by blast
  have "P (fold (line_effect get_line) ls d)" if "P d" for ls d
    using that assms(1) by (induction ls arbitrary: d) auto
  then show ?thesis
    using c1 r assms(3) File by (auto simp: config_read_conf_def seqS_def bindS_def returnS_def throwS_def split: option.splits)
qed

section \<open>Well-formed lines\<close>

definition conf_line :: "string \<Rightarrow> bool" where
  "conf_line l \<longleftrightarrow> clean l \<and> \<not> is_comment l \<and> NUL \<notin> set l \<and> NL \<notin> set l \<and> length l \<le> MAX_CONF_LENGTH_SIZE - 2"

definition conf_of :: "string list \<Rightarrow> conf_file" where
  "conf_of ls = File (concat (map (\<lambda>l. l @ [NL]) ls)) None"

lemma NL_space: "isspace NL" by (simp add: isspace_def NL_def)

lemma conf_text_line: "clean l \<Longrightarrow> l \<noteq> [] \<Longrightarrow> NUL \<notin> set l \<Longrightarrow> conf_text (l @ [NL]) = l"
proof -
  assume l: "clean l" "l \<noteq> []" "NUL \<notin> set l"
  have "NUL \<notin> set (l @ [NL])" using l by (simp add: NL_def)
  then have "conf_text (l @ [NL]) = strchomp (l @ [NL])"
    by (simp only: conf_text_def strstrip_def strchug_def cstr_id dropWhile_clean [OF l(1,2)] not_False_eq_True)
  also have "\<dots> = strchomp l" by (simp add: strchomp_def NL_space)
  also have "\<dots> = l" using strstrip_id [OF l(1)] dropWhile_clean [OF l(1,2), of "[]"]
    by (simp add: strstrip_def strchug_def)
  finally show ?thesis .
qed

lemma conf_lines_lines: "\<forall>l \<in> set ls. conf_line l \<Longrightarrow> conf_lines (map (\<lambda>l. l @ [NL]) ls) = ls"
proof (induction ls)
  case (Cons l ls)
  then have "conf_text (l @ [NL]) = l" "\<not> is_comment l"
    by (auto simp: conf_line_def is_comment_def intro!: conf_text_line)
  then show ?case using Cons by (simp add: conf_lines_def)
qed (simp add: conf_lines_def)

lemma read_conf_lines:
  assumes "\<forall>l \<in> set ls. conf_line l" and "\<And>s. s \<in> set ls \<Longrightarrow> only_throws (get_line s)"
  shows "\<exists>c'. config_read_conf (get_line_entrance get_line) name (conf_of ls) c = (Inr (), c')
     \<and> c_data c' = fold (line_effect get_line) ls (c_data c)"
proof -
  have "fgets_lines (MAX_CONF_LENGTH_SIZE - 2) (concat (map (\<lambda>l. l @ [NL]) ls)) = map (\<lambda>l. l @ [NL]) ls"
    using assms(1) by (intro fgets_lines_concat) (auto simp: conf_line_def)
  then show ?thesis
    using config_read_effect [of "concat (map (\<lambda>l. l @ [NL]) ls)" get_line name c] assms conf_lines_lines [OF assms(1)]
    by (simp add: conf_of_def)
qed

section \<open>Joined texts and numbers as fields\<close>

lemma set_join: "set (join d ts) \<subseteq> insert d (\<Union> (set ` set ts))"
  by (induction d ts rule: join.induct) auto

lemma join_nonempty: "ts \<noteq> [] \<Longrightarrow> \<forall>t \<in> set ts. t \<noteq> [] \<Longrightarrow> join d ts \<noteq> []"
  by (cases "(d, ts)" rule: join.cases) auto

lemma hd_join: "ts \<noteq> [] \<Longrightarrow> hd ts \<noteq> [] \<Longrightarrow> hd (join d ts) = hd (hd ts)"
  by (cases "(d, ts)" rule: join.cases) auto

lemma last_join: "ts \<noteq> [] \<Longrightarrow> \<forall>t \<in> set ts. t \<noteq> [] \<Longrightarrow> last (join d ts) = last (last ts)"
proof (induction d ts rule: join.induct)
  case (3 d t u ts)
  then have "join d (u # ts) \<noteq> []" by (intro join_nonempty) auto
  with 3 show ?case by simp
qed auto

lemma clean_join: "ts \<noteq> [] \<Longrightarrow> \<forall>t \<in> set ts. t \<noteq> [] \<and> clean t \<Longrightarrow> clean (join d ts)"
  by (auto simp: clean_def hd_join last_join)

lemma show_int_chars: "set (show_int x) \<subseteq> insert CHR ''-'' {c. isdigit c}"
  using show_nat_digits by (auto simp: show_int_def)

lemma show_int_nonempty: "show_int x \<noteq> []"
  by (simp add: show_int_def)

lemma show_int_token: "\<not> isdigit d \<Longrightarrow> d \<noteq> CHR ''-'' \<Longrightarrow> token_for d (show_int x)"
proof -
  assume d: "\<not> isdigit d" "d \<noteq> CHR ''-''"
  have "\<not> isspace c" if "c \<in> set (show_int x)" for c
    using that show_int_chars [of x] isdigit_not_isspace by (auto simp: isspace_def)
  moreover have "d \<notin> set (show_int x)" using d show_int_chars [of x] by auto
  ultimately show ?thesis using show_int_nonempty [of x] by (auto simp: token_for_def clean_def)
qed

end
