(* ===== verification/Switch_Stats.thy ===== *)
theory Switch_Stats
  imports Comm_Func Config "HOL-Library.Log_Nat"
begin

text \<open>
  Counting the failures of a service or of a site: \<open>SwitchStatsConf\<close> (\<open>src/switch_stats_conf.h\<close>), the
  limits read from a file, and \<open>SwitchKeyStats\<close> with \<open>SwitchStatsPool\<close> (\<open>src/switch_key_stats.h\<close>), the
  counters. Both are templates over the type of the key, \<open>std::string\<close> for a service and \<open>int\<close> for a site;
  so are the definitions. The clock is input. The success ratio is computed in \<open>float\<close>, which is modelled as
  arithmetic on rationals rounded to 24 bits; the lemmas show where it decides as the exact ratio does.
\<close>

section \<open>Rounding to \<open>float\<close>\<close>

text \<open>To the nearest integer, a tie to the even one.\<close>

definition round_even :: "rat \<Rightarrow> int" where
  "round_even y =
     (let f = \<lfloor>y\<rfloor>; d = y - of_int f in if d < 1 / 2 \<or> (d = 1 / 2 \<and> even f) then f else f + 1)"

text \<open>The unit in the last of 24 binary places, for numbers of at least \<open>2 ^ - 64\<close> in size; a quotient of two
  integers of 32 bits is one of them or zero.\<close>

definition binary_places :: "rat \<Rightarrow> int" where
  "binary_places x = int (floorlog 2 (nat \<lfloor>\<bar>x\<bar> * 2 ^ 64\<rfloor>)) - 64"

definition last_unit :: "rat \<Rightarrow> rat" where
  "last_unit x = 2 powi (binary_places x - 24)"

definition to_float :: "rat \<Rightarrow> rat" where
  "to_float x = (if x = 0 then 0 else of_int (round_even (x / last_unit x)) * last_unit x)"

lemma round_even_int [simp]: "round_even (of_int n) = n"
  by (simp add: round_even_def)

lemma round_even_near: "\<bar>of_int (round_even y) - y\<bar> \<le> 1 / 2"
proof -
  have "of_int \<lfloor>y\<rfloor> \<le> y" "y < of_int \<lfloor>y\<rfloor> + 1" by linarith+
  then show ?thesis unfolding round_even_def Let_def by (auto simp: abs_le_iff)
qed

lemma round_even_le: "y \<le> of_int n \<Longrightarrow> round_even y \<le> n"
proof -
  assume y: "y \<le> of_int n"
  then have "\<lfloor>y\<rfloor> \<le> n" by (simp add: floor_le_iff)
  then consider "\<lfloor>y\<rfloor> < n" | "y = of_int n" using y of_int_floor_le [of y] by fastforce
  then show ?thesis by cases (simp_all add: round_even_def Let_def)
qed

lemma last_unit_pos: "0 < last_unit x"
  by (simp add: last_unit_def)

lemma last_unit_small:
  assumes "\<bar>x\<bar> < 2 ^ 24"
  shows "\<exists>k. last_unit x = 1 / 2 ^ k"
proof -
  have "\<bar>x\<bar> * 2 ^ 64 < 2 ^ 88" using assms by (simp add: field_simps)
  then have "nat \<lfloor>\<bar>x\<bar> * 2 ^ 64\<rfloor> < 2 ^ 88" by (simp add: nat_less_iff floor_less_iff)
  then have "floorlog 2 (nat \<lfloor>\<bar>x\<bar> * 2 ^ 64\<rfloor>) \<le> 88" by (intro floorlog_leI) auto
  then have "last_unit x = 2 powi - int (nat (24 - binary_places x))"
    by (simp add: last_unit_def binary_places_def)
  then show ?thesis unfolding power_int_minus power_int_of_nat by (auto simp: divide_simps intro!: exI)
qed

lemma last_unit_le:
  assumes "1 / 2 ^ 64 \<le> \<bar>x\<bar>"
  shows "last_unit x * 2 ^ 23 \<le> \<bar>x\<bar>"
proof -
  define n where "n = nat \<lfloor>\<bar>x\<bar> * 2 ^ 64\<rfloor>"
  have "1 \<le> \<bar>x\<bar> * 2 ^ 64" using assms by (simp add: field_simps)
  then have n: "0 < n" "of_nat n \<le> \<bar>x\<bar> * 2 ^ 64" by (simp_all add: n_def)
  then obtain k where k: "floorlog 2 n = Suc k" by (cases "floorlog 2 n") (auto simp: floorlog_def split: if_splits)
  then have "2 ^ k \<le> n" using floorlog_bounds [of n 2] n(1) by auto
  then have "(2 :: rat) ^ k \<le> of_nat n" by (metis of_nat_le_iff of_nat_numeral of_nat_power)
  then have "(2 :: rat) ^ k \<le> \<bar>x\<bar> * 2 ^ 64" using n(2) by linarith
  moreover have "last_unit x = 2 powi (int k - 87)" using k by (simp add: last_unit_def binary_places_def n_def [symmetric, simplified])
  then have "last_unit x = 2 ^ k / 2 ^ 87" by (simp add: power_int_diff)
  ultimately show ?thesis by (simp add: field_simps)
qed

lemma to_float_int:
  assumes "\<bar>n\<bar> < 2 ^ 24"
  shows "to_float (of_int n) = of_int n"
proof -
  have "\<bar>of_int n :: rat\<bar> < 2 ^ 24" using assms by (simp flip: of_int_abs of_int_power_eq_of_int_cancel_iff)
  then obtain k where k: "last_unit (of_int n) = 1 / 2 ^ k" using last_unit_small by blast
  have "of_int n / last_unit (of_int n) = of_int (n * 2 ^ k)" by (simp add: k)
  then show ?thesis unfolding to_float_def by (simp only: round_even_int) (simp add: k)
qed

lemma to_float_near:
  assumes "1 / 2 ^ 64 \<le> \<bar>x\<bar>"
  shows "\<bar>to_float x - x\<bar> \<le> \<bar>x\<bar> / 2 ^ 24"
proof -
  have "x \<noteq> 0" using assms by auto
  let ?u = "last_unit x"
  have u: "0 < ?u" by (rule last_unit_pos)
  have "to_float x - x = (of_int (round_even (x / ?u)) - x / ?u) * ?u"
    using u \<open>x \<noteq> 0\<close> by (simp add: to_float_def algebra_simps)
  then have "\<bar>to_float x - x\<bar> = \<bar>of_int (round_even (x / ?u)) - x / ?u\<bar> * ?u" using u by (simp add: abs_mult)
  also have "\<dots> \<le> 1 / 2 * ?u" using round_even_near u by (intro mult_right_mono) auto
  also have "\<dots> \<le> \<bar>x\<bar> / 2 ^ 24" using last_unit_le [OF assms] by (simp add: field_simps)
  finally show ?thesis .
qed

lemma to_float_le:
  assumes "x \<le> of_int m" and "\<bar>x\<bar> < 2 ^ 24" and "0 \<le> m"
  shows "to_float x \<le> of_int m"
proof -
  obtain k where k: "last_unit x = 1 / 2 ^ k" using last_unit_small assms(2) by blast
  have "x / last_unit x \<le> of_int (m * 2 ^ k)" using assms(1) by (simp add: k mult_right_mono)
  then have "round_even (x / last_unit x) \<le> m * 2 ^ k" by (rule round_even_le)
  then have "of_int (round_even (x / last_unit x)) \<le> (of_int (m * 2 ^ k) :: rat)" by (simp only: of_int_le_iff)
  then have "of_int (round_even (x / last_unit x)) * last_unit x \<le> of_int m" by (simp add: k field_simps)
  then show ?thesis using assms(3) by (simp add: to_float_def)
qed


lemma last_unit_exact:
  assumes "2 ^ k \<le> \<bar>x\<bar> * 2 ^ 64" and "\<bar>x\<bar> * 2 ^ 64 < 2 ^ Suc k"
  shows "last_unit x = 2 powi (int k - 87)"
proof -
  define n where "n = nat \<lfloor>\<bar>x\<bar> * 2 ^ 64\<rfloor>"
  have "of_int (2 ^ k) \<le> \<bar>x\<bar> * 2 ^ 64" "\<bar>x\<bar> * 2 ^ 64 < of_int (2 ^ Suc k)" using assms by simp_all
  then have "2 ^ k \<le> \<lfloor>\<bar>x\<bar> * 2 ^ 64\<rfloor>" "\<lfloor>\<bar>x\<bar> * 2 ^ 64\<rfloor> < 2 ^ Suc k" by (simp_all only: le_floor_iff floor_less_iff)
  then have "2 ^ k \<le> n" "n < 2 ^ Suc k" by (simp_all add: n_def le_nat_iff nat_less_iff)
  then have "floorlog 2 n = Suc k" by (intro antisym floorlog_leI floorlog_ge_SucI) auto
  then show ?thesis by (simp add: last_unit_def binary_places_def n_def [symmetric, simplified])
qed

section \<open>\<open>SwitchStatsConf\<close>\<close>

record stats_conf =
  st_key_id :: string
  st_time_interval :: int
  st_minimal_success_ratio :: int
  st_minimal_request_threshold :: int
  st_errcode_list :: "int list"

record 'k switch_stats_conf =
  sw_stats_info :: "('k, stats_conf) omap"
  sw_is_init :: bool

text \<open>\<open>type_cast\<close> of \<open>base/trpc_comm_func.h\<close> reads through a \<open>stringstream\<close>: a word, or a number that saturates
  at 32 bits and is 0 without digits; from an empty text nothing is read and the variable keeps the value it
  had, \<open>unset\<close>. \<open>cast\<close> is the instance of the key.\<close>

definition cast_word :: "string \<Rightarrow> string" where
  "cast_word s = takeWhile (\<lambda>c. \<not> isspace c) (dropWhile isspace s)"

definition cast_int :: "int \<Rightarrow> string \<Rightarrow> int" where
  "cast_int unset s =
     (case dropWhile isspace s of
        [] \<Rightarrow> unset
      | c # cs \<Rightarrow>
          if c = CHR ''-'' then max (- (2 ^ 31)) (- digits_val 0 cs)
          else if c = CHR ''+'' then min (2 ^ 31 - 1) (digits_val 0 cs)
          else min (2 ^ 31 - 1) (digits_val 0 (c # cs)))"

definition stats_line :: "(string \<Rightarrow> 'k :: linorder) \<Rightarrow> string \<Rightarrow> ('k switch_stats_conf, unit) op" where
  "stats_line cast buffer = (\<lambda>c.
     let str_vec = split buffer CHR ''|'' 8
     in if length str_vec < 5 then (Inl AssertFail, c)
        else (Inr (), c\<lparr>sw_stats_info := omap_set (cast (str_vec ! 0))
          \<lparr>st_key_id = str_vec ! 1, st_time_interval = atoi (str_vec ! 2),
           st_minimal_success_ratio = atoi (str_vec ! 3), st_minimal_request_threshold = atoi (str_vec ! 4),
           st_errcode_list = (if length str_vec > 5 then sort (map atoi (split (str_vec ! 5) CHR '','' 1000)) else [])\<rparr>
          (sw_stats_info c)\<rparr>))"

fun stats_lines :: "(string \<Rightarrow> 'k :: linorder) \<Rightarrow> string list \<Rightarrow> ('k switch_stats_conf, unit) op" where
  "stats_lines cast [] = returnS ()"
| "stats_lines cast (l # ls) =
     (let buffer = strstrip (cstr l)
      in if length buffer \<le> 1 \<or> buffer ! 0 = CHR ''#'' then stats_lines cast ls
         else seqS (stats_line cast buffer) (stats_lines cast ls))"

definition stats_read_conf :: "(string \<Rightarrow> 'k :: linorder) \<Rightarrow> string \<Rightarrow> conf_file \<Rightarrow> ('k switch_stats_conf, unit) op" where
  "stats_read_conf cast conf_file fp =
     (case fp of
        NoFile err \<Rightarrow> throwS (THROW CConfigException ERR_CONF (''error code escape conf error, invalid config file:'' @ conf_file))
      | File content err \<Rightarrow> stats_lines cast (fgets_lines 2046 content))"

definition stats_conf_init :: "(string \<Rightarrow> 'k :: linorder) \<Rightarrow> string \<Rightarrow> conf_file \<Rightarrow> ('k switch_stats_conf, unit) op" where
  "stats_conf_init cast conf_file fp =
     seqS (stats_read_conf cast conf_file fp) (modS (\<lambda>c. c\<lparr>sw_is_init := True\<rparr>))"

definition stats_conf_re_init :: "(string \<Rightarrow> 'k :: linorder) \<Rightarrow> string \<Rightarrow> conf_file \<Rightarrow> ('k switch_stats_conf, unit) op" where
  "stats_conf_re_init cast conf_file fp =
     seqS (modS (\<lambda>c. c\<lparr>sw_is_init := False, sw_stats_info := []\<rparr>))
    (seqS (stats_read_conf cast conf_file fp) (modS (\<lambda>c. c\<lparr>sw_is_init := True\<rparr>)))"

section \<open>\<open>SwitchKeyStats\<close>\<close>

record 'k key_stats =
  ks_begin_timestamp :: int
  ks_requests :: int
  ks_errors :: int
  ks_to_be_switched :: bool
  ks_time_interval :: int
  ks_minimal_request_threshold :: int
  ks_minimal_succ_ratio :: int
  ks_errcode_list :: "int list"
  ks_key_name :: 'k
  ks_key_id :: string

definition key_stats_new :: "int \<Rightarrow> 'k \<Rightarrow> stats_conf \<Rightarrow> 'k key_stats" where
  "key_stats_new now key conf =
     \<lparr>ks_begin_timestamp = now, ks_requests = 0, ks_errors = 0, ks_to_be_switched = False,
      ks_time_interval = st_time_interval conf, ks_minimal_request_threshold = st_minimal_request_threshold conf,
      ks_minimal_succ_ratio = st_minimal_success_ratio conf, ks_errcode_list = st_errcode_list conf,
      ks_key_name = key, ks_key_id = st_key_id conf\<rparr>"

definition key_requests :: "int \<Rightarrow> 'k key_stats \<Rightarrow> 'k key_stats" where
  "key_requests now s =
     (if now - ks_begin_timestamp s < ks_time_interval s
      then if \<not> ks_to_be_switched s then s\<lparr>ks_requests := i32 (ks_requests s + 1)\<rparr> else s
      else if \<not> ks_to_be_switched s then s\<lparr>ks_requests := 1, ks_errors := 0, ks_begin_timestamp := now\<rparr> else s)"

text \<open>\<open>((float)((requests_ - errors_) * 100)) / requests_\<close>, raised to 0.\<close>

definition succ_ratio :: "int \<Rightarrow> int \<Rightarrow> rat" where
  "succ_ratio requests errors =
     max 0 (to_float (to_float (of_int (i32 (i32 (requests - errors) * 100))) / to_float (of_int requests)))"

definition key_errors :: "int \<Rightarrow> 'k key_stats \<Rightarrow> 'k key_stats" where
  "key_errors now s =
     (if now - ks_begin_timestamp s < ks_time_interval s
      then if \<not> ks_to_be_switched s
           then let s = (if ks_requests s = 0 then s\<lparr>ks_requests := 1, ks_errors := 1\<rparr>
                         else s\<lparr>ks_errors := i32 (ks_errors s + 1)\<rparr>)
                in if ks_minimal_request_threshold s \<le> ks_requests s
                     \<and> succ_ratio (ks_requests s) (ks_errors s) \<le> to_float (of_int (ks_minimal_succ_ratio s))
                   then s\<lparr>ks_to_be_switched := True\<rparr> else s
           else s
      else if \<not> ks_to_be_switched s then s\<lparr>ks_requests := 1, ks_errors := 1, ks_begin_timestamp := now\<rparr> else s)"

definition key_reset :: "int \<Rightarrow> 'k key_stats \<Rightarrow> 'k key_stats" where
  "key_reset now s = s\<lparr>ks_requests := 0, ks_errors := 0, ks_begin_timestamp := now, ks_to_be_switched := False\<rparr>"

definition key_is_exist :: "int \<Rightarrow> 'k key_stats \<Rightarrow> bool" where
  "key_is_exist error s = binary_search (ks_errcode_list s) error"

section \<open>\<open>SwitchStatsPool\<close>\<close>

type_synonym 'k stats_pool = "('k, 'k key_stats) omap"

definition stats_pool_init :: "int \<Rightarrow> 'k switch_stats_conf \<Rightarrow> 'k :: linorder stats_pool \<Rightarrow> 'k stats_pool" where
  "stats_pool_init now conf = fold (\<lambda>(key, c). omap_set key (key_stats_new now key c)) (sw_stats_info conf)"

definition is_switch_key :: "'k :: linorder \<Rightarrow> 'k stats_pool \<Rightarrow> bool" where
  "is_switch_key k p \<longleftrightarrow> omap_find p k \<noteq> None"

definition stats_increment_requests :: "int \<Rightarrow> 'k :: linorder \<Rightarrow> 'k stats_pool \<Rightarrow> 'k stats_pool" where
  "stats_increment_requests now k p = (case omap_find p k of None \<Rightarrow> p | Some s \<Rightarrow> omap_set k (key_requests now s) p)"

definition stats_increment_errors :: "int \<Rightarrow> 'k :: linorder \<Rightarrow> 'k stats_pool \<Rightarrow> 'k stats_pool" where
  "stats_increment_errors now k p = (case omap_find p k of None \<Rightarrow> p | Some s \<Rightarrow> omap_set k (key_errors now s) p)"

definition stats_reset :: "int \<Rightarrow> 'k :: linorder \<Rightarrow> 'k stats_pool \<Rightarrow> 'k stats_pool" where
  "stats_reset now k p =
     (case omap_find p k of
        None \<Rightarrow> p
      | Some stat \<Rightarrow> map (\<lambda>(j, s). (j, if ks_key_id s = ks_key_id stat then key_reset now s else s)) p)"

definition stats_reset_all :: "int \<Rightarrow> 'k :: linorder stats_pool \<Rightarrow> 'k stats_pool" where
  "stats_reset_all now p = map (\<lambda>(j, s). (j, key_reset now s)) p"

definition stats_need_switch :: "'k :: linorder \<Rightarrow> 'k stats_pool \<Rightarrow> bool" where
  "stats_need_switch k p = (case omap_find p k of None \<Rightarrow> False | Some s \<Rightarrow> ks_to_be_switched s)"

definition stats_is_exist :: "'k :: linorder \<Rightarrow> int \<Rightarrow> 'k stats_pool \<Rightarrow> bool" where
  "stats_is_exist k error p = (case omap_find p k of None \<Rightarrow> False | Some s \<Rightarrow> key_is_exist error s)"

section \<open>When the ratio is exact\<close>

lemma succ_ratio_le:
  assumes "0 < r" "r \<le> 167772" "0 \<le> e" "e \<le> 167772" "0 \<le> m" "m < 2 ^ 24"
  shows "succ_ratio r e \<le> to_float (of_int m) \<longleftrightarrow> 100 * (r - e) \<le> m * r"
proof -
  define a where "a = 100 * (r - e)"
  have a: "\<bar>a\<bar> < 2 ^ 24" using assms by (simp add: a_def)
  have "i32 (i32 (r - e) * 100) = a" using assms by (simp add: a_def i32_id in_i32_def mult.commute)
  moreover have "to_float (of_int a) = of_int a" "to_float (of_int r) = of_int r" "to_float (of_int m) = of_int m"
    using a assms by (simp_all add: to_float_int)
  ultimately have eq: "succ_ratio r e \<le> to_float (of_int m) \<longleftrightarrow> to_float (of_int a / of_int r) \<le> of_int m"
    using assms(5) by (simp add: succ_ratio_def)
  have r: "(0 :: rat) < of_int r" using assms(1) by simp
  show ?thesis
  proof (cases "a \<le> m * r")
    case True
    then have "(of_int a :: rat) \<le> of_int (m * r)" by (simp only: of_int_le_iff)
    then have le: "(of_int a / of_int r :: rat) \<le> of_int m" using r by (simp add: field_simps)
    have "\<bar>of_int a / of_int r :: rat\<bar> \<le> of_int \<bar>a\<bar>"
      using assms(1) by (simp add: abs_div_pos divide_le_eq mult_le_cancel_left1 flip: of_int_abs)
    also have "\<dots> < of_int (2 ^ 24)" using a by (simp only: of_int_less_iff)
    finally have "\<bar>of_int a / of_int r :: rat\<bar> < 2 ^ 24" by simp
    from to_float_le [OF le this assms(5)] True show ?thesis unfolding a_def [symmetric] eq by simp
  next
    case False
    then have ge: "m * r + 1 \<le> a" by simp
    define x :: rat where "x = of_int a / of_int r"
    have "(of_int (m * r + 1) :: rat) \<le> of_int a" using ge by (simp only: of_int_le_iff)
    then have "(of_int m * of_int r + 1) / of_int r \<le> x" unfolding x_def using r by (intro divide_right_mono) auto
    then have x: "of_int m + 1 / of_int r \<le> x" using r by (simp add: add_divide_distrib)
    have "1 / of_int r \<ge> (1 / 167772 :: rat)" using assms(1,2) by (simp add: field_simps)
    moreover have "0 \<le> (of_int m :: rat)" using assms(5) by simp
    ultimately have "1 / 2 ^ 64 \<le> \<bar>x\<bar>" "0 < x" using x by simp_all
    then have "\<bar>to_float x - x\<bar> \<le> x / 2 ^ 24" using to_float_near [of x] by (simp only: abs_of_pos)
    then have "x - x / 2 ^ 24 \<le> to_float x" by linarith
    moreover have "x / 2 ^ 24 < 1 / of_int r"
    proof -
      have "(of_int a :: rat) < of_int (2 ^ 24)" using a by (simp only: of_int_less_iff)
      then have "of_int a / 2 ^ 24 < (1 :: rat)" by simp
      then have "(of_int a / 2 ^ 24) / of_int r < 1 / (of_int r :: rat)" using r by (intro divide_strict_right_mono)
      then show ?thesis by (simp add: x_def mult.commute)
    qed
    ultimately have "of_int m < to_float x" using x by linarith
    then show ?thesis using False unfolding a_def [symmetric] eq x_def by simp
  qed
qed

section \<open>When a key is to be switched\<close>

datatype stats_event = Request (event_time: int) | Failure (event_time: int)

fun key_event :: "stats_event \<Rightarrow> 'k key_stats \<Rightarrow> 'k key_stats" where
  "key_event (Request t) = key_requests t"
| "key_event (Failure t) = key_errors t"

text \<open>The specification by windows: an event within the period of the window belongs to it, a later one
  opens the next window. A failure that opens a window counts as a request as well.\<close>

definition window_step :: "int \<Rightarrow> int \<times> stats_event list \<Rightarrow> stats_event \<Rightarrow> int \<times> stats_event list" where
  "window_step period bw e =
     (if event_time e - fst bw < period then (fst bw, snd bw @ [e]) else (event_time e, [e]))"

definition window :: "int \<Rightarrow> int \<Rightarrow> stats_event list \<Rightarrow> int \<times> stats_event list" where
  "window period t0 evs = foldl (window_step period) (t0, []) evs"

fun is_failure :: "stats_event \<Rightarrow> bool" where
  "is_failure (Request t) = False"
| "is_failure (Failure t) = True"

definition failures_in :: "stats_event list \<Rightarrow> int" where
  "failures_in w = int (length (filter is_failure w))"

definition requests_in :: "stats_event list \<Rightarrow> int" where
  "requests_in w = int (length (filter (\<lambda>e. \<not> is_failure e) w)) + (if w \<noteq> [] \<and> is_failure (hd w) then 1 else 0)"

text \<open>The last of the events is a failure inside a window with enough requests too few of which succeeded.\<close>

definition switch_point :: "int \<Rightarrow> int \<Rightarrow> int \<Rightarrow> int \<Rightarrow> stats_event list \<Rightarrow> bool" where
  "switch_point period threshold ratio t0 evs \<longleftrightarrow>
     evs \<noteq> [] \<and> is_failure (last evs) \<and>
     event_time (last evs) - fst (window period t0 (butlast evs)) < period \<and>
     (let w = snd (window period t0 evs)
      in threshold \<le> requests_in w \<and> 100 * (requests_in w - failures_in w) \<le> ratio * requests_in w)"

lemma window_snoc: "window period t0 (evs @ [e]) = window_step period (window period t0 evs) e"
  by (simp add: window_def)

lemma requests_in_snoc:
  "requests_in (w @ [Request t]) = requests_in w + 1"
  "requests_in (w @ [Failure t]) = (if w = [] then 1 else requests_in w)"
  "failures_in (w @ [Request t]) = failures_in w"
  "failures_in (w @ [Failure t]) = failures_in w + 1"
  by (cases w; simp add: requests_in_def failures_in_def)+

lemma requests_in_bounds:
  "0 \<le> failures_in w" "failures_in w \<le> int (length w)" "requests_in w \<le> int (length w)"
  "requests_in w = 0 \<longleftrightarrow> w = []" "0 \<le> requests_in w"
proof -
  show "0 \<le> failures_in w" "failures_in w \<le> int (length w)" "0 \<le> requests_in w"
    by (simp_all add: failures_in_def requests_in_def)
  have s: "int (length (filter is_failure w)) + int (length (filter (\<lambda>e. \<not> is_failure e) w)) = int (length w)"
    using sum_length_filter_compl [of is_failure w] by linarith
  show "requests_in w \<le> int (length w)" using s by (cases w) (auto simp: requests_in_def)
  show "requests_in w = 0 \<longleftrightarrow> w = []" using s by (cases w) (auto simp: requests_in_def)
qed

text \<open>What the counters of a key hold after some events: those of the last window.\<close>

definition counts :: "int \<Rightarrow> int \<times> stats_event list \<Rightarrow> 'k key_stats \<Rightarrow> bool" where
  "counts period bw s \<longleftrightarrow> ks_begin_timestamp s = fst bw \<and> ks_requests s = requests_in (snd bw) \<and>
     ks_errors s = failures_in (snd bw) \<and> \<not> ks_to_be_switched s \<and> ks_time_interval s = period"

definition same_limits :: "'k key_stats \<Rightarrow> 'k key_stats \<Rightarrow> bool" where
  "same_limits s s' \<longleftrightarrow> ks_time_interval s' = ks_time_interval s \<and>
     ks_minimal_request_threshold s' = ks_minimal_request_threshold s \<and>
     ks_minimal_succ_ratio s' = ks_minimal_succ_ratio s \<and> ks_errcode_list s' = ks_errcode_list s \<and>
     ks_key_name s' = ks_key_name s \<and> ks_key_id s' = ks_key_id s"

lemma same_limits_refl [simp]: "same_limits s s"
  by (simp add: same_limits_def)

lemma key_event_limits: "same_limits s (key_event e s)" "same_limits s (key_reset t s)"
  by (cases e; simp add: key_requests_def key_errors_def Let_def same_limits_def key_reset_def)+

lemma same_limits_trans: "same_limits a b \<Longrightarrow> same_limits b c \<Longrightarrow> same_limits a c"
  by (simp add: same_limits_def)

lemma key_event_switched: "ks_to_be_switched s \<Longrightarrow> key_event e s = s"
  by (cases e) (simp_all add: key_requests_def key_errors_def)

lemma key_event_step:
  fixes s :: "'k key_stats" and e :: stats_event
  assumes c: "counts period (b, w) s" and len: "length w < 167772"
    and ratio: "0 \<le> ks_minimal_succ_ratio s" "ks_minimal_succ_ratio s < 2 ^ 24"
  defines "w' \<equiv> snd (window_step period (b, w) e)"
  shows "if is_failure e \<and> event_time e - b < period \<and> ks_minimal_request_threshold s \<le> requests_in w'
           \<and> 100 * (requests_in w' - failures_in w') \<le> ks_minimal_succ_ratio s * requests_in w'
         then ks_to_be_switched (key_event e s) else counts period (window_step period (b, w) e) (key_event e s)"
proof (cases "event_time e - b < period")
  case False
  then show ?thesis using c by (cases e)
    (auto simp: counts_def window_step_def key_requests_def key_errors_def requests_in_def failures_in_def)
next
  case True
  have w': "w' = w @ [e]" using True by (simp add: w'_def window_step_def)
  note bd = requests_in_bounds [of w] requests_in_bounds [of "w @ [e]"]
  show ?thesis
  proof (cases e)
    case (Request t)
    have "i32 (requests_in w + 1) = requests_in w + 1" using bd len by (intro i32_id) (auto simp: in_i32_def)
    then show ?thesis
      using c True Request by (simp add: counts_def window_step_def key_requests_def requests_in_snoc)
  next
    case (Failure t)
    have "i32 (failures_in w + 1) = failures_in w + 1" using bd len by (intro i32_id) (auto simp: in_i32_def)
    moreover have "succ_ratio (requests_in w') (failures_in w') \<le> to_float (of_int (ks_minimal_succ_ratio s))
        \<longleftrightarrow> 100 * (requests_in w' - failures_in w') \<le> ks_minimal_succ_ratio s * requests_in w'"
      using bd len ratio unfolding w' by (intro succ_ratio_le) auto
    moreover have "w = [] \<longleftrightarrow> ks_requests s = 0" using c bd by (simp add: counts_def)
    moreover have "failures_in [] = 0" by (simp add: failures_in_def)
    ultimately show ?thesis
      using c True Failure unfolding w'
      by (auto simp: counts_def window_step_def key_errors_def requests_in_snoc Let_def)
  qed
qed

lemma key_events:
  fixes s :: "'k key_stats" and t0 :: int
  assumes "list_all (\<lambda>n. length (snd (window (ks_time_interval s) t0 (take n evs))) < 167772) [0..<length evs]"
    and "0 \<le> ks_minimal_succ_ratio s" "ks_minimal_succ_ratio s < 2 ^ 24"
  defines "period \<equiv> ks_time_interval s" and "s' \<equiv> fold key_event evs (key_reset t0 s)"
  shows "same_limits s s' \<and>
    (if \<exists>n \<le> length evs. switch_point period (ks_minimal_request_threshold s) (ks_minimal_succ_ratio s) t0 (take n evs)
     then ks_to_be_switched s' else counts period (window period t0 evs) s')"
  using assms(1) unfolding s'_def
proof (induction evs rule: rev_induct)
  case Nil
  then show ?case by (simp add: switch_point_def counts_def window_def key_reset_def requests_in_def failures_in_def same_limits_def period_def)
next
  case (snoc e evs)
  define s1 where "s1 = fold key_event evs (key_reset t0 s)"
  let ?sp = "switch_point period (ks_minimal_request_threshold s) (ks_minimal_succ_ratio s) t0"
  have small: "length (snd (window period t0 evs)) < 167772"
    "list_all (\<lambda>n. length (snd (window period t0 (take n evs))) < 167772) [0..<length evs]"
    using snoc.prems by (simp_all add: period_def list_all_iff)
  have IH: "same_limits s s1" "if \<exists>n \<le> length evs. ?sp (take n evs) then ks_to_be_switched s1 else counts period (window period t0 evs) s1"
    using snoc.IH [OF small(2) [unfolded period_def]] unfolding s1_def by simp_all
  have lim: "same_limits s (key_event e s1)" using IH(1) key_event_limits(1) same_limits_trans by blast
  have ex: "(\<exists>n \<le> length (evs @ [e]). ?sp (take n (evs @ [e]))) \<longleftrightarrow> (\<exists>n \<le> length evs. ?sp (take n evs)) \<or> ?sp (evs @ [e])"
    by (auto simp: le_Suc_eq) 
  show ?case
  proof (cases "\<exists>n \<le> length evs. ?sp (take n evs)")
    case True
    then have "ks_to_be_switched s1" using IH(2) by (simp only: if_True)
    then show ?thesis using True lim unfolding ex by (simp add: key_event_switched s1_def [symmetric])
  next
    case False
    then have c: "counts period (window period t0 evs) s1" using IH(2) by (simp only: if_False)
    obtain b w where bw: "window period t0 evs = (b, w)" by (cases "window period t0 evs")
    have "length w < 167772" using small(1) bw by simp
    moreover have "ks_minimal_succ_ratio s1 = ks_minimal_succ_ratio s" "ks_minimal_request_threshold s1 = ks_minimal_request_threshold s"
      using IH(1) by (simp_all add: same_limits_def)
    ultimately have "if ?sp (evs @ [e]) then ks_to_be_switched (key_event e s1)
        else counts period (window period t0 (evs @ [e])) (key_event e s1)"
      using key_event_step [of period b w s1 e] c bw assms(2,3)
      by (simp add: switch_point_def window_snoc Let_def)
    then have c2: "same_limits s (key_event e s1) \<and> (if (\<exists>n \<le> length evs. ?sp (take n evs)) \<or> ?sp (evs @ [e])
        then ks_to_be_switched (key_event e s1) else counts period (window period t0 (evs @ [e])) (key_event e s1))"
      using False lim by (simp only: False simp_thms)
    have eqn: "fold key_event (evs @ [e]) (key_reset t0 s) = key_event e s1" by (simp add: s1_def)
    show ?thesis unfolding ex eqn by (rule c2)
  qed
qed

text \<open>C12: after any requests and failures, recorded over any number of periods, a key is to be switched exactly if
  one of the failures fell into a window with at least the configured number of requests of which at most the
  configured percentage succeeded, as long as no window gets more than 167772 events: up to there the rounding of
  \<open>float\<close> does not show. The number of windows is not bounded.\<close>

theorem switch_decided_by_window:
  assumes "list_all (\<lambda>n. length (snd (window (ks_time_interval s) t0 (take n evs))) < 167772) [0..<length evs]"
    and "0 \<le> ks_minimal_succ_ratio s" and "ks_minimal_succ_ratio s < 2 ^ 24"
  shows "ks_to_be_switched (fold key_event evs (key_reset t0 s)) \<longleftrightarrow>
    (\<exists>n \<le> length evs. switch_point (ks_time_interval s) (ks_minimal_request_threshold s) (ks_minimal_succ_ratio s) t0
       (take n evs))" (is "_ \<longleftrightarrow> ?P")
  using key_events [OF assms] by (cases ?P) (simp_all only: if_True if_False counts_def simp_thms)

text \<open>In a fuller window it may: of 300001 requests 297001 succeeded, more than 99 percent, and the quotient is 99.\<close>

lemma full_window_rounds:
  "succ_ratio 300001 3000 \<le> to_float (of_int 99)" and "\<not> 100 * (300001 - 3000) \<le> (99 :: int) * 300001"
proof -
  have u: "last_unit 29700100 = 2" using last_unit_exact [of 88 29700100] by simp
  have "29700100 / 2 = (of_int 14850050 :: rat)" by simp
  then have a: "to_float 29700100 = 29700100" using u unfolding to_float_def by (simp only: round_even_int) simp
  have b: "to_float 300001 = 300001" using to_float_int [of 300001] by simp
  have v: "last_unit (29700100 / 300001) = 1 / 131072"
    using last_unit_exact [of 70 "29700100 / 300001"] by (simp add: power_int_minus)
  have "\<lfloor>29700100 * 131072 / 300001 :: rat\<rfloor> = 12976128" by (rule floor_unique) simp_all
  then have "round_even (29700100 * 131072 / 300001) = 12976128" by (simp add: round_even_def)
  then have "to_float (29700100 / 300001) = 99" unfolding to_float_def v by simp
  then show "succ_ratio 300001 3000 \<le> to_float (of_int 99)"
    using a b to_float_int [of 99] by (simp add: succ_ratio_def i32_def)
qed simp

definition sample_stats :: "string key_stats" where
  "sample_stats = key_stats_new 0 ''pay'' \<lparr>st_key_id = ''1'', st_time_interval = 60, st_minimal_success_ratio = 50,
     st_minimal_request_threshold = 2, st_errcode_list = [7]\<rparr>"

lemma switch_decided_by_window_witness:
  "ks_to_be_switched (fold key_event [Request 1, Request 2, Failure 3] (key_reset 0 sample_stats))"
proof -
  have "switch_point 60 2 50 0 [Request 1, Request 2, Failure 3]"
    by (simp add: switch_point_def window_def window_step_def requests_in_def failures_in_def)
  then have "\<exists>n \<le> length [Request 1, Request 2, Failure 3].
      switch_point (ks_time_interval sample_stats) (ks_minimal_request_threshold sample_stats)
        (ks_minimal_succ_ratio sample_stats) 0 (take n [Request 1, Request 2, Failure 3])"
    by (intro exI [of _ 3]) (simp add: sample_stats_def key_stats_new_def)
  then show ?thesis
    by (subst switch_decided_by_window)
      (simp_all add: sample_stats_def key_stats_new_def window_def window_step_def upt_rec list_all_iff)
qed

end
