(* ===== verification/Hasite_Conf.thy ===== *)
theory Hasite_Conf
  imports Std_Lib Comm_Func
begin

text \<open>
  \<open>CHaSiteConf\<close> (\<open>src/hasite_conf.cpp\<close>): for each server name the nodes of its data centres
  (idc), the order in which the proxy switches between them and the current one. The XML
  document is input: its elements with their attributes, as the parser delivers them.
  Every public function holds the lock of the object, so each is one atomic operation.
\<close>

section \<open>The document\<close>

datatype xml = Element (xml_name: string) (xml_attrs: "(string \<times> string) list") (xml_children: "xml list")

text \<open>\<open>NODE_ATTR\<close> and \<open>NODE_ATTR_WITH_DEFAULT\<close>; \<open>FirstChildElement(name)\<close> followed by
  \<open>NODE_NEXT\<close>, which goes on with the siblings of every name.\<close>

definition NODE_ATTR :: "xml \<Rightarrow> string \<Rightarrow> ('s, string) op" where
  "NODE_ATTR node attribute =
     (case map_of (xml_attrs node) attribute of
        None \<Rightarrow> throwS (THROW CConfigException ERR_CONF (''Get child node attr error: '' @ attribute))
      | Some v \<Rightarrow> returnS v)"

definition NODE_ATTR_WITH_DEFAULT :: "xml \<Rightarrow> string \<Rightarrow> string \<Rightarrow> string" where
  "NODE_ATTR_WITH_DEFAULT node attribute default_value =
     (case map_of (xml_attrs node) attribute of None \<Rightarrow> default_value | Some v \<Rightarrow> v)"

definition elements_from :: "string \<Rightarrow> xml \<Rightarrow> xml list" where
  "elements_from name node = dropWhile (\<lambda>n. xml_name n \<noteq> name) (xml_children node)"

section \<open>State\<close>

record site_node =
  n_ip :: string
  n_port :: int
  n_idc :: string
  n_is_valid :: bool
  n_is_forever_invalid :: bool
  n_valid_time :: int
  n_invalid_time :: int

record site_info =
  s_protocol_type :: int
  s_estop_time :: int
  s_hasite_node_num :: nat
  s_switch_order_list :: "string list"
  s_current_idc :: string
  s_hasite_node :: "site_node list"

type_synonym hasite_conf = "(string, site_info) omap"

definition MAX_HASITENODE :: nat where "MAX_HASITENODE = 5"
definition MAX_IDC_NAME_LENGTH :: nat where "MAX_IDC_NAME_LENGTH = 16"
definition EM_ST_MIDDLE :: int where "EM_ST_MIDDLE = 1"
definition EM_ST_RELAY :: int where "EM_ST_RELAY = 2"
definition default_idc :: string where "default_idc = ''default_idc''"

text \<open>What \<open>operator[]\<close> creates for a missing name.\<close>

definition node0 :: site_node where
  "node0 = \<lparr>n_ip = [], n_port = 0, n_idc = [], n_is_valid = False, n_is_forever_invalid = False,
     n_valid_time = 0, n_invalid_time = 0\<rparr>"

definition site0 :: site_info where
  "site0 = \<lparr>s_protocol_type = 0, s_estop_time = 0, s_hasite_node_num = 0, s_switch_order_list = [],
     s_current_idc = [], s_hasite_node = replicate MAX_HASITENODE node0\<rparr>"

definition site_of :: "hasite_conf \<Rightarrow> string \<Rightarrow> site_info" where
  "site_of m name = omap_get site0 m name"

text \<open>\<open>_hasite_conf[server_name]\<close>: the value, with the entry added where it was missing.\<close>

definition with_site :: "string \<Rightarrow> (site_info \<Rightarrow> (hasite_conf, 'a) op) \<Rightarrow> (hasite_conf, 'a) op" where
  "with_site name f = (\<lambda>m. let m = omap_insert name site0 m in f (site_of m name) m)"

definition put_site :: "string \<Rightarrow> site_info \<Rightarrow> (hasite_conf, unit) op" where
  "put_site name info = modS (omap_set name info)"

section \<open>Operations\<close>

definition get_protocol_type :: "string \<Rightarrow> ('s, int) op" where
  "get_protocol_type protocol_type =
     (if protocol_type = ''tcp'' then returnS EM_ST_MIDDLE
      else if protocol_type = ''relay'' then returnS EM_ST_RELAY
      else throwS (THROW CConfigException ERR_CONF (''protocol_type error: '' @ protocol_type)))"

definition get_current_idc :: "string \<Rightarrow> (hasite_conf, string) op" where
  "get_current_idc server_name = with_site server_name (\<lambda>info. returnS (s_current_idc info))"

text \<open>\<open>std::find\<close>, then the element after it: \<open>None\<close> where the search or the step meets the end.\<close>

fun after :: "'a \<Rightarrow> 'a list \<Rightarrow> 'a option" where
  "after x [] = None"
| "after x (y # ys) = (if y = x then (case ys of [] \<Rightarrow> None | z # _ \<Rightarrow> Some z) else after x ys)"

definition set_current_idc :: "string \<Rightarrow> (hasite_conf, unit) op" where
  "set_current_idc server_name =
     with_site server_name (\<lambda>info.
       case after (s_current_idc info) (s_switch_order_list info) of
         None \<Rightarrow> returnS ()
       | Some idc \<Rightarrow> put_site server_name (info\<lparr>s_current_idc := idc\<rparr>))"

definition get_next_idc :: "string \<Rightarrow> (hasite_conf, string) op" where
  "get_next_idc server_name =
     with_site server_name (\<lambda>info.
       returnS (case after (s_current_idc info) (s_switch_order_list info) of None \<Rightarrow> [] | Some idc \<Rightarrow> idc))"

definition strncmp_eq :: "string \<Rightarrow> string \<Rightarrow> nat \<Rightarrow> bool" where
  "strncmp_eq a b n \<longleftrightarrow> take n (cstr a) = take n (cstr b)"

definition node_serves :: "string \<Rightarrow> site_node \<Rightarrow> bool" where
  "node_serves idc node \<longleftrightarrow>
     strncmp_eq (n_idc node) default_idc (length default_idc) \<or>
     strncmp_eq (n_idc node) idc MAX_IDC_NAME_LENGTH"

text \<open>The loop of \<open>_get\<close>: the first node that serves the idc decides.\<close>

fun find_node :: "string \<Rightarrow> site_node list \<Rightarrow> (string \<times> int) option" where
  "find_node idc [] = None"
| "find_node idc (node # nodes) =
     (if node_serves idc node
      then if n_is_forever_invalid node then None else Some (n_ip node, n_port node)
      else find_node idc nodes)"

definition hasite_get :: "string \<Rightarrow> string \<Rightarrow> (hasite_conf, string \<times> int \<times> int) op" where
  "hasite_get idc server_name =
     with_site server_name (\<lambda>info.
       case find_node idc (take (s_hasite_node_num info) (s_hasite_node info)) of
         None \<Rightarrow> throwS (THROW CServerException ERR_SERVER_MAINTAIN
                   (''server: '' @ server_name @ '', no site can use''))
       | Some (ip, port) \<Rightarrow> returnS (ip, port, s_protocol_type info))"

text \<open>The loops of \<open>_set_valid\<close> and \<open>_set_invalid\<close>: the first node with the address, by index.\<close>

fun find_index :: "('a \<Rightarrow> bool) \<Rightarrow> 'a list \<Rightarrow> nat option" where
  "find_index P [] = None"
| "find_index P (x # xs) = (if P x then Some 0 else map_option Suc (find_index P xs))"

definition node_is :: "string \<Rightarrow> string \<Rightarrow> int \<Rightarrow> site_node \<Rightarrow> bool" where
  "node_is idc ip port node \<longleftrightarrow>
     strncmp_eq ip (n_ip node) 16 \<and> port = n_port node \<and> strncmp_eq idc (n_idc node) MAX_IDC_NAME_LENGTH"

definition not_in_hasite :: "string \<Rightarrow> string \<Rightarrow> int \<Rightarrow> fault" where
  "not_in_hasite server_name ip port =
     THROW CServerException ERR_SERVER_MAINTAIN
       (''server: '' @ server_name @ '', ip: '' @ ip @ '', port: '' @ show_int port @
        '', not in hasite, reconnect it'')"

definition set_valid :: "string \<Rightarrow> string \<Rightarrow> string \<Rightarrow> int \<Rightarrow> (hasite_conf, unit) op" where
  "set_valid idc server_name ip port =
     with_site server_name (\<lambda>info.
       case find_index (node_is idc ip port) (take (s_hasite_node_num info) (s_hasite_node info)) of
         None \<Rightarrow> throwS (not_in_hasite server_name ip port)
       | Some i \<Rightarrow>
           let node = s_hasite_node info ! i
           in if n_is_forever_invalid node
              then throwS (THROW CServerException ERR_SERVER_MAINTAIN
                     (''server: '' @ server_name @ '', ip: '' @ ip @ '', port: '' @ show_int port @
                      '', forever invalid, can''  @ [CHR 0x27] @ ''t be set valid''))
              else put_site server_name
                     (info\<lparr>s_hasite_node := (s_hasite_node info)[i := node\<lparr>n_is_valid := True\<rparr>]\<rparr>))"

definition set_invalid :: "string \<Rightarrow> string \<Rightarrow> string \<Rightarrow> int \<Rightarrow> bool \<Rightarrow> int \<Rightarrow> (hasite_conf, unit) op" where
  "set_invalid idc server_name ip port forever now =
     with_site server_name (\<lambda>info.
       case find_index (node_is idc ip port) (take (s_hasite_node_num info) (s_hasite_node info)) of
         None \<Rightarrow> throwS (not_in_hasite server_name ip port)
       | Some i \<Rightarrow>
           let node = s_hasite_node info ! i;
               node = node\<lparr>n_is_valid := False, n_invalid_time := now,
                           n_is_forever_invalid := (if forever then True else n_is_forever_invalid node)\<rparr>
           in put_site server_name (info\<lparr>s_hasite_node := (s_hasite_node info)[i := node]\<rparr>))"

section \<open>Reading the configuration\<close>

text \<open>One \<open>sitenode\<close> into the array at the position \<open>hasite_node_num\<close>; the array has
  \<open>MAX_HASITENODE\<close> places and nothing checks the position. Where an attribute is missing the
  place is not counted; what was written to it before is not modelled.\<close>

definition add_sitenode :: "string \<Rightarrow> string \<Rightarrow> xml \<Rightarrow> (hasite_conf, unit) op" where
  "add_sitenode server_name switch_order server_node =
     with_site server_name (\<lambda>info.
       let i = s_hasite_node_num info
       in if i \<ge> MAX_HASITENODE then throwS MemoryFault
          else
            bindS (NODE_ATTR server_node ''port'') (\<lambda>port.
            bindS (NODE_ATTR server_node ''ip'') (\<lambda>ip.
              let idc = take 15 (cstr (NODE_ATTR_WITH_DEFAULT server_node ''idc'' default_idc));
                  node = \<lparr>n_ip = take 15 (cstr ip), n_port = atoi port, n_idc = idc, n_is_valid = True,
                          n_is_forever_invalid = False, n_valid_time = 0, n_invalid_time = 0\<rparr>
              in put_site server_name
                   (info\<lparr>s_hasite_node := (s_hasite_node info)[i := node],
                         s_switch_order_list := (if switch_order = ''default_switch_order''
                           then s_switch_order_list info @ [idc] else s_switch_order_list info),
                         s_hasite_node_num := i + 1\<rparr>))))"

fun add_sitenodes :: "string \<Rightarrow> string \<Rightarrow> xml list \<Rightarrow> (hasite_conf, unit) op" where
  "add_sitenodes server_name switch_order [] = returnS ()"
| "add_sitenodes server_name switch_order (n # ns) =
     seqS (add_sitenode server_name switch_order n) (add_sitenodes server_name switch_order ns)"

definition get_site_info :: "xml \<Rightarrow> (hasite_conf, unit) op" where
  "get_site_info site =
     bindS (NODE_ATTR site ''server_name'') (\<lambda>server_name.
     bindS (with_site server_name (\<lambda>_. NODE_ATTR site ''estop_time'')) (\<lambda>estop.
     seqS (with_site server_name (\<lambda>info. put_site server_name (info\<lparr>s_estop_time := atoi estop\<rparr>)))
    (bindS (bindS (NODE_ATTR site ''protocol'') get_protocol_type) (\<lambda>protocol.
       let switch_order = NODE_ATTR_WITH_DEFAULT site ''switch_order'' ''default_switch_order''
       in seqS (with_site server_name (\<lambda>info. put_site server_name
                  (info\<lparr>s_protocol_type := protocol, s_hasite_node_num := 0,
                        s_switch_order_list := (if switch_order \<noteq> ''default_switch_order''
                          then split (cstr switch_order) CHR '':'' (int MAX_HASITENODE) else [])\<rparr>)))
         (seqS (add_sitenodes server_name switch_order (elements_from ''sitenode'' site))
            (with_site server_name (\<lambda>info.
               if s_hasite_node_num info = 0
               then throwS (THROW CConfigException ERR_CONF (''site_info'' @ [CHR 0x27] @ ''s node_num is 0''))
               else if s_hasite_node_num info \<noteq> length (s_switch_order_list info)
               then throwS (THROW CConfigException ERR_CONF ''switch_order attribute idc num != site_node_num'')
               else put_site server_name (info\<lparr>s_current_idc := hd (s_switch_order_list info)\<rparr>))))))))"

fun get_site_infos :: "xml list \<Rightarrow> (hasite_conf, unit) op" where
  "get_site_infos [] = returnS ()"
| "get_site_infos (s # ss) = seqS (get_site_info s) (get_site_infos ss)"

text \<open>\<open>None\<close> is a document that cannot be loaded, with the parser's text.\<close>

definition get_hasite_conf :: "string \<Rightarrow> string + xml list \<Rightarrow> (hasite_conf, unit) op" where
  "get_hasite_conf conf_file doc =
     (case doc of
        Inl desc \<Rightarrow> throwS (THROW CConfigException ERR_CONF
                      (''Load xml config file: '' @ conf_file @ '' error: '' @ desc))
      | Inr elems \<Rightarrow>
          (case dropWhile (\<lambda>e. xml_name e \<noteq> ''hasite'') elems of
             [] \<Rightarrow> throwS (THROW CConfigException ERR_CONF ''Load xml config file error path: /hasite not found'')
           | hasite # _ \<Rightarrow>
               if elements_from ''site'' hasite = []
               then throwS (THROW CConfigException ERR_CONF
                      ''Load xml config file error path: /hasite/site not found'')
               else get_site_infos (elements_from ''site'' hasite)))"

definition hasite_read_conf :: "string \<Rightarrow> string + xml list \<Rightarrow> (hasite_conf, unit) op" where
  "hasite_read_conf conf_file doc = get_hasite_conf conf_file doc"

definition hasite_reload :: "string \<Rightarrow> string + xml list \<Rightarrow> (hasite_conf, unit) op" where
  "hasite_reload conf_file doc = seqS (modS (\<lambda>_. [])) (get_hasite_conf conf_file doc)"

section \<open>Lookups and updates\<close>

lemma site_of_insert [simp]: "site_of (omap_insert n site0 m) k = site_of m k"
  by (simp add: site_of_def omap_get_def omap_find_insert split: option.split)

lemma site_of_set [simp]: "site_of (omap_set n i m) k = (if k = n then i else site_of m k)"
  by (simp add: site_of_def omap_get_def omap_find_set)

lemma with_site_eq: "with_site n f m = f (site_of m n) (omap_insert n site0 m)"
  by (simp add: with_site_def)

lemma put_site_eq [simp]: "put_site n i m = (Inr (), omap_set n i m)"
  by (simp add: put_site_def)

text \<open>What every operation does to the sites it is not about: nothing.\<close>

definition others_same :: "string \<Rightarrow> hasite_conf \<Rightarrow> hasite_conf \<Rightarrow> bool" where
  "others_same n m m' \<longleftrightarrow> (\<forall>k. k \<noteq> n \<longrightarrow> site_of m' k = site_of m k)"

lemma others_same_trans: "others_same n m m' \<Longrightarrow> others_same n m' m'' \<Longrightarrow> others_same n m m''"
  by (simp add: others_same_def)

lemma NODE_ATTR_Inr: "NODE_ATTR e a s = (Inr v, s') \<longleftrightarrow> map_of (xml_attrs e) a = Some v \<and> s' = s"
  by (auto simp: NODE_ATTR_def split: option.split)

section \<open>Switching along the order\<close>

lemma after_nth: "distinct xs \<Longrightarrow> Suc i < length xs \<Longrightarrow> after (xs ! i) xs = Some (xs ! Suc i)"
proof (induction xs arbitrary: i)
  case (Cons x xs)
  show ?case
  proof (cases i)
    case 0
    with Cons.prems obtain z zs where "xs = z # zs" by (cases xs) auto
    then show ?thesis using 0 by simp
  next
    case (Suc j)
    then have "xs ! j \<noteq> x" using Cons.prems nth_mem [of j xs] by (metis Suc_less_SucD distinct.simps(2) length_Cons Suc_lessD)
    then show ?thesis using Suc Cons.IH [of j] Cons.prems by auto
  qed
qed simp

lemma after_last: "distinct xs \<Longrightarrow> xs \<noteq> [] \<Longrightarrow> after (last xs) xs = None"
proof (induction xs)
  case (Cons x xs)
  then show ?case by (cases xs) auto
qed simp

lemma after_in: "after x xs = Some y \<Longrightarrow> y \<in> set xs"
  by (induction x xs rule: after.induct) (auto split: if_splits list.splits)

lemma set_current_idc_site:
  "set_current_idc n m = (Inr (), m') \<Longrightarrow>
     site_of m' n = (site_of m n)\<lparr>s_current_idc :=
        (case after (s_current_idc (site_of m n)) (s_switch_order_list (site_of m n)) of
           None \<Rightarrow> s_current_idc (site_of m n) | Some idc \<Rightarrow> idc)\<rparr> \<and> others_same n m m'"
  by (auto simp: set_current_idc_def with_site_eq others_same_def split: option.splits)

lemma set_current_idc_total: "\<exists>m'. set_current_idc n m = (Inr (), m')"
  by (simp add: set_current_idc_def with_site_eq split: option.split)

definition switch_site :: "string \<Rightarrow> hasite_conf \<Rightarrow> hasite_conf" where
  "switch_site n m = snd (set_current_idc n m)"

lemma switch_site_cursor:
  assumes "distinct (s_switch_order_list (site_of m n))" and "s_switch_order_list (site_of m n) \<noteq> []"
    and "s_current_idc (site_of m n) = hd (s_switch_order_list (site_of m n))"
  shows "site_of ((switch_site n ^^ k) m) n = (site_of m n)\<lparr>s_current_idc :=
      s_switch_order_list (site_of m n) ! min k (length (s_switch_order_list (site_of m n)) - 1)\<rparr>"
proof (induction k)
  case 0
  then show ?case using assms by (simp add: hd_conv_nth)
next
  case (Suc k)
  define xs where "xs = s_switch_order_list (site_of m n)"
  define mk where "mk = (switch_site n ^^ k) m"
  have mk: "site_of mk n = (site_of m n)\<lparr>s_current_idc := xs ! min k (length xs - 1)\<rparr>"
    using Suc by (simp add: mk_def xs_def)
  obtain m' where m': "set_current_idc n mk = (Inr (), m')" using set_current_idc_total by blast
  have "after (xs ! min k (length xs - 1)) xs = (if Suc k < length xs then Some (xs ! Suc k) else None)"
  proof (cases "Suc k < length xs")
    case True
    then have "min k (length xs - 1) = k" by simp
    then show ?thesis using after_nth [of xs k] assms(1) True by (simp add: xs_def)
  next
    case False
    then have "min k (length xs - 1) = length xs - 1" by simp
    then have "xs ! min k (length xs - 1) = last xs" using assms(2) by (simp add: xs_def last_conv_nth)
    then show ?thesis using after_last [of xs] assms(1,2) False by (simp add: xs_def)
  qed
  moreover have "min (Suc k) (length xs - 1) = (if Suc k < length xs then Suc k else min k (length xs - 1))"
    by auto
  ultimately have "site_of m' n = (site_of m n)\<lparr>s_current_idc := xs ! min (Suc k) (length xs - 1)\<rparr>"
    using set_current_idc_site [OF m'] mk by (simp add: xs_def [symmetric] split: if_splits)
  moreover have "switch_site n mk = m'" by (simp add: switch_site_def m')
  ultimately show ?case by (simp add: mk_def xs_def)
qed

section \<open>What a site holds after loading\<close>

definition array_ok :: "site_info \<Rightarrow> bool" where
  "array_ok info \<longleftrightarrow> length (s_hasite_node info) = MAX_HASITENODE"

definition site_ok :: "site_info \<Rightarrow> bool" where
  "site_ok info \<longleftrightarrow> array_ok info \<and> 1 \<le> s_hasite_node_num info \<and> s_hasite_node_num info \<le> MAX_HASITENODE
     \<and> length (s_switch_order_list info) = s_hasite_node_num info
     \<and> s_current_idc info \<in> set (s_switch_order_list info)
     \<and> s_protocol_type info \<in> {EM_ST_MIDDLE, EM_ST_RELAY}"

lemma array_ok_site0 [simp]: "array_ok site0"
  by (simp add: array_ok_def site0_def)

lemma add_sitenode_Inr:
  assumes "add_sitenode n so e m = (Inr (), m')" and "array_ok (site_of m n)"
  shows "s_hasite_node_num (site_of m n) < MAX_HASITENODE \<and> array_ok (site_of m' n)
    \<and> s_hasite_node_num (site_of m' n) = s_hasite_node_num (site_of m n) + 1
    \<and> s_protocol_type (site_of m' n) = s_protocol_type (site_of m n) \<and> others_same n m m'"
  using assms
  by (auto simp: add_sitenode_def with_site_eq bindS_eq_Inr NODE_ATTR_Inr Let_def array_ok_def others_same_def
      split: if_splits)

lemma add_sitenodes_Inr:
  assumes "add_sitenodes n so es m = (Inr (), m')" and "array_ok (site_of m n)"
    and "s_hasite_node_num (site_of m n) \<le> MAX_HASITENODE"
  shows "s_hasite_node_num (site_of m' n) = s_hasite_node_num (site_of m n) + length es
    \<and> s_hasite_node_num (site_of m' n) \<le> MAX_HASITENODE \<and> array_ok (site_of m' n)
    \<and> s_protocol_type (site_of m' n) = s_protocol_type (site_of m n) \<and> others_same n m m'"
  using assms
proof (induction es arbitrary: m)
  case Nil
  then show ?case by (simp add: others_same_def)
next
  case (Cons e es)
  obtain m1 where m1: "add_sitenode n so e m = (Inr (), m1)" "add_sitenodes n so es m1 = (Inr (), m')"
    using Cons.prems(1) by (auto simp: seqS_def bindS_eq_Inr)
  note a = add_sitenode_Inr [OF m1(1) Cons.prems(2)]
  have "s_hasite_node_num (site_of m1 n) \<le> MAX_HASITENODE" using a by simp
  then show ?case
    using a Cons.IH [OF m1(2)] others_same_trans [of n m m1 m'] by auto
qed

text \<open>With every attribute there, the node after the last place of the array is written all the
  same.\<close>

lemma add_sitenode_overflow:
  assumes "s_hasite_node_num (site_of m n) \<ge> MAX_HASITENODE"
  shows "fst (add_sitenode n so e m) = Inl MemoryFault"
  using assms by (simp add: add_sitenode_def with_site_eq)

definition has_address :: "xml \<Rightarrow> bool" where
  "has_address e \<longleftrightarrow> map_of (xml_attrs e) ''port'' \<noteq> None \<and> map_of (xml_attrs e) ''ip'' \<noteq> None"

lemma add_sitenode_ok:
  assumes "has_address e" and "s_hasite_node_num (site_of m n) < MAX_HASITENODE" and "array_ok (site_of m n)"
  shows "\<exists>m'. add_sitenode n so e m = (Inr (), m')"
  using assms
  by (auto simp: has_address_def add_sitenode_def with_site_eq bindS_def NODE_ATTR_def Let_def)

lemma add_sitenodes_overflow:
  assumes "\<forall>e \<in> set es. has_address e" and "array_ok (site_of m n)"
    and "s_hasite_node_num (site_of m n) \<le> MAX_HASITENODE"
    and "MAX_HASITENODE < s_hasite_node_num (site_of m n) + length es"
  shows "fst (add_sitenodes n so es m) = Inl MemoryFault"
  using assms
proof (induction es arbitrary: m)
  case (Cons e es)
  show ?case
  proof (cases "s_hasite_node_num (site_of m n) < MAX_HASITENODE")
    case True
    obtain m1 where m1: "add_sitenode n so e m = (Inr (), m1)"
      using add_sitenode_ok [OF _ True Cons.prems(2), of e so] Cons.prems(1) by auto
    note a = add_sitenode_Inr [OF m1 Cons.prems(2)]
    show ?thesis
      using m1 a Cons.IH [of m1] Cons.prems by (auto simp: seqS_def bindS_def)
  next
    case False
    obtain x m1 where "add_sitenode n so e m = (x, m1)" by (cases "add_sitenode n so e m") auto
    moreover have "x = Inl MemoryFault"
      using add_sitenode_overflow [of m n so e] False calculation by simp
    ultimately show ?thesis by (simp add: seqS_def bindS_def)
  qed
qed simp

lemma get_protocol_type_Inr: "get_protocol_type p s = (Inr t, s') \<Longrightarrow> t \<in> {EM_ST_MIDDLE, EM_ST_RELAY} \<and> s' = s"
  by (auto simp: get_protocol_type_def split: if_splits)

text \<open>The two parts of \<open>get_site_info\<close> around the loop.\<close>

definition site_before :: "hasite_conf \<Rightarrow> string \<Rightarrow> int \<Rightarrow> string \<Rightarrow> hasite_conf \<Rightarrow> bool" where
  "site_before m n protocol so m1 \<longleftrightarrow>
     (\<exists>est order. site_of m1 n = (site_of m n)\<lparr>s_estop_time := est, s_protocol_type := protocol,
        s_hasite_node_num := 0, s_switch_order_list := order\<rparr>
        \<and> order = (if so \<noteq> ''default_switch_order'' then split (cstr so) CHR '':'' (int MAX_HASITENODE) else []))
     \<and> others_same n m m1"

lemma get_site_info_cases:
  assumes "map_of (xml_attrs site) ''server_name'' = Some n" and "map_of (xml_attrs site) ''estop_time'' = Some est"
    and "map_of (xml_attrs site) ''protocol'' = Some pr" and "get_protocol_type pr m = (Inr protocol, m)"
  shows "\<exists>m1. site_before m n protocol (NODE_ATTR_WITH_DEFAULT site ''switch_order'' ''default_switch_order'') m1 \<and>
    get_site_info site m =
      (case add_sitenodes n (NODE_ATTR_WITH_DEFAULT site ''switch_order'' ''default_switch_order'')
              (elements_from ''sitenode'' site) m1 of
         (Inl e, m2) \<Rightarrow> (Inl e, m2)
       | (Inr _, m2) \<Rightarrow>
           with_site n (\<lambda>info.
               if s_hasite_node_num info = 0
               then throwS (THROW CConfigException ERR_CONF (''site_info'' @ [CHR 0x27] @ ''s node_num is 0''))
               else if s_hasite_node_num info \<noteq> length (s_switch_order_list info)
               then throwS (THROW CConfigException ERR_CONF ''switch_order attribute idc num != site_node_num'')
               else put_site n (info\<lparr>s_current_idc := hd (s_switch_order_list info)\<rparr>)) m2)"
proof -
  define so where "so = NODE_ATTR_WITH_DEFAULT site ''switch_order'' ''default_switch_order''"
  have p: "get_protocol_type pr s = (Inr protocol, s)" for s :: hasite_conf
    using assms(4) by (auto simp: get_protocol_type_def split: if_splits)
  define i1 where "i1 = (site_of m n)\<lparr>s_estop_time := atoi est\<rparr>"
  define m0 where "m0 = omap_set n i1 (omap_insert n site0 (omap_insert n site0 m))"
  define m1 where "m1 = omap_set n (i1\<lparr>s_protocol_type := protocol, s_hasite_node_num := 0,
      s_switch_order_list := (if so \<noteq> ''default_switch_order''
        then split (cstr so) CHR '':'' (int MAX_HASITENODE) else [])\<rparr>) (omap_insert n site0 m0)"
  have "site_before m n protocol so m1"
    unfolding site_before_def m1_def m0_def i1_def others_same_def
    by (intro conjI exI [of _ "atoi est"]) (simp_all (no_asm_simp))
  moreover have "get_site_info site m = seqS (add_sitenodes n so (elements_from ''sitenode'' site))
       (with_site n (\<lambda>info.
               if s_hasite_node_num info = 0
               then throwS (THROW CConfigException ERR_CONF (''site_info'' @ [CHR 0x27] @ ''s node_num is 0''))
               else if s_hasite_node_num info \<noteq> length (s_switch_order_list info)
               then throwS (THROW CConfigException ERR_CONF ''switch_order attribute idc num != site_node_num'')
               else put_site n (info\<lparr>s_current_idc := hd (s_switch_order_list info)\<rparr>))) m1"
    unfolding get_site_info_def
    by (simp add: bindS_def seqS_def NODE_ATTR_def assms(1-3) with_site_eq p Let_def so_def [symmetric]
        m1_def m0_def i1_def)
  ultimately show ?thesis
    unfolding so_def by (auto simp: seqS_def bindS_def)
qed

lemma get_site_info_ok:
  assumes "get_site_info site m = (Inr (), m')" and "\<forall>k. array_ok (site_of m k)"
  shows "\<exists>n. map_of (xml_attrs site) ''server_name'' = Some n \<and> site_ok (site_of m' n)
    \<and> s_hasite_node_num (site_of m' n) = length (elements_from ''sitenode'' site)
    \<and> s_current_idc (site_of m' n) = hd (s_switch_order_list (site_of m' n)) \<and> others_same n m m'"
proof -
  obtain n where n: "map_of (xml_attrs site) ''server_name'' = Some n"
    using assms(1) by (auto simp: get_site_info_def bindS_eq_Inr NODE_ATTR_Inr)
  obtain est where est: "map_of (xml_attrs site) ''estop_time'' = Some est"
    using assms(1) by (auto simp: get_site_info_def bindS_eq_Inr NODE_ATTR_Inr with_site_eq)
  obtain pr protocol t t' where pr: "map_of (xml_attrs site) ''protocol'' = Some pr"
    and prt: "get_protocol_type pr (t :: hasite_conf) = (Inr protocol, t')"
    using assms(1) by (auto simp: get_site_info_def bindS_eq_Inr NODE_ATTR_Inr with_site_eq seqS_def)
  have p: "get_protocol_type pr m = (Inr protocol, m)"
    using prt by (auto simp: get_protocol_type_def split: if_splits)
  define so where "so = NODE_ATTR_WITH_DEFAULT site ''switch_order'' ''default_switch_order''"
  obtain m1 where m1: "site_before m n protocol so m1"
    and eq: "get_site_info site m =
      (case add_sitenodes n so (elements_from ''sitenode'' site) m1 of
         (Inl e, m2) \<Rightarrow> (Inl e, m2)
       | (Inr _, m2) \<Rightarrow>
           with_site n (\<lambda>info.
               if s_hasite_node_num info = 0
               then throwS (THROW CConfigException ERR_CONF (''site_info'' @ [CHR 0x27] @ ''s node_num is 0''))
               else if s_hasite_node_num info \<noteq> length (s_switch_order_list info)
               then throwS (THROW CConfigException ERR_CONF ''switch_order attribute idc num != site_node_num'')
               else put_site n (info\<lparr>s_current_idc := hd (s_switch_order_list info)\<rparr>)) m2)"
    using get_site_info_cases [OF n est pr p] unfolding so_def by blast
  obtain m2 where a: "add_sitenodes n so (elements_from ''sitenode'' site) m1 = (Inr (), m2)"
    using assms(1) eq by (cases "add_sitenodes n so (elements_from ''sitenode'' site) m1") (auto split: sum.splits)
  have s1: "array_ok (site_of m1 n)" "s_hasite_node_num (site_of m1 n) = 0"
    "s_protocol_type (site_of m1 n) = protocol" "others_same n m m1"
    using m1 assms(2) by (auto simp: site_before_def array_ok_def)
  note s2 = add_sitenodes_Inr [OF a s1(1)]
  have num: "s_hasite_node_num (site_of m2 n) \<noteq> 0"
    "s_hasite_node_num (site_of m2 n) = length (s_switch_order_list (site_of m2 n))"
    and m': "m' = omap_set n ((site_of m2 n)\<lparr>s_current_idc := hd (s_switch_order_list (site_of m2 n))\<rparr>)
        (omap_insert n site0 m2)"
    using assms(1) eq a by (auto simp: with_site_eq split: if_splits)
  then have "hd (s_switch_order_list (site_of m2 n)) \<in> set (s_switch_order_list (site_of m2 n))"
    by (intro hd_in_set) auto
  then have "site_ok (site_of m' n)"
    using num s1 s2 get_protocol_type_Inr [OF prt] by (simp add: m' site_ok_def array_ok_def Suc_le_eq)
  moreover have "others_same n m m'"
    using s1(2,4) s2 by (auto simp: m' others_same_def)
  ultimately show ?thesis
    using n s1(2) s2 by (auto simp: m')
qed

section \<open>Properties\<close>

text \<open>Elements for the concrete runs: a site with \<open>n\<close> nodes.\<close>

definition node_example :: "string \<Rightarrow> xml" where
  "node_example idc = Element ''sitenode'' [(''ip'', ''10.0.0.1''), (''port'', ''22000''), (''idc'', idc)] []"

definition site_example :: "string list \<Rightarrow> xml" where
  "site_example idcs = Element ''site'' [(''server_name'', ''core''), (''estop_time'', ''30''), (''protocol'', ''relay'')]
     (map node_example idcs)"

text \<open>A \<open>site\<close> element that loads gives a usable site and touches no other: between one and
  five nodes, an order with one idc for each node, a known protocol, and the first idc of
  the order as the current one.\<close>

theorem loaded_site_is_usable:
  assumes "get_site_info site m = (Inr (), m')" and "\<forall>k. array_ok (site_of m k)"
  shows "\<exists>n. map_of (xml_attrs site) ''server_name'' = Some n \<and> site_ok (site_of m' n)
    \<and> s_hasite_node_num (site_of m' n) = length (elements_from ''sitenode'' site)
    \<and> s_current_idc (site_of m' n) = hd (s_switch_order_list (site_of m' n)) \<and> others_same n m m'"
  using get_site_info_ok [OF assms] .

theorem loaded_site_is_usable_witness:
  "\<exists>m'. get_site_info (site_example [''sz'', ''sh'']) [] = (Inr (), m') \<and> site_ok (site_of m' ''core'')"
proof -
  have arr: "\<forall>k. array_ok (site_of [] k)" by (simp add: site_of_def omap_get_def)
  obtain m' where m': "get_site_info (site_example [''sz'', ''sh'']) [] = (Inr (), m')"
    by (simp add: get_site_info_def site_example_def node_example_def bindS_def seqS_def NODE_ATTR_def with_site_eq
        NODE_ATTR_WITH_DEFAULT_def get_protocol_type_def elements_from_def add_sitenode_def Let_def MAX_HASITENODE_def)
  then show ?thesis
    using loaded_site_is_usable [OF m' arr] by (auto simp: site_example_def)
qed

text \<open>\<open>set_current_idc\<close> walks the switch order from the first idc and stays at the last;
  \<open>get_next_idc\<close> announces the idc of the next step, and the empty text at the end.\<close>

theorem switching_walks_the_order:
  assumes "distinct (s_switch_order_list (site_of m n))" and "s_switch_order_list (site_of m n) = order"
    and "s_current_idc (site_of m n) = hd order" and "order \<noteq> []"
  shows "s_current_idc (site_of ((switch_site n ^^ k) m) n) = order ! min k (length order - 1)
    \<and> fst (get_next_idc n ((switch_site n ^^ k) m)) = Inr (if Suc k < length order then order ! Suc k else [])
    \<and> s_hasite_node (site_of ((switch_site n ^^ k) m) n) = s_hasite_node (site_of m n)"
proof -
  have c: "site_of ((switch_site n ^^ k) m) n = (site_of m n)\<lparr>s_current_idc := order ! min k (length order - 1)\<rparr>"
    using switch_site_cursor [of m n k] assms by simp
  have d: "distinct order" using assms(1,2) by simp
  have "after (order ! min k (length order - 1)) order = (if Suc k < length order then Some (order ! Suc k) else None)"
  proof (cases "Suc k < length order")
    case True
    then have "min k (length order - 1) = k" by simp
    then show ?thesis using after_nth [OF d True] True by simp
  next
    case False
    then have "min k (length order - 1) = length order - 1" by simp
    then show ?thesis using after_last [OF d assms(4)] False assms(4) by (simp add: last_conv_nth)
  qed
  then show ?thesis
    using c assms(2) by (simp add: get_next_idc_def with_site_eq)
qed

theorem switching_walks_the_order_witness:
  "s_current_idc (site_of ((switch_site ''core'' ^^ 1)
      [(''core'', site0\<lparr>s_switch_order_list := [''sz'', ''sh''], s_current_idc := ''sz''\<rparr>)]) ''core'') = ''sh''"
  using switching_walks_the_order [of "[(''core'', site0\<lparr>s_switch_order_list := [''sz'', ''sh''], s_current_idc := ''sz''\<rparr>)]"
      "''core''" "[''sz'', ''sh'']" 1]
  by (simp add: site_of_def omap_get_def)

text \<open>A site of more than five nodes is not refused: its sixth node is written behind the
  array of \<open>MAX_HASITENODE\<close> places.\<close>

theorem sixth_node_overflows:
  assumes "map_of (xml_attrs site) ''server_name'' = Some n" and "map_of (xml_attrs site) ''estop_time'' = Some est"
    and "map_of (xml_attrs site) ''protocol'' = Some ''tcp'' \<or> map_of (xml_attrs site) ''protocol'' = Some ''relay''"
    and "MAX_HASITENODE < length (elements_from ''sitenode'' site)"
    and "\<forall>e \<in> set (elements_from ''sitenode'' site). has_address e" and "array_ok (site_of m n)"
  shows "fst (get_site_info site m) = Inl MemoryFault"
proof -
  obtain pr protocol where pr: "map_of (xml_attrs site) ''protocol'' = Some pr"
    "get_protocol_type pr m = (Inr protocol, m)"
    using assms(3) by (auto simp: get_protocol_type_def)
  define so where "so = NODE_ATTR_WITH_DEFAULT site ''switch_order'' ''default_switch_order''"
  obtain m1 where m1: "site_before m n protocol so m1"
    and eq: "get_site_info site m =
      (case add_sitenodes n so (elements_from ''sitenode'' site) m1 of
         (Inl e, m2) \<Rightarrow> (Inl e, m2)
       | (Inr _, m2) \<Rightarrow>
           with_site n (\<lambda>info.
               if s_hasite_node_num info = 0
               then throwS (THROW CConfigException ERR_CONF (''site_info'' @ [CHR 0x27] @ ''s node_num is 0''))
               else if s_hasite_node_num info \<noteq> length (s_switch_order_list info)
               then throwS (THROW CConfigException ERR_CONF ''switch_order attribute idc num != site_node_num'')
               else put_site n (info\<lparr>s_current_idc := hd (s_switch_order_list info)\<rparr>)) m2)"
    using get_site_info_cases [OF assms(1,2) pr] unfolding so_def by blast
  have "s_hasite_node_num (site_of m1 n) = 0" "array_ok (site_of m1 n)"
    using m1 assms(6) by (auto simp: site_before_def array_ok_def)
  then have "fst (add_sitenodes n so (elements_from ''sitenode'' site) m1) = Inl MemoryFault"
    using add_sitenodes_overflow assms(4,5) by simp
  then show ?thesis
    unfolding eq by (auto split: prod.split sum.split)
qed

theorem sixth_node_overflows_witness:
  "fst (get_site_info (site_example [''a'', ''b'', ''c'', ''d'', ''e'', ''f'']) []) = Inl MemoryFault"
  by (rule sixth_node_overflows [where n = "''core''" and est = "''30''"])
    (simp_all add: site_example_def node_example_def elements_from_def MAX_HASITENODE_def has_address_def
      site_of_def omap_get_def)

end
