(* ===== verification/Api_Pool.thy ===== *)
theory Api_Pool
  imports Middle_Api Hasite_Conf
begin

text \<open>
  \<open>CApiPool\<close> (\<open>api/api_pool.cpp\<close>): the pool of back-end connections of one site. Two vectors of
  pointers are kept; a switch to the next data centre (idc) makes the other vector the active one, and
  the connections of the old vector are deleted as they become free. The objects the pointers
  lead to live on a heap, so that what two holders of one pointer would see is part of the model. Every
  public function holds the write lock of the pool and is one atomic operation.
\<close>

section \<open>The heap of connections\<close>

datatype api_obj = RelayObj relay_api | MiddleObj middle_api

fun obj_base :: "api_obj \<Rightarrow> api_base" where
  "obj_base (RelayObj s) = api_base.truncate s"
| "obj_base (MiddleObj s) = api_base.truncate s"

text \<open>The system, the site configuration all pools share, and the objects: \<open>new\<close> appends,
  \<open>delete\<close> leaves a \<open>None\<close>.\<close>

record pool_env =
  w_kernel :: kernel
  w_hasite :: hasite_conf
  w_heap :: "api_obj option list"
  w_keepalive :: int

definition obj_at :: "pool_env \<Rightarrow> nat \<Rightarrow> api_obj option" where
  "obj_at e a = (if a < length (w_heap e) then w_heap e ! a else None)"

definition new_obj :: "api_obj \<Rightarrow> (pool_env, nat) op" where
  "new_obj x = (\<lambda>e. (Inr (length (w_heap e)), e\<lparr>w_heap := w_heap e @ [Some x]\<rparr>))"

text \<open>A member function called through a pointer; an address without an object is a fault.\<close>

definition obj_call ::
  "(relay_world, 'a) op \<Rightarrow> (middle_world, 'a) op \<Rightarrow> nat \<Rightarrow> (pool_env, 'a) op" where
  "obj_call fr fm a = (\<lambda>e.
     case obj_at e a of
       None \<Rightarrow> (Inl MemoryFault, e)
     | Some (RelayObj s) \<Rightarrow>
         (case fr (w_kernel e, s) of
            (r, (k, s')) \<Rightarrow> (r, e\<lparr>w_kernel := k, w_heap := (w_heap e)[a := Some (RelayObj s')]\<rparr>))
     | Some (MiddleObj s) \<Rightarrow>
         (case fm (w_kernel e, s) of
            (r, (k, s')) \<Rightarrow> (r, e\<lparr>w_kernel := k, w_heap := (w_heap e)[a := Some (MiddleObj s')]\<rparr>)))"

definition api_is_free :: "nat \<Rightarrow> (pool_env, bool) op" where
  "api_is_free = obj_call (readW is_free) (readW is_free)"

definition api_index :: "nat \<Rightarrow> (pool_env, int) op" where
  "api_index = obj_call (readW a_index) (readW a_index)"

definition api_set_used :: "nat \<Rightarrow> (pool_env, unit) op" where
  "api_set_used a = (\<lambda>e. obj_call (set_used (relay_vtable (w_keepalive e))) (set_used (middle_vtable (w_keepalive e))) a e)"

definition api_set_free :: "bool \<Rightarrow> nat \<Rightarrow> (pool_env, unit) op" where
  "api_set_free force a = (\<lambda>e. obj_call (set_free (relay_vtable (w_keepalive e)) force)
      (set_free (middle_vtable (w_keepalive e)) force) a e)"

text \<open>What the holder of a connection does with it.\<close>

definition obj_process :: "nat \<Rightarrow> (pool_env, int) op" where
  "obj_process a = (\<lambda>e. obj_call (api_process (relay_vtable (w_keepalive e)))
      (api_process (middle_vtable (w_keepalive e))) a e)"

definition obj_encode :: "string option \<Rightarrow> int \<Rightarrow> string option \<Rightarrow> nat \<Rightarrow> (pool_env, unit) op" where
  "obj_encode packet n info = obj_call (api_encode packet n info) (api_encode packet n info)"

definition obj_decode :: "string \<Rightarrow> nat \<Rightarrow> (pool_env, string \<times> int) op" where
  "obj_decode packet a = (\<lambda>e. obj_call (api_decode (relay_vtable (w_keepalive e)) packet)
      (api_decode (middle_vtable (w_keepalive e)) packet) a e)"

text \<open>\<open>~CSocketBase\<close>.\<close>

definition close_base :: "('a sock_base_scheme world, unit) op" where
  "close_base = (\<lambda>(k, s). bindS (sysW (close (s_fd s))) (\<lambda>fd. objW (\<lambda>s. s\<lparr>s_fd := fd\<rparr>)) (k, s))"

text \<open>\<open>delete\<close>: the destructors call \<open>fini(true)\<close> and then close the socket, which is invalid by then.\<close>

definition delete_obj :: "nat \<Rightarrow> (pool_env, unit) op" where
  "delete_obj a = (\<lambda>e.
     seqS (obj_call (api_fini (relay_vtable (w_keepalive e)) True) (api_fini (middle_vtable (w_keepalive e)) True) a)
    (seqS (obj_call close_base close_base a)
          (modS (\<lambda>e. e\<lparr>w_heap := (w_heap e)[a := None]\<rparr>))) e)"

section \<open>The pool\<close>

datatype api_switch_state = EM_SWITCH_PRIOR | EM_SWITCH_ONGOING | EM_SWITCH_FINISHED

text \<open>\<open>_api_pool\<close> points to one of the two vectors \<open>_pool[2]\<close>: \<open>p_active\<close> is its index. The
  user and the password come with each call, \<open>_sys_conf\<close> is not used.\<close>

record api_pool =
  p_server_name :: string
  p_ip_addr :: string
  p_port :: int
  p_need_switch :: bool
  p_conn_num :: int
  p_max_conn_num :: int
  p_time_out :: int
  p_pool_size :: int
  p_active :: nat
  p_pool :: "nat \<Rightarrow> nat option list"
  p_switch_factor :: nat
  p_switch_state :: api_switch_state

type_synonym pool_world = "pool_env \<times> api_pool"

definition new_pool :: "string \<Rightarrow> int \<Rightarrow> int \<Rightarrow> int \<Rightarrow> api_pool" where
  "new_pool server_name conn_num max_conn_num time_out =
     \<lparr>p_server_name = server_name, p_ip_addr = [], p_port = 0, p_need_switch = False, p_conn_num = conn_num,
      p_max_conn_num = max_conn_num, p_time_out = time_out, p_pool_size = 0, p_active = 0,
      p_pool = (\<lambda>_. []), p_switch_factor = 0, p_switch_state = EM_SWITCH_PRIOR\<rparr>"

definition poolS :: "(api_pool \<Rightarrow> api_pool) \<Rightarrow> (pool_world, unit) op" where
  "poolS f = modS (\<lambda>(e, p). (e, f p))"

definition set_switch_on :: "(pool_world, unit) op" where
  "set_switch_on = poolS (\<lambda>p. p\<lparr>p_need_switch := True\<rparr>)"

definition set_switch_off :: "(pool_world, unit) op" where
  "set_switch_off = poolS (\<lambda>p. p\<lparr>p_need_switch := False\<rparr>)"

definition hasiteE :: "(hasite_conf, 'a) op \<Rightarrow> (pool_env, 'a) op" where
  "hasiteE m = (\<lambda>e. case m (w_hasite e) of (r, h) \<Rightarrow> (r, e\<lparr>w_hasite := h\<rparr>))"

definition create_api :: "string \<Rightarrow> string \<Rightarrow> int \<Rightarrow> int \<Rightarrow> string \<Rightarrow> string \<Rightarrow> (pool_world, nat) op" where
  "create_api idc ip port protocol user passwd = (\<lambda>(e, p).
     if protocol = EM_ST_RELAY then
       on_fst (new_obj (RelayObj (relay_api_init idc ip port (p_pool_size p) (p_time_out p)))) (e, p)
     else if protocol = EM_ST_MIDDLE then
       on_fst (new_obj (MiddleObj (middle_api_init idc ip port user passwd (p_pool_size p) (p_time_out p)))) (e, p)
     else (Inl (THROW CConfigException ERR_CONF
                 (''idc:'' @ idc @ '', server_name: '' @ p_server_name p @ '', protocol error: '' @ show_int protocol)),
           (e, p)))"

definition add_api :: "string \<Rightarrow> string \<Rightarrow> (pool_world, nat) op" where
  "add_api user passwd = (\<lambda>(e, p).
     bindS (on_fst (hasiteE (if p_need_switch p then get_next_idc (p_server_name p)
                             else get_current_idc (p_server_name p)))) (\<lambda>idc.
     bindS (on_fst (hasiteE (hasite_get idc (p_server_name p)))) (\<lambda>(ip, port, protocol).
     seqS (poolS (\<lambda>p. p\<lparr>p_ip_addr := ip, p_port := port\<rparr>))
    (bindS (create_api idc ip port protocol user passwd) (\<lambda>a.
     seqS (on_fst (api_set_used a))
    (seqS (poolS (\<lambda>p. p\<lparr>p_pool := (p_pool p)(p_active p := p_pool p (p_active p) @ [Some a]),
                        p_pool_size := i32 (p_pool_size p + 1)\<rparr>))
          (\<lambda>(e, p). if p_pool_size p \<noteq> i32 (int (length (p_pool p (p_active p))))
             then (Inl (THROW CTrpcException ERR_SYS_UNKNOWN
                    (''_poolsize: '' @ show_int (p_pool_size p) @ '' != api_pool: '' @
                     show_int (int (length (p_pool p (p_active p)))))), (e, p))
             else (Inr a, (e, p)))))))) (e, p))"

text \<open>The first loop over the old vector: what is free is deleted and its place set to \<open>NULL\<close>.\<close>

fun clear_free :: "nat option list \<Rightarrow> (pool_env, nat option list) op" where
  "clear_free [] = returnS []"
| "clear_free (None # ps) = bindS (clear_free ps) (\<lambda>ps'. returnS (None # ps'))"
| "clear_free (Some a # ps) =
     bindS (api_is_free a) (\<lambda>free.
       if free then seqS (delete_obj a) (bindS (clear_free ps) (\<lambda>ps'. returnS (None # ps')))
       else bindS (clear_free ps) (\<lambda>ps'. returnS (Some a # ps')))"

text \<open>The second one: whether nothing of it is still in use.\<close>

fun switch_complete :: "nat option list \<Rightarrow> (pool_env, bool) op" where
  "switch_complete [] = returnS True"
| "switch_complete (None # ps) = switch_complete ps"
| "switch_complete (Some a # ps) =
     bindS (api_is_free a) (\<lambda>free. if \<not> free then returnS False else switch_complete ps)"

definition clear_old_pool :: "(pool_world, unit) op" where
  "clear_old_pool = (\<lambda>(e, p).
     if p_switch_state p = EM_SWITCH_ONGOING then
       seqS (assertS (\<lambda>(e, p). p_switch_factor p > 0))
         (let old = (p_switch_factor p - 1) mod 2
          in bindS (on_fst (clear_free (p_pool p old))) (\<lambda>ps.
             seqS (poolS (\<lambda>p. p\<lparr>p_pool := (p_pool p)(old := ps)\<rparr>))
            (bindS (on_fst (switch_complete ps)) (\<lambda>complete.
               if complete
               then poolS (\<lambda>p. p\<lparr>p_pool := (p_pool p)(old := []), p_switch_state := EM_SWITCH_FINISHED\<rparr>)
               else returnS ())))) (e, p)
     else (Inr (), (e, p)))"

text \<open>The loop over the active vector: the first free connection is marked as used.\<close>

fun use_free :: "nat option list \<Rightarrow> (pool_env, nat option) op" where
  "use_free [] = returnS None"
| "use_free (None # ps) = throwS MemoryFault"
| "use_free (Some a # ps) =
     bindS (api_is_free a) (\<lambda>free.
       if free then seqS (api_set_used a) (returnS (Some a)) else use_free ps)"

text \<open>The last part of \<open>_get\<close>.\<close>

definition add_or_busy :: "string \<Rightarrow> string \<Rightarrow> (pool_world, nat) op" where
  "add_or_busy user passwd = (\<lambda>(e, p).
     if p_pool_size p < p_max_conn_num p then add_api user passwd (e, p)
     else (Inl (THROW CServerException ERR_SERVER_BUSY
             (''server_site: '' @ p_server_name p @ '' no free conn max: '' @ show_int (p_max_conn_num p) @
              '', now: '' @ show_int (p_pool_size p))), (e, p)))"

definition use_free_or_add :: "string \<Rightarrow> string \<Rightarrow> (pool_world, nat) op" where
  "use_free_or_add user passwd = (\<lambda>(e, p).
     bindS (on_fst (use_free (p_pool p (p_active p)))) (\<lambda>found.
       case found of Some a \<Rightarrow> returnS a | None \<Rightarrow> add_or_busy user passwd) (e, p))"

definition switch_and_add :: "string \<Rightarrow> string \<Rightarrow> (pool_world, nat) op" where
  "switch_and_add user passwd = (\<lambda>(e, p).
     if p_switch_state p = EM_SWITCH_ONGOING then
       (Inl (THROW CServerException ERR_SERVER_BUSY ''Last switch has not finished, please wait!''), (e, p))
     else
       seqS (poolS (\<lambda>p. let f = p_switch_factor p + 1 in
               p\<lparr>p_switch_state := EM_SWITCH_ONGOING, p_switch_factor := f, p_active := f mod 2,
                 p_pool_size := i32 (int (length (p_pool p (f mod 2))))\<rparr>))
      (seqS (on_fst (hasiteE (set_current_idc (p_server_name p))))
      (seqS (poolS (\<lambda>p. p\<lparr>p_need_switch := False\<rparr>))
            (add_or_busy user passwd))) (e, p))"

definition pool_get_locked :: "string \<Rightarrow> string \<Rightarrow> (pool_world, nat) op" where
  "pool_get_locked user passwd =
     seqS clear_old_pool (\<lambda>(e, p).
       if \<not> p_need_switch p then use_free_or_add user passwd (e, p)
       else
         bindS (on_fst (hasiteE (get_next_idc (p_server_name p)))) (\<lambda>next_idc.
           if next_idc = []
           then seqS (poolS (\<lambda>p. p\<lparr>p_need_switch := False\<rparr>)) (use_free_or_add user passwd)
           else switch_and_add user passwd) (e, p))"

definition pool_get :: "string \<Rightarrow> string \<Rightarrow> (pool_world, nat) op" where
  "pool_get user passwd = pool_get_locked user passwd"

definition pool_release_locked :: "nat \<Rightarrow> bool \<Rightarrow> (pool_world, unit) op" where
  "pool_release_locked a force_close = (\<lambda>(e, p).
     bindS (on_fst (api_index a)) (\<lambda>index.
       on_fst (api_set_free (if index \<ge> p_conn_num p then True else force_close) a)) (e, p))"

definition pool_release :: "nat \<Rightarrow> bool \<Rightarrow> (pool_world, unit) op" where
  "pool_release a force_close = pool_release_locked a force_close"

section \<open>Calls through a pointer\<close>

definition used_obj :: "api_obj \<Rightarrow> bool" where "used_obj x \<longleftrightarrow> a_is_used (obj_base x)"

lemma obj_base_fields [simp]:
  "a_is_used (api_base.truncate s) = a_is_used s" "a_index (api_base.truncate s) = a_index s"
  "a_idc (api_base.truncate s) = a_idc s" "a_ip (api_base.truncate s) = a_ip s"
  "a_port (api_base.truncate s) = a_port s" "s_fd (api_base.truncate s) = s_fd s"
  "at_rest (api_base.truncate s) = at_rest s" "a_is_init (api_base.truncate s) = a_is_init s"
  by (simp_all add: api_base.defs at_rest_def)

lemma obj_at_upd [simp]:
  "a < length (w_heap e) \<Longrightarrow> obj_at (e\<lparr>w_kernel := k, w_heap := (w_heap e)[a := x]\<rparr>) b = (if b = a then x else obj_at e b)"
  by (auto simp: obj_at_def)

lemma obj_at_heap_upd [simp]:
  "a < length (w_heap e) \<Longrightarrow> obj_at (e\<lparr>w_heap := (w_heap e)[a := x]\<rparr>) b = (if b = a then x else obj_at e b)"
  by (auto simp: obj_at_def)

lemma obj_at_other [simp]:
  "obj_at (e\<lparr>w_hasite := h\<rparr>) b = obj_at e b" "obj_at (e\<lparr>w_kernel := k\<rparr>) b = obj_at e b"
  by (simp_all add: obj_at_def)

lemma obj_at_lt: "obj_at e a = Some x \<Longrightarrow> a < length (w_heap e) \<and> w_heap e ! a = Some x"
  by (auto simp: obj_at_def split: if_splits)

text \<open>What a call on one object leaves alone: the other objects and the site configuration.\<close>

definition obj_frame :: "nat \<Rightarrow> pool_env \<Rightarrow> pool_env \<Rightarrow> bool" where
  "obj_frame a e e' \<longleftrightarrow> length (w_heap e') = length (w_heap e) \<and> w_hasite e' = w_hasite e \<and>
     w_keepalive e' = w_keepalive e \<and> (\<forall>b. b \<noteq> a \<longrightarrow> obj_at e' b = obj_at e b)"

lemma obj_call_frame:
  assumes "obj_call fr fm a e = (r, e')"
  shows "obj_frame a e e'"
  using assms by (auto simp: obj_call_def obj_frame_def dest: obj_at_lt split: option.splits api_obj.splits prod.splits)

lemma heap_same: "w_heap e ! a = Some x \<Longrightarrow> e\<lparr>w_heap := (w_heap e)[a := Some x]\<rparr> = e"
  by (cases e) (simp, metis list_update_id)

lemma obj_call_read:
  assumes "obj_at e a = Some x"
  shows "obj_call (readW f) (readW g) a e = (Inr (case x of RelayObj s \<Rightarrow> f s | MiddleObj s \<Rightarrow> g s), e)"
  using assms obj_at_lt [OF assms] by (cases x) (simp_all add: obj_call_def readW_def heap_same)

lemma api_is_free_eq:
  "api_is_free a e = (case obj_at e a of None \<Rightarrow> (Inl MemoryFault, e) | Some x \<Rightarrow> (Inr (\<not> used_obj x), e))"
proof (cases "obj_at e a")
  case None
  then show ?thesis by (simp add: api_is_free_def obj_call_def)
next
  case (Some x)
  then show ?thesis by (cases x) (simp_all add: api_is_free_def obj_call_read is_free_def used_obj_def)
qed

lemma api_index_eq:
  "api_index a e = (case obj_at e a of None \<Rightarrow> (Inl MemoryFault, e) | Some x \<Rightarrow> (Inr (a_index (obj_base x)), e))"
proof (cases "obj_at e a")
  case None
  then show ?thesis by (simp add: api_index_def obj_call_def)
next
  case (Some x)
  then show ?thesis by (cases x) (simp_all add: api_index_def obj_call_read)
qed

text \<open>The configuration of a connection, which no operation changes.\<close>

definition same_node :: "api_obj \<Rightarrow> api_obj \<Rightarrow> bool" where
  "same_node x y \<longleftrightarrow> (let s = obj_base x; t = obj_base y in
     a_index t = a_index s \<and> a_idc t = a_idc s \<and> a_ip t = a_ip s \<and> a_port t = a_port s)"

context api_protocol
begin

lemma set_used_rest:
  assumes "\<not> a_is_used s"
  shows "\<exists>k' s'. set_used vt (k, s) = (Inr (), (k', s')) \<and> a_is_used s' \<and> a_index s' = a_index s
     \<and> a_idc s' = a_idc s \<and> a_ip s' = a_ip s \<and> a_port s' = a_port s"
proof -
  obtain k1 s1 where f: "v_fini vt True (k, s) = (Inr (), (k1, s1))" "same_call s s1"
    using fini_total by blast
  then show ?thesis
    using assms by (auto simp: set_used_eq api_fini_eq same_call_def)
qed

lemma set_free_node:
  "\<exists>k' s'. set_free vt b (k, s) = (Inr (), (k', s')) \<and> at_rest s' \<and> a_index s' = a_index s
     \<and> a_idc s' = a_idc s \<and> a_ip s' = a_ip s \<and> a_port s' = a_port s
     \<and> (b \<longrightarrow> s_fd s' = INVALID_SOCKET
          \<and> k_closed k' = k_closed k @ (if s_fd s = INVALID_SOCKET then [] else [s_fd s]))"
proof -
  obtain k1 s1 where f: "v_fini vt b (k, s) = (Inr (), (k1, s1))" "same_call s s1"
    using fini_total by blast
  then show ?thesis
    using set_free_rest [of b k s] by (auto simp: set_free_eq api_fini_eq same_call_def at_rest_def)
qed

end

lemma api_set_used_ok:
  assumes "obj_at e a = Some x" and "\<not> used_obj x"
  shows "\<exists>k y. api_set_used a e = (Inr (), e\<lparr>w_kernel := k, w_heap := (w_heap e)[a := Some y]\<rparr>)
     \<and> used_obj y \<and> same_node x y"
proof (cases x)
  case (RelayObj s)
  then have "\<not> a_is_used s" using assms(2) by (simp add: used_obj_def)
  then obtain k' s' where "set_used (relay_vtable (w_keepalive e)) (w_kernel e, s) = (Inr (), (k', s'))" "a_is_used s'"
    "a_index s' = a_index s" "a_idc s' = a_idc s" "a_ip s' = a_ip s" "a_port s' = a_port s"
    using relay.set_used_rest by blast
  then show ?thesis
    using assms(1) RelayObj
    by (intro exI [of _ k'] exI [of _ "RelayObj s'"]) (simp add: api_set_used_def obj_call_def used_obj_def same_node_def)
next
  case (MiddleObj s)
  then have "\<not> a_is_used s" using assms(2) by (simp add: used_obj_def)
  then obtain k' s' where "set_used (middle_vtable (w_keepalive e)) (w_kernel e, s) = (Inr (), (k', s'))" "a_is_used s'"
    "a_index s' = a_index s" "a_idc s' = a_idc s" "a_ip s' = a_ip s" "a_port s' = a_port s"
    using middle.set_used_rest by blast
  then show ?thesis
    using assms(1) MiddleObj
    by (intro exI [of _ k'] exI [of _ "MiddleObj s'"]) (simp add: api_set_used_def obj_call_def used_obj_def same_node_def)
qed

lemma api_set_free_ok:
  assumes "obj_at e a = Some x"
  shows "\<exists>k y. api_set_free b a e = (Inr (), e\<lparr>w_kernel := k, w_heap := (w_heap e)[a := Some y]\<rparr>)
     \<and> at_rest (obj_base y) \<and> same_node x y
     \<and> (b \<longrightarrow> s_fd (obj_base y) = INVALID_SOCKET \<and> k_closed k = k_closed (w_kernel e) @
          (if s_fd (obj_base x) = INVALID_SOCKET then [] else [s_fd (obj_base x)]))"
proof (cases x)
  case (RelayObj s)
  obtain k' s' where "set_free (relay_vtable (w_keepalive e)) b (w_kernel e, s) = (Inr (), (k', s'))" "at_rest s'"
    "a_index s' = a_index s" "a_idc s' = a_idc s" "a_ip s' = a_ip s" "a_port s' = a_port s"
    "b \<longrightarrow> s_fd s' = INVALID_SOCKET
       \<and> k_closed k' = k_closed (w_kernel e) @ (if s_fd s = INVALID_SOCKET then [] else [s_fd s])"
    using relay.set_free_node by blast
  then show ?thesis
    using assms RelayObj
    by (intro exI [of _ k'] exI [of _ "RelayObj s'"]) (simp add: api_set_free_def obj_call_def same_node_def)
next
  case (MiddleObj s)
  obtain k' s' where "set_free (middle_vtable (w_keepalive e)) b (w_kernel e, s) = (Inr (), (k', s'))" "at_rest s'"
    "a_index s' = a_index s" "a_idc s' = a_idc s" "a_ip s' = a_ip s" "a_port s' = a_port s"
    "b \<longrightarrow> s_fd s' = INVALID_SOCKET
       \<and> k_closed k' = k_closed (w_kernel e) @ (if s_fd s = INVALID_SOCKET then [] else [s_fd s])"
    using middle.set_free_node by blast
  then show ?thesis
    using assms MiddleObj
    by (intro exI [of _ k'] exI [of _ "MiddleObj s'"]) (simp add: api_set_free_def obj_call_def same_node_def)
qed

lemma obj_call_relay:
  "obj_at e a = Some (RelayObj s) \<Longrightarrow> fr (w_kernel e, s) = (r, (k, s')) \<Longrightarrow>
     obj_call fr fm a e = (r, e\<lparr>w_kernel := k, w_heap := (w_heap e)[a := Some (RelayObj s')]\<rparr>)"
  by (simp add: obj_call_def)

lemma obj_call_middle:
  "obj_at e a = Some (MiddleObj s) \<Longrightarrow> fm (w_kernel e, s) = (r, (k, s')) \<Longrightarrow>
     obj_call fr fm a e = (r, e\<lparr>w_kernel := k, w_heap := (w_heap e)[a := Some (MiddleObj s')]\<rparr>)"
  by (simp add: obj_call_def)

lemma close_base_closed:
  "s_fd s = INVALID_SOCKET \<Longrightarrow> close_base (k, s) = (Inr (), (k, s))"
  by (cases s) (simp add: close_base_def bindS_def sysW_def objW_def close_eq)

lemma delete_obj_ok:
  assumes "obj_at e a = Some x"
  shows "\<exists>k. delete_obj a e = (Inr (), e\<lparr>w_kernel := k, w_heap := (w_heap e)[a := None]\<rparr>)
     \<and> k_closed k = k_closed (w_kernel e) @
          (if s_fd (obj_base x) = INVALID_SOCKET then [] else [s_fd (obj_base x)])"
proof (cases x)
  case (RelayObj s)
  obtain k' s' where f: "api_fini (relay_vtable (w_keepalive e)) True (w_kernel e, s) = (Inr (), (k', s'))"
    "s_fd s' = INVALID_SOCKET" "k_closed k' = k_closed (w_kernel e) @ (if s_fd s = INVALID_SOCKET then [] else [s_fd s])"
    using relay.fini_rest [of "w_keepalive e" True "w_kernel e" s] by auto
  define e1 where "e1 = e\<lparr>w_kernel := k', w_heap := (w_heap e)[a := Some (RelayObj s')]\<rparr>"
  have a: "a < length (w_heap e)" using obj_at_lt [OF assms] by simp
  have "obj_at e a = Some (RelayObj s)" using assms RelayObj by simp
  then have 1: "obj_call (api_fini (relay_vtable (w_keepalive e)) True) (api_fini (middle_vtable (w_keepalive e)) True) a e
      = (Inr (), e1)"
    unfolding e1_def by (rule obj_call_relay) (rule f(1))
  have "obj_at e1 a = Some (RelayObj s')" using a by (simp add: e1_def)
  then have 2: "obj_call close_base close_base a e1
      = (Inr (), e1\<lparr>w_kernel := k', w_heap := (w_heap e1)[a := Some (RelayObj s')]\<rparr>)"
    by (rule obj_call_relay) (simp add: close_base_closed f(2) e1_def)
  have "delete_obj a e = (Inr (), e\<lparr>w_kernel := k', w_heap := (w_heap e)[a := None]\<rparr>)"
    by (simp only: delete_obj_def seqS_def bindS_def 1 2 prod.case sum.case modS_apply) (simp add: e1_def)
  then show ?thesis
    using f(3) RelayObj by (intro exI [of _ k']) simp
next
  case (MiddleObj s)
  obtain k' s' where f: "api_fini (middle_vtable (w_keepalive e)) True (w_kernel e, s) = (Inr (), (k', s'))"
    "s_fd s' = INVALID_SOCKET" "k_closed k' = k_closed (w_kernel e) @ (if s_fd s = INVALID_SOCKET then [] else [s_fd s])"
    using middle.fini_rest [of "w_keepalive e" True "w_kernel e" s] by auto
  define e1 where "e1 = e\<lparr>w_kernel := k', w_heap := (w_heap e)[a := Some (MiddleObj s')]\<rparr>"
  have a: "a < length (w_heap e)" using obj_at_lt [OF assms] by simp
  have "obj_at e a = Some (MiddleObj s)" using assms MiddleObj by simp
  then have 1: "obj_call (api_fini (relay_vtable (w_keepalive e)) True) (api_fini (middle_vtable (w_keepalive e)) True) a e
      = (Inr (), e1)"
    unfolding e1_def by (rule obj_call_middle) (rule f(1))
  have "obj_at e1 a = Some (MiddleObj s')" using a by (simp add: e1_def)
  then have 2: "obj_call close_base close_base a e1
      = (Inr (), e1\<lparr>w_kernel := k', w_heap := (w_heap e1)[a := Some (MiddleObj s')]\<rparr>)"
    by (rule obj_call_middle) (simp add: close_base_closed f(2) e1_def)
  have "delete_obj a e = (Inr (), e\<lparr>w_kernel := k', w_heap := (w_heap e)[a := None]\<rparr>)"
    by (simp only: delete_obj_def seqS_def bindS_def 1 2 prod.case sum.case modS_apply) (simp add: e1_def)
  then show ?thesis
    using f(3) MiddleObj by (intro exI [of _ k']) simp
qed

section \<open>The loops over the vectors\<close>

definition used_at :: "pool_env \<Rightarrow> nat \<Rightarrow> bool" where
  "used_at e a \<longleftrightarrow> (case obj_at e a of None \<Rightarrow> False | Some x \<Rightarrow> used_obj x)"

definition live_at :: "pool_env \<Rightarrow> nat \<Rightarrow> bool" where "live_at e a \<longleftrightarrow> obj_at e a \<noteq> None"

fun ptrs :: "nat option list \<Rightarrow> nat list" where
  "ptrs [] = []"
| "ptrs (None # ps) = ptrs ps"
| "ptrs (Some a # ps) = a # ptrs ps"

lemma ptrs_append [simp]: "ptrs (xs @ ys) = ptrs xs @ ptrs ys"
  by (induction xs rule: ptrs.induct) auto

lemma ptrs_le: "length (ptrs ps) \<le> length ps"
  by (induction ps rule: ptrs.induct) auto

definition still_used :: "pool_env \<Rightarrow> nat option \<Rightarrow> nat option" where
  "still_used e p = (case p of None \<Rightarrow> None | Some a \<Rightarrow> if used_at e a then Some a else None)"

lemma still_used_simps [simp]:
  "still_used e None = None" "still_used e (Some a) = (if used_at e a then Some a else None)"
  by (simp_all add: still_used_def)

lemma ptrs_still_used: "ptrs (map (still_used e) ps) = filter (used_at e) (ptrs ps)"
  by (induction ps rule: ptrs.induct) auto

text \<open>The change of the system and of the objects, everything else kept.\<close>

definition heap_change :: "pool_env \<Rightarrow> pool_env \<Rightarrow> bool" where
  "heap_change e e' \<longleftrightarrow> w_hasite e' = w_hasite e \<and> w_keepalive e' = w_keepalive e
     \<and> length (w_heap e') = length (w_heap e)"

lemma heap_change_refl: "heap_change e e"
  by (simp add: heap_change_def)

lemma heap_change_trans: "heap_change e e' \<Longrightarrow> heap_change e' e'' \<Longrightarrow> heap_change e e''"
  by (simp add: heap_change_def)

lemma heap_change_upd: "heap_change e (e\<lparr>w_kernel := k, w_heap := (w_heap e)[a := x]\<rparr>)"
  by (simp add: heap_change_def)

lemma live_lt: "live_at e a \<Longrightarrow> a < length (w_heap e)"
  by (auto simp: live_at_def dest: obj_at_lt)

lemma clear_free_spec:
  assumes "\<forall>a \<in> set (ptrs ps). live_at e a" and "distinct (ptrs ps)"
  shows "\<exists>e'. clear_free ps e = (Inr (map (still_used e) ps), e') \<and> heap_change e e'
     \<and> (\<forall>b. obj_at e' b = (if b \<in> set (ptrs ps) \<and> \<not> used_at e b then None else obj_at e b))"
  using assms
proof (induction ps arbitrary: e rule: ptrs.induct)
  case 1
  then show ?case by (simp add: returnS_def heap_change_refl)
next
  case (2 ps)
  then obtain e' where "clear_free ps e = (Inr (map (still_used e) ps), e')" "heap_change e e'"
    "\<forall>b. obj_at e' b = (if b \<in> set (ptrs ps) \<and> \<not> used_at e b then None else obj_at e b)" by force
  then show ?case by (simp add: bindS_def returnS_def)
next
  case (3 a ps)
  then obtain x where x: "obj_at e a = Some x" by (auto simp: live_at_def)
  show ?case
  proof (cases "used_obj x")
    case True
    obtain e' where "clear_free ps e = (Inr (map (still_used e) ps), e')" "heap_change e e'"
      "\<forall>b. obj_at e' b = (if b \<in> set (ptrs ps) \<and> \<not> used_at e b then None else obj_at e b)"
      using 3 by force
    then show ?thesis
      using True x by (simp add: bindS_def returnS_def api_is_free_eq used_at_def)
  next
    case False
    obtain k where d: "delete_obj a e = (Inr (), e\<lparr>w_kernel := k, w_heap := (w_heap e)[a := None]\<rparr>)"
      using delete_obj_ok [OF x] by blast
    define e1 where "e1 = e\<lparr>w_kernel := k, w_heap := (w_heap e)[a := None]\<rparr>"
    have o: "obj_at e1 b = (if b = a then None else obj_at e b)" for b
      using obj_at_lt [OF x] by (simp add: e1_def)
    have u: "used_at e1 b = used_at e b" if "b \<noteq> a" for b
      using that by (simp add: used_at_def o)
    have "\<forall>b \<in> set (ptrs ps). live_at e1 b" using 3(2,3) o by (auto simp: live_at_def)
    with 3 obtain e' where e': "clear_free ps e1 = (Inr (map (still_used e1) ps), e')" "heap_change e1 e'"
      "\<forall>b. obj_at e' b = (if b \<in> set (ptrs ps) \<and> \<not> used_at e1 b then None else obj_at e1 b)" by force
    have "map (still_used e1) ps = map (still_used e) ps"
      using 3(3) u by (induction ps rule: ptrs.induct) auto
    moreover have "heap_change e e'"
      using heap_change_trans [OF heap_change_upd] e'(2) unfolding e1_def by blast
    moreover have "\<forall>b. obj_at e' b = (if b \<in> set (ptrs (Some a # ps)) \<and> \<not> used_at e b then None else obj_at e b)"
      using e'(3) o u x False 3(3) by (auto simp: used_at_def)
    ultimately show ?thesis
      using e'(1) False x d by (simp add: bindS_def seqS_def returnS_def api_is_free_eq used_at_def e1_def)
  qed
qed

lemma switch_complete_spec:
  "\<forall>a \<in> set (ptrs ps). live_at e a \<Longrightarrow>
     switch_complete ps e = (Inr (\<forall>a \<in> set (ptrs ps). \<not> used_at e a), e)"
  by (induction ps rule: ptrs.induct)
    (auto simp: bindS_def returnS_def api_is_free_eq used_at_def live_at_def)

lemma use_free_spec:
  assumes "\<forall>p \<in> set ps. \<exists>a. p = Some a \<and> live_at e a"
  shows "(use_free ps e = (Inr None, e) \<and> (\<forall>a \<in> set (ptrs ps). used_at e a))
    \<or> (\<exists>a x k y. Some a \<in> set ps \<and> obj_at e a = Some x \<and> \<not> used_obj x
         \<and> use_free ps e = (Inr (Some a), e\<lparr>w_kernel := k, w_heap := (w_heap e)[a := Some y]\<rparr>)
         \<and> used_obj y \<and> same_node x y)"
  using assms
proof (induction ps rule: ptrs.induct)
  case (3 a ps)
  then obtain x where x: "obj_at e a = Some x" by (auto simp: live_at_def)
  show ?case
  proof (cases "used_obj x")
    case True
    then show ?thesis using 3 x by (auto simp: bindS_def returnS_def api_is_free_eq used_at_def)
  next
    case False
    then obtain k y where "api_set_used a e = (Inr (), e\<lparr>w_kernel := k, w_heap := (w_heap e)[a := Some y]\<rparr>)"
      "used_obj y" "same_node x y"
      using api_set_used_ok [OF x] by blast
    then show ?thesis
      using x False
      by (intro disjI2 exI [of _ a] exI [of _ x] exI [of _ k] exI [of _ y])
        (simp add: bindS_def seqS_def returnS_def api_is_free_eq)
  qed
qed (auto simp: returnS_def)

section \<open>A new connection\<close>

lemma get_current_idc_eq: "get_current_idc n m = (Inr (s_current_idc (site_of m n)), omap_insert n site0 m)"
  by (simp add: get_current_idc_def with_site_eq returnS_def)

definition next_of :: "site_info \<Rightarrow> string" where
  "next_of i = (case after (s_current_idc i) (s_switch_order_list i) of None \<Rightarrow> [] | Some idc \<Rightarrow> idc)"

lemma get_next_idc_eq: "get_next_idc n m = (Inr (next_of (site_of m n)), omap_insert n site0 m)"
  by (simp add: get_next_idc_def with_site_eq returnS_def next_of_def)

definition usable_nodes :: "site_info \<Rightarrow> site_node list" where
  "usable_nodes i = take (s_hasite_node_num i) (s_hasite_node i)"

lemma hasite_get_eq:
  "hasite_get idc n m =
     ((case find_node idc (usable_nodes (site_of m n)) of
         None \<Rightarrow> Inl (THROW CServerException ERR_SERVER_MAINTAIN (''server: '' @ n @ '', no site can use''))
       | Some (ip, port) \<Rightarrow> Inr (ip, port, s_protocol_type (site_of m n))), omap_insert n site0 m)"
  by (simp add: hasite_get_def with_site_eq returnS_def throwS_def usable_nodes_def split: option.split)

lemma hasiteE_eq: "on_fst (hasiteE m) (e, p) = (case m (w_hasite e) of (r, h) \<Rightarrow> (r, (e\<lparr>w_hasite := h\<rparr>, p)))"
  by (simp add: on_fst_def hasiteE_def split: prod.split)

definition is_throw :: "fault \<Rightarrow> bool" where "is_throw f \<longleftrightarrow> f \<noteq> MemoryFault \<and> f \<noteq> AssertFail"

lemma is_throw_THROW [simp]: "is_throw (THROW k n w)"
  by (simp add: is_throw_def)

definition act :: "api_pool \<Rightarrow> nat option list" where "act p = p_pool p (p_switch_factor p mod 2)"

definition old :: "api_pool \<Rightarrow> nat option list" where "old p = p_pool p ((p_switch_factor p + 1) mod 2)"

text \<open>The connection at position \<open>i\<close> of the active vector has the index \<open>i\<close>.\<close>

definition place_ok :: "pool_env \<Rightarrow> nat \<Rightarrow> nat \<Rightarrow> bool" where
  "place_ok e i a \<longleftrightarrow> (case obj_at e a of None \<Rightarrow> False | Some x \<Rightarrow> a_index (obj_base x) = int i)"

definition pool_ok :: "pool_env \<Rightarrow> api_pool \<Rightarrow> bool" where
  "pool_ok e p \<longleftrightarrow>
     p_active p = p_switch_factor p mod 2 \<and>
     p_pool_size p = int (length (act p)) \<and>
     p_pool_size p \<le> max 0 (p_max_conn_num p) \<and> p_max_conn_num p < 2 ^ 31 \<and>
     None \<notin> set (act p) \<and>
     (\<forall>i < length (act p). \<forall>a. act p ! i = Some a \<longrightarrow> place_ok e i a) \<and>
     (\<forall>a \<in> set (ptrs (old p)). live_at e a) \<and> int (length (ptrs (old p))) \<le> max 0 (p_max_conn_num p) \<and>
     distinct (ptrs (act p) @ ptrs (old p)) \<and>
     (p_switch_state p \<noteq> EM_SWITCH_ONGOING \<longrightarrow> old p = []) \<and>
     (p_switch_state p = EM_SWITCH_ONGOING \<longrightarrow> 0 < p_switch_factor p)"

lemma set_ptrs: "a \<in> set (ptrs ps) \<longleftrightarrow> Some a \<in> set ps"
  by (induction ps rule: ptrs.induct) auto

lemma place_ok_live: "place_ok e i a \<Longrightarrow> live_at e a"
  by (auto simp: place_ok_def live_at_def split: option.splits)

lemma act_live: "pool_ok e p \<Longrightarrow> x \<in> set (act p) \<Longrightarrow> \<exists>a. x = Some a \<and> live_at e a"
  unfolding pool_ok_def by (metis in_set_conv_nth not_Some_eq place_ok_live)

lemma i32_small: "0 \<le> x \<Longrightarrow> x < 2 ^ 31 \<Longrightarrow> i32 x = x"
  by (simp add: i32_def signed_take_bit_int_eq_self)

text \<open>The exceptions of \<open>get\<close>, and what opening a connection to an idc answers: its address on the heap,
  unless no node of the site serves the idc or its protocol is unknown.\<close>

definition no_site :: "string \<Rightarrow> fault" where
  "no_site n = THROW CServerException ERR_SERVER_MAINTAIN (''server: '' @ n @ '', no site can use'')"

definition bad_protocol :: "string \<Rightarrow> string \<Rightarrow> int \<Rightarrow> fault" where
  "bad_protocol idc n protocol = THROW CConfigException ERR_CONF
     (''idc:'' @ idc @ '', server_name: '' @ n @ '', protocol error: '' @ show_int protocol)"

definition pool_busy :: "string \<Rightarrow> int \<Rightarrow> int \<Rightarrow> fault" where
  "pool_busy n cap now = THROW CServerException ERR_SERVER_BUSY
     (''server_site: '' @ n @ '' no free conn max: '' @ show_int cap @ '', now: '' @ show_int now)"

definition open_answer :: "string \<Rightarrow> string \<Rightarrow> site_info \<Rightarrow> nat \<Rightarrow> fault + nat" where
  "open_answer n idc i a =
     (if find_node idc (usable_nodes i) = None then Inl (no_site n)
      else if s_protocol_type i \<notin> {EM_ST_RELAY, EM_ST_MIDDLE} then Inl (bad_protocol idc n (s_protocol_type i))
      else Inr a)"

lemma is_throw_pool [simp]: "is_throw (no_site n)" "is_throw (bad_protocol idc n t)" "is_throw (pool_busy n c s)"
  by (simp_all add: no_site_def bad_protocol_def pool_busy_def)

lemma open_answer_throw: "open_answer n idc i a = Inl f \<Longrightarrow> is_throw f"
  by (auto simp: open_answer_def split: if_splits)

lemma open_answer_Inr: "open_answer n idc i a = Inr b \<Longrightarrow> b = a"
  by (simp add: open_answer_def split: if_splits)

lemma create_api_cases:
  "(protocol \<notin> {EM_ST_RELAY, EM_ST_MIDDLE} \<and> create_api idc ip port protocol user passwd (e, p) =
      (Inl (bad_protocol idc (p_server_name p) protocol), (e, p)))
   \<or> (protocol \<in> {EM_ST_RELAY, EM_ST_MIDDLE} \<and> (\<exists>x. create_api idc ip port protocol user passwd (e, p) =
           (Inr (length (w_heap e)), (e\<lparr>w_heap := w_heap e @ [Some x]\<rparr>, p))
        \<and> \<not> used_obj x \<and> a_index (obj_base x) = p_pool_size p \<and> a_idc (obj_base x) = idc
        \<and> a_ip (obj_base x) = ip \<and> a_port (obj_base x) = port))"
proof -
  have r: "\<not> used_obj (RelayObj (relay_api_init idc ip port n t))" "\<not> used_obj (MiddleObj (middle_api_init idc ip port u w n t))"
    for n t u w
    by (simp_all add: used_obj_def relay_api_init_def middle_api_init_def api_base_init_def sock_base.defs api_base.defs)
  have b: "a_index (relay_api_init idc ip port n t) = n" "a_idc (relay_api_init idc ip port n t) = idc"
    "a_ip (relay_api_init idc ip port n t) = ip" "a_port (relay_api_init idc ip port n t) = port"
    "a_index (middle_api_init idc ip port u w n t) = n" "a_idc (middle_api_init idc ip port u w n t) = idc"
    "a_ip (middle_api_init idc ip port u w n t) = ip" "a_port (middle_api_init idc ip port u w n t) = port"
    for n t u w
    by (simp_all add: relay_api_init_def middle_api_init_def api_base_init_def sock_base.defs api_base.defs)
  show ?thesis
  proof (cases "protocol = EM_ST_RELAY")
    case True
    then show ?thesis
      using r b by (intro disjI2 conjI exI [of _ "RelayObj (relay_api_init idc ip port (p_pool_size p) (p_time_out p))"])
        (simp_all add: create_api_def on_fst_def new_obj_def)
  next
    case False
    then show ?thesis
      using r b by (cases "protocol = EM_ST_MIDDLE")
        (auto simp: create_api_def on_fst_def new_obj_def bad_protocol_def
          intro!: exI [of _ "MiddleObj (middle_api_init idc ip port user passwd (p_pool_size p) (p_time_out p))"])
  qed
qed

lemma add_api_spec:
  assumes "pool_ok e p" and "p_pool_size p < p_max_conn_num p" and "\<not> p_need_switch p"
  defines "i \<equiv> site_of (w_hasite e) (p_server_name p)"
  defines "answer \<equiv> open_answer (p_server_name p) (s_current_idc i) i (length (w_heap e))"
  shows "(\<exists>f h ip port. answer = Inl f \<and> add_api user passwd (e, p) =
            (Inl f, (e\<lparr>w_hasite := h\<rparr>, p\<lparr>p_ip_addr := ip, p_port := port\<rparr>))
         \<and> site_of h = site_of (w_hasite e))
    \<or> (\<exists>h k y ip port. add_api user passwd (e, p) =
            (Inr (length (w_heap e)), (e\<lparr>w_hasite := h, w_kernel := k, w_heap := w_heap e @ [Some y]\<rparr>,
               p\<lparr>p_ip_addr := ip, p_port := port,
                 p_pool := (p_pool p)(p_active p := p_pool p (p_active p) @ [Some (length (w_heap e))]),
                 p_pool_size := p_pool_size p + 1\<rparr>))
         \<and> site_of h = site_of (w_hasite e) \<and> answer = Inr (length (w_heap e))
         \<and> used_obj y \<and> a_index (obj_base y) = p_pool_size p \<and> a_ip (obj_base y) = ip \<and> a_port (obj_base y) = port
         \<and> a_idc (obj_base y) = s_current_idc i \<and> find_node (a_idc (obj_base y)) (usable_nodes i) = Some (ip, port))"
proof -
  define n where "n = p_server_name p"
  note i_def = i_def [folded n_def]
  define h where "h = omap_insert n site0 (omap_insert n site0 (w_hasite e))"
  have i: "site_of (omap_insert n site0 (w_hasite e)) n = i" by (simp add: i_def)
  have h: "site_of h = site_of (w_hasite e)" by (simp add: h_def fun_eq_iff)
  show ?thesis
  proof (cases "find_node (s_current_idc i) (usable_nodes i)")
    case None
    then have "add_api user passwd (e, p) = (Inl (no_site n), (e\<lparr>w_hasite := h\<rparr>, p))"
      using assms(3) i by (simp add: add_api_def bindS_def hasiteE_eq get_current_idc_eq hasite_get_eq h_def no_site_def
          flip: n_def i_def)
    moreover have "answer = Inl (no_site n)" using None by (simp add: answer_def open_answer_def n_def)
    ultimately show ?thesis
      using h by (intro disjI1 exI [of _ "no_site n"] exI [of _ h] exI [of _ "p_ip_addr p"] exI [of _ "p_port p"]) simp
  next
    case (Some a)
    then obtain ip port where f: "find_node (s_current_idc i) (usable_nodes i) = Some (ip, port)"
      by (cases a) auto
    define e1 where "e1 = e\<lparr>w_hasite := h\<rparr>"
    define p1 where "p1 = p\<lparr>p_ip_addr := ip, p_port := port\<rparr>"
    define c where "c = create_api (s_current_idc i) ip port (s_protocol_type i) user passwd"
    define rest where "rest = (\<lambda>a. seqS (on_fst (api_set_used a))
      (seqS (poolS (\<lambda>p. p\<lparr>p_pool := (p_pool p)(p_active p := p_pool p (p_active p) @ [Some a]),
                        p_pool_size := i32 (p_pool_size p + 1)\<rparr>))
          (\<lambda>(e, p). if p_pool_size p \<noteq> i32 (int (length (p_pool p (p_active p))))
             then (Inl (THROW CTrpcException ERR_SYS_UNKNOWN
                    (''_poolsize: '' @ show_int (p_pool_size p) @ '' != api_pool: '' @
                     show_int (int (length (p_pool p (p_active p)))))), (e, p))
             else (Inr a, (e, p)))))"
    have eq: "add_api user passwd (e, p) = bindS c rest (e1, p1)"
      unfolding add_api_def rest_def [symmetric] using assms(3) i f
      by (simp add: bindS_def hasiteE_eq get_current_idc_eq hasite_get_eq seqS_def poolS_def c_def e1_def p1_def h_def
          flip: n_def i_def)
    have n1: "p_server_name p1 = n" by (simp add: p1_def n_def)
    consider "c (e1, p1) = (Inl (bad_protocol (s_current_idc i) n (s_protocol_type i)), (e1, p1))"
        "s_protocol_type i \<notin> {EM_ST_RELAY, EM_ST_MIDDLE}"
      | x where "c (e1, p1) = (Inr (length (w_heap e1)), (e1\<lparr>w_heap := w_heap e1 @ [Some x]\<rparr>, p1))"
        "\<not> used_obj x" "a_index (obj_base x) = p_pool_size p1" "a_idc (obj_base x) = s_current_idc i"
        "a_ip (obj_base x) = ip" "a_port (obj_base x) = port" "s_protocol_type i \<in> {EM_ST_RELAY, EM_ST_MIDDLE}"
      using create_api_cases [of "s_protocol_type i" "s_current_idc i" ip port user passwd e1 p1] n1 unfolding c_def by metis
    then show ?thesis
    proof cases
      case 1
      then have "add_api user passwd (e, p) = (Inl (bad_protocol (s_current_idc i) n (s_protocol_type i)), (e1, p1))"
        by (simp add: eq bindS_def)
      moreover have "answer = Inl (bad_protocol (s_current_idc i) n (s_protocol_type i))"
        using 1(2) f by (simp add: answer_def open_answer_def n_def)
      ultimately show ?thesis using h unfolding e1_def p1_def by blast
    next
      case 2
      define e2 where "e2 = e1\<lparr>w_heap := w_heap e1 @ [Some x]\<rparr>"
      have "obj_at e2 (length (w_heap e1)) = Some x" by (simp add: e2_def obj_at_def)
      then obtain k y where u: "api_set_used (length (w_heap e1)) e2 =
          (Inr (), e2\<lparr>w_kernel := k, w_heap := (w_heap e2)[length (w_heap e1) := Some y]\<rparr>)" "used_obj y" "same_node x y"
        using api_set_used_ok 2(2) by blast
      have s: "p_pool_size p = int (length (p_pool p (p_active p)))" "p_pool_size p < 2 ^ 31 - 1"
        using assms(1,2) by (auto simp: pool_ok_def act_def)
      have r: "rest (length (w_heap e1)) (e2, p1) = (Inr (length (w_heap e)),
          (e\<lparr>w_hasite := h, w_kernel := k, w_heap := w_heap e @ [Some y]\<rparr>,
           p1\<lparr>p_pool := (p_pool p)(p_active p := p_pool p (p_active p) @ [Some (length (w_heap e))]),
                 p_pool_size := p_pool_size p + 1\<rparr>))"
        using u s by (simp add: rest_def seqS_def bindS_def on_fst_def poolS_def e2_def e1_def p1_def i32_small add.commute)
      have "add_api user passwd (e, p) = (Inr (length (w_heap e)),
          (e\<lparr>w_hasite := h, w_kernel := k, w_heap := w_heap e @ [Some y]\<rparr>,
           p\<lparr>p_ip_addr := ip, p_port := port, p_pool := (p_pool p)(p_active p := p_pool p (p_active p) @ [Some (length (w_heap e))]),
                 p_pool_size := p_pool_size p + 1\<rparr>))"
        using 2(1) r unfolding eq bindS_def e2_def p1_def by simp
      moreover have "answer = Inr (length (w_heap e))" using 2(7) f by (auto simp: answer_def open_answer_def)
      ultimately show ?thesis
        using u(2,3) 2(3-6) f h unfolding same_node_def p1_def
        by (intro disjI2 exI [of _ h] exI [of _ k] exI [of _ y] exI [of _ ip] exI [of _ port]) (simp add: Let_def)
    qed
  qed
qed

section \<open>What one call does to the pool\<close>

definition pool_ptrs :: "api_pool \<Rightarrow> nat set" where
  "pool_ptrs p = set (ptrs (act p)) \<union> set (ptrs (old p))"

definition same_config :: "api_pool \<Rightarrow> api_pool \<Rightarrow> bool" where
  "same_config p p' \<longleftrightarrow> p_server_name p' = p_server_name p \<and> p_conn_num p' = p_conn_num p \<and>
     p_max_conn_num p' = p_max_conn_num p \<and> p_time_out p' = p_time_out p"

text \<open>\<open>U\<close> is what becomes used. What was used before, and what belongs to nobody or to other
  pools, is not touched.\<close>

definition pool_step :: "pool_env \<Rightarrow> api_pool \<Rightarrow> nat set \<Rightarrow> pool_env \<Rightarrow> api_pool \<Rightarrow> bool" where
  "pool_step e p U e' p' \<longleftrightarrow>
     pool_ok e' p' \<and> same_config p p' \<and> length (w_heap e) \<le> length (w_heap e') \<and>
     (\<forall>b. live_at e b \<longrightarrow> used_at e b \<or> b \<notin> pool_ptrs p \<longrightarrow> obj_at e' b = obj_at e b) \<and>
     pool_ptrs p' \<subseteq> pool_ptrs p \<union> {length (w_heap e)..} \<and>
     (\<forall>b \<in> pool_ptrs p. used_at e b \<longrightarrow> b \<in> pool_ptrs p') \<and>
     (\<forall>b. live_at e' b \<longrightarrow> b \<in> pool_ptrs p' \<or> live_at e b \<and> b \<notin> pool_ptrs p) \<and>
     (\<forall>b. used_at e' b \<longleftrightarrow> used_at e b \<or> b \<in> U)"

lemma used_live: "used_at e b \<Longrightarrow> live_at e b"
  by (auto simp: used_at_def live_at_def split: option.splits)

lemma pool_step_trans:
  assumes "pool_step e p {} e1 p1" and "pool_step e1 p1 U e2 p2"
  shows "pool_step e p U e2 p2"
proof -
  have "obj_at e2 b = obj_at e b" if b: "live_at e b" "used_at e b \<or> b \<notin> pool_ptrs p" for b
  proof -
    have 1: "obj_at e1 b = obj_at e b" using assms(1) b unfolding pool_step_def by blast
    then have "live_at e1 b" using b by (simp add: live_at_def)
    moreover have "used_at e1 b \<or> b \<notin> pool_ptrs p1"
      using assms(1) b live_lt [OF b(1)] by (fastforce simp: pool_step_def)
    ultimately have "obj_at e2 b = obj_at e1 b" using assms(2) unfolding pool_step_def by blast
    with 1 show ?thesis by simp
  qed
  moreover have "pool_ptrs p2 \<subseteq> pool_ptrs p \<union> {length (w_heap e)..}"
    using assms unfolding pool_step_def by (meson Un_least atLeast_subset_iff subset_trans sup.cobounded2 Un_mono)
  ultimately show ?thesis
    using assms by (auto simp: pool_step_def same_config_def)
qed

lemma env_hasite [simp]:
  "used_at (e\<lparr>w_hasite := h\<rparr>) b = used_at e b" "live_at (e\<lparr>w_hasite := h\<rparr>) b = live_at e b"
  "place_ok (e\<lparr>w_hasite := h\<rparr>) i a = place_ok e i a" "pool_ok (e\<lparr>w_hasite := h\<rparr>) p = pool_ok e p"
  by (simp_all add: used_at_def live_at_def place_ok_def pool_ok_def)

lemma pool_fields [simp]:
  "act (p\<lparr>p_ip_addr := ip\<rparr>) = act p" "act (p\<lparr>p_port := n\<rparr>) = act p" "act (p\<lparr>p_need_switch := b\<rparr>) = act p"
  "old (p\<lparr>p_ip_addr := ip\<rparr>) = old p" "old (p\<lparr>p_port := n\<rparr>) = old p" "old (p\<lparr>p_need_switch := b\<rparr>) = old p"
  "act (p\<lparr>p_pool_size := n\<rparr>) = act p" "old (p\<lparr>p_pool_size := n\<rparr>) = old p"
  "act (p\<lparr>p_switch_state := st\<rparr>) = act p" "old (p\<lparr>p_switch_state := st\<rparr>) = old p"
  by (simp_all add: act_def old_def)

lemma pool_ok_fields [simp]:
  "pool_ok e (p\<lparr>p_ip_addr := ip\<rparr>) = pool_ok e p" "pool_ok e (p\<lparr>p_port := n\<rparr>) = pool_ok e p"
  "pool_ok e (p\<lparr>p_need_switch := b\<rparr>) = pool_ok e p"
  by (simp_all add: pool_ok_def)

lemma pool_step_fields: "pool_ok e p \<Longrightarrow> pool_step e p {} (e\<lparr>w_hasite := h\<rparr>) (p\<lparr>p_ip_addr := ip, p_port := n\<rparr>)"
  "pool_ok e p \<Longrightarrow> pool_step e p {} (e\<lparr>w_hasite := h\<rparr>) p" "pool_ok e p \<Longrightarrow> pool_step e p {} e (p\<lparr>p_need_switch := b\<rparr>)"
  by (simp_all add: pool_step_def same_config_def pool_ptrs_def) blast+

lemma act_old_neq: "Suc f mod 2 \<noteq> f mod (2::nat)"
  by presburger

lemma pool_upd [simp]:
  "act (p\<lparr>p_pool := (p_pool p)(Suc (p_switch_factor p) mod 2 := ps)\<rparr>) = act p"
  "old (p\<lparr>p_pool := (p_pool p)(Suc (p_switch_factor p) mod 2 := ps)\<rparr>) = ps"
  "act (p\<lparr>p_pool := (p_pool p)(p_switch_factor p mod 2 := ps)\<rparr>) = ps"
  "old (p\<lparr>p_pool := (p_pool p)(p_switch_factor p mod 2 := ps)\<rparr>) = old p"
  using act_old_neq [of "p_switch_factor p"] by (simp_all add: act_def old_def)

lemma clear_old_pool_spec:
  assumes "pool_ok e p"
  shows "\<exists>e1 p1. clear_old_pool (e, p) = (Inr (), (e1, p1)) \<and> pool_step e p {} e1 p1
    \<and> p_need_switch p1 = p_need_switch p \<and> w_hasite e1 = w_hasite e \<and> act p1 = act p
    \<and> length (w_heap e1) = length (w_heap e) \<and> (p_switch_state p1 = EM_SWITCH_ONGOING \<longleftrightarrow>
         p_switch_state p = EM_SWITCH_ONGOING \<and> (\<exists>a \<in> set (ptrs (old p)). used_at e a))"
proof (cases "p_switch_state p = EM_SWITCH_ONGOING")
  case False
  then have "clear_old_pool (e, p) = (Inr (), (e, p))" by (simp add: clear_old_pool_def)
  moreover have "pool_step e p {} e p" using assms by (simp add: pool_step_def same_config_def)
  ultimately show ?thesis using False by blast
next
  case True
  have f1: "0 < p_switch_factor p" using assms True by (simp add: pool_ok_def)
  have f2: "(n - 1) mod 2 = Suc n mod 2" if "0 < n" for n :: nat using that by (cases n) simp_all
  note f = f1 f2 [OF f1]
  have l: "\<forall>a \<in> set (ptrs (old p)). live_at e a" "distinct (ptrs (old p))"
    using assms by (auto simp: pool_ok_def)
  obtain e1 where c: "clear_free (old p) e = (Inr (map (still_used e) (old p)), e1)" "heap_change e e1"
    "\<forall>b. obj_at e1 b = (if b \<in> set (ptrs (old p)) \<and> \<not> used_at e b then None else obj_at e b)"
    using clear_free_spec [OF l] by blast
  define ps where "ps = map (still_used e) (old p)"
  have ps: "ptrs ps = filter (used_at e) (ptrs (old p))" by (simp add: ps_def ptrs_still_used)
  have u: "used_at e1 b = used_at e b" for b using c(3) by (auto simp: used_at_def)
  have lv: "\<forall>a \<in> set (ptrs ps). live_at e1 a"
    using ps l(1) c(3) by (auto simp: live_at_def)
  have sc: "switch_complete ps e1 = (Inr (\<forall>a \<in> set (ptrs ps). \<not> used_at e1 a), e1)"
    using switch_complete_spec [OF lv] .
  define fin where "fin = (\<forall>a \<in> set (ptrs ps). \<not> used_at e1 a)"
  have d: "fin \<longleftrightarrow> ptrs ps = []" by (auto simp: fin_def ps u filter_empty_conv)
  define p1 where "p1 = (if fin then p\<lparr>p_pool := (p_pool p)(Suc (p_switch_factor p) mod 2 := []),
      p_switch_state := EM_SWITCH_FINISHED\<rparr> else p\<lparr>p_pool := (p_pool p)(Suc (p_switch_factor p) mod 2 := ps)\<rparr>)"
  have eq: "clear_old_pool (e, p) = (Inr (), (e1, p1))"
    using True f(1) c(1) sc f2 [OF f1] ps_def [unfolded old_def, symmetric]
    by (cases fin) (simp_all add: clear_old_pool_def Let_def assertS_def bindS_def seqS_def on_fst_def poolS_def
        returnS_def old_def p1_def flip: fin_def)
  have a1: "act p1 = act p" by (simp add: p1_def)
  have o1: "ptrs (old p1) = ptrs ps" using d by (simp add: p1_def)
  have disj: "set (ptrs (act p)) \<inter> set (ptrs (old p)) = {}" using assms by (auto simp: pool_ok_def)
  have pl: "place_ok e1 i a" if "i < length (act p)" "act p ! i = Some a" for i a
  proof -
    have "Some a \<in> set (act p)" using that by (metis nth_mem)
    then have "obj_at e1 a = obj_at e a" using disj c(3) by (auto simp: set_ptrs)
    moreover have "place_ok e i a" using assms that by (simp add: pool_ok_def)
    ultimately show ?thesis by (simp add: place_ok_def)
  qed
  have p1: "p_active p1 = p_active p" "p_switch_factor p1 = p_switch_factor p" "p_pool_size p1 = p_pool_size p"
    "p_max_conn_num p1 = p_max_conn_num p" "p_conn_num p1 = p_conn_num p"
    "p_switch_state p1 = (if fin then EM_SWITCH_FINISHED else EM_SWITCH_ONGOING)" "old p1 = (if fin then [] else ps)"
    using True by (simp_all add: p1_def)
  have "distinct (ptrs (act p) @ ptrs ps)" using assms ps by (auto simp: pool_ok_def)
  moreover have "int (length (ptrs ps)) \<le> max 0 (p_max_conn_num p)"
  proof -
    have "length (ptrs ps) \<le> length (ptrs (old p))" unfolding ps by (rule length_filter_le)
    moreover have "int (length (ptrs (old p))) \<le> max 0 (p_max_conn_num p)" using assms by (simp add: pool_ok_def)
    ultimately show ?thesis by linarith
  qed
  ultimately have ok1: "pool_ok e1 p1"
    using assms a1 p1 lv pl f1 unfolding pool_ok_def by simp
  have "b \<in> pool_ptrs p1 \<or> live_at e b \<and> b \<notin> pool_ptrs p" if "live_at e1 b" for b
    using that c(3) a1 o1 ps by (auto simp: pool_ptrs_def live_at_def split: if_splits)
  then have "pool_step e p {} e1 p1"
    using ok1 c(2,3) u a1 o1 ps by (auto simp: pool_step_def same_config_def pool_ptrs_def heap_change_def p1_def)
  then show ?thesis
    using eq a1 c(2) True d by (intro exI [of _ e1] exI [of _ p1]) (auto simp: p1_def heap_change_def ps filter_empty_conv)
qed

section \<open>\<open>_get\<close>\<close>

definition get_post :: "pool_env \<Rightarrow> api_pool \<Rightarrow> fault + nat \<Rightarrow> pool_env \<Rightarrow> api_pool \<Rightarrow> bool" where
  "get_post e p r e' p' \<longleftrightarrow>
     pool_step e p (case r of Inl f \<Rightarrow> {} | Inr a \<Rightarrow> {a}) e' p' \<and>
     (case r of Inl f \<Rightarrow> is_throw f | Inr a \<Rightarrow> Some a \<in> set (act p') \<and> \<not> used_at e a)"

lemma get_post_trans: "pool_step e p {} e1 p1 \<Longrightarrow> get_post e1 p1 r e' p' \<Longrightarrow> get_post e p r e' p'"
proof -
  assume a: "pool_step e p {} e1 p1" "get_post e1 p1 r e' p'"
  then have "used_at e1 b = used_at e b" for b by (simp add: pool_step_def)
  then show ?thesis using a pool_step_trans [OF a(1)] by (cases r) (auto simp: get_post_def)
qed

lemma pool_step_refl: "pool_ok e p \<Longrightarrow> pool_step e p {} e p"
  by (simp add: pool_step_def same_config_def)

lemma obj_at_new:
  "obj_at (e\<lparr>w_hasite := h, w_kernel := k, w_heap := w_heap e @ [x]\<rparr>) b
     = (if b = length (w_heap e) then x else obj_at e b)"
  by (auto simp: obj_at_def nth_append)

text \<open>A connection opened for the current idc of the site.\<close>

definition opened_for :: "string \<Rightarrow> site_info \<Rightarrow> api_obj option \<Rightarrow> bool" where
  "opened_for idc i x \<longleftrightarrow> (case x of None \<Rightarrow> False
     | Some y \<Rightarrow> a_idc (obj_base y) = idc \<and>
         find_node idc (usable_nodes i) = Some (a_ip (obj_base y), a_port (obj_base y)))"

lemma add_api_post:
  assumes ok: "pool_ok e p" and "p_pool_size p < p_max_conn_num p" and "\<not> p_need_switch p"
    and r: "add_api user passwd (e, p) = (r, (e', p'))"
  shows "get_post e p r e' p' \<and> \<not> p_need_switch p' \<and> site_of (w_hasite e') = site_of (w_hasite e) \<and>
    (let i = site_of (w_hasite e) (p_server_name p)
     in r = open_answer (p_server_name p) (s_current_idc i) i (length (w_heap e)) \<and>
        (case r of Inl f \<Rightarrow> True | Inr a \<Rightarrow> opened_for (s_current_idc i) i (obj_at e' a)))"
proof -
  define i where "i = site_of (w_hasite e) (p_server_name p)"
  define answer where "answer = open_answer (p_server_name p) (s_current_idc i) i (length (w_heap e))"
  consider f h ip port where "answer = Inl f" "r = Inl f" "e' = e\<lparr>w_hasite := h\<rparr>"
      "site_of h = site_of (w_hasite e)" "p' = p\<lparr>p_ip_addr := ip, p_port := port\<rparr>"
    | h k y ip port where "r = Inr (length (w_heap e))"
      "e' = e\<lparr>w_hasite := h, w_kernel := k, w_heap := w_heap e @ [Some y]\<rparr>"
      "p' = p\<lparr>p_ip_addr := ip, p_port := port,
                 p_pool := (p_pool p)(p_active p := p_pool p (p_active p) @ [Some (length (w_heap e))]),
                 p_pool_size := p_pool_size p + 1\<rparr>"
      "site_of h = site_of (w_hasite e)" "used_obj y" "a_index (obj_base y) = p_pool_size p" "a_ip (obj_base y) = ip" "a_port (obj_base y) = port"
      "a_idc (obj_base y) = s_current_idc i" "find_node (a_idc (obj_base y)) (usable_nodes i) = Some (ip, port)"
      "answer = Inr (length (w_heap e))"
    using add_api_spec [OF assms(1-3), of user passwd] r unfolding i_def [symmetric] answer_def [symmetric]
    by (elim disjE exE conjE) auto
  then show ?thesis
  proof cases
    case 1
    then show ?thesis
      using ok pool_step_fields(1) [OF ok] assms(3) open_answer_throw unfolding answer_def i_def
      by (simp add: get_post_def Let_def)
  next
    case 2
    define n where "n = length (w_heap e)"
    have pa: "p_active p = p_switch_factor p mod 2" "p_pool p (p_active p) = act p" "p_pool_size p = int (length (act p))"
      using ok by (auto simp: pool_ok_def act_def)
    have ob: "obj_at e' b = (if b = n then Some y else obj_at e b)" for b
      unfolding 2(2) n_def by (rule obj_at_new)
    have lt: "live_at e b \<Longrightarrow> b \<noteq> n" for b using live_lt n_def by blast
    have a': "act p' = act p @ [Some n]" "old p' = old p"
      using 2(3) act_old_neq [of "p_switch_factor p"] by (simp_all add: act_def old_def pa(1) n_def)
    have p': "p_active p' = p_active p" "p_switch_factor p' = p_switch_factor p" "p_pool_size p' = p_pool_size p + 1"
      "p_max_conn_num p' = p_max_conn_num p" "p_conn_num p' = p_conn_num p" "p_switch_state p' = p_switch_state p"
      "same_config p p'" "p_need_switch p' = p_need_switch p"
      using 2(3) by (simp_all add: same_config_def)
    have al: "a \<in> set (ptrs (act p)) \<Longrightarrow> live_at e a" for a
      using act_live [OF ok, of "Some a"] by (simp add: set_ptrs)
    have ol: "a \<in> set (ptrs (old p)) \<Longrightarrow> live_at e a" for a using ok by (simp add: pool_ok_def)
    have pl: "place_ok e' i a" if "i < length (act p')" "act p' ! i = Some a" for i a
    proof (cases "i < length (act p)")
      case True
      then have p1: "place_ok e i a" using that ok a' by (auto simp: pool_ok_def nth_append)
      then have "a \<noteq> n" using place_ok_live lt by blast
      then show ?thesis using p1 ob by (simp add: place_ok_def)
    next
      case False
      then have "a = n" "i = length (act p)" using that a' by (auto simp: nth_append)
      then show ?thesis using 2(5,6) ob pa by (simp add: place_ok_def)
    qed
    have o': "\<forall>a \<in> set (ptrs (old p)). live_at e' a" using ol ob by (auto simp: live_at_def)
    have d: "distinct (ptrs (act p') @ ptrs (old p'))"
      using ok a' al ol lt by (auto simp: pool_ok_def)
    have "None \<notin> set (act p')" using ok a' by (simp add: pool_ok_def)
    then have "pool_ok e' p'"
      using ok a' p' pl o' d assms(2) pa unfolding pool_ok_def by simp
    moreover have "used_at e' b \<longleftrightarrow> used_at e b \<or> b = n" for b
      using ob 2(5) by (auto simp: used_at_def)
    moreover have "b \<in> pool_ptrs p' \<or> live_at e b \<and> b \<notin> pool_ptrs p" if "live_at e' b" for b
      using that ob [of b] a' by (auto simp: pool_ptrs_def live_at_def split: if_splits)
    ultimately have "pool_step e p {n} e' p'"
      using ob lt p' a' unfolding pool_step_def pool_ptrs_def by (auto simp: 2(2) n_def)
    moreover have "\<not> used_at e n" using lt used_live by blast
    ultimately show ?thesis
      using a' 2(1,2,4,7-11) ob p' assms(3) unfolding answer_def i_def by (simp add: get_post_def opened_for_def n_def Let_def)
  qed
qed

lemma add_or_busy_post:
  assumes ok: "pool_ok e p" and ns: "\<not> p_need_switch p"
    and r: "add_or_busy user passwd (e, p) = (r, (e', p'))"
  shows "get_post e p r e' p' \<and> \<not> p_need_switch p' \<and> site_of (w_hasite e') = site_of (w_hasite e) \<and>
    (let i = site_of (w_hasite e) (p_server_name p)
     in r = (if p_pool_size p < p_max_conn_num p
             then open_answer (p_server_name p) (s_current_idc i) i (length (w_heap e))
             else Inl (pool_busy (p_server_name p) (p_max_conn_num p) (p_pool_size p))) \<and>
        (case r of Inl f \<Rightarrow> True | Inr a \<Rightarrow> opened_for (s_current_idc i) i (obj_at e' a)))"
proof (cases "p_pool_size p < p_max_conn_num p")
  case True
  then show ?thesis using add_api_post [OF ok True ns] r by (simp add: add_or_busy_def)
next
  case False
  then have "add_or_busy user passwd (e, p) = (Inl (pool_busy (p_server_name p) (p_max_conn_num p) (p_pool_size p)), (e, p))"
    by (simp add: add_or_busy_def pool_busy_def)
  then show ?thesis using r ns False pool_step_refl [OF ok] by (auto simp: get_post_def Let_def)
qed

lemma use_free_or_add_post:
  assumes ok: "pool_ok e p" and ns: "\<not> p_need_switch p"
    and r: "use_free_or_add user passwd (e, p) = (r, (e', p'))"
  shows "get_post e p r e' p' \<and> \<not> p_need_switch p'"
proof -
  have act: "p_pool p (p_active p) = act p" using ok by (simp add: pool_ok_def act_def)
  have l: "\<forall>x \<in> set (act p). \<exists>a. x = Some a \<and> live_at e a" using act_live [OF ok] by blast
  consider "use_free (act p) e = (Inr None, e)"
    | a x k y where "Some a \<in> set (act p)" "obj_at e a = Some x" "\<not> used_obj x"
         "use_free (act p) e = (Inr (Some a), e\<lparr>w_kernel := k, w_heap := (w_heap e)[a := Some y]\<rparr>)"
         "used_obj y" "same_node x y"
    using use_free_spec [OF l] by blast
  then show ?thesis
  proof cases
    case 1
    then have "use_free_or_add user passwd (e, p) = add_or_busy user passwd (e, p)"
      by (simp add: use_free_or_add_def act bindS_def on_fst_def)
    then show ?thesis using add_or_busy_post [OF ok ns, of user passwd r e' p'] r by simp
  next
    case 2
    then have e': "r = Inr a" "e' = e\<lparr>w_kernel := k, w_heap := (w_heap e)[a := Some y]\<rparr>" "p' = p"
      using r by (auto simp: use_free_or_add_def act bindS_def on_fst_def returnS_def)
    have ob: "obj_at e' b = (if b = a then Some y else obj_at e b)" for b
      using e'(2) obj_at_lt [OF 2(2)] by simp
    have "place_ok e' i b" if "place_ok e i b" for i b
      using that ob 2 by (auto simp: place_ok_def same_node_def Let_def split: option.splits)
    moreover have lv: "live_at e' b = live_at e b" for b using ob 2(2) by (simp add: live_at_def)
    ultimately have "pool_ok e' p" using ok unfolding pool_ok_def by simp
    moreover have "used_at e' b \<longleftrightarrow> used_at e b \<or> b = a" for b using ob 2(5) by (auto simp: used_at_def)
    moreover have "\<not> used_at e a" "a \<in> pool_ptrs p" using 2 by (auto simp: used_at_def pool_ptrs_def set_ptrs)
    ultimately show ?thesis
      using e' ob 2(1) ns lv by (auto simp: get_post_def pool_step_def same_config_def)
  qed
qed

lemma pool_get_after_clear:
  assumes "clear_old_pool (e, p) = (Inr (), (e1, p1))"
  shows "pool_get user passwd (e, p) =
     (if \<not> p_need_switch p1 then use_free_or_add user passwd (e1, p1)
      else let i = site_of (w_hasite e1) (p_server_name p1);
               e2 = e1\<lparr>w_hasite := omap_insert (p_server_name p1) site0 (w_hasite e1)\<rparr>
           in if next_of i = [] then use_free_or_add user passwd (e2, p1\<lparr>p_need_switch := False\<rparr>)
              else switch_and_add user passwd (e2, p1))"
  using assms
  by (simp add: pool_get_def pool_get_locked_def seqS_def bindS_def hasiteE_eq get_next_idc_eq poolS_def Let_def)

lemma switch_and_add_post:
  assumes ok: "pool_ok e p" and nx: "next_of (site_of (w_hasite e) (p_server_name p)) \<noteq> []"
    and r: "switch_and_add user passwd (e, p) = (r, (e', p'))"
  shows "get_post e p r e' p' \<and>
    (p_switch_state p \<noteq> EM_SWITCH_ONGOING \<longrightarrow> \<not> p_need_switch p'
     \<and> (let i = site_of (w_hasite e) (p_server_name p); i' = i\<lparr>s_current_idc := next_of i\<rparr>
        in site_of (w_hasite e') (p_server_name p) = i' \<and>
           r = (if 0 < p_max_conn_num p then open_answer (p_server_name p) (next_of i) i' (length (w_heap e))
                else Inl (pool_busy (p_server_name p) (p_max_conn_num p) 0)) \<and>
           (case r of Inl f \<Rightarrow> True | Inr a \<Rightarrow> opened_for (next_of i) i' (obj_at e' a))))"
proof (cases "p_switch_state p = EM_SWITCH_ONGOING")
  case True
  then show ?thesis using r ok pool_step_refl [OF ok] by (auto simp: switch_and_add_def get_post_def)
next
  case False
  define n where "n = p_server_name p"
  define i where "i = site_of (w_hasite e) n"
  obtain h where h: "set_current_idc n (w_hasite e) = (Inr (), h)" using set_current_idc_total by blast
  have "after (s_current_idc i) (s_switch_order_list i) = Some (next_of i)"
    using nx by (auto simp: next_of_def i_def n_def split: option.splits)
  then have sh: "site_of h n = i\<lparr>s_current_idc := next_of i\<rparr>"
    using set_current_idc_site [OF h] by (simp add: i_def)
  define f where "f = p_switch_factor p"
  define p1 where "p1 = p\<lparr>p_switch_state := EM_SWITCH_ONGOING, p_switch_factor := Suc f,
      p_active := Suc f mod 2, p_pool_size := i32 (int (length (p_pool p (Suc f mod 2)))), p_need_switch := False\<rparr>"
  have o: "old p = []" using ok False by (simp add: pool_ok_def)
  have e: "p_pool p (Suc f mod 2) = []" using o by (simp add: old_def f_def)
  have a1: "act p1 = []" "old p1 = act p"
    using e by (simp_all add: act_def old_def p1_def f_def)
  have p1: "p_active p1 = p_switch_factor p1 mod 2" "p_pool_size p1 = 0" "p_max_conn_num p1 = p_max_conn_num p"
    "0 < p_switch_factor p1" "p_switch_state p1 = EM_SWITCH_ONGOING" "same_config p p1" "\<not> p_need_switch p1"
    "p_server_name p1 = n"
    using e by (simp_all add: p1_def same_config_def i32_small n_def)
  have live: "\<forall>a \<in> set (ptrs (act p)). live_at e a"
    using act_live [OF ok] by (fastforce simp: set_ptrs)
  have "int (length (ptrs (act p))) \<le> max 0 (p_max_conn_num p)"
    using ok ptrs_le [of "act p"] unfolding pool_ok_def by linarith
  then have ok1: "pool_ok e p1"
    using ok a1 p1 live unfolding pool_ok_def by simp
  then have ok2: "pool_ok (e\<lparr>w_hasite := h\<rparr>) p1" by simp
  have st: "pool_step e p {} (e\<lparr>w_hasite := h\<rparr>) p1"
    using ok2 p1 a1 o by (auto simp: pool_step_def pool_ptrs_def)
  have "switch_and_add user passwd (e, p) = add_or_busy user passwd (e\<lparr>w_hasite := h\<rparr>, p1)"
    using False h by (simp add: switch_and_add_def seqS_def bindS_def poolS_def hasiteE_eq Let_def p1_def f_def n_def)
  then have r2: "add_or_busy user passwd (e\<lparr>w_hasite := h\<rparr>, p1) = (r, (e', p'))" using r by simp
  note a = add_or_busy_post [OF ok2 p1(7) r2, unfolded Let_def]
  define i' where "i' = i\<lparr>s_current_idc := next_of i\<rparr>"
  have s: "site_of (w_hasite (e\<lparr>w_hasite := h\<rparr>)) n = i'" "s_current_idc i' = next_of i" "w_heap (e\<lparr>w_hasite := h\<rparr>) = w_heap e"
    using sh by (simp_all add: i'_def)
  note a = a [unfolded p1(2,3,8) s]
  have "get_post e p r e' p'" using a get_post_trans [OF st] by blast
  moreover have "site_of (w_hasite e') n = i'" using a sh by (simp add: i'_def)
  ultimately show ?thesis
    using a unfolding Let_def n_def [symmetric] i_def [symmetric] i'_def [symmetric] by blast
qed

lemma pool_get_post:
  assumes ok: "pool_ok e p" and r: "pool_get user passwd (e, p) = (r, (e', p'))"
  shows "get_post e p r e' p'"
proof -
  obtain e1 p1 where c: "clear_old_pool (e, p) = (Inr (), (e1, p1))" "pool_step e p {} e1 p1"
    using clear_old_pool_spec [OF ok] by blast
  have ok1: "pool_ok e1 p1" using c(2) by (simp add: pool_step_def)
  define e2 where "e2 = e1\<lparr>w_hasite := omap_insert (p_server_name p1) site0 (w_hasite e1)\<rparr>"
  have ok2: "pool_ok e2 p1" using ok1 by (simp add: e2_def)
  have st2: "pool_step e p {} e2 p1"
    using pool_step_trans [OF c(2)] pool_step_fields(2) [OF ok1] unfolding e2_def by blast
  have ok3: "pool_ok e2 (p1\<lparr>p_need_switch := False\<rparr>)" using ok2 by simp
  have st3: "pool_step e p {} e2 (p1\<lparr>p_need_switch := False\<rparr>)"
    using pool_step_trans [OF st2] pool_step_fields(3) [OF ok2] by blast
  have s2: "site_of (w_hasite e2) = site_of (w_hasite e1)" by (simp add: e2_def fun_eq_iff)
  note g = r [unfolded pool_get_after_clear [OF c(1)] Let_def, folded e2_def]
  consider "\<not> p_need_switch p1" "use_free_or_add user passwd (e1, p1) = (r, (e', p'))"
    | "use_free_or_add user passwd (e2, p1\<lparr>p_need_switch := False\<rparr>) = (r, (e', p'))"
    | "next_of (site_of (w_hasite e2) (p_server_name p1)) \<noteq> []" "switch_and_add user passwd (e2, p1) = (r, (e', p'))"
    using g s2 by (auto split: if_splits)
  then show ?thesis
  proof cases
    case 1
    then show ?thesis using use_free_or_add_post [OF ok1] get_post_trans [OF c(2)] by blast
  next
    case 2
    then show ?thesis using use_free_or_add_post [OF ok3] get_post_trans [OF st3] by simp
  next
    case 3
    then show ?thesis using switch_and_add_post [OF ok2] get_post_trans [OF st2] by blast
  qed
qed

section \<open>Release\<close>

lemma pool_release_spec:
  assumes "obj_at e a = Some x"
  shows "\<exists>k y. pool_release a b (e, p) = (Inr (), (e\<lparr>w_kernel := k, w_heap := (w_heap e)[a := Some y]\<rparr>, p))
     \<and> at_rest (obj_base y) \<and> same_node x y
     \<and> (b \<or> p_conn_num p \<le> a_index (obj_base x) \<longrightarrow> s_fd (obj_base y) = INVALID_SOCKET
          \<and> k_closed k = k_closed (w_kernel e) @ (if s_fd (obj_base x) = INVALID_SOCKET then [] else [s_fd (obj_base x)]))"
proof -
  define f where "f = (if p_conn_num p \<le> a_index (obj_base x) then True else b)"
  have "pool_release a b (e, p) = on_fst (api_set_free f a) (e, p)"
    using assms by (simp add: pool_release_def pool_release_locked_def bindS_def on_fst_def api_index_eq f_def)
  then show ?thesis
    using api_set_free_ok [OF assms, of f] by (auto simp: on_fst_def f_def split: if_splits)
qed

text \<open>\<open>set_free\<close> through the pointer, as the server calls it, and the release of the pool, which does no more.\<close>

lemma api_set_free_pool:
  assumes l: "live_at e a" and r: "api_set_free b a e = (r, e')"
  shows "r = Inr () \<and> (\<forall>q. pool_ok e q \<longrightarrow> pool_ok e' q) \<and> (\<forall>c. used_at e' c \<longleftrightarrow> used_at e c \<and> c \<noteq> a)
     \<and> (\<forall>c. c \<noteq> a \<longrightarrow> obj_at e' c = obj_at e c) \<and> live_at e' = live_at e \<and> w_hasite e' = w_hasite e"
proof -
  obtain x where x: "obj_at e a = Some x" using l by (auto simp: live_at_def)
  obtain k y where y: "r = Inr ()" "e' = e\<lparr>w_kernel := k, w_heap := (w_heap e)[a := Some y]\<rparr>"
    "at_rest (obj_base y)" "same_node x y"
    using api_set_free_ok [OF x, of b] r by auto
  have ob: "obj_at e' c = (if c = a then Some y else obj_at e c)" for c
    using y(2) obj_at_lt [OF x] by simp
  have pl: "place_ok e' i c" if "place_ok e i c" for i c
    using that ob x y by (auto simp: place_ok_def same_node_def Let_def split: option.splits)
  have lv: "live_at e' c = live_at e c" for c using ob x by (simp add: live_at_def)
  have "pool_ok e' q" if "pool_ok e q" for q using that pl lv unfolding pool_ok_def by simp
  moreover have "used_at e' c \<longleftrightarrow> used_at e c \<and> c \<noteq> a" for c
    using ob y(3) by (auto simp: used_at_def used_obj_def at_rest_def)
  ultimately show ?thesis using y(1,2) ob lv by (simp add: fun_eq_iff)
qed

lemma pool_release_free:
  assumes "live_at e a" and "pool_release a b (e, p) = (r, (e', p'))"
  shows "p' = p \<and> (\<exists>f. api_set_free f a e = (r, e'))"
proof -
  obtain x where "obj_at e a = Some x" using assms(1) by (auto simp: live_at_def)
  then show ?thesis
    using assms(2)
    by (auto simp: pool_release_def pool_release_locked_def bindS_def on_fst_def api_index_eq split: prod.splits)
qed

lemma pool_release_ok:
  assumes ok: "pool_ok e p" and l: "live_at e a" and r: "pool_release a b (e, p) = (r, (e', p'))"
  shows "r = Inr () \<and> p' = p \<and> pool_ok e' p \<and> (\<forall>c. used_at e' c \<longleftrightarrow> used_at e c \<and> c \<noteq> a)
     \<and> (\<forall>c. c \<noteq> a \<longrightarrow> obj_at e' c = obj_at e c)"
  using pool_release_free [OF l r] api_set_free_pool [OF l] ok by blast

section \<open>Histories of a pool\<close>

lemma used_call_frame:
  assumes "obj_at e a = Some x" and r: "obj_call fr fm a e = (r, e')"
    and "\<And>k s r k' s'. fr (k, s) = (r, (k', s')) \<Longrightarrow> a_is_used s' = a_is_used s \<and> a_index s' = a_index s"
    and "\<And>k s r k' s'. fm (k, s) = (r, (k', s')) \<Longrightarrow> a_is_used s' = a_is_used s \<and> a_index s' = a_index s"
  shows "\<exists>y. obj_at e' a = Some y \<and> used_obj y = used_obj x \<and> a_index (obj_base y) = a_index (obj_base x)"
proof (cases x)
  case (RelayObj s)
  obtain q k s' where f: "fr (w_kernel e, s) = (q, (k, s'))" by (cases "fr (w_kernel e, s)") auto
  then show ?thesis
    using assms(1,3) r RelayObj obj_at_lt [OF assms(1)] by (auto simp: obj_call_def used_obj_def)
next
  case (MiddleObj s)
  obtain q k s' where f: "fm (w_kernel e, s) = (q, (k, s'))" by (cases "fm (w_kernel e, s)") auto
  then show ?thesis
    using assms(1,4) r MiddleObj obj_at_lt [OF assms(1)] by (auto simp: obj_call_def used_obj_def)
qed

text \<open>What the holder of a connection may do with it.\<close>

inductive holder_step :: "nat \<Rightarrow> pool_env \<Rightarrow> pool_env \<Rightarrow> bool" for a where
  event: "obj_process a e = (r, e') \<Longrightarrow> holder_step a e e'"
| request: "obj_encode p n i a e = (u, e') \<Longrightarrow> holder_step a e e'"
| answer: "obj_decode pk a e = (q, e') \<Longrightarrow> holder_step a e e'"

lemma decode_keeps:
  "api_decode (relay_vtable i) pk (k, s) = (q, (k', s')) \<Longrightarrow> a_is_used s' = a_is_used s \<and> a_index s' = a_index s"
  "api_decode (middle_vtable i) pk (k, t) = (q, (k', t')) \<Longrightarrow> a_is_used t' = a_is_used t \<and> a_index t' = a_index t"
proof -
  obtain r k1 s1 where d: "v_decode (relay_vtable i) pk (k, s) = (r, (k1, s1))"
    by (cases "v_decode (relay_vtable i) pk (k, s)") auto
  show "api_decode (relay_vtable i) pk (k, s) = (q, (k', s')) \<Longrightarrow> a_is_used s' = a_is_used s \<and> a_index s' = a_index s"
    using relay.decode_frame [OF d] d by (auto simp: api_decode_eq split: if_splits sum.splits)
  obtain r k2 t1 where m: "v_decode (middle_vtable i) pk (k, t) = (r, (k2, t1))"
    by (cases "v_decode (middle_vtable i) pk (k, t)") auto
  show "api_decode (middle_vtable i) pk (k, t) = (q, (k', t')) \<Longrightarrow> a_is_used t' = a_is_used t \<and> a_index t' = a_index t"
    using middle.decode_frame [OF m] m by (auto simp: api_decode_eq split: if_splits sum.splits)
qed

lemma encode_keeps:
  "api_encode p n i (k, s) = (u, (k', s')) \<Longrightarrow> a_is_used s' = a_is_used s \<and> a_index s' = a_index s"
  by (auto simp: api_encode_eq Let_def split: if_splits)

lemma holder_step_frame:
  assumes "holder_step a e e'" and x: "obj_at e a = Some x"
  shows "obj_frame a e e' \<and> (\<exists>y. obj_at e' a = Some y \<and> used_obj y = used_obj x \<and> a_index (obj_base y) = a_index (obj_base x))"
  using assms(1)
proof cases
  case (event r)
  then show ?thesis
    using used_call_frame [OF x event [unfolded obj_process_def]] obj_call_frame
      relay.process_step middle.process_step unfolding obj_process_def same_call_def by blast
next
  case (request p n i u)
  then show ?thesis
    using obj_call_frame [OF request [unfolded obj_encode_def]]
    by (intro conjI used_call_frame [OF x request [unfolded obj_encode_def]]) (auto dest: encode_keeps)
next
  case (answer pk q)
  then show ?thesis
    using obj_call_frame [OF answer [unfolded obj_decode_def]]
    by (intro conjI used_call_frame [OF x answer [unfolded obj_decode_def]]) (auto dest: decode_keeps)
qed

text \<open>\<open>H\<close> holds the connections handed out and not yet given back: \<open>CApiPool::release\<close> gives one back, or, as the
  server does it, \<open>set_free\<close> called on the connection itself, which does not ask the pool. The system, the site
  configuration and the switch flag change at any time.\<close>

inductive pool_history :: "int \<Rightarrow> pool_env \<Rightarrow> api_pool \<Rightarrow> nat set \<Rightarrow> bool" for cap where
  start: "w_heap e = [] \<Longrightarrow> cap < 2 ^ 31 \<Longrightarrow> pool_history cap e (new_pool n c cap t) {}"
| got: "pool_history cap e p H \<Longrightarrow> pool_get user passwd (e, p) = (Inr a, (e', p')) \<Longrightarrow>
     pool_history cap e' p' (insert a H)"
| refused: "pool_history cap e p H \<Longrightarrow> pool_get user passwd (e, p) = (Inl f, (e', p')) \<Longrightarrow> pool_history cap e' p' H"
| released: "pool_history cap e p H \<Longrightarrow> a \<in> H \<Longrightarrow> pool_release a b (e, p) = (r, (e', p')) \<Longrightarrow>
     pool_history cap e' p' (H - {a})"
| dropped: "pool_history cap e p H \<Longrightarrow> a \<in> H \<Longrightarrow> api_set_free b a e = (r, e') \<Longrightarrow> pool_history cap e' p (H - {a})"
| works: "pool_history cap e p H \<Longrightarrow> a \<in> H \<Longrightarrow> holder_step a e e' \<Longrightarrow> pool_history cap e' p H"
| switch: "pool_history cap e p H \<Longrightarrow> s \<in> {set_switch_on, set_switch_off} \<Longrightarrow> s (e, p) = (u, (e', p')) \<Longrightarrow>
     pool_history cap e' p' H"
| outside: "pool_history cap e p H \<Longrightarrow> pool_history cap (e\<lparr>w_kernel := k, w_hasite := h\<rparr>) p H"

inductive_cases pool_historyE: "pool_history cap e p H"

lemma new_pool_ok: "cap < 2 ^ 31 \<Longrightarrow> pool_ok e (new_pool n c cap t)"
  by (simp add: pool_ok_def new_pool_def act_def old_def)

lemma env_kernel [simp]:
  "used_at (e\<lparr>w_kernel := k\<rparr>) b = used_at e b" "live_at (e\<lparr>w_kernel := k\<rparr>) b = live_at e b" "pool_ok (e\<lparr>w_kernel := k\<rparr>) p = pool_ok e p"
  by (simp_all add: used_at_def live_at_def place_ok_def pool_ok_def)

lemma pool_history_inv:
  "pool_history cap e p H \<Longrightarrow> pool_ok e p \<and> p_max_conn_num p = cap \<and> (\<forall>b. used_at e b \<longleftrightarrow> b \<in> H)
     \<and> (\<forall>b. live_at e b \<longrightarrow> b \<in> pool_ptrs p)"
proof (induction rule: pool_history.induct)
  case (start e n c t)
  then show ?case by (simp add: new_pool_ok) (simp add: new_pool_def used_at_def live_at_def obj_at_def)
next
  case (got e p H user passwd a e' p')
  then have "pool_step e p {a} e' p'" using pool_get_post [of e p user passwd "Inr a" e' p'] by (simp add: get_post_def)
  then show ?case using got.IH unfolding pool_step_def same_config_def by blast
next
  case (refused e p H user passwd f e' p')
  then have "pool_step e p {} e' p'" using pool_get_post [of e p user passwd "Inl f" e' p'] by (simp add: get_post_def)
  then show ?case using refused.IH unfolding pool_step_def same_config_def by blast
next
  case (released e p H a b r e' p')
  then have l: "live_at e a" using used_live by blast
  obtain f where f: "p' = p" "api_set_free f a e = (r, e')" using pool_release_free [OF l released.hyps(3)] by blast
  show ?case using api_set_free_pool [OF l f(2)] f(1) released.IH by simp
next
  case (dropped e p H a b r e')
  then have l: "live_at e a" using used_live by blast
  show ?case using api_set_free_pool [OF l dropped.hyps(3)] dropped.IH by simp
next
  case (works e p H a e')
  then have "used_at e a" by simp
  then obtain x where x: "obj_at e a = Some x" "used_obj x"
    by (auto simp: used_at_def split: option.splits)
  then obtain y where y: "obj_at e' a = Some y" "used_obj y" "a_index (obj_base y) = a_index (obj_base x)" "obj_frame a e e'"
    using holder_step_frame [OF works.hyps(3)] by auto
  then have ob: "obj_at e' b = (if b = a then Some y else obj_at e b)" for b
    by (simp add: obj_frame_def)
  have "place_ok e' i b" if "place_ok e i b" for i b
    using that ob x y by (auto simp: place_ok_def split: option.splits)
  moreover have lv: "live_at e' = live_at e" using ob x by (simp add: live_at_def fun_eq_iff)
  moreover have "pool_ok e p" using works.IH by simp
  ultimately have "pool_ok e' p" unfolding pool_ok_def by simp
  moreover have "used_at e' b = used_at e b" for b using ob x y by (simp add: used_at_def)
  ultimately show ?case using works.IH lv by simp
next
  case (switch e p H s u e' p')
  have "\<exists>b. e' = e \<and> p' = p\<lparr>p_need_switch := b\<rparr>"
    using switch.hyps(2,3) by (fastforce simp: set_switch_on_def set_switch_off_def poolS_def)
  then show ?case using switch.IH by (elim exE conjE) (simp add: pool_ptrs_def)
next
  case (outside e p H k h)
  then show ?case by simp
qed

text \<open>C16: whatever the order in which connections are taken, used, given back and switched, a
  connection that is held is alive and marked as used, and another call of \<open>get\<close> neither hands it
  out again nor touches it; \<open>get\<close> answers with a connection of the active vector or with one of
  the exceptions, never with a fault or a failed assertion.\<close>

theorem held_connections_are_exclusive:
  assumes "pool_history cap e p H"
  shows "case pool_get user passwd (e, p) of (r, (e', p')) \<Rightarrow>
     (\<forall>a. if a \<in> H then live_at e a \<and> used_at e a \<and> obj_at e' a = obj_at e a \<and> r \<noteq> Inr a else \<not> used_at e a) \<and>
     (case r of Inl f \<Rightarrow> is_throw f | Inr a \<Rightarrow> Some a \<in> set (act p') \<and> used_at e' a)"
proof -
  obtain r e' p' where g: "pool_get user passwd (e, p) = (r, (e', p'))"
    by (cases "pool_get user passwd (e, p)") auto
  have inv: "pool_ok e p" "\<forall>b. used_at e b \<longleftrightarrow> b \<in> H" using pool_history_inv [OF assms] by auto
  show ?thesis
    using pool_get_post [OF inv(1) g] inv(2) used_live [of e] g
    by (auto simp: get_post_def pool_step_def split: sum.splits)
qed

definition env0 :: pool_env where
  "env0 = \<lparr>w_kernel = kernel0, w_hasite = [(''s'', site0\<lparr>s_protocol_type := EM_ST_RELAY, s_hasite_node_num := 1,
     s_switch_order_list := [''sz''], s_current_idc := ''sz'',
     s_hasite_node := [node0\<lparr>n_ip := ''1.2.3.4'', n_port := 22000, n_idc := ''sz''\<rparr>]\<rparr>)],
     w_heap = [], w_keepalive = 60\<rparr>"

section \<open>Bounds, switching and refusal\<close>

lemma length_ptrs: "None \<notin> set ps \<Longrightarrow> length (ptrs ps) = length ps"
  by (induction ps rule: ptrs.induct) auto

text \<open>C19: the active vector of a pool never holds more connections than \<open>_max_conn_num\<close>, and no more connection
  objects exist than that, or than twice that while a switch goes on and connections of the old vector are still
  held: whatever is taken, used, released or freed by the server itself, in any order.\<close>

theorem pool_bounds:
  assumes "pool_history cap e p H"
  shows "int (length (act p)) \<le> max 0 cap \<and>
    int (card {a. live_at e a}) \<le> (if p_switch_state p = EM_SWITCH_ONGOING then 2 else 1) * max 0 cap"
proof -
  have ok: "pool_ok e p" "p_max_conn_num p = cap" and live: "{a. live_at e a} \<subseteq> pool_ptrs p"
    using pool_history_inv [OF assms] by auto
  have len: "int (length (act p)) \<le> max 0 cap" "int (length (ptrs (old p))) \<le> max 0 cap"
    "length (ptrs (act p)) = length (act p)" "p_switch_state p \<noteq> EM_SWITCH_ONGOING \<longrightarrow> old p = []"
    using ok by (simp_all add: pool_ok_def length_ptrs)
  have "card {a. live_at e a} \<le> card (pool_ptrs p)" using live by (intro card_mono) (simp_all add: pool_ptrs_def)
  also have "\<dots> \<le> card (set (ptrs (act p))) + card (set (ptrs (old p)))"
    unfolding pool_ptrs_def by (rule card_Un_le)
  also have "\<dots> \<le> length (act p) + length (ptrs (old p))"
    using card_length [of "ptrs (act p)"] card_length [of "ptrs (old p)"] len(3) by linarith
  finally have "int (card {a. live_at e a}) \<le> int (length (act p)) + int (length (ptrs (old p)))" by linarith
  then show ?thesis using len by (cases "p_switch_state p = EM_SWITCH_ONGOING") auto
qed

lemma pool_get_moves:
  assumes "pool_ok e p" and "p_need_switch p"
    and "p_switch_state p = EM_SWITCH_ONGOING \<longrightarrow> (\<forall>a \<in> set (ptrs (old p)). \<not> used_at e a)"
    and "next_of (site_of (w_hasite e) (p_server_name p)) \<noteq> []"
  shows "case pool_get user passwd (e, p) of (r, (e', p')) \<Rightarrow>
     let i = site_of (w_hasite e) (p_server_name p); i' = i\<lparr>s_current_idc := next_of i\<rparr>
     in site_of (w_hasite e') (p_server_name p) = i' \<and> \<not> p_need_switch p' \<and>
        r = (if 0 < p_max_conn_num p then open_answer (p_server_name p) (next_of i) i' (length (w_heap e))
             else Inl (pool_busy (p_server_name p) (p_max_conn_num p) 0)) \<and>
        (case r of Inl f \<Rightarrow> True | Inr a \<Rightarrow> opened_for (next_of i) i' (obj_at e' a))"
proof -
  note ok = assms(1)
  obtain e1 p1 where c: "clear_old_pool (e, p) = (Inr (), (e1, p1))" "pool_step e p {} e1 p1"
    "p_need_switch p1 = p_need_switch p" "w_hasite e1 = w_hasite e" "length (w_heap e1) = length (w_heap e)"
    "p_switch_state p1 \<noteq> EM_SWITCH_ONGOING"
    using clear_old_pool_spec [OF ok] assms(3) by blast
  define n where "n = p_server_name p"
  define e2 where "e2 = e1\<lparr>w_hasite := omap_insert n site0 (w_hasite e1)\<rparr>"
  have n: "p_server_name p1 = n" "p_max_conn_num p1 = p_max_conn_num p" "length (w_heap e2) = length (w_heap e)"
    using c(2,5) by (simp_all add: pool_step_def same_config_def n_def e2_def)
  have ok2: "pool_ok e2 p1" using c(2) by (simp add: pool_step_def e2_def)
  have s: "site_of (w_hasite e2) = site_of (w_hasite e)" by (simp add: e2_def c(4) fun_eq_iff)
  obtain r e' p' where g: "pool_get user passwd (e, p) = (r, (e', p'))"
    by (cases "pool_get user passwd (e, p)") auto
  have sw: "switch_and_add user passwd (e2, p1) = (r, (e', p'))"
    using g assms(2,4) c(3,4) n unfolding pool_get_after_clear [OF c(1)] Let_def e2_def n_def [symmetric]
    by (simp split: if_splits)
  have nx: "next_of (site_of (w_hasite e2) (p_server_name p1)) \<noteq> []" using assms(4) s n by (simp add: n_def)
  note post = switch_and_add_post [OF ok2 nx sw, unfolded n s Let_def]
  show ?thesis unfolding g prod.case Let_def n_def [symmetric] using post c(6) by blast
qed

text \<open>C18: with the switch flag set, the previous switch complete (nothing of the old vector is held) and a next idc in
  the order of the site, \<open>get\<close> advances the current idc of the site, clears the flag and answers with a new connection
  to the node of that idc, however many connections to the old idc are held: it fails only where no node of the site
  serves the idc, where the protocol of the site is unknown, or where the pool may have no connection at all.\<close>

theorem switch_moves_to_next_idc:
  assumes "pool_history cap e p H" and "p_need_switch p"
    and "p_switch_state p = EM_SWITCH_ONGOING \<longrightarrow> (\<forall>a \<in> set (ptrs (old p)). a \<notin> H)"
    and "next_of (site_of (w_hasite e) (p_server_name p)) \<noteq> []"
  shows "case pool_get user passwd (e, p) of (r, (e', p')) \<Rightarrow>
     let i = site_of (w_hasite e) (p_server_name p); i' = i\<lparr>s_current_idc := next_of i\<rparr>
     in site_of (w_hasite e') (p_server_name p) = i' \<and> \<not> p_need_switch p' \<and>
        r = (if 0 < cap then open_answer (p_server_name p) (next_of i) i' (length (w_heap e))
             else Inl (pool_busy (p_server_name p) cap 0)) \<and>
        (case r of Inl f \<Rightarrow> True | Inr a \<Rightarrow> opened_for (next_of i) i' (obj_at e' a))"
proof -
  have inv: "pool_ok e p" "p_max_conn_num p = cap" "\<forall>b. used_at e b \<longleftrightarrow> b \<in> H" using pool_history_inv [OF assms(1)] by auto
  have "p_switch_state p = EM_SWITCH_ONGOING \<longrightarrow> (\<forall>a \<in> set (ptrs (old p)). \<not> used_at e a)" using assms(3) inv(3) by blast
  from pool_get_moves [OF inv(1) assms(2) this assms(4)] show ?thesis unfolding inv(2) .
qed

definition env1 :: pool_env where
  "env1 = env0\<lparr>w_hasite := [(''s'', site0\<lparr>s_protocol_type := EM_ST_RELAY, s_hasite_node_num := 2,
     s_switch_order_list := [''sz'', ''sh''], s_current_idc := ''sz'',
     s_hasite_node := [node0\<lparr>n_ip := ''1.2.3.4'', n_port := 22000, n_idc := ''sz''\<rparr>,
                       node0\<lparr>n_ip := ''1.2.3.5'', n_port := 22000, n_idc := ''sh''\<rparr>]\<rparr>)]\<rparr>"

lemma new_pool_simps:
  "p_server_name (new_pool n c m t) = n" "p_switch_state (new_pool n c m t) = EM_SWITCH_PRIOR"
  by (simp_all add: new_pool_def)

lemma env1_site:
  "site_of (w_hasite env1) ''s'' = site0\<lparr>s_protocol_type := EM_ST_RELAY, s_hasite_node_num := 2,
     s_switch_order_list := [''sz'', ''sh''], s_current_idc := ''sz'',
     s_hasite_node := [node0\<lparr>n_ip := ''1.2.3.4'', n_port := 22000, n_idc := ''sz''\<rparr>,
                       node0\<lparr>n_ip := ''1.2.3.5'', n_port := 22000, n_idc := ''sh''\<rparr>]\<rparr>"
  "w_heap env1 = []"
  by (simp_all add: env1_def env0_def site_of_def omap_get_def omap_find_def)

text \<open>What that site switches to.\<close>

lemma env1_moves:
  defines "i \<equiv> (site_of (w_hasite env1) ''s'')\<lparr>s_current_idc := ''sh''\<rparr>"
  shows "next_of (site_of (w_hasite env1) ''s'') = ''sh''" "w_heap env1 = []" "open_answer ''s'' ''sh'' i 0 = Inr 0"
    "opened_for ''sh'' i x \<Longrightarrow> map_option (\<lambda>x. a_ip (obj_base x)) x = Some ''1.2.3.5''"
proof -
  show "next_of (site_of (w_hasite env1) ''s'') = ''sh''" "w_heap env1 = []" by (simp_all add: env1_site next_of_def)
  have nodes: "usable_nodes i = [node0\<lparr>n_ip := ''1.2.3.4'', n_port := 22000, n_idc := ''sz''\<rparr>,
       node0\<lparr>n_ip := ''1.2.3.5'', n_port := 22000, n_idc := ''sh''\<rparr>]"
    by (simp add: i_def env1_site usable_nodes_def)
  have f: "find_node ''sh'' (usable_nodes i) = Some (''1.2.3.5'', 22000)" unfolding nodes by code_simp
  show "open_answer ''s'' ''sh'' i 0 = Inr 0" by (simp only: open_answer_def f) (simp add: i_def env1_site)
  show "opened_for ''sh'' i x \<Longrightarrow> map_option (\<lambda>x. a_ip (obj_base x)) x = Some ''1.2.3.5''"
    using f by (cases x) (auto simp: opened_for_def)
qed

lemma switch_moves_to_next_idc_witness:
  "case pool_get [] [] (env1, (new_pool ''s'' 1 2 5)\<lparr>p_need_switch := True\<rparr>) of (r, (e', p')) \<Rightarrow>
     s_current_idc (site_of (w_hasite e') ''s'') = ''sh'' \<and> \<not> p_need_switch p' \<and> r = Inr 0 \<and>
     map_option (\<lambda>x. a_ip (obj_base x)) (obj_at e' 0) = Some ''1.2.3.5''"
proof -
  have "pool_history 2 env1 (new_pool ''s'' 1 2 5) {}"
    by (rule pool_history.start) (simp_all add: env1_def env0_def)
  then have h: "pool_history 2 env1 ((new_pool ''s'' 1 2 5)\<lparr>p_need_switch := True\<rparr>) {}"
    by (rule pool_history.switch [where s = set_switch_on]) (simp_all add: set_switch_on_def poolS_def)
  define i where "i = (site_of (w_hasite env1) ''s'')\<lparr>s_current_idc := ''sh''\<rparr>"
  obtain r e' p' where g: "pool_get [] [] (env1, (new_pool ''s'' 1 2 5)\<lparr>p_need_switch := True\<rparr>) = (r, (e', p'))"
    by (cases "pool_get [] [] (env1, (new_pool ''s'' 1 2 5)\<lparr>p_need_switch := True\<rparr>)") auto
  have sn: "p_server_name ((new_pool ''s'' 1 2 5)\<lparr>p_need_switch := True\<rparr>) = ''s''" by (simp add: new_pool_simps)
  have "p_need_switch ((new_pool ''s'' 1 2 5)\<lparr>p_need_switch := True\<rparr>)"
    "p_switch_state ((new_pool ''s'' 1 2 5)\<lparr>p_need_switch := True\<rparr>) \<noteq> EM_SWITCH_ONGOING" "''sh'' \<noteq> []"
    by (simp_all add: new_pool_simps)
  with switch_moves_to_next_idc [OF h, of "[]" "[]", unfolded g prod.case Let_def sn env1_moves(1), folded i_def]
  have m: "site_of (w_hasite e') ''s'' = i" "\<not> p_need_switch p'"
    "r = (if 0 < (2 :: int) then open_answer ''s'' ''sh'' i (length (w_heap env1)) else Inl (pool_busy ''s'' 2 0))"
    "case r of Inl f \<Rightarrow> True | Inr a \<Rightarrow> opened_for ''sh'' i (obj_at e' a)"
    by blast+
  then have "r = Inr 0" using env1_moves(2,3) by (simp add: i_def)
  with m(1,2,4) have "site_of (w_hasite e') ''s'' = i \<and> \<not> p_need_switch p' \<and> r = Inr 0 \<and> opened_for ''sh'' i (obj_at e' 0)" by simp
  then show ?thesis using env1_moves(4) [of "obj_at e' 0"] by (simp add: g i_def)
qed

text \<open>What \<open>get\<close> does without a pending switch.\<close>

lemma pool_get_stays:
  assumes ok: "pool_ok e p" and ns0: "\<not> p_need_switch p"
  shows "case pool_get user passwd (e, p) of (r, (e', p')) \<Rightarrow>
     let n = p_server_name p; i = site_of (w_hasite e) n
     in if \<exists>a \<in> set (ptrs (act p)). \<not> used_at e a then \<exists>a \<in> set (ptrs (act p)). \<not> used_at e a \<and> r = Inr a
        else if p_pool_size p < p_max_conn_num p then
          r = open_answer n (s_current_idc i) i (length (w_heap e)) \<and>
          (case r of Inl f \<Rightarrow> True | Inr a \<Rightarrow> opened_for (s_current_idc i) i (obj_at e' a))
        else r = Inl (pool_busy n (p_max_conn_num p) (p_pool_size p))"
proof -
  obtain e1 p1 where c: "clear_old_pool (e, p) = (Inr (), (e1, p1))" "pool_step e p {} e1 p1"
    "p_need_switch p1 = p_need_switch p" "w_hasite e1 = w_hasite e" "act p1 = act p" "length (w_heap e1) = length (w_heap e)"
    using clear_old_pool_spec [OF ok] by blast
  have ok1: "pool_ok e1 p1" using c(2) by (simp add: pool_step_def)
  have cfg: "p_server_name p1 = p_server_name p" "p_max_conn_num p1 = p_max_conn_num p" "p_pool_size p1 = p_pool_size p"
    using c(2,5) ok ok1 by (simp_all add: pool_step_def same_config_def pool_ok_def)
  have u1: "used_at e1 b = used_at e b" for b using c(2) by (simp add: pool_step_def)
  obtain r e' p' where g: "pool_get user passwd (e, p) = (r, (e', p'))"
    by (cases "pool_get user passwd (e, p)") auto
  have g1: "use_free_or_add user passwd (e1, p1) = (r, (e', p'))"
    using g ns0 c(3) by (simp add: pool_get_after_clear [OF c(1)])
  have act: "p_pool p1 (p_active p1) = act p" using ok1 c(5) by (simp add: pool_ok_def act_def)
  have l: "\<forall>x \<in> set (act p). \<exists>a. x = Some a \<and> live_at e1 a" using act_live [OF ok1] c(5) by auto
  consider "use_free (act p) e1 = (Inr None, e1)" "\<forall>a \<in> set (ptrs (act p)). used_at e1 a"
    | a x k y where "Some a \<in> set (act p)" "obj_at e1 a = Some x" "\<not> used_obj x"
         "use_free (act p) e1 = (Inr (Some a), e1\<lparr>w_kernel := k, w_heap := (w_heap e1)[a := Some y]\<rparr>)"
    using use_free_spec [OF l] by blast
  then show ?thesis
  proof cases
    case 1
    then have a: "add_or_busy user passwd (e1, p1) = (r, (e', p'))"
      using g1 by (simp add: use_free_or_add_def act bindS_def on_fst_def)
    have none: "\<not> (\<exists>a \<in> set (ptrs (act p)). \<not> used_at e a)" using 1(2) u1 by blast
    have ns: "\<not> p_need_switch p1" using ns0 c(3) by simp
    note post = add_or_busy_post [OF ok1 ns a, unfolded cfg c(4,6) Let_def]
    show ?thesis
      unfolding g prod.case Let_def if_not_P [OF none] using post by (cases "p_pool_size p < p_max_conn_num p") metis+
  next
    case 2
    then have "r = Inr a" using g1 by (simp add: use_free_or_add_def act bindS_def on_fst_def returnS_def)
    moreover have "\<not> used_at e a" using 2(2,3) u1 [of a] by (auto simp: used_at_def)
    ultimately show ?thesis using 2(1) g by (auto simp: set_ptrs Let_def)
  qed
qed

text \<open>C17: without a pending switch \<open>get\<close> answers with a connection of the active vector nobody holds if
  there is one; else, below the maximum, it opens one: it answers with a new connection to the node that serves the
  current idc, unless no node does or the protocol of the site is unknown, which are the exceptions of these names;
  else it refuses as busy, naming the server and the numbers. There is no other answer.\<close>

theorem get_reuses_opens_or_refuses:
  assumes "pool_history cap e p H" and "\<not> p_need_switch p"
  shows "case pool_get user passwd (e, p) of (r, (e', p')) \<Rightarrow>
     let n = p_server_name p; i = site_of (w_hasite e) n
     in if \<exists>a \<in> set (ptrs (act p)). a \<notin> H then \<exists>a \<in> set (ptrs (act p)). a \<notin> H \<and> r = Inr a
        else if p_pool_size p < cap then
          r = open_answer n (s_current_idc i) i (length (w_heap e)) \<and>
          (case r of Inl f \<Rightarrow> True | Inr a \<Rightarrow> opened_for (s_current_idc i) i (obj_at e' a))
        else r = Inl (pool_busy n cap (p_pool_size p))"
proof -
  have inv: "pool_ok e p" "p_max_conn_num p = cap" "used_at e b \<longleftrightarrow> b \<in> H" for b using pool_history_inv [OF assms(1)] by auto
  show ?thesis using pool_get_stays [OF inv(1) assms(2)] unfolding inv(2,3) .
qed

lemma env0_opens:
  "site_of (w_hasite env0) ''s'' = site0\<lparr>s_protocol_type := EM_ST_RELAY, s_hasite_node_num := 1,
     s_switch_order_list := [''sz''], s_current_idc := ''sz'',
     s_hasite_node := [node0\<lparr>n_ip := ''1.2.3.4'', n_port := 22000, n_idc := ''sz''\<rparr>]\<rparr>"
  "open_answer ''s'' ''sz'' (site_of (w_hasite env0) ''s'') 0 = Inr 0"
  "find_node ''sz'' (usable_nodes (site_of (w_hasite env0) ''s'')) = Some (''1.2.3.4'', 22000)"
proof -
  have f: "find_node ''sz'' [node0\<lparr>n_ip := ''1.2.3.4'', n_port := 22000, n_idc := ''sz''\<rparr>] = Some (''1.2.3.4'', 22000)"
    by code_simp
  show s: "site_of (w_hasite env0) ''s'' = site0\<lparr>s_protocol_type := EM_ST_RELAY, s_hasite_node_num := 1,
     s_switch_order_list := [''sz''], s_current_idc := ''sz'',
     s_hasite_node := [node0\<lparr>n_ip := ''1.2.3.4'', n_port := 22000, n_idc := ''sz''\<rparr>]\<rparr>"
    by (simp add: env0_def site_of_def omap_get_def omap_find_def)
  show g: "find_node ''sz'' (usable_nodes (site_of (w_hasite env0) ''s'')) = Some (''1.2.3.4'', 22000)"
    unfolding s by (simp add: usable_nodes_def f del: find_node.simps)
  show "open_answer ''s'' ''sz'' (site_of (w_hasite env0) ''s'') 0 = Inr 0"
    by (simp only: open_answer_def g) (simp add: s)
qed

lemma new_pool_parts: "act (new_pool n c m t) = []" "p_pool_size (new_pool n c m t) = 0" "\<not> p_need_switch (new_pool n c m t)"
  by (simp_all add: new_pool_def act_def)

lemma get_reuses_opens_or_refuses_witness:
  "case pool_get [] [] (env0, new_pool ''s'' 1 2 5) of (r, (e', p')) \<Rightarrow>
     r = Inr 0 \<and> opened_for ''sz'' (site_of (w_hasite env0) ''s'') (obj_at e' 0)"
proof -
  have h: "pool_history 2 env0 (new_pool ''s'' 1 2 5) {}"
    by (rule pool_history.start) (simp_all add: env0_def)
  have e: "s_current_idc (site_of (w_hasite env0) ''s'') = ''sz''" "w_heap env0 = []"
    by (simp add: env0_opens(1)) (simp add: env0_def)
  show ?thesis
    using get_reuses_opens_or_refuses [OF h, of "[]" "[]"] e
    by (auto simp: new_pool_parts new_pool_simps Let_def env0_opens(2) split: prod.splits)
qed

section \<open>A history with a connection that is held\<close>

text \<open>One connection is opened and held.\<close>

lemma held_history:
  "case pool_get [] [] (env0, new_pool ''s'' 1 2 5) of (r, (e', p')) \<Rightarrow> pool_history 2 e' p' {0}"
proof -
  have h: "pool_history 2 env0 (new_pool ''s'' 1 2 5) {}"
    by (rule pool_history.start) (simp_all add: env0_def)
  have e: "s_current_idc (site_of (w_hasite env0) ''s'') = ''sz''" "w_heap env0 = []"
    by (simp add: env0_opens(1)) (simp add: env0_def)
  have m: "p_max_conn_num (new_pool ''s'' 1 2 5) = 2" by (simp add: new_pool_def)
  have "pool_ok env0 (new_pool ''s'' 1 2 5)" using pool_history_inv [OF h] by simp
  then have "fst (pool_get [] [] (env0, new_pool ''s'' 1 2 5)) = Inr 0"
    using pool_get_stays [of env0 "new_pool ''s'' 1 2 5" "[]" "[]"] e
    by (auto simp: new_pool_parts new_pool_simps Let_def env0_opens(2) m split: prod.splits)
  then show ?thesis using pool_history.got [OF h] by (auto split: prod.splits)
qed

lemma pool_bounds_witness:
  "case pool_get [] [] (env0, new_pool ''s'' 1 2 5) of (r, (e', p')) \<Rightarrow>
     int (length (act p')) \<le> 2 \<and> int (card {a. live_at e' a}) \<le> 4"
proof -
  obtain r e' p' where g: "pool_get [] [] (env0, new_pool ''s'' 1 2 5) = (r, (e', p'))"
    by (cases "pool_get [] [] (env0, new_pool ''s'' 1 2 5)") auto
  then have "pool_history 2 e' p' {0}" using held_history by simp
  from pool_bounds [OF this] show ?thesis by (simp add: g split: if_splits)
qed

lemma held_connections_are_exclusive_witness:
  "case pool_get [] [] (env0, new_pool ''s'' 1 2 5) of (_, (e, p)) \<Rightarrow>
   case pool_get [] [] (e, p) of (r, (e', p')) \<Rightarrow> used_at e 0 \<and> obj_at e' 0 = obj_at e 0 \<and> r \<noteq> Inr 0"
proof -
  obtain r e p where g: "pool_get [] [] (env0, new_pool ''s'' 1 2 5) = (r, (e, p))"
    by (cases "pool_get [] [] (env0, new_pool ''s'' 1 2 5)") auto
  then have "pool_history 2 e p {0}" using held_history by simp
  from held_connections_are_exclusive [OF this, of "[]" "[]"] show ?thesis
    by (auto simp: g split: prod.splits if_splits)
qed

end
