(* ===== verification/Core_Server_Conf.thy ===== *)
theory Core_Server_Conf
  imports Api_Pool Config
begin

text \<open>
  \<open>CCoreServerConf\<close> (\<open>src/core_server_conf.cpp\<close>): the sites the proxy forwards to, read line by
  line, and one connection pool for each. The theory composes the pools: connections of
  different sites are never mixed up, whatever the order of requests, reloads and switches.
\<close>

section \<open>State and operations\<close>

text \<open>The texts are what the zeroed arrays of 64, 33 and 33 bytes hold up to their terminator.\<close>

record core_conf =
  cs_site_no :: int
  cs_conn_num :: int
  cs_max_conn_num :: int
  cs_server_name :: string
  cs_port :: int
  cs_time_out :: int
  cs_user :: string
  cs_passwd :: string

definition core_conf0 :: core_conf where
  "core_conf0 = \<lparr>cs_site_no = 0, cs_conn_num = 0, cs_max_conn_num = 0, cs_server_name = [], cs_port = 0,
     cs_time_out = 0, cs_user = [], cs_passwd = []\<rparr>"

text \<open>\<open>_api_pool\<close> maps to pointers: \<open>None\<close> is \<open>NULL\<close>. A pool is reached through its site only.\<close>

record core_server_conf =
  cc_conf :: "(int, core_conf) omap config"
  cc_pool :: "(int, api_pool option) omap"

type_synonym core_world = "pool_env \<times> core_server_conf"

definition core_error :: "string \<Rightarrow> string \<Rightarrow> string" where
  "core_error what str = ''core_server_conf: '' @ what @ '' not find['' @ str @ '']''"

definition core_get_line :: "string \<Rightarrow> ((int, core_conf) omap, unit) op" where
  "core_get_line str =
     (let t = take (MAX_CONF_LENGTH_SIZE - 1) str
      in bindS (next_tok (core_error ''site_no'' str) CHR '','' t) (\<lambda>(site_no, t).
         bindS (next_tok (core_error ''conn_num'' str) CHR '','' t) (\<lambda>(conn_num, t).
         bindS (next_tok (core_error ''max_conn_num'' str) CHR '','' t) (\<lambda>(max_conn_num, t).
         bindS (next_tok (core_error ''server_name'' str) CHR '','' t) (\<lambda>(server_name, t).
         bindS (next_tok (core_error ''port'' str) CHR '','' t) (\<lambda>(port, t).
         bindS (next_tok (core_error ''time out'' str) CHR '','' t) (\<lambda>(time_out, t).
         bindS (next_tok (core_error ''user'' str) CHR '','' t) (\<lambda>(user, t).
         bindS (next_tok (core_error ''passwd'' str) CHR '','' t) (\<lambda>(passwd, t).
           modS (omap_set (atoi site_no)
             \<lparr>cs_site_no = atoi site_no, cs_conn_num = atoi conn_num, cs_max_conn_num = atoi max_conn_num,
              cs_server_name = take 63 server_name, cs_port = atoi port, cs_time_out = atoi time_out,
              cs_user = take 32 user, cs_passwd = take 32 passwd\<rparr>))))))))))"

definition core_clear :: "((int, core_conf) omap config, unit) op" where
  "core_clear = config_clear (\<lambda>_. [])"

definition core_read_conf :: "string \<Rightarrow> conf_file \<Rightarrow> ((int, core_conf) omap config, unit) op" where
  "core_read_conf = config_read_conf (get_line_entrance core_get_line)"

definition core_get :: "int \<Rightarrow> core_server_conf \<Rightarrow> fault + core_conf" where
  "core_get site_no c =
     (case omap_find (c_data (cc_conf c)) site_no of
        None \<Rightarrow> Inl (THROW CConfigException (error_no TrpcInfoPoolInvalid)
                  (''core_server: site_no not find['' @ show_int site_no @ '']''))
      | Some d \<Rightarrow> Inr d)"

definition core_server_name :: "int \<Rightarrow> core_server_conf \<Rightarrow> fault + string" where
  "core_server_name site_no c = map_sum id cs_server_name (core_get site_no c)"

definition pool_for :: "core_conf \<Rightarrow> api_pool" where
  "pool_for conf = new_pool (cs_server_name conf) (cs_conn_num conf) (cs_max_conn_num conf) (cs_time_out conf)"

definition init_api_pool :: "(core_world, unit) op" where
  "init_api_pool = modS (\<lambda>(e, c). (e, c\<lparr>cc_pool :=
     fold (\<lambda>(k, conf). omap_set (cs_site_no conf) (Some (pool_for conf))) (c_data (cc_conf c)) (cc_pool c)\<rparr>))"

text \<open>An operation on the pool of a site; through \<open>NULL\<close> it is a fault.\<close>

definition on_pool :: "int \<Rightarrow> (pool_world, 'a) op \<Rightarrow> (core_world, 'a) op" where
  "on_pool site_no m = (\<lambda>(e, c).
     case omap_find (cc_pool c) site_no of
       None \<Rightarrow> (Inl MemoryFault, (e, c))
     | Some None \<Rightarrow> (Inl MemoryFault, (e, c))
     | Some (Some p) \<Rightarrow> (case m (e, p) of
         (r, (e', p')) \<Rightarrow> (r, (e', c\<lparr>cc_pool := omap_set site_no (Some p') (cc_pool c)\<rparr>))))"

definition site_error :: "int \<Rightarrow> fault" where
  "site_error site_no = THROW CConfigException ERR_CONF (''site_no: '' @ show_int site_no @ '' error'')"

definition get_api :: "int \<Rightarrow> (core_world, nat) op" where
  "get_api site_no = (\<lambda>(e, c).
     if omap_find (cc_pool c) site_no = None then (Inl (site_error site_no), (e, c))
     else
       let conf = cc_conf c;
           c = c\<lparr>cc_conf := conf\<lparr>c_data := omap_insert site_no core_conf0 (c_data conf)\<rparr>\<rparr>;
           core_server = omap_get core_conf0 (c_data (cc_conf c)) site_no
       in on_pool site_no (pool_get (cs_user core_server) (cs_passwd core_server)) (e, c))"

definition get_api_pool :: "int \<Rightarrow> (core_server_conf, api_pool option) op" where
  "get_api_pool site_no = (\<lambda>c.
     let m = omap_insert site_no None (cc_pool c) in (Inr (omap_get None m site_no), c\<lparr>cc_pool := m\<rparr>))"

definition free_api :: "int \<Rightarrow> nat option \<Rightarrow> bool \<Rightarrow> (core_world, unit) op" where
  "free_api site_no api force_close = (\<lambda>(e, c).
     case api of
       None \<Rightarrow> (Inl AssertFail, (e, c))
     | Some a \<Rightarrow>
         if omap_find (cc_pool c) site_no = None then (Inl (site_error site_no), (e, c))
         else on_pool site_no (pool_release a force_close) (e, c))"

text \<open>The loop of \<open>set_switch_on\<close>: \<open>server_set\<close> holds the names already met.\<close>

fun switch_on_loop ::
  "pool_env \<Rightarrow> string set \<Rightarrow> (int \<times> api_pool option) list \<Rightarrow> (fault + unit) \<times> (int \<times> api_pool option) list" where
  "switch_on_loop e server_set [] = (Inr (), [])"
| "switch_on_loop e server_set ((k, None) # ps) = (Inl MemoryFault, (k, None) # ps)"
| "switch_on_loop e server_set ((k, Some p) # ps) =
     (let p' = (if p_server_name p \<notin> server_set then snd (snd (set_switch_on (e, p))) else p);
          (r, ps') = switch_on_loop e (insert (p_server_name p) server_set) ps
      in (r, (k, Some p') # ps'))"

definition core_set_switch_on :: "(core_world, unit) op" where
  "core_set_switch_on = (\<lambda>(e, c).
     case switch_on_loop e {} (cc_pool c) of (r, ps) \<Rightarrow> (r, (e, c\<lparr>cc_pool := ps\<rparr>)))"

definition core_re_init :: "string \<Rightarrow> conf_file \<Rightarrow> (core_world, unit) op" where
  "core_re_init config_file file = (\<lambda>(e, c).
     case core_read_conf config_file file ((cc_conf c)\<lparr>c_data := []\<rparr>) of
       (Inl f, conf) \<Rightarrow> (Inl f, (e, c\<lparr>cc_conf := conf\<rparr>))
     | (Inr _, conf) \<Rightarrow> (Inr (), (e, c\<lparr>cc_conf := conf, cc_pool :=
         fold (\<lambda>(k, csc). omap_insert k (Some (pool_for csc))) (c_data conf) (cc_pool c)\<rparr>)))"

section \<open>Reading a line\<close>

definition core_text :: "string \<Rightarrow> bool" where
  "core_text t \<longleftrightarrow> t \<noteq> [] \<and> token_for CHR '','' t"

definition core_line :: "core_conf \<Rightarrow> string" where
  "core_line r = show_int (cs_site_no r) @ '','' @ show_int (cs_conn_num r) @ '','' @ show_int (cs_max_conn_num r) @ '','' @
     cs_server_name r @ '','' @ show_int (cs_port r) @ '','' @ show_int (cs_time_out r) @ '','' @ cs_user r @ '','' @ cs_passwd r"

lemma next_tok_text: "core_text t \<Longrightarrow> next_tok w CHR '','' (t @ CHR '','' # r) d = (Inr (t, r), d)"
  by (simp add: next_tok_def core_text_def token_for_def strtok_tok returnS_def strstrip_id)

lemma next_tok_last: "core_text t \<Longrightarrow> next_tok w CHR '','' t d = (Inr (t, []), d)"
  by (simp add: next_tok_def core_text_def token_for_def strtok_tok returnS_def strstrip_id)

lemma core_only_throws: "only_throws (core_get_line s)"
  by (auto simp: only_throws_def core_get_line_def Let_def next_tok_def bindS_def throwS_def returnS_def
      split: option.splits prod.splits sum.splits)

lemma core_text_int: "core_text (show_int x)"
  using show_int_token [of "CHR '',''" x] show_int_nonempty [of x] by (simp add: core_text_def isdigit_def)

text \<open>A line written from a site record is read back as exactly that record, under its number.\<close>

theorem core_line_roundtrip:
  assumes "in_i32 (cs_site_no r)" and "in_i32 (cs_conn_num r)" and "in_i32 (cs_max_conn_num r)"
    and "in_i32 (cs_port r)" and "in_i32 (cs_time_out r)"
    and "core_text (cs_server_name r)" and "core_text (cs_user r)" and "core_text (cs_passwd r)"
    and "length (cs_server_name r) \<le> 63" and "length (cs_user r) \<le> 32" and "length (cs_passwd r) \<le> 32"
    and "length (core_line r) < MAX_CONF_LENGTH_SIZE"
  shows "core_get_line (core_line r) m = (Inr (), omap_set (cs_site_no r) r m)"
proof -
  have t: "take (MAX_CONF_LENGTH_SIZE - Suc 0) (core_line r) = core_line r" using assms(12) by simp
  have "core_get_line (core_line r) m = (Inr (), omap_set (cs_site_no r)
     \<lparr>cs_site_no = cs_site_no r, cs_conn_num = cs_conn_num r, cs_max_conn_num = cs_max_conn_num r,
      cs_server_name = cs_server_name r, cs_port = cs_port r, cs_time_out = cs_time_out r,
      cs_user = cs_user r, cs_passwd = cs_passwd r\<rparr> m)"
    using assms(1-11) unfolding core_get_line_def Let_def One_nat_def t
    by (simp add: core_line_def bindS_def next_tok_text next_tok_last core_text_int atoi_show_int)
  then show ?thesis by (cases r) simp
qed

definition sample_site :: core_conf where
  "sample_site = \<lparr>cs_site_no = 7, cs_conn_num = 2, cs_max_conn_num = 4, cs_server_name = ''pay'', cs_port = 22000,
     cs_time_out = 5, cs_user = ''u'', cs_passwd = ''p''\<rparr>"

lemma core_line_roundtrip_witness:
  "core_get_line (core_line sample_site) [] = (Inr (), [(7, sample_site)])"
proof -
  have n: "show_nat n = [char_of (48 + n)]" if "n < 10" for n using that by (subst show_nat.simps) simp
  have "show_nat 22000 = show_nat 2200 @ show_nat 0" "show_nat 2200 = show_nat 220 @ show_nat 0"
    "show_nat 220 = show_nat 22 @ show_nat 0" "show_nat 22 = show_nat 2 @ show_nat 2"
    by (subst show_nat.simps; simp add: n)+
  then have "length (core_line sample_site) < MAX_CONF_LENGTH_SIZE"
    by (simp add: core_line_def sample_site_def show_int_def n MAX_CONF_LENGTH_SIZE_def)
  then show ?thesis
    using core_line_roundtrip [of sample_site "[]"]
    by (simp add: sample_site_def in_i32_def core_text_def token_for_def clean_def isspace_def)
qed

section \<open>The pools of all sites together\<close>

definition confs_ok :: "(int, core_conf) omap \<Rightarrow> bool" where
  "confs_ok m \<longleftrightarrow> (\<forall>(k, r) \<in> set m. cs_max_conn_num r < 2 ^ 31)"

definition no_null :: "(int, api_pool option) omap \<Rightarrow> bool" where
  "no_null m \<longleftrightarrow> (\<forall>x \<in> set m. snd x \<noteq> None)"

definition sites_ok :: "pool_env \<Rightarrow> core_server_conf \<Rightarrow> bool" where
  "sites_ok e c \<longleftrightarrow> confs_ok (c_data (cc_conf c)) \<and>
     no_null (cc_pool c) \<and>
     (\<forall>k p. omap_find (cc_pool c) k = Some (Some p) \<longrightarrow> pool_ok e p) \<and>
     (\<forall>k l p q. k \<noteq> l \<longrightarrow> omap_find (cc_pool c) k = Some (Some p) \<longrightarrow> omap_find (cc_pool c) l = Some (Some q) \<longrightarrow>
        pool_ptrs p \<inter> pool_ptrs q = {})"

lemma set_omap_set: "set (omap_set k v m) \<subseteq> insert (k, v) (set m)"
  by (induction k v m rule: omap_set.induct) auto

lemma find_not_null: "no_null m \<Longrightarrow> omap_find m k \<noteq> Some None"
  unfolding omap_find_def no_null_def using map_of_SomeD [of m k None] by force

lemma not_null_set: "no_null m \<Longrightarrow> no_null (omap_set k (Some p) m)"
  using set_omap_set [of k "Some p" m] by (auto simp: no_null_def)

lemma confs_ok_set: "confs_ok m \<Longrightarrow> cs_max_conn_num r < 2 ^ 31 \<Longrightarrow> confs_ok (omap_set k r m)"
  using set_omap_set [of k r m] by (fastforce simp: confs_ok_def)

lemma confs_ok_insert: "confs_ok m \<Longrightarrow> confs_ok (omap_insert k core_conf0 m)"
  by (simp add: omap_insert_def confs_ok_set core_conf0_def)

lemma i32_less: "i32 x < 2 ^ 31"
  using signed_take_bit_int_less_exp [of 31 x] by (simp add: i32_def)

lemma confs_ok_line: "confs_ok m \<Longrightarrow> confs_ok (line_effect core_get_line s m)"
  by (auto simp: line_effect_def core_get_line_def Let_def next_tok_def bindS_def throwS_def returnS_def atoi_def
      intro!: confs_ok_set i32_less [simplified] split: option.splits prod.splits sum.splits)

lemma pool_ptrs_live: "pool_ok e p \<Longrightarrow> a \<in> pool_ptrs p \<Longrightarrow> live_at e a"
  using act_live [of e p "Some a"] by (auto simp: pool_ptrs_def set_ptrs pool_ok_def)

lemma pool_ok_frame:
  assumes "pool_ok e q" and "\<And>a. a \<in> pool_ptrs q \<Longrightarrow> obj_at e' a = obj_at e a"
  shows "pool_ok e' q"
proof -
  have "place_ok e' i a" if "i < length (act q)" "act q ! i = Some a" for i a
  proof -
    have "Some a \<in> set (act q)" using that by (metis nth_mem)
    then have "obj_at e' a = obj_at e a" using assms(2) by (simp add: pool_ptrs_def set_ptrs)
    moreover have "place_ok e i a" using assms(1) that by (simp add: pool_ok_def)
    ultimately show ?thesis by (simp add: place_ok_def)
  qed
  moreover have "live_at e' a" if "a \<in> set (ptrs (old q))" for a
    using that assms pool_ptrs_live [OF assms(1), of a] by (simp add: live_at_def pool_ptrs_def)
  ultimately show ?thesis using assms(1) unfolding pool_ok_def by simp
qed

lemma sites_step:
  assumes ok: "sites_ok e c" and p: "omap_find (cc_pool c) k = Some (Some p)" and st: "pool_step e p U e' p'"
  shows "sites_ok e' (c\<lparr>cc_pool := omap_set k (Some p') (cc_pool c)\<rparr>)"
proof -
  have pk: "pool_ok e q" if "omap_find (cc_pool c) l = Some (Some q)" for l q using ok that by (auto simp: sites_ok_def)
  have dj: "pool_ptrs p \<inter> pool_ptrs q = {}" if "l \<noteq> k" "omap_find (cc_pool c) l = Some (Some q)" for l q
    using ok p that unfolding sites_ok_def by blast
  have other: "pool_ok e' q" if "l \<noteq> k" "omap_find (cc_pool c) l = Some (Some q)" for l q
  proof (rule pool_ok_frame [OF pk [OF that(2)]])
    fix a assume "a \<in> pool_ptrs q"
    then have "live_at e a" "a \<notin> pool_ptrs p" using pool_ptrs_live [OF pk [OF that(2)]] dj [OF that] by auto
    then show "obj_at e' a = obj_at e a" using st by (simp add: pool_step_def)
  qed
  have dj': "pool_ptrs p' \<inter> pool_ptrs q = {}" if "l \<noteq> k" "omap_find (cc_pool c) l = Some (Some q)" for l q
  proof -
    have "a < length (w_heap e)" if "a \<in> pool_ptrs q" for a
      using pool_ptrs_live [OF pk [OF \<open>omap_find (cc_pool c) l = Some (Some q)\<close>] that] live_lt by blast
    then show ?thesis using st dj [OF that] by (fastforce simp: pool_step_def)
  qed
  have okp: "pool_ok e' p'" using st by (simp add: pool_step_def)
  have all: "pool_ptrs q1 \<inter> pool_ptrs q2 = {}"
    if "l1 \<noteq> l2" "omap_find (omap_set k (Some p') (cc_pool c)) l1 = Some (Some q1)"
      "omap_find (omap_set k (Some p') (cc_pool c)) l2 = Some (Some q2)" for l1 l2 q1 q2
  proof -
    consider "l1 = k" "l2 \<noteq> k" | "l1 \<noteq> k" "l2 = k" | "l1 \<noteq> k" "l2 \<noteq> k" using \<open>l1 \<noteq> l2\<close> by blast
    then show ?thesis
    proof cases
      case 1
      then have "omap_find (cc_pool c) l2 = Some (Some q2)" "q1 = p'" using that by (auto simp: omap_find_set)
      moreover have "pool_ptrs p' \<inter> pool_ptrs q2 = {}" using 1 calculation(1) by (intro dj') auto
      ultimately have "pool_ptrs p' \<inter> pool_ptrs q2 = {}" "q1 = p'" by simp_all
      then show ?thesis by blast
    next
      case 2
      then have "omap_find (cc_pool c) l1 = Some (Some q1)" "q2 = p'" using that by (auto simp: omap_find_set)
      moreover have "pool_ptrs p' \<inter> pool_ptrs q1 = {}" using 2 calculation(1) by (intro dj') auto
      ultimately have "pool_ptrs p' \<inter> pool_ptrs q1 = {}" "q2 = p'" by simp_all
      then show ?thesis by blast
    next
      case 3
      then have "omap_find (cc_pool c) l1 = Some (Some q1)" "omap_find (cc_pool c) l2 = Some (Some q2)"
        using that by (simp_all add: omap_find_set)
      then show ?thesis using ok that(1) unfolding sites_ok_def by blast
    qed
  qed
  have "pool_ok e' q" if "omap_find (omap_set k (Some p') (cc_pool c)) l = Some (Some q)" for l q
    using that other okp by (simp add: omap_find_set split: if_splits)
  then show ?thesis
    using ok all not_null_set by (simp add: sites_ok_def)
qed

lemma get_api_cases:
  assumes "sites_ok e c"
  shows "(omap_find (cc_pool c) site = None \<and> get_api site (e, c) = (Inl (site_error site), (e, c)))
    \<or> (\<exists>p r e' p' conf. omap_find (cc_pool c) site = Some (Some p) \<and> get_post e p r e' p'
         \<and> get_api site (e, c) = (r, (e', c\<lparr>cc_conf := conf, cc_pool := omap_set site (Some p') (cc_pool c)\<rparr>))
         \<and> confs_ok (c_data conf))"
proof (cases "omap_find (cc_pool c) site")
  case None
  then show ?thesis by (simp add: get_api_def)
next
  case (Some po)
  then obtain p where po: "omap_find (cc_pool c) site = Some (Some p)" using assms find_not_null [of "cc_pool c" site] by (cases po) (auto simp: sites_ok_def)
  define conf where "conf = (cc_conf c)\<lparr>c_data := omap_insert site core_conf0 (c_data (cc_conf c))\<rparr>"
  define s where "s = omap_get core_conf0 (c_data conf) site"
  obtain r e' p' where g: "pool_get (cs_user s) (cs_passwd s) (e, p) = (r, (e', p'))"
    by (cases "pool_get (cs_user s) (cs_passwd s) (e, p)") auto
  have "get_api site (e, c) = (r, (e', c\<lparr>cc_conf := conf, cc_pool := omap_set site (Some p') (cc_pool c)\<rparr>))"
    using po g by (simp add: get_api_def Let_def on_pool_def s_def conf_def)
  moreover have "get_post e p r e' p'" using pool_get_post [OF _ g] po assms by (auto simp: sites_ok_def)
  moreover have "confs_ok (c_data conf)" using assms by (simp add: conf_def sites_ok_def confs_ok_insert)
  ultimately show ?thesis using po by blast
qed

text \<open>\<open>H\<close> holds the connections handed out, each with the site it was asked for. A connection is given back through
  \<open>free_api\<close> or, as the server does it, by \<open>set_free\<close> called on the connection itself.\<close>

inductive core_history :: "pool_env \<Rightarrow> core_server_conf \<Rightarrow> (int \<times> nat) set \<Rightarrow> bool" where
  start: "w_heap e = [] \<Longrightarrow> cc_pool c0 = [] \<Longrightarrow> confs_ok (c_data (cc_conf c0)) \<Longrightarrow>
     init_api_pool (e, c0) = (r, (e', c)) \<Longrightarrow> core_history e' c {}"
| got: "core_history e c H \<Longrightarrow> get_api site (e, c) = (Inr a, (e', c')) \<Longrightarrow> core_history e' c' (insert (site, a) H)"
| refused: "core_history e c H \<Longrightarrow> get_api site (e, c) = (Inl f, (e', c')) \<Longrightarrow> core_history e' c' H"
| freed: "core_history e c H \<Longrightarrow> (site, a) \<in> H \<Longrightarrow> free_api site (Some a) b (e, c) = (r, (e', c')) \<Longrightarrow>
     core_history e' c' (H - {(site, a)})"
| dropped: "core_history e c H \<Longrightarrow> (site, a) \<in> H \<Longrightarrow> api_set_free b a e = (r, e') \<Longrightarrow>
     core_history e' c (H - {(site, a)})"
| works: "core_history e c H \<Longrightarrow> (site, a) \<in> H \<Longrightarrow> holder_step a e e' \<Longrightarrow> core_history e' c H"
| switch: "core_history e c H \<Longrightarrow> core_set_switch_on (e, c) = (r, (e', c')) \<Longrightarrow> core_history e' c' H"
| marked: "core_history e c H \<Longrightarrow> on_pool site set_switch_on (e, c) = (r, (e', c')) \<Longrightarrow> core_history e' c' H"
| reload: "core_history e c H \<Longrightarrow> core_re_init name file (e, c) = (r, (e', c')) \<Longrightarrow> core_history e' c' H"
| outside: "core_history e c H \<Longrightarrow> core_history (e\<lparr>w_kernel := k, w_hasite := h\<rparr>) c H"

definition core_inv :: "pool_env \<Rightarrow> core_server_conf \<Rightarrow> (int \<times> nat) set \<Rightarrow> bool" where
  "core_inv e c H \<longleftrightarrow> sites_ok e c \<and> (\<forall>b. used_at e b \<longleftrightarrow> (\<exists>s. (s, b) \<in> H)) \<and>
     (\<forall>s a. (s, a) \<in> H \<longrightarrow> (\<exists>p. omap_find (cc_pool c) s = Some (Some p) \<and> a \<in> pool_ptrs p))"

lemma core_inv_site:
  assumes "core_inv e c H" and "(s, a) \<in> H" and "(t, a) \<in> H"
  shows "s = t"
  using assms unfolding core_inv_def sites_ok_def by (metis disjoint_iff)

lemma core_inv_get:
  assumes "core_inv e c H" and "get_api site (e, c) = (r, (e', c'))"
  shows "core_inv e' c' (case r of Inl f \<Rightarrow> H | Inr a \<Rightarrow> insert (site, a) H)
    \<and> (case r of Inl f \<Rightarrow> is_throw f | Inr a \<Rightarrow> \<not> used_at e a)
    \<and> (\<forall>s a. (s, a) \<in> H \<longrightarrow> obj_at e' a = obj_at e a)"
proof -
  have ok: "sites_ok e c" and u: "\<And>b. used_at e b \<longleftrightarrow> (\<exists>s. (s, b) \<in> H)"
    and m: "\<And>s a. (s, a) \<in> H \<Longrightarrow> \<exists>p. omap_find (cc_pool c) s = Some (Some p) \<and> a \<in> pool_ptrs p"
    using assms(1) by (auto simp: core_inv_def)
  consider "r = Inl (site_error site)" "e' = e" "c' = c"
    | p p' conf where "omap_find (cc_pool c) site = Some (Some p)" "get_post e p r e' p'"
        "c' = c\<lparr>cc_conf := conf, cc_pool := omap_set site (Some p') (cc_pool c)\<rparr>" "confs_ok (c_data conf)"
    using get_api_cases [OF ok, of site] assms(2) by (elim disjE exE conjE) auto
  then show ?thesis
  proof cases
    case 1
    then show ?thesis using assms(1) by (simp add: site_error_def)
  next
    case 2
    define U where "U = (case r of Inl f \<Rightarrow> {} | Inr a \<Rightarrow> {a})"
    have st: "pool_step e p U e' p'" using 2(2) by (simp add: get_post_def U_def)
    have ok': "sites_ok e' c'"
      using sites_step [OF ok 2(1) st] 2(3,4) by (simp add: sites_ok_def)
    have u': "used_at e' b \<longleftrightarrow> (\<exists>s. (s, b) \<in> H) \<or> b \<in> U" for b using st u by (simp add: pool_step_def)
    have keep: "a \<in> pool_ptrs p'" if "a \<in> pool_ptrs p" "(s, a) \<in> H" for s a
      using st that u unfolding pool_step_def by blast
    have m': "\<exists>p. omap_find (cc_pool c') s = Some (Some p) \<and> a \<in> pool_ptrs p" if "(s, a) \<in> H" for s a
      using m [OF that] keep that 2(1,3) by (cases "s = site") (auto simp: omap_find_set)
    have fr: "\<forall>s a. (s, a) \<in> H \<longrightarrow> obj_at e' a = obj_at e a"
      using st u used_live unfolding pool_step_def by blast
    show ?thesis
    proof (cases r)
      case (Inl f)
      then show ?thesis using ok' u' m' fr 2(2) by (auto simp: core_inv_def U_def get_post_def)
    next
      case (Inr a)
      then have "Some a \<in> set (act p')" "\<not> used_at e a" using 2(2) by (auto simp: get_post_def)
      then have "a \<in> pool_ptrs p'" by (simp add: pool_ptrs_def set_ptrs)
      then have "core_inv e' c' (insert (site, a) H)"
        using ok' u' m' 2(3) Inr by (auto simp: core_inv_def U_def omap_find_set)
      then show ?thesis using Inr fr \<open>\<not> used_at e a\<close> by simp
    qed
  qed
qed

lemma switch_on_loop_find:
  "no_null ps \<Longrightarrow> switch_on_loop e S ps = (r, ps') \<Longrightarrow>
     (\<forall>k p'. omap_find ps' k = Some (Some p') \<longrightarrow>
        (\<exists>p b. omap_find ps k = Some (Some p) \<and> p' = p\<lparr>p_need_switch := b\<rparr>)) \<and>
     (\<forall>k p. omap_find ps k = Some (Some p) \<longrightarrow> (\<exists>b. omap_find ps' k = Some (Some (p\<lparr>p_need_switch := b\<rparr>)))) \<and>
     no_null ps' \<and> r = Inr ()"
proof (induction e S ps arbitrary: r ps' rule: switch_on_loop.induct)
  case (3 e S k p ps)
  define p1 where "p1 = (if p_server_name p \<notin> S then snd (snd (set_switch_on (e, p))) else p)"
  have p1: "\<exists>b. p1 = p\<lparr>p_need_switch := b\<rparr>"
    by (cases "p_server_name p \<notin> S") (auto simp: p1_def set_switch_on_def poolS_def intro: exI [of _ "p_need_switch p"])
  obtain r1 ps1 where l: "switch_on_loop e (insert (p_server_name p) S) ps = (r1, ps1)"
    by (cases "switch_on_loop e (insert (p_server_name p) S) ps") auto
  have ps': "ps' = (k, Some p1) # ps1" "r = r1" using 3(3) l by (simp_all add: p1_def Let_def)
  have "no_null ps" using 3(2) by (simp add: no_null_def)
  then show ?case using 3(1) [OF p1_def _ l] p1 ps' by (auto simp: no_null_def)
qed (auto simp: no_null_def)

lemma sites_fields:
  assumes ok: "sites_ok e c" and cf: "confs_ok (c_data (cc_conf c'))" and nn: "no_null (cc_pool c')"
    and new: "\<And>k p'. omap_find (cc_pool c') k = Some (Some p') \<Longrightarrow>
       (\<exists>p b. omap_find (cc_pool c) k = Some (Some p) \<and> p' = p\<lparr>p_need_switch := b\<rparr>) \<or> pool_ok e p' \<and> pool_ptrs p' = {}"
  shows "sites_ok e c'"
proof -
  have o: "pool_ok e p'" if "omap_find (cc_pool c') k = Some (Some p')" for k p'
    using new [OF that] ok by (auto simp: sites_ok_def)
  have d: "pool_ptrs p' \<inter> pool_ptrs q' = {}"
    if "k \<noteq> l" "omap_find (cc_pool c') k = Some (Some p')" "omap_find (cc_pool c') l = Some (Some q')" for k l p' q'
  proof -
    have "pool_ptrs p' = {} \<or> (\<exists>p. omap_find (cc_pool c) k = Some (Some p) \<and> pool_ptrs p' = pool_ptrs p)"
      "pool_ptrs q' = {} \<or> (\<exists>q. omap_find (cc_pool c) l = Some (Some q) \<and> pool_ptrs q' = pool_ptrs q)"
      using new [OF that(2)] new [OF that(3)] by (auto simp: pool_ptrs_def)
    moreover have "pool_ptrs p \<inter> pool_ptrs q = {}"
      if "omap_find (cc_pool c) k = Some (Some p)" "omap_find (cc_pool c) l = Some (Some q)" for p q
      using ok that \<open>k \<noteq> l\<close> unfolding sites_ok_def by blast
    ultimately show ?thesis by blast
  qed
  show ?thesis using cf nn o d unfolding sites_ok_def by blast
qed

lemma pool_for_ok: "cs_max_conn_num r < 2 ^ 31 \<Longrightarrow> pool_ok e (pool_for r) \<and> pool_ptrs (pool_for r) = {}"
  by (simp add: pool_for_def new_pool_ok) (simp add: pool_ptrs_def new_pool_def act_def old_def)

definition fresh_pool :: "api_pool option \<Rightarrow> bool" where
  "fresh_pool po \<longleftrightarrow> (\<exists>r. po = Some (pool_for r) \<and> cs_max_conn_num r < 2 ^ 31)"

lemma fold_assign_fresh:
  "confs_ok m \<Longrightarrow> omap_find (fold (\<lambda>(k, conf). omap_set (cs_site_no conf) (Some (pool_for conf))) m pools) k = Some po \<Longrightarrow>
     fresh_pool po \<or> omap_find pools k = Some po"
proof (induction m arbitrary: pools)
  case (Cons x m)
  then show ?case by (cases x) (fastforce simp: confs_ok_def omap_find_set fresh_pool_def split: if_splits)
qed simp

lemma fold_insert_fresh:
  "confs_ok m \<Longrightarrow> omap_find (fold (\<lambda>(k, csc). omap_insert k (Some (pool_for csc))) m pools) k =
     (case omap_find pools k of Some po \<Rightarrow> Some po | None \<Rightarrow> map_option (\<lambda>r. Some (pool_for r)) (map_of m k))"
  by (induction m arbitrary: pools) (auto simp: omap_find_insert confs_ok_def split: option.splits)

lemma no_null_folds:
  "no_null pools \<Longrightarrow> no_null (fold (\<lambda>(k, conf). omap_set (cs_site_no conf) (Some (pool_for conf))) m pools)"
  "no_null pools \<Longrightarrow> no_null (fold (\<lambda>(k, csc). omap_insert k (Some (pool_for csc))) m pools)"
proof (induction m arbitrary: pools)
  case Nil
  { case 1 then show ?case by simp next case 2 then show ?case by simp }
next
  case (Cons x m)
  { case 1 then show ?case using Cons(1) not_null_set by (cases x) simp
    next case 2 then show ?case using Cons(2) not_null_set by (cases x) (simp add: omap_insert_def) }
qed

lemma core_inv_start:
  assumes "w_heap e = []" and "cc_pool c0 = []" and "confs_ok (c_data (cc_conf c0))"
    and "init_api_pool (e, c0) = (r, (e', c))"
  shows "core_inv e' c {}"
proof -
  define ps where "ps = fold (\<lambda>(k, conf). omap_set (cs_site_no conf) (Some (pool_for conf))) (c_data (cc_conf c0)) []"
  have c: "e' = e" "c = c0\<lparr>cc_pool := ps\<rparr>" using assms(2,4) by (simp_all add: init_api_pool_def ps_def)
  have f: "fresh_pool po" if "omap_find ps k = Some po" for k po
    using fold_assign_fresh [OF assms(3), of "[]" k po] that by (simp add: ps_def)
  have "no_null ps" unfolding ps_def by (rule no_null_folds(1)) (simp add: no_null_def)
  moreover have "pool_ok e p \<and> pool_ptrs p = {}" if "omap_find ps k = Some (Some p)" for k p
    using f [OF that] pool_for_ok by (auto simp: fresh_pool_def)
  ultimately have "sites_ok e c" using assms(3) c unfolding sites_ok_def by simp
  moreover have "\<not> used_at e b" for b using assms(1) by (simp add: used_at_def obj_at_def)
  ultimately show ?thesis using c(1) by (simp add: core_inv_def)
qed

lemma core_inv_free:
  assumes inv: "core_inv e c H" and h: "(site, a) \<in> H" and r: "free_api site (Some a) b (e, c) = (r, (e', c'))"
  shows "core_inv e' c' (H - {(site, a)})"
proof -
  have ok: "sites_ok e c" and u: "\<And>b. used_at e b \<longleftrightarrow> (\<exists>s. (s, b) \<in> H)"
    and m: "\<And>s a. (s, a) \<in> H \<Longrightarrow> \<exists>p. omap_find (cc_pool c) s = Some (Some p) \<and> a \<in> pool_ptrs p"
    using inv by (auto simp: core_inv_def)
  obtain p where p: "omap_find (cc_pool c) site = Some (Some p)" "a \<in> pool_ptrs p" using m [OF h] by blast
  obtain q e1 p1 where q: "pool_release a b (e, p) = (q, (e1, p1))" by (cases "pool_release a b (e, p)") auto
  have okp: "pool_ok e p" using ok p(1) by (simp add: sites_ok_def)
  have q': "p1 = p" "pool_ok e1 p" "\<And>c. used_at e1 c \<longleftrightarrow> used_at e c \<and> c \<noteq> a" "\<And>c. c \<noteq> a \<Longrightarrow> obj_at e1 c = obj_at e c"
    using pool_release_ok [OF okp pool_ptrs_live [OF okp p(2)] q] by auto
  have ce: "e' = e1" "c' = c\<lparr>cc_pool := omap_set site (Some p) (cc_pool c)\<rparr>"
    using r p(1) q q'(1) by (auto simp: free_api_def on_pool_def)
  have fnd: "omap_find (cc_pool c') k = omap_find (cc_pool c) k" for k using ce p(1) by (simp add: omap_find_set)
  have po: "pool_ok e1 q" if "omap_find (cc_pool c) k = Some (Some q)" for k q
  proof (cases "k = site")
    case True
    then show ?thesis using that p(1) q'(2) by simp
  next
    case False
    then have "a \<notin> pool_ptrs q" using ok p that unfolding sites_ok_def by blast
    moreover have "pool_ok e q" using ok that by (simp add: sites_ok_def)
    ultimately show ?thesis using q'(4) by (metis pool_ok_frame)
  qed
  have "no_null (cc_pool c')" using ok ce not_null_set by (simp add: sites_ok_def)
  then have "sites_ok e' c'" using ok ce po fnd unfolding sites_ok_def by simp
  moreover have "used_at e' x \<longleftrightarrow> (\<exists>s. (s, x) \<in> H - {(site, a)})" for x
    using q'(3) u core_inv_site [OF inv h] ce(1) by auto
  ultimately show ?thesis using m fnd by (auto simp: core_inv_def)
qed

lemma core_inv_dropped:
  assumes inv: "core_inv e c H" and h: "(site, a) \<in> H" and r: "api_set_free b a e = (r, e')"
  shows "core_inv e' c (H - {(site, a)})"
proof -
  have u: "\<And>b. used_at e b \<longleftrightarrow> (\<exists>s. (s, b) \<in> H)" using inv by (auto simp: core_inv_def)
  then have "live_at e a" using h used_live by blast
  note f = api_set_free_pool [OF this r]
  then have "sites_ok e' c" using inv unfolding core_inv_def sites_ok_def by blast
  moreover have "used_at e' x \<longleftrightarrow> (\<exists>s. (s, x) \<in> H - {(site, a)})" for x
    using f u core_inv_site [OF inv h] by auto
  ultimately show ?thesis using inv by (auto simp: core_inv_def)
qed

lemma core_inv_works:
  assumes inv: "core_inv e c H" and h: "(site, a) \<in> H" and w: "holder_step a e e'"
  shows "core_inv e' c H"
proof -
  have "used_at e a" using inv h unfolding core_inv_def by blast
  then obtain x where x: "obj_at e a = Some x" "used_obj x"
    by (auto simp: used_at_def split: option.splits)
  obtain y where y: "obj_at e' a = Some y" "used_obj y" "a_index (obj_base y) = a_index (obj_base x)" "obj_frame a e e'"
    using holder_step_frame [OF w x(1)] x(2) by auto
  then have ob: "obj_at e' b = (if b = a then Some y else obj_at e b)" for b
    by (simp add: obj_frame_def)
  have "place_ok e' i b" if "place_ok e i b" for i b
    using that ob x y by (auto simp: place_ok_def split: option.splits)
  moreover have "live_at e' = live_at e" using ob x by (simp add: live_at_def fun_eq_iff)
  ultimately have "pool_ok e' p" if "pool_ok e p" for p using that unfolding pool_ok_def by simp
  then have "sites_ok e' c" using inv unfolding core_inv_def sites_ok_def by blast
  moreover have "used_at e' b = used_at e b" for b using ob x y(2) by (simp add: used_at_def)
  ultimately show ?thesis using inv by (simp add: core_inv_def)
qed

lemma core_inv_fields:
  assumes inv: "core_inv e c H" and ok: "sites_ok e c'"
    and keep: "\<And>k p. omap_find (cc_pool c) k = Some (Some p) \<Longrightarrow>
      \<exists>b. omap_find (cc_pool c') k = Some (Some (p\<lparr>p_need_switch := b\<rparr>))"
  shows "core_inv e c' H"
proof -
  have "pool_ptrs (p\<lparr>p_need_switch := b\<rparr>) = pool_ptrs p" for p b by (simp add: pool_ptrs_def)
  then have "\<exists>p. omap_find (cc_pool c') s = Some (Some p) \<and> a \<in> pool_ptrs p" if "(s, a) \<in> H" for s a
    using inv keep that unfolding core_inv_def by metis
  then show ?thesis using inv ok by (simp add: core_inv_def)
qed

lemma core_inv_switch:
  assumes inv: "core_inv e c H" and r: "core_set_switch_on (e, c) = (r, (e', c'))"
  shows "core_inv e' c' H"
proof -
  obtain q ps where l: "switch_on_loop e {} (cc_pool c) = (q, ps)" by (cases "switch_on_loop e {} (cc_pool c)") auto
  have ok: "sites_ok e c" using inv by (simp add: core_inv_def)
  have c': "e' = e" "c' = c\<lparr>cc_pool := ps\<rparr>" using r l by (auto simp: core_set_switch_on_def)
  have f: "no_null (cc_pool c)" using ok by (simp add: sites_ok_def)
  note fs = switch_on_loop_find [OF f l]
  have "sites_ok e c'" using fs ok c' by (intro sites_fields [OF ok]) (auto simp: sites_ok_def)
  then show ?thesis using core_inv_fields [OF inv] fs c' by simp
qed

lemma on_pool_switch:
  assumes "no_null (cc_pool c)" and "on_pool site set_switch_on (e, c) = (r, (e', c'))"
  shows "e' = e \<and> cc_conf c' = cc_conf c \<and> (\<forall>k. omap_find (cc_pool c') k = (if k = site
     then map_option (map_option (\<lambda>p. p\<lparr>p_need_switch := True\<rparr>)) (omap_find (cc_pool c) k) else omap_find (cc_pool c) k))
     \<and> no_null (cc_pool c')"
  using assms find_not_null [OF assms(1), of site] not_null_set [OF assms(1)]
  by (auto simp: on_pool_def set_switch_on_def poolS_def omap_find_set split: option.splits)

lemma core_inv_marked:
  assumes inv: "core_inv e c H" and r: "on_pool site set_switch_on (e, c) = (r, (e', c'))"
  shows "core_inv e' c' H"
proof -
  have ok: "sites_ok e c" using inv by (simp add: core_inv_def)
  then have nn: "no_null (cc_pool c)" by (simp add: sites_ok_def)
  note w = on_pool_switch [OF nn r]
  have same: "\<exists>b. p = p\<lparr>p_need_switch := b\<rparr>" for p :: api_pool
    by (rule exI [of _ "p_need_switch p"]) simp
  have "sites_ok e c'"
  proof (rule sites_fields [OF ok])
    show "confs_ok (c_data (cc_conf c'))" "no_null (cc_pool c')" using ok w by (simp_all add: sites_ok_def)
    fix k p' assume "omap_find (cc_pool c') k = Some (Some p')"
    then have "\<exists>p b. omap_find (cc_pool c) k = Some (Some p) \<and> p' = p\<lparr>p_need_switch := b\<rparr>"
      using w same [of p'] by (cases "k = site") auto
    then show "(\<exists>p b. omap_find (cc_pool c) k = Some (Some p) \<and> p' = p\<lparr>p_need_switch := b\<rparr>) \<or> pool_ok e p' \<and> pool_ptrs p' = {}"
      by (rule disjI1)
  qed
  moreover have "\<exists>b. omap_find (cc_pool c') k = Some (Some (p\<lparr>p_need_switch := b\<rparr>))"
    if "omap_find (cc_pool c) k = Some (Some p)" for k p
    using w that same [of p] by (cases "k = site") auto
  ultimately show ?thesis using core_inv_fields [OF inv] w by simp
qed

lemma core_inv_reload:
  assumes inv: "core_inv e c H" and r: "core_re_init name file (e, c) = (r, (e', c'))"
  shows "core_inv e' c' H"
proof -
  obtain q conf where rd: "core_read_conf name file ((cc_conf c)\<lparr>c_data := []\<rparr>) = (q, conf)"
    by (cases "core_read_conf name file ((cc_conf c)\<lparr>c_data := []\<rparr>)") auto
  have ok: "sites_ok e c" using inv by (simp add: core_inv_def)
  have cf: "confs_ok (c_data conf)"
    using config_read_inv [of confs_ok core_get_line "(cc_conf c)\<lparr>c_data := []\<rparr>" name "file" q conf]
      confs_ok_line core_only_throws rd by (simp add: core_read_conf_def confs_ok_def [of "[]"])
  define ps where "ps = (case q of Inl f \<Rightarrow> cc_pool c
     | Inr _ \<Rightarrow> fold (\<lambda>(k, csc). omap_insert k (Some (pool_for csc))) (c_data conf) (cc_pool c))"
  have c': "e' = e" "c' = c\<lparr>cc_conf := conf, cc_pool := ps\<rparr>"
    using r rd by (auto simp: core_re_init_def ps_def split: sum.splits)
  have old: "omap_find ps k = Some po" if "omap_find (cc_pool c) k = Some po" for k po
    using that fold_insert_fresh [OF cf] by (simp add: ps_def split: sum.split)
  have new: "omap_find (cc_pool c) k = Some po \<or> fresh_pool po" if "omap_find ps k = Some po" for k po
  proof -
    have "cs_max_conn_num r < 2 ^ 31" if "map_of (c_data conf) k = Some r" for r
      using map_of_SomeD [OF that] cf by (auto simp: confs_ok_def)
    then show ?thesis
      using that fold_insert_fresh [OF cf, of "cc_pool c" k]
      by (cases "map_of (c_data conf) k") (auto simp: ps_def fresh_pool_def split: sum.splits option.splits)
  qed
  have nn: "no_null ps" using ok no_null_folds(2) by (simp add: ps_def sites_ok_def split: sum.split)
  have "sites_ok e c'"
  proof (rule sites_fields [OF ok])
    show "confs_ok (c_data (cc_conf c'))" "no_null (cc_pool c')" using cf nn c' by simp_all
    fix k p' assume "omap_find (cc_pool c') k = Some (Some p')"
    then have "omap_find (cc_pool c) k = Some (Some p') \<or> fresh_pool (Some p')" using new c' by simp
    then show "(\<exists>p b. omap_find (cc_pool c) k = Some (Some p) \<and> p' = p\<lparr>p_need_switch := b\<rparr>) \<or> pool_ok e p' \<and> pool_ptrs p' = {}"
      using pool_for_ok by (elim disjE) (auto simp: fresh_pool_def intro!: exI [of _ p'] exI [of _ "p_need_switch p'"])
  qed
  moreover have "\<exists>b. omap_find (cc_pool c') k = Some (Some (p\<lparr>p_need_switch := b\<rparr>))"
    if "omap_find (cc_pool c) k = Some (Some p)" for k p
    using old [OF that] c' by (intro exI [of _ "p_need_switch p"]) simp
  ultimately show ?thesis using core_inv_fields [OF inv] c'(1) by simp
qed

lemma core_history_inv: "core_history e c H \<Longrightarrow> core_inv e c H"
proof (induction rule: core_history.induct)
  case (start e c0 r e' c)
  then show ?case by (rule core_inv_start)
next
  case (got e c H site a e' c')
  then show ?case using core_inv_get by fastforce
next
  case (refused e c H site f e' c')
  then show ?case using core_inv_get by fastforce
next
  case (freed e c H site a b r e' c')
  then show ?case by (blast intro: core_inv_free)
next
  case (dropped e c H site a b r e')
  then show ?case by (blast intro: core_inv_dropped)
next
  case (works e c H site a e')
  then show ?case by (blast intro: core_inv_works)
next
  case (switch e c H r e' c')
  then show ?case by (blast intro: core_inv_switch)
next
  case (marked e c H site r e' c')
  then show ?case by (blast intro: core_inv_marked)
next
  case (reload e c H name "file" r e' c')
  then show ?case by (blast intro: core_inv_reload)
next
  case (outside e c H k h)
  then show ?case by (simp add: core_inv_def sites_ok_def)
qed

text \<open>C4: over all sites together, in any order of requests, releases, switches and reloads of the
  configuration: a connection that is held belongs to the pool of the site it was asked for and to no other
  site, \<open>get_api\<close> hands out a connection nobody holds or raises an exception, never a fault, and
  whatever it does to its pool it touches no connection that is held.\<close>

theorem sites_never_share_connections:
  assumes "core_history e c H"
  shows "(\<forall>s t a. if (s, a) \<in> H \<and> (t, a) \<in> H then s = t else True) \<and>
    (case get_api site (e, c) of (r, (e', c')) \<Rightarrow>
       (\<forall>s a. if (s, a) \<in> H then obj_at e' a = obj_at e a \<and> live_at e a \<and> r \<noteq> Inr a else True) \<and>
       (case r of Inl f \<Rightarrow> is_throw f
        | Inr a \<Rightarrow> (\<exists>p. omap_find (cc_pool c') site = Some (Some p) \<and> a \<in> pool_ptrs p)))"
proof -
  have inv: "core_inv e c H" using core_history_inv [OF assms] .
  obtain r e' c' where g: "get_api site (e, c) = (r, (e', c'))" by (cases "get_api site (e, c)") auto
  note i = core_inv_get [OF inv g]
  have u: "used_at e a" if "(s, a) \<in> H" for s a using inv that unfolding core_inv_def by blast
  have "r \<noteq> Inr a" if "(s, a) \<in> H" for s a using i u [OF that] by auto
  moreover have "\<exists>p. omap_find (cc_pool c') site = Some (Some p) \<and> a \<in> pool_ptrs p" if "r = Inr a" for a
    using i that by (auto simp: core_inv_def)
  ultimately show ?thesis
    using i g core_inv_site [OF inv] u used_live by (auto split: sum.splits)
qed

definition core0 :: core_server_conf where
  "core0 = \<lparr>cc_conf = \<lparr>c_data = [(7, sample_site)], c_rows = 1\<rparr>, cc_pool = []\<rparr>"

lemma sites_never_share_connections_witness:
  "case init_api_pool (env0, core0) of (q, (e, c)) \<Rightarrow>
     (case get_api 7 (e, c) of (r, (e', c')) \<Rightarrow>
        (case r of Inl f \<Rightarrow> is_throw f
         | Inr a \<Rightarrow> (\<exists>p. omap_find (cc_pool c') 7 = Some (Some p) \<and> a \<in> pool_ptrs p)))"
proof -
  obtain q e c where i: "init_api_pool (env0, core0) = (q, (e, c))" by (cases "init_api_pool (env0, core0)") auto
  have "core_history e c {}"
    by (rule core_history.start [OF _ _ _ i]) (simp_all add: env0_def core0_def confs_ok_def sample_site_def)
  then show ?thesis
    using sites_never_share_connections [of e c "{}" 7] i by (auto split: prod.splits)
qed

section \<open>Which pools a switch reaches\<close>

lemma ex_less_Suc_0: "(\<exists>j < Suc m. P j) \<longleftrightarrow> P 0 \<or> (\<exists>j < m. P (Suc j))"
  by (auto simp: less_Suc_eq_0_disj)

lemma switch_on_loop_nth:
  "no_null ps \<Longrightarrow> switch_on_loop e S ps = (r, ps') \<Longrightarrow>
     length ps' = length ps \<and> (\<forall>i < length ps. \<forall>p. snd (ps ! i) = Some p \<longrightarrow>
       ps' ! i = (fst (ps ! i), Some (if p_server_name p \<in> S
           \<or> (\<exists>j < i. \<exists>q. snd (ps ! j) = Some q \<and> p_server_name q = p_server_name p)
         then p else p\<lparr>p_need_switch := True\<rparr>)))"
proof (induction e S ps arbitrary: r ps' rule: switch_on_loop.induct)
  case (3 e S k p ps)
  define p1 where "p1 = (if p_server_name p \<notin> S then snd (snd (set_switch_on (e, p))) else p)"
  obtain r1 ps1 where l: "switch_on_loop e (insert (p_server_name p) S) ps = (r1, ps1)"
    by (cases "switch_on_loop e (insert (p_server_name p) S) ps") auto
  have ps': "ps' = (k, Some p1) # ps1" using 3(3) l by (simp add: p1_def Let_def)
  have nn: "no_null ps" using 3(2) by (simp add: no_null_def)
  note IH = 3(1) [OF p1_def nn l]
  have "((k, Some p1) # ps1) ! i = (fst (((k, Some p) # ps) ! i), Some (if p_server_name q \<in> S
           \<or> (\<exists>j < i. \<exists>q'. snd (((k, Some p) # ps) ! j) = Some q' \<and> p_server_name q' = p_server_name q)
         then q else q\<lparr>p_need_switch := True\<rparr>))"
    if i: "i < length ((k, Some p) # ps)" "snd (((k, Some p) # ps) ! i) = Some q" for i q
  proof (cases i)
    case 0
    then show ?thesis using i by (auto simp: p1_def set_switch_on_def poolS_def)
  next
    case (Suc m)
    have ex: "(\<exists>j < Suc m. \<exists>q'. snd (((k, Some p) # ps) ! j) = Some q' \<and> p_server_name q' = p_server_name q) \<longleftrightarrow>
        p_server_name p = p_server_name q \<or> (\<exists>j < m. \<exists>q'. snd (ps ! j) = Some q' \<and> p_server_name q' = p_server_name q)"
      by (simp add: ex_less_Suc_0)
    show ?thesis using IH i Suc unfolding Suc ex by auto
  qed
  then show ?case using IH unfolding ps' by simp
qed (auto simp: no_null_def)

text \<open>\<open>set_switch_on\<close> sets the switch flag of exactly the first pool, in the order of the site
  numbers, of each server name; the other sites of that name keep their flag, so they go on using
  the connections to the idc that is left.\<close>

theorem switch_reaches_first_site_of_each_name:
  assumes "no_null (cc_pool c)"
  shows "case core_set_switch_on (e, c) of (r, (e', c')) \<Rightarrow> r = Inr () \<and> e' = e \<and>
     length (cc_pool c') = length (cc_pool c) \<and>
     (\<forall>i < length (cc_pool c). \<exists>p. snd (cc_pool c ! i) = Some p \<and>
        cc_pool c' ! i = (fst (cc_pool c ! i), Some (if \<exists>j < i. \<exists>q. snd (cc_pool c ! j) = Some q
           \<and> p_server_name q = p_server_name p then p else p\<lparr>p_need_switch := True\<rparr>)))"
proof -
  obtain r ps where l: "switch_on_loop e {} (cc_pool c) = (r, ps)" by (cases "switch_on_loop e {} (cc_pool c)") auto
  note nth = switch_on_loop_nth [OF assms l]
  have "\<exists>p. snd (cc_pool c ! i) = Some p \<and> ps ! i = (fst (cc_pool c ! i), Some (if \<exists>j < i. \<exists>q. snd (cc_pool c ! j) = Some q
           \<and> p_server_name q = p_server_name p then p else p\<lparr>p_need_switch := True\<rparr>))" if i: "i < length (cc_pool c)" for i
  proof -
    obtain p where p: "snd (cc_pool c ! i) = Some p" using assms nth_mem [OF i] by (auto simp: no_null_def)
    show ?thesis using nth i p by (intro exI [of _ p]) simp
  qed
  moreover have "core_set_switch_on (e, c) = (r, (e, c\<lparr>cc_pool := ps\<rparr>))" using l by (simp add: core_set_switch_on_def)
  moreover have "r = Inr ()" using switch_on_loop_find [OF assms l] by simp
  ultimately show ?thesis using nth by simp
qed

lemma switch_reaches_first_site_of_each_name_witness:
  "case core_set_switch_on (env0, core0\<lparr>cc_pool := [(7, Some (new_pool ''pay'' 1 2 5)), (8, Some (new_pool ''pay'' 1 2 5))]\<rparr>)
   of (r, (e', c')) \<Rightarrow> cc_pool c' ! 1 = (8, Some (new_pool ''pay'' 1 2 5))"
  using switch_reaches_first_site_of_each_name [of
      "core0\<lparr>cc_pool := [(7, Some (new_pool ''pay'' 1 2 5)), (8, Some (new_pool ''pay'' 1 2 5))]\<rparr>" env0]
  by (auto simp: no_null_def less_Suc_eq split: prod.splits)

end
