(* ===== verification/Key_Value_Conf.thy ===== *)
theory Key_Value_Conf
  imports Config
begin

text \<open>
  \<open>CKeyValueConf\<close> (\<open>sys/trpc_key_value_conf.cpp\<close>): a vector of key and value texts, sorted with
  \<open>qsort\<close> and searched with \<open>bsearch\<close>.
\<close>

section \<open>Comparing and sorting\<close>

definition strncmp :: "string \<Rightarrow> string \<Rightarrow> nat \<Rightarrow> int" where
  "strncmp a b n =
     (let x = take n (cstr a); y = take n (cstr b) in if x < y then - 1 else if x = y then 0 else 1)"

text \<open>\<open>qsort\<close> of the C library (a merge sort: equal elements keep their order).\<close>

fun insert_by :: "('e \<Rightarrow> 'e \<Rightarrow> int) \<Rightarrow> 'e \<Rightarrow> 'e list \<Rightarrow> 'e list" where
  "insert_by cmp x [] = [x]"
| "insert_by cmp x (y # ys) = (if cmp x y \<le> 0 then x # y # ys else y # insert_by cmp x ys)"

definition qsort :: "('e \<Rightarrow> 'e \<Rightarrow> int) \<Rightarrow> 'e list \<Rightarrow> 'e list" where
  "qsort cmp xs = foldr (insert_by cmp) xs []"

lemma set_insert_by: "set (insert_by cmp x ys) = insert x (set ys)"
  by (induction ys) auto

lemma qsort_simps [simp]: "qsort cmp [] = []" "qsort cmp (x # xs) = insert_by cmp x (qsort cmp xs)"
  by (simp_all add: qsort_def)

lemma set_qsort [simp]: "set (qsort cmp xs) = set xs"
  by (induction xs) (auto simp: set_insert_by)

text \<open>The contract between the two comparison functions: both follow the order of one key.\<close>

locale search_order =
  fixes key_of :: "'e \<Rightarrow> 'k :: linorder" and comp :: "'e \<Rightarrow> 'e \<Rightarrow> int" and search_comp :: "'q \<Rightarrow> 'e \<Rightarrow> int"
    and wanted :: "'q \<Rightarrow> 'k" and valid :: "'e \<Rightarrow> bool"
  assumes comp_le: "valid x \<Longrightarrow> valid y \<Longrightarrow> comp x y \<le> 0 \<longleftrightarrow> key_of x \<le> key_of y"
    and search_less: "valid x \<Longrightarrow> search_comp q x < 0 \<longleftrightarrow> wanted q < key_of x"
    and search_gt: "valid x \<Longrightarrow> search_comp q x > 0 \<longleftrightarrow> key_of x < wanted q"
begin

lemma sorted_insert_by:
  "valid x \<Longrightarrow> \<forall>y \<in> set ys. valid y \<Longrightarrow> sorted (map key_of ys) \<Longrightarrow> sorted (map key_of (insert_by comp x ys))"
proof (induction ys)
  case (Cons y ys)
  then show ?case by (auto simp: comp_le set_insert_by)
qed simp

lemma sorted_qsort: "\<forall>x \<in> set xs. valid x \<Longrightarrow> sorted (map key_of (qsort comp xs))"
proof (induction xs)
  case (Cons x xs)
  then show ?case using sorted_insert_by [of x "qsort comp xs"] by simp
qed simp

lemma bsearch_loop_finds:
  assumes "sorted (map key_of base)" and "\<forall>x \<in> set base. valid x" and "u \<le> length base"
    and "\<forall>i < length base. key_of (base ! i) = wanted q \<longrightarrow> l \<le> i \<and> i < u"
  shows "case bsearch_loop search_comp q base l u of
     None \<Rightarrow> \<forall>x \<in> set base. key_of x \<noteq> wanted q | Some x \<Rightarrow> x \<in> set base \<and> key_of x = wanted q"
  using assms
proof (induction "u - l" arbitrary: l u rule: less_induct)
  case less
  show ?case
  proof (cases "l < u")
    case False
    then have "\<forall>x \<in> set base. key_of x \<noteq> wanted q" using less.prems(4) by (force simp: in_set_conv_nth)
    then show ?thesis using False by (simp add: bsearch_loop.simps)
  next
    case True
    define m where "m = (l + u) div 2"
    have m: "l \<le> m" "m < u" "m < length base" using True less.prems(3) by (auto simp: m_def)
    then have v: "valid (base ! m)" using less.prems(2) by simp
    have le: "key_of (base ! i) \<le> key_of (base ! j)" if "i \<le> j" "j < length base" for i j
      using less.prems(1) that by (simp add: sorted_iff_nth_mono)
    consider "wanted q < key_of (base ! m)" | "key_of (base ! m) < wanted q" | "key_of (base ! m) = wanted q" by force
    then show ?thesis
    proof cases
      case 1
      have "i < m" if "i < length base" "key_of (base ! i) = wanted q" for i
        using le [of m i] that 1 by force
      then show ?thesis
        using less.hyps [of m l] m less.prems True 1 search_less [OF v]
        by (simp add: bsearch_loop.simps [of _ _ _ l u] Let_def flip: m_def)
    next
      case 2
      have "m < i" if "i < length base" "key_of (base ! i) = wanted q" for i
        using le [of i m] that 2 m by force
      then show ?thesis
        using less.hyps [of u "m + 1"] m less.prems True 2 search_less [OF v, of q] search_gt [OF v, of q]
        by (simp add: bsearch_loop.simps [of _ _ _ l u] Let_def Suc_le_eq flip: m_def)
    next
      case 3
      then show ?thesis
        using m True search_less [OF v, of q] search_gt [OF v, of q]
        by (simp add: bsearch_loop.simps [of _ _ _ l u] Let_def flip: m_def)
    qed
  qed
qed

lemma bsearch_qsort:
  assumes "\<forall>x \<in> set xs. valid x"
  shows "case bsearch search_comp q (qsort comp xs) of
     None \<Rightarrow> \<forall>x \<in> set xs. key_of x \<noteq> wanted q | Some x \<Rightarrow> x \<in> set xs \<and> key_of x = wanted q"
  using bsearch_loop_finds [OF sorted_qsort [OF assms], of "length (qsort comp xs)" q 0] assms
  by (simp add: bsearch_def split: option.splits)

end

section \<open>State and operations\<close>

record key_value_info =
  kv_key :: string
  kv_value :: string

type_synonym key_value_conf = "key_value_info list config"

definition kv_comp :: "key_value_info \<Rightarrow> key_value_info \<Rightarrow> int" where
  "kv_comp p1 p2 = strncmp (kv_key p1) (kv_key p2) 32"

definition kv_search_comp :: "string \<Rightarrow> key_value_info \<Rightarrow> int" where
  "kv_search_comp p1 p2 = strncmp p1 (kv_key p2) 32"

definition kv_clear :: "(key_value_conf, unit) op" where
  "kv_clear = seqS (config_clear (\<lambda>d. d)) (modS (\<lambda>c. c\<lparr>c_data := []\<rparr>))"

definition kv_get_line :: "string \<Rightarrow> (key_value_info list, unit) op" where
  "kv_get_line str =
     (let t = take (MAX_CONF_LENGTH_SIZE - 1) str
      in bindS (next_tok ''CKeyValueConf: error'' CHR '':'' t) (\<lambda>(tok1, rest).
         bindS (next_tok ''CKeyValueConf: sep [=] not find'' CHR '':'' rest) (\<lambda>(tok2, rest).
         modS (\<lambda>data. data @ [\<lparr>kv_key = take 31 tok1, kv_value = take 2047 tok2\<rparr>]))))"

definition kv_read_conf :: "string \<Rightarrow> conf_file \<Rightarrow> (key_value_conf, unit) op" where
  "kv_read_conf name file =
     seqS (config_read_conf (get_line_entrance kv_get_line) name file)
       (modS (\<lambda>c. c\<lparr>c_data := qsort kv_comp (c_data c)\<rparr>))"

definition kv_get_value :: "key_value_conf \<Rightarrow> string \<Rightarrow> string option" where
  "kv_get_value c key = map_option kv_value (bsearch kv_search_comp key (c_data c))"

section \<open>A key-value file is a map\<close>

definition short_key :: "key_value_info \<Rightarrow> bool" where
  "short_key x \<longleftrightarrow> length (kv_key x) \<le> 31 \<and> NUL \<notin> set (kv_key x)"

interpretation kv: search_order kv_key kv_comp kv_search_comp "\<lambda>q. take 32 (cstr q)" short_key
  by unfold_locales (auto simp: kv_comp_def kv_search_comp_def strncmp_def short_key_def cstr_id Let_def)

text \<open>One line of such a file.\<close>

definition kv_text :: "string \<Rightarrow> bool" where
  "kv_text s \<longleftrightarrow> s \<noteq> [] \<and> clean s \<and> CHR '':'' \<notin> set s \<and> NL \<notin> set s \<and> NUL \<notin> set s"

definition kv_line :: "string \<times> string \<Rightarrow> string" where
  "kv_line kv = fst kv @ CHR '':'' # snd kv"

definition kv_entry :: "string \<times> string \<Rightarrow> bool" where
  "kv_entry kv \<longleftrightarrow> kv_text (fst kv) \<and> kv_text (snd kv) \<and> length (fst kv) \<le> 31 \<and> length (snd kv) \<le> 2047
     \<and> hd (fst kv) \<noteq> CHR ''#''"

lemma kv_conf_line: "kv_entry kv \<Longrightarrow> conf_line (kv_line kv)"
  by (cases "fst kv") (auto simp: conf_line_def clean_def is_comment_def kv_line_def kv_entry_def kv_text_def
      MAX_CONF_LENGTH_SIZE_def NL_def)

lemma kv_get_line_entry:
  assumes "kv_entry kv"
  shows "kv_get_line (kv_line kv) data = (Inr (), data @ [\<lparr>kv_key = fst kv, kv_value = snd kv\<rparr>])"
proof -
  have "take (MAX_CONF_LENGTH_SIZE - 1) (kv_line kv) = kv_line kv"
    using kv_conf_line [OF assms] by (simp add: conf_line_def MAX_CONF_LENGTH_SIZE_def)
  moreover obtain k v where "kv = (k, v)" by (cases kv)
  ultimately show ?thesis
    using assms strtok_tok(1) [of "CHR '':''" "fst kv" "snd kv"] strtok_tok(2) [of "CHR '':''" "snd kv"]
    by (simp add: kv_get_line_def Let_def next_tok_def bindS_def kv_line_def kv_entry_def kv_text_def strstrip_id
        returnS_def)
qed

lemma kv_only_throws: "only_throws (kv_get_line s)"
  by (auto simp: only_throws_def kv_get_line_def Let_def next_tok_def bindS_def throwS_def returnS_def
      split: option.splits prod.splits)

lemma kv_read_data:
  assumes "\<forall>kv \<in> set es. kv_entry kv" and "c_data c = []"
  shows "\<exists>c'. kv_read_conf name (conf_of (map kv_line es)) c = (Inr (), c') \<and>
     c_data c' = qsort kv_comp (map (\<lambda>kv. \<lparr>kv_key = fst kv, kv_value = snd kv\<rparr>) es)"
proof -
  have fo: "fold (line_effect kv_get_line) (map kv_line es) d = d @ map (\<lambda>kv. \<lparr>kv_key = fst kv, kv_value = snd kv\<rparr>) es"
    for d using assms(1) by (induction es arbitrary: d) (auto simp: line_effect_def kv_get_line_entry)
  obtain c' where "config_read_conf (get_line_entrance kv_get_line) name (conf_of (map kv_line es)) c = (Inr (), c')"
    "c_data c' = fold (line_effect kv_get_line) (map kv_line es) (c_data c)"
    using read_conf_lines [of "map kv_line es" kv_get_line name c] kv_only_throws kv_conf_line assms(1) by auto
  then show ?thesis
    using fo [of "[]"] assms(2) by (simp add: kv_read_conf_def seqS_def bindS_def)
qed

lemma kv_read_lookup:
  assumes "\<forall>kv \<in> set es. kv_entry kv" and "distinct (map fst es)"
  shows "\<exists>c. kv_read_conf name (conf_of (map kv_line es)) \<lparr>c_data = [], c_rows = 0\<rparr> = (Inr (), c)
     \<and> (\<forall>key. NUL \<notin> set key \<and> length key \<le> 31 \<longrightarrow> kv_get_value c key = map_of es key)"
proof -
  define infos where "infos = map (\<lambda>kv. \<lparr>kv_key = fst kv, kv_value = snd kv\<rparr>) es"
  obtain c where c: "kv_read_conf name (conf_of (map kv_line es)) \<lparr>c_data = [], c_rows = 0\<rparr> = (Inr (), c)"
    "c_data c = qsort kv_comp infos"
    using kv_read_data [OF assms(1), of "\<lparr>c_data = [], c_rows = 0\<rparr>" name] unfolding infos_def by auto
  have v: "\<forall>x \<in> set infos. short_key x"
    using assms(1) by (auto simp: infos_def short_key_def kv_entry_def kv_text_def)
  have "kv_get_value c key = map_of es key" if "NUL \<notin> set key" "length key \<le> 31" for key
  proof -
    have k: "take 32 (cstr key) = key" using that by (simp add: cstr_id)
    show ?thesis
    proof (cases "bsearch kv_search_comp key (qsort kv_comp infos)")
      case None
      then have "key \<notin> fst ` set es"
        using kv.bsearch_qsort [OF v, of key] k by (auto simp: infos_def)
      then show ?thesis using None c(2) by (simp add: kv_get_value_def map_of_eq_None_iff [symmetric])
    next
      case (Some x)
      then have "(kv_key x, kv_value x) \<in> set es" "kv_key x = key"
        using kv.bsearch_qsort [OF v, of key] k by (auto simp: infos_def)
      then show ?thesis using Some c(2) assms(2) by (simp add: kv_get_value_def)
    qed
  qed
  then show ?thesis using c(1) by blast
qed

text \<open>Reading a file of well-formed lines with distinct keys and looking a key up with
  \<open>get_value\<close> gives exactly the value of the file, and no value for any other key.\<close>

theorem key_value_lookup:
  assumes "\<forall>kv \<in> set es. kv_entry kv" and "distinct (map fst es)" and "NUL \<notin> set key" and "length key \<le> 31"
  shows "case kv_read_conf name (conf_of (map kv_line es)) \<lparr>c_data = [], c_rows = 0\<rparr> of
     (r, c) \<Rightarrow> r = Inr () \<and> kv_get_value c key = map_of es key"
  using kv_read_lookup [OF assms(1,2), of name] assms(3,4) by auto

lemma key_value_lookup_witness:
  "case kv_read_conf ''f'' (conf_of (map kv_line [(''ServerPort'', ''80''), (''LogNum'', ''5'')])) \<lparr>c_data = [], c_rows = 0\<rparr> of
     (r, c) \<Rightarrow> r = Inr () \<and> kv_get_value c ''LogNum'' = Some ''5''"
  using key_value_lookup [of "[(''ServerPort'', ''80''), (''LogNum'', ''5'')]" "''LogNum''" "''f''"]
  by (simp add: kv_entry_def kv_text_def clean_def isspace_def NL_def)

end
