(* ===== verification/System_Conf.thy ===== *)
theory System_Conf
  imports Key_Value_Conf
begin

text \<open>
  \<open>CSystemConf\<close> (\<open>src/system_conf.cpp\<close>): the settings of the process, read once from a
  key-value file, and the request keys, which say for a range of request types which parameters of a
  request make up the key its route is looked up with. Opening the log is left out.
\<close>

section \<open>State\<close>

record request_key_conf =
  rk_begin :: int
  rk_end :: int
  rk_conf_file :: string
  rk_request_key :: "string list"

text \<open>The constructor leaves the numbers uninitialised: the state before \<open>init\<close> is arbitrary.\<close>

record system_conf =
  sc_kv :: key_value_conf
  sc_server_ip :: string
  sc_server_port :: int
  sc_relay_svr_no :: int
  sc_remote_ip :: string
  sc_remote_port :: int
  sc_thread_num :: int
  sc_cgi_write_time_out :: int
  sc_connect_time_out :: int
  sc_fetch_rule_interval :: int
  sc_log_path :: string
  sc_log_num :: int
  sc_log_size :: int
  sc_log_with_lock :: bool
  sc_request_key_num :: int
  sc_request_key :: "request_key_conf list"
  sc_site_switch_action :: int
  sc_relay_mgr_ip :: string
  sc_relay_mgr_port :: int
  sc_keepalive_idle :: int

definition MAX_REQUEST_KEY_NUM :: nat where "MAX_REQUEST_KEY_NUM = 5"
definition MAX_REQUEST_TYPE :: int where "MAX_REQUEST_TYPE = 999999999"
definition REQUEST_TYPE_NAME :: string where "REQUEST_TYPE_NAME = ''request_type''"

section \<open>Operations\<close>

text \<open>A setting that must be there, and one with a default.\<close>

definition sysconf_need :: "string \<Rightarrow> (string \<Rightarrow> system_conf \<Rightarrow> system_conf) \<Rightarrow> (system_conf, unit) op" where
  "sysconf_need name upd = (\<lambda>s.
     case kv_get_value (sc_kv s) name of
       None \<Rightarrow> (Inl (THROW CConfigException ERR_CONF (''sysconf '' @ name @ '' not found'')), s)
     | Some p \<Rightarrow> (Inr (), upd p s))"

definition sysconf_default :: "string \<Rightarrow> 'v \<Rightarrow> (string \<Rightarrow> 'v) \<Rightarrow> ('v \<Rightarrow> system_conf \<Rightarrow> system_conf) \<Rightarrow> (system_conf, unit) op" where
  "sysconf_default name d conv upd = modS (\<lambda>s.
     upd (case kv_get_value (sc_kv s) name of None \<Rightarrow> d | Some p \<Rightarrow> conv p) s)"

definition tolower :: "char \<Rightarrow> char" where
  "tolower c = (let n = of_char c :: nat in if 65 \<le> n \<and> n \<le> 90 then char_of (n + 32) else c)"

definition starts_on :: "string \<Rightarrow> bool" where "starts_on p \<longleftrightarrow> strncmp p ''on'' 2 = 0"

definition starts_on_nocase :: "string \<Rightarrow> bool" where "starts_on_nocase p \<longleftrightarrow> strncmp (map tolower p) ''on'' 2 = 0"

definition set_request_key_default :: "(system_conf, unit) op" where
  "set_request_key_default = modS (\<lambda>s. s\<lparr>sc_request_key_num := 1, sc_request_key := sc_request_key s @
     [\<lparr>rk_begin = 0, rk_end = MAX_REQUEST_TYPE, rk_conf_file = ''./conf/RequestAppServer.conf'',
       rk_request_key = [REQUEST_TYPE_NAME]\<rparr>]\<rparr>)"

definition request_key_value :: "string \<Rightarrow> (system_conf, string) op" where
  "request_key_value name = (\<lambda>s.
     case kv_get_value (sc_kv s) name of
       None \<Rightarrow> (Inl (THROW CConfigException ERR_CONF (''sysconf : '' @ name @ '' not found'')), s)
     | Some p \<Rightarrow> (Inr p, s))"

definition get_request_key_i :: "int \<Rightarrow> (system_conf, unit) op" where
  "get_request_key_i i =
     bindS (request_key_value (''RequestTypeBegin_'' @ show_int i)) (\<lambda>b.
     bindS (request_key_value (''RequestTypeEnd_'' @ show_int i)) (\<lambda>e.
     bindS (request_key_value (''RequestKeyAppConf_'' @ show_int i)) (\<lambda>file.
     bindS (request_key_value (''RequestKey_'' @ show_int i)) (\<lambda>p.
       let keys = split p CHR ''^'' (int (MAX_REQUEST_KEY_NUM * 2))
       in if length keys > MAX_REQUEST_KEY_NUM
          then throwS (THROW CConfigException ERR_CONF
                 (''sysconf _request_key num error: '' @ show_int (int (length keys)) @ '', buf: '' @ p))
          else modS (\<lambda>s. s\<lparr>sc_request_key := sc_request_key s @
                 [\<lparr>rk_begin = atoi b, rk_end = atoi e, rk_conf_file = file, rk_request_key = keys\<rparr>]\<rparr>)))))"

text \<open>The loop \<open>for (i = 0; i < _request_key_num; ++i)\<close>: \<open>n\<close> rounds are left.\<close>

fun get_request_keys :: "nat \<Rightarrow> int \<Rightarrow> (system_conf, unit) op" where
  "get_request_keys 0 i = returnS ()"
| "get_request_keys (Suc n) i = seqS (get_request_key_i i) (get_request_keys n (i + 1))"

definition get_request_key :: "(system_conf, unit) op" where
  "get_request_key =
     seqS (modS (\<lambda>s. s\<lparr>sc_request_key := []\<rparr>)) (\<lambda>s.
       case kv_get_value (sc_kv s) ''RequestKeyNum'' of
         None \<Rightarrow> set_request_key_default s
       | Some p \<Rightarrow> get_request_keys (nat (atoi p)) 0 (s\<lparr>sc_request_key_num := atoi p\<rparr>))"

definition sysconf_init :: "string \<Rightarrow> conf_file \<Rightarrow> (system_conf, unit) op" where
  "sysconf_init file_name file =
     seqS (\<lambda>s. case kv_read_conf file_name file (sc_kv s) of (r, kv) \<Rightarrow> (r, s\<lparr>sc_kv := kv\<rparr>))
    (seqS (sysconf_need ''ServerIP'' (\<lambda>p s. s\<lparr>sc_server_ip := p\<rparr>))
    (seqS (sysconf_need ''ServerPort'' (\<lambda>p s. s\<lparr>sc_server_port := atoi p\<rparr>))
    (seqS (sysconf_need ''RelayMgrServerIP'' (\<lambda>p s. s\<lparr>sc_relay_mgr_ip := p\<rparr>))
    (seqS (sysconf_need ''RelayMgrServerPort'' (\<lambda>p s. s\<lparr>sc_relay_mgr_port := atoi p\<rparr>))
    (seqS (sysconf_default ''FetchRuleInterval'' 10 atoi (\<lambda>v s. s\<lparr>sc_fetch_rule_interval := v\<rparr>))
    (seqS (sysconf_need ''RelaySvrNo'' (\<lambda>p s. s\<lparr>sc_relay_svr_no := atoi p\<rparr>))
    (seqS (sysconf_need ''RemoteLogIp'' (\<lambda>p s. s\<lparr>sc_remote_ip := p\<rparr>))
    (seqS (sysconf_need ''RemoteLogPort'' (\<lambda>p s. s\<lparr>sc_remote_port := atoi p\<rparr>))
    (seqS (sysconf_need ''ListenThreads'' (\<lambda>p s. s\<lparr>sc_thread_num := atoi p\<rparr>))
    (seqS (sysconf_default ''CgiWriteTimeOut'' 500 atoi (\<lambda>v s. s\<lparr>sc_cgi_write_time_out := v\<rparr>))
    (seqS (sysconf_default ''ConnectTimeOut'' 5 atoi (\<lambda>v s. s\<lparr>sc_connect_time_out := v\<rparr>))
    (seqS (sysconf_default ''SwitchAction'' 0 (\<lambda>p. if starts_on_nocase p then 1 else 0)
             (\<lambda>v s. s\<lparr>sc_site_switch_action := v\<rparr>))
    (seqS (sysconf_default ''LogPath'' ''/var/log'' (\<lambda>p. p) (\<lambda>v s. s\<lparr>sc_log_path := v\<rparr>))
    (seqS (sysconf_default ''LogNum'' 5 atoi (\<lambda>v s. s\<lparr>sc_log_num := v\<rparr>))
    (seqS (sysconf_default ''LogSize'' (100 * 1000000) (\<lambda>p. i32 (atoi p * 1000000)) (\<lambda>v s. s\<lparr>sc_log_size := v\<rparr>))
    (seqS (sysconf_default ''LogWithLock'' True starts_on (\<lambda>v s. s\<lparr>sc_log_with_lock := v\<rparr>))
    (seqS (sysconf_default ''KEEPALIVE_IDLE'' 300 (\<lambda>p. if atoi p = 0 then 300 else atoi p)
             (\<lambda>v s. s\<lparr>sc_keepalive_idle := v\<rparr>))
       get_request_key)))))))))))))))))"

definition request_key_at :: "int \<Rightarrow> system_conf \<Rightarrow> fault + request_key_conf" where
  "request_key_at key_index s =
     (if key_index < 0 \<or> key_index \<ge> sc_request_key_num s
      then Inl (THROW CTrpcException ERR_SYS_UNKNOWN (''request_key_index error: '' @ show_int key_index))
      else if key_index \<ge> int (length (sc_request_key s)) then Inl MemoryFault
      else Inr (sc_request_key s ! nat key_index))"

definition is_switch_on :: "system_conf \<Rightarrow> bool" where
  "is_switch_on s \<longleftrightarrow> sc_site_switch_action s = 1"

fun master_key_of :: "int \<Rightarrow> request_key_conf list \<Rightarrow> fault + string" where
  "master_key_of request_type [] = Inr []"
| "master_key_of request_type (rc # rcs) =
     (if request_type \<ge> rk_begin rc \<and> request_type < rk_end rc
      then (case rk_request_key rc of [] \<Rightarrow> Inl MemoryFault | k # _ \<Rightarrow> Inr k)
      else master_key_of request_type rcs)"

definition master_request_key :: "int \<Rightarrow> system_conf \<Rightarrow> fault + string" where
  "master_request_key request_type s = master_key_of request_type (sc_request_key s)"

section \<open>What a successful start guarantees\<close>

definition keys_ok :: "request_key_conf \<Rightarrow> bool" where
  "keys_ok rc \<longleftrightarrow> length (rk_request_key rc) \<le> MAX_REQUEST_KEY_NUM"

lemma request_key_value_Inr:
  "request_key_value n s = (Inr p, s') \<longleftrightarrow> kv_get_value (sc_kv s) n = Some p \<and> s' = s"
  by (auto simp: request_key_value_def split: option.split)

lemma get_request_key_i_Inr:
  assumes "get_request_key_i i s = (Inr (), s')"
  shows "\<exists>rc. keys_ok rc \<and> s' = s\<lparr>sc_request_key := sc_request_key s @ [rc]\<rparr>"
proof -
  obtain b e cf p where s': "(let keys = split p CHR ''^'' (int (MAX_REQUEST_KEY_NUM * 2))
       in if length keys > MAX_REQUEST_KEY_NUM
          then throwS (THROW CConfigException ERR_CONF
                 (''sysconf _request_key num error: '' @ show_int (int (length keys)) @ '', buf: '' @ p))
          else modS (\<lambda>s. s\<lparr>sc_request_key := sc_request_key s @
                 [\<lparr>rk_begin = atoi b, rk_end = atoi e, rk_conf_file = cf, rk_request_key = keys\<rparr>]\<rparr>)) s = (Inr (), s')"
    using assms unfolding get_request_key_i_def bindS_eq_Inr request_key_value_Inr by blast
  define keys where "keys = split p CHR ''^'' (int (MAX_REQUEST_KEY_NUM * 2))"
  have "length keys \<le> MAX_REQUEST_KEY_NUM" "s' = s\<lparr>sc_request_key := sc_request_key s @
      [\<lparr>rk_begin = atoi b, rk_end = atoi e, rk_conf_file = cf, rk_request_key = keys\<rparr>]\<rparr>"
    using s' by (auto simp: Let_def throwS_def keys_def split: if_splits)
  then show ?thesis unfolding keys_ok_def
    by (intro exI [of _ "\<lparr>rk_begin = atoi b, rk_end = atoi e, rk_conf_file = cf, rk_request_key = keys\<rparr>"]) simp
qed

lemma get_request_keys_Inr:
  "get_request_keys n i s = (Inr (), s') \<Longrightarrow>
     \<exists>rcs. length rcs = n \<and> (\<forall>rc \<in> set rcs. keys_ok rc) \<and> s' = s\<lparr>sc_request_key := sc_request_key s @ rcs\<rparr>"
proof (induction n arbitrary: i s)
  case 0
  then show ?case by (simp add: returnS_def)
next
  case (Suc n)
  obtain s1 where s1: "get_request_key_i i s = (Inr (), s1)" "get_request_keys n (i + 1) s1 = (Inr (), s')"
    using Suc.prems by (auto simp: seqS_def bindS_eq_Inr)
  obtain rc where rc: "keys_ok rc" "s1 = s\<lparr>sc_request_key := sc_request_key s @ [rc]\<rparr>"
    using get_request_key_i_Inr [OF s1(1)] by blast
  obtain rcs where "length rcs = n" "\<forall>rc \<in> set rcs. keys_ok rc"
    "s' = s1\<lparr>sc_request_key := sc_request_key s1 @ rcs\<rparr>"
    using Suc.IH [OF s1(2)] by blast
  then show ?case using rc by (intro exI [of _ "rc # rcs"]) simp
qed

lemma get_request_key_Inr:
  assumes "get_request_key s = (Inr (), s')"
  shows "sc_request_key_num s' \<le> int (length (sc_request_key s')) \<and> (\<forall>rc \<in> set (sc_request_key s'). keys_ok rc)"
proof (cases "kv_get_value (sc_kv s) ''RequestKeyNum''")
  case None
  then show ?thesis
    using assms by (auto simp: get_request_key_def set_request_key_default_def keys_ok_def MAX_REQUEST_KEY_NUM_def)
next
  case (Some p)
  define s1 where "s1 = s\<lparr>sc_request_key := [], sc_request_key_num := atoi p\<rparr>"
  have "get_request_keys (nat (atoi p)) 0 s1 = (Inr (), s')"
    using assms Some by (simp add: get_request_key_def s1_def)
  then obtain rcs where "length rcs = nat (atoi p)" "\<forall>rc \<in> set rcs. keys_ok rc"
    "s' = s1\<lparr>sc_request_key := sc_request_key s1 @ rcs\<rparr>"
    using get_request_keys_Inr by blast
  then show ?thesis by (simp add: s1_def)
qed

lemma sysconf_init_request_keys:
  "sysconf_init name file s = (Inr (), s') \<Longrightarrow> \<exists>s1. get_request_key s1 = (Inr (), s')"
  by (auto simp: sysconf_init_def seqS_def bindS_eq_Inr)

text \<open>After a successful start \<open>get_request_key\<close> accepts exactly the configured indices and never
  leaves the vector, and every entry it returns has at most five keys.\<close>

theorem request_keys_in_bounds:
  assumes "sysconf_init name file s0 = (Inr (), s)"
  shows "case request_key_at i s of
     Inl f \<Rightarrow> (i < 0 \<or> sc_request_key_num s \<le> i) \<and> f \<noteq> MemoryFault
   | Inr rc \<Rightarrow> 0 \<le> i \<and> i < sc_request_key_num s \<and> rc \<in> set (sc_request_key s) \<and>
       length (rk_request_key rc) \<le> MAX_REQUEST_KEY_NUM"
proof -
  obtain s1 where "get_request_key s1 = (Inr (), s)" using sysconf_init_request_keys [OF assms] by blast
  then have "sc_request_key_num s \<le> int (length (sc_request_key s))" "\<forall>rc \<in> set (sc_request_key s). keys_ok rc"
    using get_request_key_Inr by blast+
  then show ?thesis
    by (auto simp: request_key_at_def keys_ok_def)
qed

definition sample_settings :: "(string \<times> string) list" where
  "sample_settings = [(''ServerIP'', ''10.0.0.1''), (''ServerPort'', ''22000''), (''RelayMgrServerIP'', ''10.0.0.2''),
     (''RelayMgrServerPort'', ''80''), (''RelaySvrNo'', ''1''), (''RemoteLogIp'', ''10.0.0.3''), (''RemoteLogPort'', ''81''),
     (''ListenThreads'', ''4'')]"

definition no_settings :: system_conf where
  "no_settings = \<lparr>sc_kv = \<lparr>c_data = [], c_rows = 0\<rparr>, sc_server_ip = [], sc_server_port = 0, sc_relay_svr_no = 0,
     sc_remote_ip = [], sc_remote_port = 0, sc_thread_num = 0, sc_cgi_write_time_out = 0, sc_connect_time_out = 0,
     sc_fetch_rule_interval = 0, sc_log_path = [], sc_log_num = 0, sc_log_size = 0, sc_log_with_lock = False,
     sc_request_key_num = 0, sc_request_key = [], sc_site_switch_action = 0, sc_relay_mgr_ip = [],
     sc_relay_mgr_port = 0, sc_keepalive_idle = 0\<rparr>"

lemma sample_init:
  "\<exists>s. sysconf_init name (conf_of (map kv_line sample_settings)) no_settings = (Inr (), s) \<and> sc_thread_num s = 4 \<and>
     map rk_conf_file (sc_request_key s) = [''./conf/RequestAppServer.conf'']"
proof -
  have e: "\<forall>kv \<in> set sample_settings. kv_entry kv" "distinct (map fst sample_settings)"
    by (simp_all add: sample_settings_def kv_entry_def kv_text_def clean_def isspace_def NL_def)
  obtain c where c: "kv_read_conf name (conf_of (map kv_line sample_settings)) \<lparr>c_data = [], c_rows = 0\<rparr> = (Inr (), c)"
    and l: "\<And>key. NUL \<notin> set key \<Longrightarrow> length key \<le> 31 \<Longrightarrow> kv_get_value c key = map_of sample_settings key"
    using kv_read_lookup [OF e, of name] by auto
  have "kv_get_value c ''ServerIP'' \<noteq> None" "kv_get_value c ''ServerPort'' \<noteq> None" "kv_get_value c ''RelayMgrServerIP'' \<noteq> None"
    "kv_get_value c ''RelayMgrServerPort'' \<noteq> None" "kv_get_value c ''RelaySvrNo'' \<noteq> None" "kv_get_value c ''RemoteLogIp'' \<noteq> None"
    "kv_get_value c ''RemoteLogPort'' \<noteq> None" "kv_get_value c ''ListenThreads'' \<noteq> None" "kv_get_value c ''RequestKeyNum'' = None"
    by (simp_all add: l sample_settings_def)
  moreover have "kv_get_value c ''ListenThreads'' = Some ''4''" by (simp add: l sample_settings_def)
  moreover have "atoi ''4'' = 4"
    by (simp add: atoi_def strtol_def isspace_def isdigit_def digit_val_def i32_def)
  ultimately show ?thesis
    using c by (auto simp: sysconf_init_def seqS_def bindS_def sysconf_need_def sysconf_default_def get_request_key_def
        set_request_key_default_def no_settings_def)
qed

lemma request_keys_in_bounds_witness:
  "\<exists>s. sysconf_init ''f'' (conf_of (map kv_line sample_settings)) no_settings = (Inr (), s) \<and>
     (case request_key_at 0 s of
        Inl f \<Rightarrow> (0 < (0 :: int) \<or> sc_request_key_num s \<le> 0) \<and> f \<noteq> MemoryFault
      | Inr rc \<Rightarrow> 0 < sc_request_key_num s \<and> rc \<in> set (sc_request_key s) \<and>
          length (rk_request_key rc) \<le> MAX_REQUEST_KEY_NUM)"
  using sample_init [of "''f''"] request_keys_in_bounds [of "''f''" "conf_of (map kv_line sample_settings)" no_settings _ 0]
  by (fastforce split: sum.splits)

end
