(* ===== verification/Switch_Mgr.thy ===== *)
theory Switch_Mgr
  imports Switch_Stats Core_Server_Conf System_Conf
begin

text \<open>
  \<open>RelaySwitchMgr\<close> (\<open>src/switch_mgr.cpp\<close>): every request and every failure of a back end is counted for its
  service and for its site; when the counters of a key reach its limits, the pool of the site is told to move to
  the next idc. The state is the two pools of counters beside the sites of \<open>Core_Server_Conf\<close>. The pools are
  used through the contract \<open>failure_pool\<close>. The locks make each block atomic; one reading of the clock serves a
  whole operation.
\<close>

section \<open>State and operations\<close>

record relay_switch_mgr =
  sm_service_stats_pool :: "string stats_pool"
  sm_is_service_init :: bool
  sm_site_stats_pool :: "int stats_pool"
  sm_is_site_init :: bool

type_synonym switch_world = "relay_switch_mgr \<times> core_world"

definition switch_mgr_new :: relay_switch_mgr where
  "switch_mgr_new = \<lparr>sm_service_stats_pool = [], sm_is_service_init = False,
     sm_site_stats_pool = [], sm_is_site_init = False\<rparr>"

definition init_service_stats_pool :: "int \<Rightarrow> string switch_stats_conf \<Rightarrow> relay_switch_mgr \<Rightarrow> relay_switch_mgr" where
  "init_service_stats_pool now conf m =
     (if sm_is_service_init m then m
      else m\<lparr>sm_service_stats_pool := stats_pool_init now conf (sm_service_stats_pool m)\<rparr>)"

definition init_site_stats_pool :: "int \<Rightarrow> int switch_stats_conf \<Rightarrow> relay_switch_mgr \<Rightarrow> relay_switch_mgr" where
  "init_site_stats_pool now conf m =
     (if sm_is_site_init m then m
      else m\<lparr>sm_site_stats_pool := stats_pool_init now conf (sm_site_stats_pool m)\<rparr>)"

text \<open>\<open>re_init\<close> reads the files the pointers stored by \<open>init\<close> lead to, not its own arguments; the caller
  passes the same objects.\<close>

definition switch_mgr_init :: "int \<Rightarrow> string switch_stats_conf \<Rightarrow> int switch_stats_conf \<Rightarrow> relay_switch_mgr \<Rightarrow> relay_switch_mgr" where
  "switch_mgr_init now service_conf site_conf m =
     (let m = (init_service_stats_pool now service_conf m)\<lparr>sm_is_service_init := True\<rparr>
      in (init_site_stats_pool now site_conf m)\<lparr>sm_is_site_init := True\<rparr>)"

definition switch_mgr_re_init :: "int \<Rightarrow> string switch_stats_conf \<Rightarrow> int switch_stats_conf \<Rightarrow> relay_switch_mgr \<Rightarrow> relay_switch_mgr" where
  "switch_mgr_re_init now service_conf site_conf m =
     (let m = m\<lparr>sm_is_service_init := False, sm_service_stats_pool := []\<rparr>;
          m = (init_service_stats_pool now service_conf m)\<lparr>sm_is_service_init := True\<rparr>;
          m = m\<lparr>sm_is_site_init := False, sm_site_stats_pool := []\<rparr>
      in (init_site_stats_pool now site_conf m)\<lparr>sm_is_site_init := True\<rparr>)"

definition incrRequest :: "int \<Rightarrow> int \<Rightarrow> string \<Rightarrow> relay_switch_mgr \<Rightarrow> relay_switch_mgr" where
  "incrRequest now site_no service_name m =
     (let m = (if sm_is_service_init m \<and> is_switch_key (cstr service_name) (sm_service_stats_pool m)
               then m\<lparr>sm_service_stats_pool := stats_increment_requests now (cstr service_name) (sm_service_stats_pool m)\<rparr>
               else m)
      in if sm_is_site_init m \<and> is_switch_key site_no (sm_site_stats_pool m)
         then m\<lparr>sm_site_stats_pool := stats_increment_requests now site_no (sm_site_stats_pool m)\<rparr> else m)"

text \<open>What both kinds of switch do once the limits are reached: the idc names are looked up, and unless the
  current one is the last the pool of the site gets its flag if switching is configured.\<close>

definition order_switch :: "system_conf \<Rightarrow> int \<Rightarrow> (core_world, unit) op" where
  "order_switch sys_conf site_no =
     bindS (\<lambda>(e, c). (core_server_name site_no c, (e, c))) (\<lambda>server_name.
     bindS (on_fst (hasiteE (get_current_idc (cstr server_name)))) (\<lambda>current_idc.
     bindS (on_fst (hasiteE (get_next_idc (cstr server_name)))) (\<lambda>next_idc.
       if next_idc = [] then returnS ()
       else if is_switch_on sys_conf
       then (\<lambda>(e, c). if omap_find (cc_pool c) site_no \<noteq> None then on_pool site_no set_switch_on (e, c) else (Inr (), (e, c)))
       else returnS ())))"

definition try_service_switch :: "system_conf \<Rightarrow> int \<Rightarrow> int \<Rightarrow> string \<Rightarrow> int \<Rightarrow> (switch_world, int) op" where
  "try_service_switch sys_conf now site_no service_name error = (\<lambda>(m, w).
     if sm_is_service_init m \<and> is_switch_key (cstr service_name) (sm_service_stats_pool m)
          \<and> \<not> stats_is_exist service_name error (sm_service_stats_pool m)
     then let p = stats_increment_errors now (cstr service_name) (sm_service_stats_pool m)
          in if stats_need_switch (cstr service_name) p
             then (case order_switch sys_conf site_no w of
                     (Inl f, w) \<Rightarrow> (Inl f, (m\<lparr>sm_service_stats_pool := p\<rparr>, w))
                   | (Inr _, w) \<Rightarrow> (Inr 1, (m\<lparr>sm_service_stats_pool := stats_reset now (cstr service_name) p,
                                         sm_site_stats_pool := stats_reset now site_no (sm_site_stats_pool m)\<rparr>, w)))
             else (Inr 0, (m\<lparr>sm_service_stats_pool := p\<rparr>, w))
     else (Inr (- 1), (m, w)))"

definition try_site_switch :: "system_conf \<Rightarrow> int \<Rightarrow> int \<Rightarrow> string \<Rightarrow> int \<Rightarrow> (switch_world, int) op" where
  "try_site_switch sys_conf now site_no service_name error = (\<lambda>(m, w).
     if sm_is_site_init m \<and> is_switch_key site_no (sm_site_stats_pool m)
          \<and> stats_is_exist site_no error (sm_site_stats_pool m)
     then let p = stats_increment_errors now site_no (sm_site_stats_pool m)
          in if stats_need_switch site_no p
             then (case order_switch sys_conf site_no w of
                     (Inl f, w) \<Rightarrow> (Inl f, (m\<lparr>sm_site_stats_pool := p\<rparr>, w))
                   | (Inr _, w) \<Rightarrow> (Inr 1, (m\<lparr>sm_site_stats_pool := stats_reset now site_no p,
                                         sm_service_stats_pool := stats_reset now service_name (sm_service_stats_pool m)\<rparr>, w)))
             else (Inr 0, (m\<lparr>sm_site_stats_pool := p\<rparr>, w))
     else (Inr (- 1), (m, w)))"

definition trySwitch :: "system_conf \<Rightarrow> int \<Rightarrow> int \<Rightarrow> string \<Rightarrow> int \<Rightarrow> (switch_world, int) op" where
  "trySwitch sys_conf now site_no service_name error =
     bindS (try_service_switch sys_conf now site_no service_name error) (\<lambda>ret.
       if ret \<noteq> 1
       then bindS (try_site_switch sys_conf now site_no service_name error) (\<lambda>ret1.
              returnS (if ret1 = - 1 \<and> ret = - 1 then - 1 else if ret1 = 1 then 1 else 0))
       else returnS 1)"

section \<open>The contract of a pool of counters\<close>

locale failure_pool =
  fixes key need :: "'k \<Rightarrow> 'p \<Rightarrow> bool" and request failure reset :: "int \<Rightarrow> 'k \<Rightarrow> 'p \<Rightarrow> 'p"
  assumes need_key: "need k p \<Longrightarrow> key k p"
    and keys: "key j (request t k p) = key j p" "key j (failure t k p) = key j p" "key j (reset t k p) = key j p"
    and request_need: "need j (request t k p) = need j p"
    and failure_other: "j \<noteq> k \<Longrightarrow> need j (failure t k p) = need j p"
    and reset_need: "\<not> need k (reset t k p)"
    and reset_less: "need j (reset t k p) \<Longrightarrow> need j p"
begin

text \<open>A pool in which no key is marked is left so by a request, by a reset and by a failure that resets the key
  when it gets marked.\<close>

lemma request_settled: "\<forall>j. \<not> need j p \<Longrightarrow> \<not> need j (request t k p)"
  by (simp add: request_need)

lemma reset_settled: "\<forall>j. \<not> need j p \<Longrightarrow> \<not> need j (reset t k p)"
  using reset_less by blast

lemma failure_reset_settled: "\<forall>j. \<not> need j p \<Longrightarrow> \<not> need j (reset t k (failure t k p))"
  by (cases "j = k") (use reset_need reset_less failure_other in blast)+

lemma failure_settled: "\<forall>j. \<not> need j p \<Longrightarrow> \<not> need k (failure t k p) \<Longrightarrow> \<not> need j (failure t k p)"
  by (cases "j = k") (simp_all add: failure_other)

end

lemma omap_find_map: "omap_find (map (\<lambda>(j, s). (j, f s)) p) k = map_option f (omap_find p k)"
  by (simp add: omap_find_def map_of_map)

interpretation stats: failure_pool "is_switch_key :: 'k :: linorder \<Rightarrow> 'k stats_pool \<Rightarrow> bool" stats_need_switch
  stats_increment_requests stats_increment_errors stats_reset
  by unfold_locales
    (auto simp: is_switch_key_def stats_need_switch_def stats_increment_requests_def stats_increment_errors_def
      stats_reset_def omap_find_set omap_find_map key_reset_def key_requests_def split: option.splits if_splits)

section \<open>What a failure leads to\<close>

definition settled :: "relay_switch_mgr \<Rightarrow> bool" where
  "settled m \<longleftrightarrow> (\<forall>k. \<not> stats_need_switch k (sm_service_stats_pool m)) \<and> (\<forall>k. \<not> stats_need_switch k (sm_site_stats_pool m))"

text \<open>The failure brings the service, or the site, to its limits.\<close>

definition service_fails :: "int \<Rightarrow> string \<Rightarrow> int \<Rightarrow> relay_switch_mgr \<Rightarrow> bool" where
  "service_fails now service_name error m \<longleftrightarrow>
     sm_is_service_init m \<and> is_switch_key (cstr service_name) (sm_service_stats_pool m) \<and>
     \<not> stats_is_exist service_name error (sm_service_stats_pool m) \<and>
     stats_need_switch (cstr service_name) (stats_increment_errors now (cstr service_name) (sm_service_stats_pool m))"

definition site_fails :: "int \<Rightarrow> int \<Rightarrow> int \<Rightarrow> relay_switch_mgr \<Rightarrow> bool" where
  "site_fails now site_no error m \<longleftrightarrow>
     sm_is_site_init m \<and> is_switch_key site_no (sm_site_stats_pool m) \<and>
     stats_is_exist site_no error (sm_site_stats_pool m) \<and>
     stats_need_switch site_no (stats_increment_errors now site_no (sm_site_stats_pool m))"

text \<open>The sites after an order to switch: the pool of the site has its flag, if switching is configured and
  the current idc is not the last, and all else is as before.\<close>

definition ordered :: "system_conf \<Rightarrow> int \<Rightarrow> core_world \<Rightarrow> core_world \<Rightarrow> bool" where
  "ordered sys_conf site w w' \<longleftrightarrow>
     (\<exists>n h. core_server_name site (snd w) = Inr n \<and> fst w' = (fst w)\<lparr>w_hasite := h\<rparr> \<and>
        site_of h = site_of (w_hasite (fst w)) \<and> cc_conf (snd w') = cc_conf (snd w) \<and>
        (\<forall>k. omap_find (cc_pool (snd w')) k =
           (if k = site \<and> is_switch_on sys_conf \<and> next_of (site_of (w_hasite (fst w)) (cstr n)) \<noteq> []
            then map_option (map_option (\<lambda>p. p\<lparr>p_need_switch := True\<rparr>)) (omap_find (cc_pool (snd w)) k)
            else omap_find (cc_pool (snd w)) k)))"

lemma site_of_insert_eq: "site_of (omap_insert n site0 m) = site_of m"
  by (simp add: fun_eq_iff)

lemma order_switch_eq:
  fixes e :: pool_env
  assumes "core_server_name site c = Inr n"
  defines "h \<equiv> omap_insert (cstr n) site0 (omap_insert (cstr n) site0 (w_hasite e))"
  shows "order_switch sys_conf site (e, c) =
    (if next_of (site_of (w_hasite e) (cstr n)) \<noteq> [] \<and> is_switch_on sys_conf \<and> omap_find (cc_pool c) site \<noteq> None
     then on_pool site set_switch_on (e\<lparr>w_hasite := h\<rparr>, c) else (Inr (), (e\<lparr>w_hasite := h\<rparr>, c)))"
  using assms(1) unfolding order_switch_def h_def
  by (simp add: bindS_def hasiteE_eq get_current_idc_eq get_next_idc_eq site_of_insert_eq returnS_def)

lemma order_switch_ordered:
  assumes nn: "no_null (cc_pool c)" and r: "order_switch sys_conf site (e, c) = (Inr u, w')"
  shows "ordered sys_conf site (e, c) w'"
proof -
  obtain n where n: "core_server_name site c = Inr n"
    using r by (cases "core_server_name site c") (auto simp: order_switch_def bindS_def)
  define h where "h = omap_insert (cstr n) site0 (omap_insert (cstr n) site0 (w_hasite e))"
  have h: "site_of h = site_of (w_hasite e)" by (simp add: h_def site_of_insert_eq)
  obtain e' c' where w': "w' = (e', c')" by (cases w')
  note eq = order_switch_eq [OF n, of sys_conf e, folded h_def]
  let ?on = "next_of (site_of (w_hasite e) (cstr n)) \<noteq> [] \<and> is_switch_on sys_conf"
  show ?thesis
  proof (cases "?on \<and> omap_find (cc_pool c) site \<noteq> None")
    case True
    then have "on_pool site set_switch_on (e\<lparr>w_hasite := h\<rparr>, c) = (Inr (), (e', c'))"
      using r eq w' by simp
    from on_pool_switch [OF nn this] show ?thesis
      using n h True unfolding ordered_def w' by (intro exI [of _ n] exI [of _ h]) simp
  next
    case False
    then have "e' = e\<lparr>w_hasite := h\<rparr>" "c' = c" using r eq w' by auto
    then show ?thesis using n h False unfolding ordered_def w' by (intro exI [of _ n] exI [of _ h]) auto
  qed
qed

lemma stats_reset_counts:
  assumes "omap_find (stats_reset now k p) k = Some s"
  shows "ks_requests s = 0 \<and> ks_errors s = 0 \<and> ks_begin_timestamp s = now"
  using assms by (auto simp: stats_reset_def omap_find_map key_reset_def split: option.splits)

lemmas attempt_settled = stats.failure_settled stats.failure_reset_settled stats.reset_settled

lemma try_service_switch_spec:
  assumes s: "settled m" and r: "try_service_switch sys_conf now site service_name error (m, w) = (Inr ret, (m', w'))"
  shows "settled m' \<and> ret \<in> {- 1, 0, 1} \<and> (ret = 1 \<longleftrightarrow> service_fails now service_name error m) \<and>
    (if ret = 1 then order_switch sys_conf site w = (Inr (), w')
        \<and> sm_service_stats_pool m' = stats_reset now (cstr service_name) (stats_increment_errors now (cstr service_name) (sm_service_stats_pool m))
        \<and> sm_site_stats_pool m' = stats_reset now site (sm_site_stats_pool m)
     else w' = w \<and> sm_site_stats_pool m' = sm_site_stats_pool m)
    \<and> sm_is_site_init m' = sm_is_site_init m"
proof (cases "sm_is_service_init m \<and> is_switch_key (cstr service_name) (sm_service_stats_pool m)
          \<and> \<not> stats_is_exist service_name error (sm_service_stats_pool m)")
  case False
  then show ?thesis using r s by (auto simp: try_service_switch_def service_fails_def)
next
  case rel: True
  define p where "p = stats_increment_errors now (cstr service_name) (sm_service_stats_pool m)"
  have f: "service_fails now service_name error m \<longleftrightarrow> stats_need_switch (cstr service_name) p"
    using rel by (simp add: service_fails_def p_def)
  show ?thesis
  proof (cases "stats_need_switch (cstr service_name) p")
    case False
    then have "m' = m\<lparr>sm_service_stats_pool := p\<rparr>" "w' = w" "ret = 0"
      using r rel by (auto simp: try_service_switch_def p_def [symmetric])
    then show ?thesis using False f s attempt_settled(1) [of "sm_service_stats_pool m" "cstr service_name" now]
      by (simp add: settled_def p_def)
  next
    case True
    then have o: "order_switch sys_conf site w = (Inr (), w')" and m': "m' = m\<lparr>sm_service_stats_pool := stats_reset now (cstr service_name) p,
        sm_site_stats_pool := stats_reset now site (sm_site_stats_pool m)\<rparr>" "ret = 1"
      using r rel by (auto simp: try_service_switch_def p_def [symmetric] split: prod.splits sum.splits)
    then show ?thesis using f True s attempt_settled(2) [of "sm_service_stats_pool m"] attempt_settled(3) [of "sm_site_stats_pool m"]
      unfolding p_def settled_def by simp
  qed
qed

lemma try_site_switch_spec:
  assumes s: "settled m" and r: "try_site_switch sys_conf now site service_name error (m, w) = (Inr ret, (m', w'))"
  shows "settled m' \<and> ret \<in> {- 1, 0, 1} \<and> (ret = 1 \<longleftrightarrow> site_fails now site error m) \<and>
    (if ret = 1 then order_switch sys_conf site w = (Inr (), w')
        \<and> sm_site_stats_pool m' = stats_reset now site (stats_increment_errors now site (sm_site_stats_pool m))
        \<and> sm_service_stats_pool m' = stats_reset now service_name (sm_service_stats_pool m)
     else w' = w \<and> sm_service_stats_pool m' = sm_service_stats_pool m)"
proof (cases "sm_is_site_init m \<and> is_switch_key site (sm_site_stats_pool m)
          \<and> stats_is_exist site error (sm_site_stats_pool m)")
  case False
  then show ?thesis using r s by (auto simp: try_site_switch_def site_fails_def)
next
  case rel: True
  define p where "p = stats_increment_errors now site (sm_site_stats_pool m)"
  have f: "site_fails now site error m \<longleftrightarrow> stats_need_switch site p"
    using rel by (simp add: site_fails_def p_def)
  show ?thesis
  proof (cases "stats_need_switch site p")
    case False
    then have "m' = m\<lparr>sm_site_stats_pool := p\<rparr>" "w' = w" "ret = 0"
      using r rel by (auto simp: try_site_switch_def p_def [symmetric])
    then show ?thesis using False f s attempt_settled(1) [of "sm_site_stats_pool m" site now]
      by (simp add: settled_def p_def)
  next
    case True
    then have o: "order_switch sys_conf site w = (Inr (), w')" and m': "m' = m\<lparr>sm_site_stats_pool := stats_reset now site p,
        sm_service_stats_pool := stats_reset now service_name (sm_service_stats_pool m)\<rparr>" "ret = 1"
      using r rel by (auto simp: try_site_switch_def p_def [symmetric] split: prod.splits sum.splits)
    then show ?thesis using f True s attempt_settled(2) [of "sm_site_stats_pool m"] attempt_settled(3) [of "sm_service_stats_pool m"]
      unfolding p_def settled_def by simp
  qed
qed

lemma trySwitch_spec:
  assumes s: "settled m" and r: "trySwitch sys_conf now site service_name error (m, w) = (Inr ret, (m', w'))"
  shows "settled m' \<and> (ret = 1 \<longleftrightarrow> service_fails now service_name error m \<or> site_fails now site error m)
    \<and> (if ret = 1 then order_switch sys_conf site w = (Inr (), w') else w' = w)"
proof -
  obtain r1 m1 w1 where t: "try_service_switch sys_conf now site service_name error (m, w) = (Inr r1, (m1, w1))"
    using r by (auto simp: trySwitch_def bindS_eq_Inr)
  note a = try_service_switch_spec [OF s t]
  show ?thesis
  proof (cases "r1 = 1")
    case True
    then have "ret = 1" "m' = m1" "w' = w1" using r t by (simp_all add: trySwitch_def bindS_def returnS_def)
    then show ?thesis using True a by simp
  next
    case False
    then obtain r2 where t2: "try_site_switch sys_conf now site service_name error (m1, w) = (Inr r2, (m', w'))"
      and ret: "ret = (if r2 = - 1 \<and> r1 = - 1 then - 1 else if r2 = 1 then 1 else 0)"
      using r t a by (auto simp: trySwitch_def bindS_eq_Inr returnS_def bindS_def split: prod.splits sum.splits)
    have sf: "site_fails now site error m1 = site_fails now site error m"
      using a False by (simp add: site_fails_def)
    have r1: "\<not> service_fails now service_name error m" using a False by blast
    have one: "ret = 1 \<longleftrightarrow> r2 = 1" using ret by simp
    show ?thesis using try_site_switch_spec [OF _ t2] a sf r1 unfolding one by simp
  qed
qed

lemma order_switch_history:
  assumes h: "core_history e c H" and r: "order_switch sys_conf site (e, c) = (Inr (), (e', c'))"
  shows "core_history e' c' H \<and> ordered sys_conf site (e, c) (e', c') \<and> (\<forall>a. used_at e' a = used_at e a)"
proof -
  obtain n where n: "core_server_name site c = Inr n"
    using r by (cases "core_server_name site c") (auto simp: order_switch_def bindS_def)
  define h where "h = omap_insert (cstr n) site0 (omap_insert (cstr n) site0 (w_hasite e))"
  have hist: "core_history (e\<lparr>w_hasite := h\<rparr>) c H" using core_history.outside [OF h, where k = "w_kernel e" and h = h] by simp
  have nn: "no_null (cc_pool c)" using core_history_inv [OF h] by (simp add: core_inv_def sites_ok_def)
  have "core_history e' c' H"
    using r hist unfolding order_switch_eq [OF n, of sys_conf e, folded h_def]
    by (auto split: if_splits intro: core_history.marked)
  moreover have o: "ordered sys_conf site (e, c) (e', c')" by (rule order_switch_ordered [OF nn r])
  moreover have "used_at e' a = used_at e a" for a using o by (auto simp: ordered_def used_at_def obj_at_def)
  ultimately show ?thesis by blast
qed

definition switch_site1 :: core_conf where
  "switch_site1 = sample_site\<lparr>cs_server_name := ''s''\<rparr>"

definition switch_core1 :: core_server_conf where
  "switch_core1 = \<lparr>cc_conf = \<lparr>c_data = [(7, switch_site1)], c_rows = 1\<rparr>, cc_pool = [(7, Some (pool_for switch_site1))]\<rparr>"

definition switch_mgr1 :: relay_switch_mgr where
  "switch_mgr1 = switch_mgr_init 0 \<lparr>sw_stats_info = [(''q'', \<lparr>st_key_id = ''1'', st_time_interval = 60,
     st_minimal_success_ratio = 50, st_minimal_request_threshold = 1, st_errcode_list = []\<rparr>)], sw_is_init = True\<rparr>
     \<lparr>sw_stats_info = [], sw_is_init = True\<rparr> switch_mgr_new"

definition switching_on :: system_conf where
  "switching_on = no_settings\<lparr>sc_site_switch_action := 1\<rparr>"

lemma switch1_history: "core_history env1 switch_core1 {}"
  by (rule core_history.start [of env1 "switch_core1\<lparr>cc_pool := []\<rparr>" "Inr ()"])
    (simp_all add: env1_def env0_def switch_core1_def confs_ok_def sample_site_def switch_site1_def init_api_pool_def)

lemma switch1_mgr: "sm_service_stats_pool switch_mgr1 = [(''q'', key_stats_new 0 ''q'' \<lparr>st_key_id = ''1'', st_time_interval = 60,
     st_minimal_success_ratio = 50, st_minimal_request_threshold = 1, st_errcode_list = []\<rparr>)]"
  "sm_is_service_init switch_mgr1" "sm_site_stats_pool switch_mgr1 = []"
  by (simp_all add: switch_mgr1_def switch_mgr_init_def switch_mgr_new_def init_service_stats_pool_def
      init_site_stats_pool_def stats_pool_init_def)

lemma switch1_settled: "settled switch_mgr1"
  by (simp add: settled_def switch1_mgr stats_need_switch_def key_stats_new_def)

lemma switch1_fails: "service_fails 5 ''q'' 3 switch_mgr1"
proof -
  have "succ_ratio 1 1 \<le> to_float (of_int 50)" by (subst succ_ratio_le) simp_all
  then show ?thesis
    by (simp add: service_fails_def switch1_mgr is_switch_key_def stats_is_exist_def key_is_exist_def
        binary_search_def lower_bound.simps stats_need_switch_def stats_increment_errors_def key_errors_def
        key_stats_new_def cstr_def)
qed

lemma switch1_try: "\<exists>m' e' c'. trySwitch switching_on 5 7 ''q'' 3 (switch_mgr1, (env1, switch_core1)) = (Inr 1, (m', (e', c')))"
proof -
  have n: "core_server_name 7 switch_core1 = Inr ''s''"
    by (simp add: core_server_name_def core_get_def switch_core1_def switch_site1_def)
  have "\<exists>w'. order_switch switching_on 7 (env1, switch_core1) = (Inr (), w')"
    unfolding order_switch_eq [OF n] by (simp add: on_pool_def switch_core1_def set_switch_on_def poolS_def)
  then show ?thesis using switch1_fails
    by (auto simp: trySwitch_def try_service_switch_def service_fails_def bindS_def returnS_def Let_def)
qed

text \<open>C22: a failure of a back end returns 1 exactly if it brings its service or its site to the limits; then the
  pool of the site is told to switch, if that is configured and there is a next idc, and nothing else of the
  sites changes; otherwise they do not change at all. No key stays marked, and the sites stay consistent.\<close>

theorem switch_ordered_by_failures:
  assumes "core_history e c H" and "settled m"
    and "trySwitch sys_conf now site service_name error (m, (e, c)) = (Inr ret, (m', (e', c')))"
  shows "settled m' \<and> core_history e' c' H \<and>
    (ret = 1 \<longleftrightarrow> service_fails now service_name error m \<or> site_fails now site error m) \<and>
    (if ret = 1 then ordered sys_conf site (e, c) (e', c') else e' = e \<and> c' = c)"
  using trySwitch_spec [OF assms(2,3)] order_switch_history [OF assms(1)] assms(1) by (auto split: if_splits)

lemma switch_ordered_by_failures_witness:
  "fst (trySwitch switching_on 5 7 ''q'' 3 (switch_mgr1, (env1, switch_core1))) = Inr 1"
proof -
  obtain ret m' e' c' where t: "trySwitch switching_on 5 7 ''q'' 3 (switch_mgr1, (env1, switch_core1)) = (Inr ret, (m', (e', c')))"
    using switch1_try by blast
  have "ret = 1" using switch_ordered_by_failures [OF switch1_history switch1_settled t] switch1_fails by blast
  then show ?thesis using t by simp
qed

lemma switched_site_moves:
  assumes h: "core_history e c H" and o: "order_switch sys_conf site (e, c) = (Inr (), (e', c'))"
    and sw: "is_switch_on sys_conf" and p: "omap_find (cc_pool c) site = Some (Some p)"
    and n: "core_server_name site c = Inr (p_server_name p)" "cstr (p_server_name p) = p_server_name p"
    and nx: "next_of (site_of (w_hasite e) (p_server_name p)) \<noteq> []"
    and old: "p_switch_state p = EM_SWITCH_ONGOING \<longrightarrow> (\<forall>a \<in> set (ptrs (old p)). (site, a) \<notin> H)"
  shows "case get_api site (e', c') of (r, (e'', c'')) \<Rightarrow>
     let i = site_of (w_hasite e) (p_server_name p); i' = i\<lparr>s_current_idc := next_of i\<rparr>
     in site_of (w_hasite e'') (p_server_name p) = i' \<and>
        r = (if 0 < p_max_conn_num p then open_answer (p_server_name p) (next_of i) i' (length (w_heap e))
             else Inl (pool_busy (p_server_name p) (p_max_conn_num p) 0)) \<and>
        (case r of Inl f \<Rightarrow> True | Inr a \<Rightarrow> opened_for (next_of i) i' (obj_at e'' a))"
proof -
  define q where "q = p\<lparr>p_need_switch := True\<rparr>"
  note oh = order_switch_history [OF h o]
  have st: "site_of (w_hasite e') = site_of (w_hasite e)" and q: "omap_find (cc_pool c') site = Some (Some q)"
    using oh n nx sw p by (auto simp: ordered_def q_def)
  have heap: "w_heap e' = w_heap e" using oh by (auto simp: ordered_def)
  have inv: "core_inv e c H" "core_inv e' c' H" using core_history_inv h oh by blast+
  have "\<not> used_at e' a" if a: "a \<in> set (ptrs (old p))" "p_switch_state p = EM_SWITCH_ONGOING" for a
  proof
    assume "used_at e' a"
    then obtain t where t: "(t, a) \<in> H" using inv(2) unfolding core_inv_def by blast
    then obtain q' where "omap_find (cc_pool c) t = Some (Some q')" "a \<in> pool_ptrs q'"
      using inv(1) unfolding core_inv_def by blast
    moreover have "a \<in> pool_ptrs p" using a(1) by (simp add: pool_ptrs_def)
    ultimately have "t = site" using inv(1) p unfolding core_inv_def sites_ok_def by (metis disjoint_iff)
    then show False using t old a by blast
  qed
  moreover have "old q = old p" by (simp add: q_def old_def)
  moreover have "pool_ok e' q" using inv(2) q unfolding core_inv_def sites_ok_def by blast
  ultimately have m: "case pool_get user passwd (e', q) of (r, (e'', p')) \<Rightarrow>
     let i = site_of (w_hasite e') (p_server_name q); i' = i\<lparr>s_current_idc := next_of i\<rparr>
     in site_of (w_hasite e'') (p_server_name q) = i' \<and> \<not> p_need_switch p' \<and>
        r = (if 0 < p_max_conn_num q then open_answer (p_server_name q) (next_of i) i' (length (w_heap e'))
             else Inl (pool_busy (p_server_name q) (p_max_conn_num q) 0)) \<and>
        (case r of Inl f \<Rightarrow> True | Inr a \<Rightarrow> opened_for (next_of i) i' (obj_at e'' a))" for user passwd
    using nx st by (intro pool_get_moves) (auto simp: q_def)
  define cs where "cs = omap_get core_conf0 (omap_insert site core_conf0 (c_data (cc_conf c'))) site"
  obtain r e'' p' where g: "pool_get (cs_user cs) (cs_passwd cs) (e', q) = (r, (e'', p'))"
    by (cases "pool_get (cs_user cs) (cs_passwd cs) (e', q)") auto
  obtain c'' where get: "get_api site (e', c') = (r, (e'', c''))"
    using g q by (simp add: get_api_def on_pool_def Let_def cs_def)
  have "p_server_name q = p_server_name p" "p_max_conn_num q = p_max_conn_num p" by (simp_all add: q_def)
  from m [of "cs_user cs" "cs_passwd cs", unfolded g prod.case Let_def st heap this] show ?thesis
    unfolding get prod.case Let_def by blast
qed

text \<open>C11: the two parts together. Where switching is configured, the pool of the site has a next idc in the order of its
  server name and no connection of an earlier switch is still held: once the failures of a service or of a site reach
  the limits, the next \<open>get_api\<close> of the site makes the next idc the current one and answers with a new connection to
  the node that serves it. It can only fail because no node serves that idc, because the protocol of the site is unknown,
  or because the pool of the site may have no connection at all, each with its own exception.\<close>

theorem failures_move_site:
  assumes "core_history e c H" and "settled m"
    and "trySwitch sys_conf now site service_name error (m, (e, c)) = (Inr ret, (m', (e', c')))"
    and "service_fails now service_name error m \<or> site_fails now site error m"
    and "is_switch_on sys_conf" and "omap_find (cc_pool c) site = Some (Some p)"
    and "core_server_name site c = Inr (p_server_name p)" and "cstr (p_server_name p) = p_server_name p"
    and "next_of (site_of (w_hasite e) (p_server_name p)) \<noteq> []"
    and "p_switch_state p = EM_SWITCH_ONGOING \<longrightarrow> (\<forall>a \<in> set (ptrs (old p)). (site, a) \<notin> H)"
  shows "case get_api site (e', c') of (r, (e'', c'')) \<Rightarrow>
     let i = site_of (w_hasite e) (p_server_name p); i' = i\<lparr>s_current_idc := next_of i\<rparr>
     in site_of (w_hasite e'') (p_server_name p) = i' \<and>
        r = (if 0 < p_max_conn_num p then open_answer (p_server_name p) (next_of i) i' (length (w_heap e))
             else Inl (pool_busy (p_server_name p) (p_max_conn_num p) 0)) \<and>
        (case r of Inl f \<Rightarrow> True | Inr a \<Rightarrow> opened_for (next_of i) i' (obj_at e'' a))"
proof -
  have "order_switch sys_conf site (e, c) = (Inr (), (e', c'))"
    using trySwitch_spec [OF assms(2,3)] assms(4) by auto
  from switched_site_moves [OF assms(1) this assms(5-10)] show ?thesis .
qed

lemma failures_move_site_witness:
  "case trySwitch switching_on 5 7 ''q'' 3 (switch_mgr1, (env1, switch_core1)) of (q, (m', (e', c'))) \<Rightarrow>
     case get_api 7 (e', c') of (r, (e'', c'')) \<Rightarrow>
       s_current_idc (site_of (w_hasite e'') ''s'') = ''sh'' \<and> r = Inr 0 \<and>
       map_option (\<lambda>x. a_ip (obj_base x)) (obj_at e'' 0) = Some ''1.2.3.5''"
proof -
  obtain ret m' e' c' where t: "trySwitch switching_on 5 7 ''q'' 3 (switch_mgr1, (env1, switch_core1)) = (Inr ret, (m', (e', c')))"
    using switch1_try by blast
  have p: "omap_find (cc_pool switch_core1) 7 = Some (Some (pool_for switch_site1))" by (simp add: switch_core1_def)
  have n: "p_server_name (pool_for switch_site1) = ''s''" "p_max_conn_num (pool_for switch_site1) = 4"
    by (simp_all add: pool_for_def new_pool_def switch_site1_def sample_site_def)
  have cn: "core_server_name 7 switch_core1 = Inr (p_server_name (pool_for switch_site1))"
    unfolding n by (simp add: core_server_name_def core_get_def switch_core1_def switch_site1_def)
  have st: "p_switch_state (pool_for switch_site1) \<noteq> EM_SWITCH_ONGOING" by (simp add: pool_for_def new_pool_def)
  define i where "i = (site_of (w_hasite env1) ''s'')\<lparr>s_current_idc := ''sh''\<rparr>"
  obtain r e'' c'' where g: "get_api 7 (e', c') = (r, (e'', c''))" by (cases "get_api 7 (e', c')") auto
  have nx: "next_of (site_of (w_hasite env1) (p_server_name (pool_for switch_site1))) \<noteq> []" unfolding n env1_moves by simp
  have on: "is_switch_on switching_on" "cstr (p_server_name (pool_for switch_site1)) = p_server_name (pool_for switch_site1)"
    by (simp_all add: n is_switch_on_def switching_on_def cstr_def)
  have idle: "p_switch_state (pool_for switch_site1) = EM_SWITCH_ONGOING \<longrightarrow>
      (\<forall>a \<in> set (ptrs (old (pool_for switch_site1))). (7, a) \<notin> {})"
    using st by blast
  from failures_move_site [OF switch1_history switch1_settled t disjI1 [OF switch1_fails] on(1) p cn on(2) nx idle,
      unfolded g prod.case Let_def n env1_moves(1), folded i_def]
  have m: "site_of (w_hasite e'') ''s'' = i"
    "r = (if 0 < (4 :: int) then open_answer ''s'' ''sh'' i (length (w_heap env1)) else Inl (pool_busy ''s'' 4 0))"
    "case r of Inl f \<Rightarrow> True | Inr a \<Rightarrow> opened_for ''sh'' i (obj_at e'' a)"
    by blast+
  then have "r = Inr 0" using env1_moves(2,3) by (simp add: i_def)
  with m(1,3) show ?thesis using env1_moves(4) [of "obj_at e'' 0"] by (simp add: t g i_def)
qed

end
