(* ===== verification/Request_Type_Conf.thy ===== *)
theory Request_Type_Conf
  imports Config
begin

text \<open>
  The tables looked up for each request: \<open>CRequestTypeConf\<close> (\<open>src/request_type_conf.cpp\<close>), the
  route of a request key; \<open>ErrorCodeEscapeConf\<close> (\<open>src/errcode_escape_conf.cpp\<close>), the texts put in
  place of error texts; and \<open>DetailInfoServiceConf\<close> (\<open>src/detail_info_service_conf.cpp\<close>), the
  request types logged in detail.
\<close>

section \<open>Routes\<close>

text \<open>The two arrays of 64 bytes are filled with \<open>strncpy\<close> and their full size, so a text of 64
  bytes or more is stored without a terminator.\<close>

record request_conf_data =
  rt_request_type :: string
  rt_property :: int
  rt_site_no :: int
  rt_protocol :: int
  rt_service_name :: string

type_synonym request_types = "(string, request_conf_data) omap"
type_synonym request_type_conf = "request_types config"

definition EM_PROPERTY_DISPATCH :: int where "EM_PROPERTY_DISPATCH = 1"
definition EM_PROPERTY_PROCESS :: int where "EM_PROPERTY_PROCESS = 2"
definition EM_PROTOCOL_TEXT :: int where "EM_PROTOCOL_TEXT = 1"
definition EM_PROTOCOL_BIN :: int where "EM_PROTOCOL_BIN = 2"
definition MAX_REQUEST_TYPE_LEN :: nat where "MAX_REQUEST_TYPE_LEN = 64"
definition MAX_SERVICE_NAME :: nat where "MAX_SERVICE_NAME = 64"

definition request_record :: "string \<Rightarrow> int \<Rightarrow> int \<Rightarrow> int \<Rightarrow> string \<Rightarrow> request_conf_data" where
  "request_record key property site_no protocol service =
     \<lparr>rt_request_type = strncpy (cstr key) MAX_REQUEST_TYPE_LEN, rt_property = property, rt_site_no = site_no,
      rt_protocol = protocol, rt_service_name = strncpy (cstr service) MAX_SERVICE_NAME\<rparr>"

text \<open>The loop over the sub keys and their service names, which are equally many.\<close>

fun add_sub_keys :: "string \<Rightarrow> int \<Rightarrow> int \<Rightarrow> int \<Rightarrow> string list \<Rightarrow> string list \<Rightarrow> (request_types, unit) op" where
  "add_sub_keys master_key property site_no protocol (sub # subs) (service # services) =
     (let request_key = master_key @ ''^'' @ sub
      in seqS (modS (omap_set request_key (request_record request_key property site_no protocol service)))
           (add_sub_keys master_key property site_no protocol subs services))"
| "add_sub_keys master_key property site_no protocol _ _ = returnS ()"

definition request_get_line :: "string \<Rightarrow> (request_types, unit) op" where
  "request_get_line str =
     (let conf_vec = split str CHR '':'' 8
      in if length conf_vec < 5
         then throwS (THROW CConfigException ERR_CONF (''lack of some config items['' @ str @ '']''))
         else
           let keys = conf_vec ! 0;
               is_multi_key = CHR ''|'' \<in> set keys;
               master_key = takeWhile (\<lambda>c. c \<noteq> CHR ''|'') keys;
               sub_keys = drop 1 (dropWhile (\<lambda>c. c \<noteq> CHR ''|'') keys);
               property = atoi (conf_vec ! 1);
               site_no = atoi (conf_vec ! 2);
               protocol = atoi (conf_vec ! 3)
           in if is_multi_key then
                let sub_key_vec = split (cstr sub_keys) CHR '','' 256;
                    service_name_vec = split (conf_vec ! 4) CHR '','' 256
                in if length sub_key_vec \<noteq> length service_name_vec
                   then throwS (THROW CConfigException ERR_CONF
                          (''request_type number is not equal service_name number['' @ str @ '']''))
                   else add_sub_keys master_key property site_no protocol sub_key_vec service_name_vec
              else modS (omap_set master_key (request_record master_key property site_no protocol (conf_vec ! 4))))"

definition request_clear :: "(request_type_conf, unit) op" where
  "request_clear = config_clear (\<lambda>_. [])"

definition request_read_conf :: "string \<Rightarrow> conf_file \<Rightarrow> (request_type_conf, unit) op" where
  "request_read_conf = config_read_conf (get_line_entrance request_get_line)"

definition request_get :: "string \<Rightarrow> request_type_conf \<Rightarrow> fault + request_conf_data" where
  "request_get request_type c =
     (case omap_find (c_data c) request_type of
        None \<Rightarrow> Inl (THROW CConfigException (error_no RequestTypeInvalid)
                  (''request_type_conf: request_type not find['' @ request_type @ '']''))
      | Some d \<Rightarrow> Inr d)"

subsection \<open>A line of routes\<close>

lemma add_sub_keys_eq:
  "length subs = length services \<Longrightarrow>
     add_sub_keys m p s q subs services d =
       (Inr (), fold (\<lambda>(k, v). omap_set k v)
          (map (\<lambda>(sub, service). (m @ ''^'' @ sub, request_record (m @ ''^'' @ sub) p s q service)) (zip subs services)) d)"
  by (induction m p s q subs services arbitrary: d rule: add_sub_keys.induct) (auto simp: returnS_def Let_def)

definition route_text :: "string \<Rightarrow> bool" where
  "route_text t \<longleftrightarrow> t \<noteq> [] \<and> clean t \<and> NUL \<notin> set t \<and> set t \<inter> set '':|,'' = {}"

definition route_line :: "string \<Rightarrow> string list \<Rightarrow> int \<Rightarrow> int \<Rightarrow> int \<Rightarrow> string list \<Rightarrow> string" where
  "route_line master subs p s q services =
     join CHR '':'' [master @ ''|'' @ join CHR '','' subs, show_int p, show_int s, show_int q, join CHR '','' services]"

lemma route_texts:
  assumes "\<forall>t \<in> set ts. route_text t" and "ts \<noteq> []"
  shows "split (join CHR '','' ts) CHR '','' (int (length ts)) = ts" "clean (join CHR '','' ts)"
    "NUL \<notin> set (join CHR '','' ts)" "CHR '':'' \<notin> set (join CHR '','' ts)" "join CHR '','' ts \<noteq> []"
    "int (length ts) \<le> 257 \<Longrightarrow> split (join CHR '','' ts) CHR '','' 256 = ts"
proof -
  have t: "\<forall>t \<in> set ts. token_for CHR '','' t" "last ts \<noteq> []"
    using assms by (auto simp: route_text_def token_for_def)
  show "split (join CHR '','' ts) CHR '','' (int (length ts)) = ts"
    "int (length ts) \<le> 257 \<Longrightarrow> split (join CHR '','' ts) CHR '','' 256 = ts"
    using t assms(2) by (auto intro!: split_join simp: isspace_def)
  show "clean (join CHR '','' ts)" "join CHR '','' ts \<noteq> []"
    using clean_join [of ts "CHR '',''"] join_nonempty [of ts "CHR '',''"] assms by (auto simp: route_text_def)
  show "NUL \<notin> set (join CHR '','' ts)" "CHR '':'' \<notin> set (join CHR '','' ts)"
    using assms(1) set_join [of "CHR '',''" ts] by (auto simp: route_text_def)
qed

text \<open>A line with a master key, sub keys and services adds for each sub key the route
  \<open>master^sub\<close> with the numbers and the service of the line (the last one where a sub key
  repeats), and changes no other route.\<close>

theorem route_line_roundtrip:
  assumes "route_text master" and "\<forall>t \<in> set subs. route_text t" and "\<forall>t \<in> set services. route_text t"
    and "length subs = length services" and "subs \<noteq> []" and "length subs \<le> 257"
    and "in_i32 p" and "in_i32 s" and "in_i32 q"
  shows "case request_get_line (route_line master subs p s q services) m of (r, m') \<Rightarrow>
     r = Inr () \<and> (\<forall>key. omap_find m' key =
       (case map_of (rev (map (\<lambda>(sub, service). (master @ ''^'' @ sub, request_record (master @ ''^'' @ sub) p s q service))
            (zip subs services))) key of
          Some d \<Rightarrow> Some d | None \<Rightarrow> omap_find m key))"
proof -
  have sv: "services \<noteq> []" "length services \<le> 257" using assms(4-6) by auto
  note st = route_texts [OF assms(2,5)] and vt = route_texts [OF assms(3) sv(1)]
  define keys where "keys = master @ ''|'' @ join CHR '','' subs"
  define fields where "fields = [keys, show_int p, show_int s, show_int q, join CHR '','' services]"
  have "clean keys" using assms(1) st(2,5) by (auto simp: keys_def clean_def route_text_def)
  moreover have "CHR '':'' \<notin> set keys" using assms(1) st(4) by (auto simp: keys_def route_text_def)
  moreover have "token_for CHR '':'' (show_int x)" for x by (rule show_int_token) (simp_all add: isdigit_def)
  ultimately have "\<forall>t \<in> set fields. token_for CHR '':'' t"
    using vt(2,4) by (simp add: fields_def) (simp add: token_for_def)
  then have f: "split (route_line master subs p s q services) CHR '':'' 8 = fields"
    unfolding route_line_def keys_def [symmetric] fields_def [symmetric]
    using vt(5) by (intro split_join) (auto simp: fields_def isspace_def)
  have mk: "takeWhile (\<lambda>c. c \<noteq> CHR ''|'') keys = master" "drop 1 (dropWhile (\<lambda>c. c \<noteq> CHR ''|'') keys) = join CHR '','' subs"
    using assms(1) by (auto simp: keys_def route_text_def takeWhile_token dropWhile_token)
  have sp: "split (cstr (join CHR '','' subs)) CHR '','' 256 = subs" "split (join CHR '','' services) CHR '','' 256 = services"
    using st(3,6) vt(6) assms(4,6) sv by (auto simp: cstr_id)
  have "CHR ''|'' \<in> set keys" by (simp add: keys_def)
  then have "request_get_line (route_line master subs p s q services) m = add_sub_keys master p s q subs services m"
    using f mk sp assms(4,7-9) by (simp add: request_get_line_def Let_def fields_def atoi_show_int)
  moreover define kvs where "kvs = map (\<lambda>(sub, service). (master @ ''^'' @ sub,
      request_record (master @ ''^'' @ sub) p s q service)) (zip subs services)"
  ultimately have "request_get_line (route_line master subs p s q services) m
      = (Inr (), fold (\<lambda>(k, v). omap_set k v) kvs m)"
    using add_sub_keys_eq [OF assms(4), of master p s q m] by simp
  then show ?thesis
    unfolding kvs_def [symmetric] by (simp only: prod.case om.assign_all_last_wins simp_thms)
qed

lemma route_line_roundtrip_witness:
  "case request_get_line (route_line ''100'' [''1'', ''2''] 1 7 2 [''svc_a'', ''svc_b'']) [] of (r, m') \<Rightarrow>
     r = Inr () \<and> omap_find m' ''100^2'' = Some (request_record ''100^2'' 1 7 2 ''svc_b'')"
  using route_line_roundtrip [of "''100''" "[''1'', ''2'']" "[''svc_a'', ''svc_b'']" 1 7 2 "[]"]
  by (simp add: route_text_def clean_def isspace_def in_i32_def split: prod.splits)

section \<open>Error texts\<close>

text \<open>\<open>strchr(cset, c)\<close>: the terminator of the set is found as well. \<open>filter_chars\<close> has no terminator:
  the set goes on with the bytes \<open>beyond\<close> that follow the array in memory.\<close>

definition filter_chars :: string where
  "filter_chars = [CHR 0x0A, CHR 0x0D, CHR 0x20]"

definition in_cset :: "string \<Rightarrow> char \<Rightarrow> bool" where
  "in_cset cset c \<longleftrightarrow> c = NUL \<or> c \<in> set (cstr cset)"

text \<open>The second loop stops at the first character (\<open>ep > start\<close>).\<close>

definition trimString :: "string \<Rightarrow> string \<Rightarrow> string" where
  "trimString cset s =
     (let sp = length (takeWhile (in_cset cset) s);
          back = length (takeWhile (in_cset cset) (rev (drop 1 s)));
          ep = length s - 1 - back
      in if s = [] \<or> sp > ep then [] else take (ep - sp + 1) (drop sp s))"

type_synonym errcode_escape = "(int, string) omap"

fun errcode_read_lines :: "string \<Rightarrow> string list \<Rightarrow> (errcode_escape, unit) op" where
  "errcode_read_lines beyond [] = returnS ()"
| "errcode_read_lines beyond (l # ls) =
     (let buffer = trimString (filter_chars @ beyond) (cstr l)
      in if length buffer \<le> 1 then errcode_read_lines beyond ls
         else if hd buffer = CHR ''#'' then errcode_read_lines beyond ls
         else
           let str_vec = split buffer CHR '':'' 1
           in if length str_vec < 2 then throwS MemoryFault
              else seqS (modS (omap_set (atoi (str_vec ! 0)) (str_vec ! 1))) (errcode_read_lines beyond ls))"

definition errcode_read_conf :: "string \<Rightarrow> string \<Rightarrow> conf_file \<Rightarrow> (errcode_escape, unit) op" where
  "errcode_read_conf beyond config_file file =
     (case file of
        NoFile err \<Rightarrow> throwS (THROW CConfigException ERR_CONF
                        (''error code escape conf error, invalid config file:'' @ config_file))
      | File content err \<Rightarrow> errcode_read_lines beyond (fgets_lines 510 content))"

definition errcode_clean :: "(errcode_escape, unit) op" where
  "errcode_clean = modS (\<lambda>_. [])"

definition isEscapedCode :: "int \<Rightarrow> errcode_escape \<Rightarrow> bool" where
  "isEscapedCode err_code m \<longleftrightarrow> omap_find m err_code \<noteq> None"

definition isOriginalCode :: "int \<Rightarrow> errcode_escape \<Rightarrow> bool" where
  "isOriginalCode err_code m \<longleftrightarrow> omap_find m err_code = Some ''NO_ESCAPE''"

text \<open>\<open>operator[]\<close>: an unknown code is added with an empty text, under the read lock.\<close>

definition getEscapedText :: "int \<Rightarrow> (errcode_escape, string) op" where
  "getEscapedText err_code = (\<lambda>m. let m = omap_insert err_code [] m in (Inr (omap_get [] m err_code), m))"

text \<open>Asking for the text of an unknown code answers with the empty text and makes the code a known,
  escaped one; a known code is answered with its text and nothing changes.\<close>

theorem getEscapedText_adds_unknown_codes:
  "case getEscapedText code m of (r, m') \<Rightarrow>
     isEscapedCode code m' \<and>
     (case omap_find m code of
        None \<Rightarrow> r = Inr [] \<and> omap_find m' code = Some []
      | Some t \<Rightarrow> r = Inr t \<and> m' = m)"
  by (cases "omap_find m code")
    (auto simp: getEscapedText_def isEscapedCode_def Let_def omap_get_def omap_find_set omap_insert_def)

text \<open>A line without a colon is read as one token, and the second one is then read where there is none.\<close>

lemma errcode_line_without_colon:
  "errcode_read_conf [] ''f'' (conf_of [''1003'']) [] = (Inl MemoryFault, [])"
proof -
  have "fgets_lines 510 (''1003'' @ [NL]) = [''1003'' @ [NL]]"
    using fgets_lines_concat [of "[''1003'']" 510] by (simp add: NL_def)
  moreover have "trimString filter_chars (cstr (''1003'' @ [NL])) = ''1003''"
    by (simp add: trimString_def filter_chars_def cstr_def in_cset_def NL_def Let_def)
  moreover have "split ''1003'' CHR '':'' 1 = [''1003'']"
    using split_join [of "CHR '':''" "[''1003'']" 1] by (simp add: isspace_def token_for_def clean_def)
  ultimately show ?thesis
    by (simp add: errcode_read_conf_def conf_of_def throwS_def)
qed

section \<open>Services logged in detail\<close>

type_synonym detail_services = "int set"

fun detail_read_lines :: "string list \<Rightarrow> (detail_services, unit) op" where
  "detail_read_lines [] = returnS ()"
| "detail_read_lines (l # ls) =
     (let buffer = conf_text l
      in if length buffer \<le> 1 then detail_read_lines ls
         else if hd buffer = CHR ''#'' then detail_read_lines ls
         else seqS (modS (insert (atoi buffer))) (detail_read_lines ls))"

definition detail_read_conf :: "string \<Rightarrow> conf_file \<Rightarrow> (detail_services, unit) op" where
  "detail_read_conf config_file file =
     seqS (modS (\<lambda>_. {}))
       (case file of
          NoFile err \<Rightarrow> throwS (THROW CConfigException ERR_CONF
                          (''error code escape conf error, invalid config file:'' @ config_file))
        | File content err \<Rightarrow> detail_read_lines (fgets_lines 510 content))"

definition detail_reload :: "string \<Rightarrow> conf_file \<Rightarrow> (detail_services, unit) op" where
  "detail_reload = detail_read_conf"

definition is_detail_info_service :: "int \<Rightarrow> detail_services \<Rightarrow> bool" where
  "is_detail_info_service request_type m \<longleftrightarrow> request_type \<in> m"

lemma detail_read_lines_set:
  "detail_read_lines ls m = (Inr (),
     m \<union> {atoi b | b. b \<in> conf_text ` set ls \<and> 2 \<le> length b \<and> hd b \<noteq> CHR ''#''})"
proof (induction ls arbitrary: m)
  case (Cons l ls)
  then show ?case by (auto simp: Let_def)
qed (simp add: returnS_def)

text \<open>A request type of one digit is skipped like an empty line.\<close>

lemma one_digit_type_is_skipped:
  "case detail_read_conf ''f'' (conf_of [''7'', ''12'']) {} of (r, m) \<Rightarrow>
     \<not> is_detail_info_service 7 m \<and> is_detail_info_service 12 m"
proof -
  have "fgets_lines 510 (concat (map (\<lambda>l. l @ [NL]) [''7'', ''12''])) = map (\<lambda>l. l @ [NL]) [''7'', ''12'']"
    by (rule fgets_lines_concat) (simp add: NL_def)
  moreover have "conf_text (''7'' @ [NL]) = ''7''" "conf_text (''12'' @ [NL]) = ''12''"
    by (rule conf_text_line; simp add: clean_def isspace_def)+
  ultimately show ?thesis
    by (simp add: detail_read_conf_def conf_of_def Let_def is_detail_info_service_def returnS_def seqS_def atoi_def
        strtol_def isspace_def isdigit_def digit_val_def i32_def)
qed

end
