(* ===== verification/Access_Control.thy ===== *)
theory Access_Control
  imports Config
begin

text \<open>
  Who may call what: \<open>CAccessControl\<close> (\<open>src/access_control.cpp\<close>), the addresses that may connect
  and the request types each may send, and \<open>ServiceAuthorizeAccess\<close>
  (\<open>src/service_authorize_access.cpp\<close>), the addresses that may send a request type. The theory shows
  that both decide exactly what their files say.
\<close>

section \<open>\<open>CAccessControl\<close>\<close>

type_synonym access_map = "(string, int set) omap"
type_synonym access_control = "access_map config"

definition MAX_REQUEST_TYPE_PER_IP :: int where "MAX_REQUEST_TYPE_PER_IP = 100"

definition access_get_line :: "string \<Rightarrow> (access_map, unit) op" where
  "access_get_line str =
     (let t = take (MAX_CONF_LENGTH_SIZE - 1) str;
          (ip, rest) = (case strtok CHR '':'' t of None \<Rightarrow> (t, []) | Some (tok, rest) \<Rightarrow> (strstrip tok, rest));
          request_set = (case strtok CHR '':'' rest of
                           None \<Rightarrow> {}
                         | Some (tok, _) \<Rightarrow> set (map atoi (split (strstrip tok) CHR '','' MAX_REQUEST_TYPE_PER_IP)))
      in modS (omap_set ip request_set))"

definition access_clear :: "(access_control, unit) op" where
  "access_clear = config_clear (\<lambda>_. [])"

definition access_read_conf :: "string \<Rightarrow> conf_file \<Rightarrow> (access_control, unit) op" where
  "access_read_conf = config_read_conf (get_line_entrance access_get_line)"

definition ip_refused :: "string \<Rightarrow> fault" where
  "ip_refused ip = THROW CServerException (error_no InvalidAccess) (''ip: '' @ ip @ '' not allowed to access'')"

definition type_refused :: "string \<Rightarrow> int \<Rightarrow> fault" where
  "type_refused ip request_type = THROW CServerException (error_no InvalidAccess)
     (''ip: '' @ ip @ '', request_type: '' @ show_int request_type @ '' not allowed to access'')"

text \<open>\<open>check\<close> with a request type, and the one made when a connection is accepted.\<close>

definition access_check :: "string \<Rightarrow> int \<Rightarrow> (access_control, unit) op" where
  "access_check ip request_type = (\<lambda>c.
     case omap_find (c_data c) ip of
       None \<Rightarrow> (Inl (ip_refused ip), c)
     | Some types \<Rightarrow>
         if types \<noteq> {} \<and> request_type \<notin> types then (Inl (type_refused ip request_type), c) else (Inr (), c))"

definition access_check_ip :: "string \<Rightarrow> (access_control, unit) op" where
  "access_check_ip ip = (\<lambda>c.
     (if omap_find (c_data c) ip = None then Inl (ip_refused ip) else Inr (), c))"

section \<open>\<open>ServiceAuthorizeAccess\<close>\<close>

record authorize_access =
  az_set :: "(int, string list) omap"
  az_is_init :: bool

definition authorize_line :: "string \<Rightarrow> (authorize_access, unit) op" where
  "authorize_line buffer =
     (let str_vec = split buffer CHR '':'' 4
      in if str_vec = [] then throwS AssertFail
         else
           let ip_list = (if length str_vec > 1 then sort (split (str_vec ! 1) CHR '','' 100) else [])
           in modS (\<lambda>c. c\<lparr>az_set := omap_set (atoi (str_vec ! 0)) ip_list (az_set c)\<rparr>))"

fun authorize_read_lines :: "string list \<Rightarrow> (authorize_access, unit) op" where
  "authorize_read_lines [] = returnS ()"
| "authorize_read_lines (l # ls) =
     (let buffer = conf_text l
      in if length buffer \<le> 1 then authorize_read_lines ls
         else if hd buffer = CHR ''#'' then authorize_read_lines ls
         else seqS (authorize_line buffer) (authorize_read_lines ls))"

definition authorize_init_i :: "string \<Rightarrow> conf_file \<Rightarrow> (authorize_access, unit) op" where
  "authorize_init_i name file = (\<lambda>c.
     if az_is_init c then (Inr (), c)
     else (case file of
             NoFile err \<Rightarrow> throwS (THROW CConfigException ERR_CONF (''invalid config file:'' @ name))
           | File content err \<Rightarrow> authorize_read_lines (fgets_lines 2046 content)) c)"

definition authorize_init :: "string \<Rightarrow> conf_file \<Rightarrow> (authorize_access, unit) op" where
  "authorize_init name file = seqS (authorize_init_i name file) (modS (\<lambda>c. c\<lparr>az_is_init := True\<rparr>))"

definition authorize_re_init :: "string \<Rightarrow> conf_file \<Rightarrow> (authorize_access, unit) op" where
  "authorize_re_init name file =
     seqS (modS (\<lambda>c. c\<lparr>az_is_init := False\<rparr>))
    (seqS (modS (\<lambda>c. c\<lparr>az_set := []\<rparr>))
    (seqS (authorize_init_i name file) (modS (\<lambda>c. c\<lparr>az_is_init := True\<rparr>))))"

definition authorized :: "int \<Rightarrow> string \<Rightarrow> authorize_access \<Rightarrow> bool" where
  "authorized request_type access_ip c \<longleftrightarrow>
     (if \<not> az_is_init c then True
      else case omap_find (az_set c) request_type of
             None \<Rightarrow> True
           | Some ip_list \<Rightarrow> binary_search ip_list access_ip)"

section \<open>Lines of both files\<close>

text \<open>An address as it is written in the files, and the two kinds of lines.\<close>

definition ip_text :: "string \<Rightarrow> bool" where
  "ip_text t \<longleftrightarrow> t \<noteq> [] \<and> clean t \<and> hd t \<noteq> CHR ''#'' \<and> NUL \<notin> set t \<and> NL \<notin> set t \<and> CHR '':'' \<notin> set t
     \<and> CHR '','' \<notin> set t"

definition access_line :: "string \<times> int list \<Rightarrow> string" where
  "access_line e = fst e @ CHR '':'' # join CHR '','' (map show_int (snd e))"

definition access_entry :: "string \<times> int list \<Rightarrow> bool" where
  "access_entry e \<longleftrightarrow> ip_text (fst e) \<and> (\<forall>t \<in> set (snd e). in_i32 t) \<and> int (length (snd e)) \<le> MAX_REQUEST_TYPE_PER_IP + 1
     \<and> length (access_line e) \<le> MAX_CONF_LENGTH_SIZE - 2"

definition authorize_text :: "int \<times> string list \<Rightarrow> string" where
  "authorize_text e = show_int (fst e) @ CHR '':'' # join CHR '','' (snd e)"

definition authorize_entry :: "int \<times> string list \<Rightarrow> bool" where
  "authorize_entry e \<longleftrightarrow> in_i32 (fst e) \<and> snd e \<noteq> [] \<and> length (snd e) \<le> 101 \<and> (\<forall>t \<in> set (snd e). ip_text t)
     \<and> length (authorize_text e) \<le> 2046"

lemma num_list_chars: "set (join CHR '','' (map show_int ts)) \<subseteq> {CHR '','', CHR ''-''} \<union> {c. isdigit c}"
  using set_join [of "CHR '',''" "map show_int ts"] show_int_chars by fastforce

lemma no_blank_clean: "\<forall>c \<in> set s. \<not> isspace c \<Longrightarrow> clean s"
  by (auto simp: clean_def)

lemma clean_field_line: "a \<noteq> [] \<Longrightarrow> clean a \<Longrightarrow> clean b \<Longrightarrow> \<not> isspace d \<Longrightarrow> clean (a @ d # b)"
  by (auto simp: clean_def)

lemma num_list_text:
  "clean (join CHR '','' (map show_int ts))" "CHR '':'' \<notin> set (join CHR '','' (map show_int ts))"
  "NUL \<notin> set (join CHR '','' (map show_int ts))" "NL \<notin> set (join CHR '','' (map show_int ts))"
  using num_list_chars [of ts] isdigit_not_isspace
  by (auto intro!: no_blank_clean simp: isdigit_def isspace_def NL_def)

lemma split_num_list:
  assumes "ts \<noteq> []" and "int (length ts) \<le> n + 1"
  shows "split (join CHR '','' (map show_int ts)) CHR '','' n = map show_int ts"
  using assms by (intro split_join) (auto simp: isspace_def last_map show_int_nonempty isdigit_def intro!: show_int_token)

lemma access_get_line_entry:
  assumes "access_entry e"
  shows "access_get_line (access_line e) m = (Inr (), omap_set (fst e) (set (snd e)) m)"
proof -
  obtain ip ts where e: "e = (ip, ts)" by (cases e)
  let ?j = "join CHR '','' (map show_int ts)"
  have l: "take (MAX_CONF_LENGTH_SIZE - 1) (access_line e) = ip @ CHR '':'' # ?j"
    using assms by (auto simp: access_entry_def access_line_def e MAX_CONF_LENGTH_SIZE_def)
  have ip: "strtok CHR '':'' (ip @ CHR '':'' # ?j) = Some (ip, ?j)" "strstrip ip = ip"
    using assms by (auto simp: access_entry_def ip_text_def e strtok_tok strstrip_id)
  have at: "map atoi (map show_int ts) = ts"
    using assms by (auto simp: access_entry_def e atoi_show_int intro!: map_idI)
  show ?thesis
  proof (cases "ts = []")
    case True
    then show ?thesis using l ip e by (simp add: access_get_line_def strtok_def Let_def)
  next
    case False
    then have "strtok CHR '':'' ?j = Some (?j, [])"
      using num_list_text [of ts] join_nonempty [of "map show_int ts" "CHR '',''"]
      by (intro strtok_tok) (simp_all add: show_int_nonempty)
    moreover have "split (strstrip ?j) CHR '','' MAX_REQUEST_TYPE_PER_IP = map show_int ts"
      using assms False num_list_text(1) [of ts] by (simp add: strstrip_id split_num_list access_entry_def e)
    ultimately show ?thesis using l ip e at unfolding access_get_line_def l by (simp only: Let_def ip prod.case option.case) (simp del: list.map_comp map_map)
  qed
qed

lemma access_conf_line: "access_entry e \<Longrightarrow> conf_line (access_line e)"
proof -
  assume e: "access_entry e"
  then have "clean (access_line e)" "NL \<notin> set (access_line e)" "NUL \<notin> set (access_line e)" "hd (access_line e) \<noteq> CHR ''#''"
    using num_list_text [of "snd e"]
    by (auto simp: access_line_def access_entry_def ip_text_def NL_def intro!: clean_field_line) (simp add: isspace_def)
  then show ?thesis
    using e by (auto simp: conf_line_def access_entry_def is_comment_def access_line_def split: list.split)
qed

lemma access_only_throws: "only_throws (access_get_line s)"
  by (auto simp: only_throws_def access_get_line_def Let_def split: option.splits prod.splits)

text \<open>What a file of such lines leaves in an empty table, and what a check then says.\<close>

lemma access_read_entries:
  assumes "\<forall>e \<in> set es. access_entry e" and "c_data c = []"
  shows "\<exists>c'. access_read_conf name (conf_of (map access_line es)) c = (Inr (), c') \<and>
    (\<forall>ip. omap_find (c_data c') ip = map_option set (map_of (rev es) ip))"
proof -
  have fo: "fold (line_effect access_get_line) (map access_line es) d
      = fold (\<lambda>(k, v). omap_set k v) (map (\<lambda>(ip, ts). (ip, set ts)) es) d" for d
    using assms(1) by (induction es arbitrary: d) (auto simp: line_effect_def access_get_line_entry)
  obtain c' where c: "access_read_conf name (conf_of (map access_line es)) c = (Inr (), c')"
    "c_data c' = fold (line_effect access_get_line) (map access_line es) []"
    using read_conf_lines [of "map access_line es" access_get_line name c]
      access_only_throws access_conf_line assms unfolding access_read_conf_def by auto
  have mp: "map_of (rev (map (\<lambda>(ip, ts). (ip, set ts)) es)) ip = map_option set (map_of (rev es) ip)" for ip
    by (simp add: rev_map map_of_map)
  have "omap_find (c_data c') ip = map_option set (map_of (rev es) ip)" for ip
    unfolding c(2) fo om.assign_all_last_wins mp by (simp split: option.split)
  then show ?thesis using c(1) by blast
qed

definition file_decision :: "(string \<times> int list) list \<Rightarrow> string \<Rightarrow> int \<Rightarrow> fault + unit" where
  "file_decision es ip t = (case map_of (rev es) ip of
     None \<Rightarrow> Inl (ip_refused ip)
   | Some types \<Rightarrow> if types = [] \<or> t \<in> set types then Inr () else Inl (type_refused ip t))"

definition file_admits :: "(string \<times> int list) list \<Rightarrow> string \<Rightarrow> fault + unit" where
  "file_admits es ip = (if ip \<in> fst ` set es then Inr () else Inl (ip_refused ip))"

lemma table_decides:
  assumes "\<forall>ip. omap_find (c_data c) ip = map_option set (map_of (rev es) ip)"
  shows "access_check ip t c = (file_decision es ip t, c)" and "access_check_ip ip c = (file_admits es ip, c)"
proof -
  have "ip \<in> fst ` set es \<longleftrightarrow> map_of (rev es) ip \<noteq> None" by (simp add: map_of_eq_None_iff)
  then show "access_check ip t c = (file_decision es ip t, c)" "access_check_ip ip c = (file_admits es ip, c)"
    using assms by (auto simp: access_check_def access_check_ip_def file_decision_def file_admits_def split: option.split)
qed

text \<open>C28: after reading a file of lines \<open>address:types\<close>, an address and a request type are let
  through exactly if the last line of the address has no types or has that one; anything else is refused
  with the exception InvalidAccess that names them, and no check changes the table.\<close>

theorem access_decided_by_file:
  assumes "\<forall>e \<in> set es. access_entry e"
  shows "case access_read_conf name (conf_of (map access_line es)) \<lparr>c_data = [], c_rows = 0\<rparr> of (r, c) \<Rightarrow>
     r = Inr () \<and>
     access_check ip t c =
       (case map_of (rev es) ip of
          None \<Rightarrow> Inl (ip_refused ip)
        | Some types \<Rightarrow> if types = [] \<or> t \<in> set types then Inr () else Inl (type_refused ip t), c) \<and>
     access_check_ip ip c = (if ip \<in> fst ` set es then Inr () else Inl (ip_refused ip), c)"
proof -
  obtain c where c: "access_read_conf name (conf_of (map access_line es)) \<lparr>c_data = [], c_rows = 0\<rparr> = (Inr (), c)"
    "\<forall>ip. omap_find (c_data c) ip = map_option set (map_of (rev es) ip)"
    using access_read_entries [OF assms, of "\<lparr>c_data = [], c_rows = 0\<rparr>" name] by auto
  then show ?thesis
    using table_decides [OF c(2)] by (auto simp: file_decision_def file_admits_def split: option.split)
qed

lemma access_decided_by_file_witness:
  "case access_read_conf ''f'' (conf_of (map access_line [(''10.0.0.1'', [1001, 1002]), (''10.0.0.2'', [])]))
       \<lparr>c_data = [], c_rows = 0\<rparr> of (r, c) \<Rightarrow>
     access_check ''10.0.0.1'' 7 c = (Inl (type_refused ''10.0.0.1'' 7), c)"
proof -
  have n: "show_nat n = [char_of (48 + n)]" if "n < 10" for n using that by (subst show_nat.simps) simp
  have "show_nat 1001 = show_nat 100 @ show_nat 1" "show_nat 1002 = show_nat 100 @ show_nat 2"
    "show_nat 100 = show_nat 10 @ show_nat 0" "show_nat 10 = show_nat 1 @ show_nat 0"
    by (subst show_nat.simps; simp add: n)+
  then show ?thesis
    using access_decided_by_file 
      [where es = "[(''10.0.0.1'', [1001, 1002]), (''10.0.0.2'', [])]" and name = "''f''" and ip = "''10.0.0.1''" and t = 7]
    by (auto simp: access_entry_def ip_text_def clean_def isspace_def NL_def in_i32_def MAX_REQUEST_TYPE_PER_IP_def
        MAX_CONF_LENGTH_SIZE_def access_line_def show_int_def n split: prod.splits)
qed

section \<open>Authorization is membership\<close>

lemma authorize_line_entry:
  assumes "authorize_entry e"
  shows "authorize_line (authorize_text e) c = (Inr (), c\<lparr>az_set := omap_set (fst e) (sort (snd e)) (az_set c)\<rparr>)"
proof -
  obtain t ips where e: "e = (t, ips)" by (cases e)
  let ?j = "join CHR '','' ips"
  have ips: "ips \<noteq> []" "\<forall>u \<in> set ips. u \<noteq> [] \<and> clean u" "\<forall>u \<in> set ips. token_for CHR '','' u"
    using assms by (auto simp: authorize_entry_def e ip_text_def token_for_def)
  have j: "split ?j CHR '','' 100 = ips"
    using ips assms by (intro split_join) (auto simp: isspace_def authorize_entry_def e)
  have "clean ?j" "?j \<noteq> []" using clean_join [OF ips(1,2)] join_nonempty [OF ips(1)] ips(2) by auto
  moreover have "CHR '':'' \<notin> set ?j"
    using assms set_join [of "CHR '',''" ips] by (auto simp: authorize_entry_def e ip_text_def)
  ultimately have "split (join CHR '':'' [show_int t, ?j]) CHR '':'' 4 = [show_int t, ?j]"
    using show_int_token [of "CHR '':''" t] by (intro split_join) (auto simp: isspace_def isdigit_def token_for_def)
  then show ?thesis
    using j assms by (simp add: authorize_line_def authorize_text_def e Let_def atoi_show_int authorize_entry_def)
qed

lemma authorize_read_entries:
  assumes "\<forall>e \<in> set es. authorize_entry e"
  shows "authorize_read_lines (map (\<lambda>e. authorize_text e @ [NL]) es) c
    = (Inr (), c\<lparr>az_set := fold (\<lambda>(k, v). omap_set k v) (map (\<lambda>(t, ips). (t, sort ips)) es) (az_set c)\<rparr>)"
  using assms
proof (induction es arbitrary: c)
  case (Cons e es)
  then have e: "authorize_entry e" by simp
  have n: "show_int (fst e) \<noteq> []" "hd (show_int (fst e)) \<noteq> CHR ''#''"
    using show_int_nonempty [of "fst e"] show_int_chars [of "fst e"] by (cases "show_int (fst e)"; force simp: isdigit_def)+
  have ips: "snd e \<noteq> []" "\<forall>u \<in> set (snd e). u \<noteq> [] \<and> clean u \<and> NUL \<notin> set u"
    using e by (auto simp: authorize_entry_def ip_text_def)
  have "clean (authorize_text e)"
    unfolding authorize_text_def using n(1) clean_join [OF ips(1), of "CHR '',''"] ips(2) show_int_token [of "CHR '':''" "fst e"]
    by (intro clean_field_line) (auto simp: isdigit_def isspace_def token_for_def)
  moreover have "NUL \<notin> set (authorize_text e)"
    using ips(2) set_join [of "CHR '',''" "snd e"] NUL_notin_show_int [of "fst e"] by (auto simp: authorize_text_def)
  moreover have "authorize_text e \<noteq> []" by (simp add: authorize_text_def)
  ultimately have "conf_text (authorize_text e @ [NL]) = authorize_text e" by (intro conf_text_line)
  moreover have "1 < length (authorize_text e)" "hd (authorize_text e) \<noteq> CHR ''#''"
    using n by (cases "show_int (fst e)"; simp add: authorize_text_def)+
  ultimately show ?case
    using Cons authorize_line_entry [OF e] by (cases e) (simp add: Let_def seqS_def bindS_def)
qed (simp add: returnS_def)

text \<open>C38: after a reload, \<open>authorized\<close> says yes exactly for the request types the file does not list and for
  the addresses its last line for the type lists, in whatever order; the binary search over the sorted list is
  membership.\<close>

theorem authorized_is_membership:
  assumes "\<forall>e \<in> set es. authorize_entry e"
  shows "case authorize_re_init name (conf_of (map authorize_text es)) c of (r, c') \<Rightarrow>
     r = Inr () \<and>
     authorized t ip c' = (case map_of (rev es) t of None \<Rightarrow> True | Some ips \<Rightarrow> ip \<in> set ips)"
proof -
  define m where "m = fold (\<lambda>(k, v). omap_set k v) (map (\<lambda>(t, ips). (t, sort ips)) es) ([] :: (int, string list) omap)"
  have nl: "NL \<notin> set (authorize_text e) \<and> length (authorize_text e) \<le> 2046" if "e \<in> set es" for e
  proof -
    have "NL \<notin> set (show_int (fst e))" using show_int_chars [of "fst e"] by (auto simp: NL_def isdigit_def)
    then show ?thesis
      using assms that set_join [of "CHR '',''" "snd e"]
      by (fastforce simp: authorize_text_def authorize_entry_def ip_text_def NL_def)
  qed
  have "fgets_lines 2046 (concat (map (\<lambda>l. l @ [NL]) (map authorize_text es))) = map (\<lambda>l. l @ [NL]) (map authorize_text es)"
    using nl by (intro fgets_lines_concat) auto
  then have "authorize_re_init name (conf_of (map authorize_text es)) c = (Inr (), c\<lparr>az_set := m, az_is_init := True\<rparr>)"
    using authorize_read_entries [OF assms, of "c\<lparr>az_is_init := False, az_set := []\<rparr>"]
    by (simp add: authorize_re_init_def authorize_init_i_def conf_of_def seqS_def bindS_def m_def o_def)
  moreover have "omap_find m t = map_option sort (map_of (rev es) t)"
    unfolding m_def om.assign_all_last_wins by (simp add: rev_map map_of_map split: option.split)
  ultimately show ?thesis
    by (auto simp: authorized_def binary_search_iff split: option.split)
qed

lemma authorized_is_membership_witness:
  "case authorize_re_init ''f'' (conf_of (map authorize_text [(5, [''9.9.9.9'', ''1.1.1.1''])]))
     \<lparr>az_set = [], az_is_init = True\<rparr> of (r, c') \<Rightarrow>
     r = Inr () \<and> authorized 5 ''1.1.1.1'' c' \<and> \<not> authorized 5 ''2.2.2.2'' c'"
proof -
  have e: "\<forall>e \<in> set [(5, [''9.9.9.9'', ''1.1.1.1''])]. authorize_entry e"
    by (simp add: authorize_entry_def in_i32_def ip_text_def clean_def isspace_def NL_def authorize_text_def
        show_int_def show_nat.simps)
  show ?thesis
    using authorized_is_membership [OF e, where name = "''f''" and c = "\<lparr>az_set = [], az_is_init = True\<rparr>" and t = 5 and ip = "''1.1.1.1''"]
      authorized_is_membership [OF e, where name = "''f''" and c = "\<lparr>az_set = [], az_is_init = True\<rparr>" and t = 5 and ip = "''2.2.2.2''"] by (simp split: prod.splits)
qed

text \<open>C39: a reload whose file cannot be opened raises a configuration exception and leaves every request type
  open to every address.\<close>

theorem failed_reload_opens_access:
  "case authorize_re_init name (NoFile err) c of (r, c') \<Rightarrow>
     r = Inl (THROW CConfigException ERR_CONF (''invalid config file:'' @ name)) \<and> authorized t ip c'"
  by (simp add: authorize_re_init_def authorize_init_i_def seqS_def bindS_def throwS_def authorized_def)

end
