(* ===== verification/Rate_Limit.thy ===== *)
theory Rate_Limit
  imports Config "HOL-Library.Product_Lexorder"
begin

text \<open>
  Limits on the number of requests in a period: \<open>TimeCountPolicy\<close> (\<open>src/time_count_policy.cpp\<close>) and
  \<open>CFrequencyControl\<close> (\<open>src/frequency_control.cpp\<close>). The clock is input. The locale \<open>rate_limiter\<close> is the
  contract of one counter; both counters of the program are interpreted in it, and the bounds on what passes
  are proved once.
\<close>

section \<open>The contract of a counter\<close>

text \<open>The calls at the given times, with what each answered.\<close>

fun run_calls :: "(int \<Rightarrow> 's \<Rightarrow> bool \<times> 's) \<Rightarrow> int list \<Rightarrow> 's \<Rightarrow> bool list \<times> 's" where
  "run_calls call [] s = ([], s)"
| "run_calls call (t # ts) s =
     (let (b, s') = call t s; (bs, s'') = run_calls call ts s' in (b # bs, s''))"

definition passed :: "bool list \<Rightarrow> nat" where
  "passed bs = length (filter id bs)"

lemma passed_simps [simp]: "passed [] = 0" "passed (b # bs) = (if b then 1 else 0) + passed bs"
  by (simp_all add: passed_def)

lemma passed_replicate: "passed (replicate n True @ replicate m False) = n"
  by (simp add: passed_def)

text \<open>A call that finds the window over opens a new one and passes; a call inside the window passes while
  there is room, and uses it up. \<open>left\<close> is how often the counter can still be raised without an overflow.\<close>

locale rate_limiter =
  fixes call :: "int \<Rightarrow> 's \<Rightarrow> bool \<times> 's" and opened :: "'s \<Rightarrow> bool" and began span :: "'s \<Rightarrow> int"
    and cap room left :: "'s \<Rightarrow> nat" and valid :: "'s \<Rightarrow> bool"
  assumes reopen: "valid s \<Longrightarrow> \<not> opened s \<or> span s \<le> t - began s \<Longrightarrow> call t s = (b, s') \<Longrightarrow>
      b \<and> opened s' \<and> began s' = t \<and> room s' = cap s"
    and inside: "valid s \<Longrightarrow> opened s \<Longrightarrow> t - began s < span s \<Longrightarrow> 0 < left s \<Longrightarrow> call t s = (b, s') \<Longrightarrow>
      (b \<longleftrightarrow> 0 < room s) \<and> room s' = room s - 1 \<and> began s' = began s \<and> opened s'"
    and keeps: "valid s \<Longrightarrow> 0 < left s \<Longrightarrow> call t s = (b, s') \<Longrightarrow>
      valid s' \<and> span s' = span s \<and> cap s' = cap s \<and> left s \<le> left s' + 1"
    and room_le: "valid s \<Longrightarrow> opened s \<Longrightarrow> room s \<le> cap s"
begin

text \<open>Inside one window exactly the first calls pass, as many as there is room.\<close>

lemma window_exact:
  assumes "valid s" "opened s" "\<forall>t \<in> set ts. t - began s < span s" "length ts \<le> left s"
  shows "fst (run_calls call ts s) = replicate (min (length ts) (room s)) True @ replicate (length ts - room s) False"
  using assms
proof (induction ts arbitrary: s)
  case (Cons t ts)
  obtain b s' where c: "call t s = (b, s')" by (cases "call t s")
  have l: "0 < left s" and t: "t - began s < span s" using Cons.prems by auto
  note i = inside [OF Cons.prems(1,2) t l c] and k = keeps [OF Cons.prems(1) l c]
  have "fst (run_calls call ts s')
      = replicate (min (length ts) (room s')) True @ replicate (length ts - room s') False"
    using Cons.prems i k by (intro Cons.IH) auto
  then show ?case using c i by (cases "room s") (auto simp: split: prod.splits)
qed simp

text \<open>A window opened late in an interval shorter than the period lasts to its end.\<close>

lemma interval_after_open:
  assumes "valid s" "opened s" "\<forall>t \<in> set ts. t < a + span s" "a \<le> began s" "length ts \<le> left s"
  shows "passed (fst (run_calls call ts s)) \<le> room s"
proof -
  have "\<forall>t \<in> set ts. t - began s < span s" using assms(3,4) by fastforce
  from window_exact [OF assms(1,2) this assms(5)] show ?thesis by (simp add: passed_replicate)
qed

lemma interval_room:
  assumes "valid s" "\<forall>t \<in> set ts. a \<le> t \<and> t < a + span s" "length ts \<le> left s"
  shows "passed (fst (run_calls call ts s)) \<le> (if opened s then room s else 0) + 1 + cap s"
  using assms
proof (induction ts arbitrary: s)
  case (Cons t ts)
  obtain b s' where c: "call t s = (b, s')" by (cases "call t s")
  obtain bs s'' where r: "run_calls call ts s' = (bs, s'')" by (cases "run_calls call ts s'")
  have l: "0 < left s" using Cons.prems by auto
  note k = keeps [OF Cons.prems(1) l c]
  have len: "length ts \<le> left s'" using k Cons.prems(3) by auto
  show ?case
  proof (cases "\<not> opened s \<or> span s \<le> t - began s")
    case True
    note o = reopen [OF Cons.prems(1) True c]
    have "passed (fst (run_calls call ts s')) \<le> room s'"
      using o k Cons.prems(2) len by (intro interval_after_open [where a = a]) auto
    then show ?thesis using c r o by simp
  next
    case False
    then have w: "opened s" "t - began s < span s" by auto
    note i = inside [OF Cons.prems(1) w l c]
    have "passed (fst (run_calls call ts s')) \<le> (if opened s' then room s' else 0) + 1 + cap s'"
      using k Cons.prems(2) len by (intro Cons.IH) auto
    then show ?thesis using c r i k w(1) by (cases "room s") auto
  qed
qed simp

theorem interval_bound:
  assumes "valid s" "\<forall>t \<in> set ts. a \<le> t \<and> t < a + span s" "length ts \<le> left s"
  shows "passed (fst (run_calls call ts s)) \<le> 2 * cap s + 1"
  using interval_room [OF assms] room_le [OF assms(1)] by (auto split: if_splits)

text \<open>Who waits for the period is served, and the new window lets exactly as many more calls pass as its room.\<close>

lemma waiting_is_served:
  assumes "valid s" "span s \<le> t - began s" "\<forall>u \<in> set ts. u - t < span s" "length ts < left s"
  shows "fst (run_calls call (t # ts) s)
    = True # replicate (min (length ts) (cap s)) True @ replicate (length ts - cap s) False"
proof -
  obtain b s' where c: "call t s = (b, s')" by (cases "call t s")
  have l: "0 < left s" using assms by auto
  note o = reopen [OF assms(1) disjI2 [OF assms(2)] c] and k = keeps [OF assms(1) l c]
  have "fst (run_calls call ts s')
      = replicate (min (length ts) (room s')) True @ replicate (length ts - room s') False"
    using o k assms(3,4) by (intro window_exact) auto
  then show ?thesis using c o by (auto split: prod.splits)
qed

end

text \<open>Operations on a shared state one after the other, and what those that satisfy \<open>P\<close> were answered.\<close>

fun run_ops :: "('r \<Rightarrow> ('s, unit) op) \<Rightarrow> 'r list \<Rightarrow> 's \<Rightarrow> (fault + unit) list \<times> 's" where
  "run_ops m [] s = ([], s)"
| "run_ops m (call # calls) s = (let (r, s') = m call s; (rs, s'') = run_ops m calls s' in (r # rs, s''))"

definition answers_to :: "('r \<Rightarrow> bool) \<Rightarrow> ('r \<Rightarrow> ('s, unit) op) \<Rightarrow> 'r list \<Rightarrow> 's \<Rightarrow> bool list" where
  "answers_to P m calls s = map (\<lambda>(call, r). r = Inr ()) (filter (P \<circ> fst) (zip calls (fst (run_ops m calls s))))"

lemma answers_to_Nil [simp]: "answers_to P m [] s = []"
  by (simp add: answers_to_def)

lemma answers_to_Cons:
  assumes "m call s = (r, s')"
  shows "answers_to P m (call # calls) s = (if P call then (r = Inr ()) # answers_to P m calls s' else answers_to P m calls s')"
  using assms by (auto simp: answers_to_def split: prod.splits)

section \<open>\<open>TimeCountPolicy\<close>\<close>

record time_count_policy =
  tc_time_period :: int
  tc_max_count :: int
  tc_begin_timestamp :: int
  tc_current_count :: int

definition policy_init :: "int \<Rightarrow> int \<Rightarrow> int \<Rightarrow> time_count_policy" where
  "policy_init now time_period max_count =
     \<lparr>tc_time_period = time_period, tc_max_count = max_count, tc_begin_timestamp = now, tc_current_count = 0\<rparr>"

definition increase_count :: "int \<Rightarrow> int \<Rightarrow> time_count_policy \<Rightarrow> int \<times> time_count_policy" where
  "increase_count num now p =
     (if tc_current_count p = 0 \<or> now - tc_begin_timestamp p \<ge> tc_time_period p
      then (0, p\<lparr>tc_begin_timestamp := now, tc_current_count := num\<rparr>)
      else
        let p = p\<lparr>tc_current_count := i32 (tc_current_count p + num)\<rparr>
        in (if tc_current_count p > tc_max_count p then - 1 else 0, p))"

definition increase_count_1 :: "int \<Rightarrow> time_count_policy \<Rightarrow> int \<times> time_count_policy" where
  "increase_count_1 = increase_count 1"

definition policy_call :: "int \<Rightarrow> time_count_policy \<Rightarrow> bool \<times> time_count_policy" where
  "policy_call now p = (case increase_count_1 now p of (r, p') \<Rightarrow> (r = 0, p'))"

definition policy_valid :: "time_count_policy \<Rightarrow> bool" where
  "policy_valid p \<longleftrightarrow> 0 \<le> tc_current_count p \<and> tc_current_count p < 2 ^ 31"

lemma i32_below: "0 \<le> x \<Longrightarrow> x < 2147483648 \<Longrightarrow> i32 x = x"
  by (rule i32_id) (simp add: in_i32_def)

interpretation policy: rate_limiter policy_call "\<lambda>p. tc_current_count p \<noteq> 0" tc_begin_timestamp tc_time_period
  "\<lambda>p. nat (tc_max_count p - 1)" "\<lambda>p. nat (tc_max_count p - tc_current_count p)"
  "\<lambda>p. nat (2147483647 - tc_current_count p)" policy_valid
  by unfold_locales
    (auto simp: policy_call_def increase_count_1_def increase_count_def policy_valid_def Let_def i32_below split: if_splits)

section \<open>\<open>CFrequencyControl\<close>\<close>

record frequency_data =
  fd_limit_time :: int
  fd_limit_count :: int
  fd_begin_time :: int
  fd_call_times :: int

type_synonym frequency_key = "int \<times> string"
type_synonym frequency_map = "(frequency_key, frequency_data) omap"
type_synonym frequency_control = "frequency_map config"

definition MAX_IP_LEN :: nat where "MAX_IP_LEN = 32"

text \<open>The constructor of the key fills 31 bytes of an array it has not cleared: after an address of 31
  characters or more the text goes on with what the last byte and the memory behind it hold (\<open>beyond\<close>).\<close>

definition frequency_key :: "string \<Rightarrow> int \<Rightarrow> string \<Rightarrow> frequency_key" where
  "frequency_key beyond request_type ip =
     (request_type, if length (cstr ip) < MAX_IP_LEN - 1 then cstr ip else take (MAX_IP_LEN - 1) (cstr ip) @ cstr beyond)"

definition freq_error :: "string \<Rightarrow> string \<Rightarrow> string" where
  "freq_error what str = ''FreqLimit_conf: '' @ what @ '' not find['' @ str @ '']''"

definition freq_get_line :: "string \<Rightarrow> int \<Rightarrow> string \<Rightarrow> (frequency_map, unit) op" where
  "freq_get_line beyond now str =
     (let t = take (MAX_CONF_LENGTH_SIZE - 1) str
      in bindS (next_tok (freq_error ''request_type'' str) CHR '':'' t) (\<lambda>(request_type, t).
         bindS (next_tok (freq_error ''ip'' str) CHR '':'' t) (\<lambda>(ip, t).
         bindS (next_tok (freq_error ''limit_time'' str) CHR '':'' t) (\<lambda>(limit_time, t).
         bindS (next_tok (freq_error ''limit_count'' str) CHR '':'' t) (\<lambda>(limit_count, t).
           modS (omap_set (frequency_key beyond (atoi request_type) (take (MAX_IP_LEN - 1) ip))
             \<lparr>fd_limit_time = atoi limit_time, fd_limit_count = atoi limit_count, fd_begin_time = now,
              fd_call_times = 0\<rparr>))))))"

definition freq_clear :: "(frequency_control, unit) op" where
  "freq_clear = config_clear (\<lambda>_. [])"

definition freq_read_conf :: "string \<Rightarrow> int \<Rightarrow> string \<Rightarrow> conf_file \<Rightarrow> (frequency_control, unit) op" where
  "freq_read_conf beyond now = config_read_conf (get_line_entrance (freq_get_line beyond now))"

text \<open>What a check does to the entry of its key: the answer is whether the request passes.\<close>

definition freq_call :: "int \<Rightarrow> frequency_data \<Rightarrow> bool \<times> frequency_data" where
  "freq_call now d =
     (if fd_begin_time d + fd_limit_time d < now then (True, d\<lparr>fd_begin_time := now, fd_call_times := 0\<rparr>)
      else
        let d = d\<lparr>fd_call_times := i32 (fd_call_times d + 1)\<rparr>
        in (\<not> fd_call_times d > fd_limit_count d, d))"

definition freq_refused :: "string \<Rightarrow> int \<Rightarrow> int \<Rightarrow> frequency_data \<Rightarrow> fault" where
  "freq_refused ip request_type now d = THROW CServerException (error_no ExceedFreqLimit)
     (''ip: '' @ ip @ '', request_type: '' @ show_int request_type @ '', begin times: '' @ show_int (i32 (fd_begin_time d)) @
      '', now: '' @ show_int (i32 now) @ '' frequency limit is : '' @ show_int (fd_limit_time d) @ '' second '' @
      show_int (fd_limit_count d) @ '' times'')"

definition freq_check :: "string \<Rightarrow> int \<Rightarrow> string \<Rightarrow> int \<Rightarrow> (frequency_control, unit) op" where
  "freq_check beyond now ip request_type = (\<lambda>c.
     let t_key = frequency_key beyond request_type ip
     in case omap_find (c_data c) t_key of
          None \<Rightarrow> (Inr (), c)
        | Some d \<Rightarrow>
            let (pass, d') = freq_call now d; c' = c\<lparr>c_data := omap_set t_key d' (c_data c)\<rparr>
            in (if pass then Inr () else Inl (freq_refused ip request_type now d'), c'))"

definition freq_valid :: "frequency_data \<Rightarrow> bool" where
  "freq_valid d \<longleftrightarrow> 0 \<le> fd_call_times d \<and> fd_call_times d < 2 ^ 31"

interpretation freq: rate_limiter freq_call "\<lambda>d. True" fd_begin_time "\<lambda>d. fd_limit_time d + 1"
  "\<lambda>d. nat (fd_limit_count d)" "\<lambda>d. nat (fd_limit_count d - fd_call_times d)"
  "\<lambda>d. nat (2147483647 - fd_call_times d)" freq_valid
  by unfold_locales (auto simp: freq_call_def freq_valid_def Let_def i32_below split: if_splits)

subsection \<open>Many addresses and request types interleaved\<close>

type_synonym freq_request = "int \<times> string \<times> int"

definition freq_op :: "string \<Rightarrow> freq_request \<Rightarrow> (frequency_control, unit) op" where
  "freq_op beyond call = (case call of (now, ip, request_type) \<Rightarrow> freq_check beyond now ip request_type)"

definition asks_for :: "string \<Rightarrow> frequency_key \<Rightarrow> freq_request \<Rightarrow> bool" where
  "asks_for beyond k call \<longleftrightarrow> (case call of (now, ip, request_type) \<Rightarrow> frequency_key beyond request_type ip = k)"

abbreviation passed_for :: "string \<Rightarrow> frequency_key \<Rightarrow> freq_request list \<Rightarrow> frequency_control \<Rightarrow> bool list" where
  "passed_for beyond k \<equiv> answers_to (asks_for beyond k) (freq_op beyond)"

lemma asks_for_simp [simp]:
  "asks_for beyond k (now, ip, request_type) \<longleftrightarrow> frequency_key beyond request_type ip = k"
  by (simp add: asks_for_def)

text \<open>The answers to one key are those of its own counter, whatever other requests come between.\<close>

lemma passed_for_run_calls:
  assumes "omap_find (c_data c) k = Some d"
  shows "passed_for beyond k calls c = fst (run_calls freq_call (map fst (filter (asks_for beyond k) calls)) d)"
  using assms
proof (induction calls arbitrary: c d)
  case Nil
  then show ?case by simp
next
  case (Cons call calls)
  obtain now ip request_type where call: "call = (now, ip, request_type)" by (cases call) auto
  obtain r c' where f: "freq_op beyond call c = (r, c')" by (cases "freq_op beyond call c")
  obtain pass d' where d: "freq_call now d = (pass, d')" by (cases "freq_call now d")
  show ?case
  proof (cases "frequency_key beyond request_type ip = k")
    case True
    then have "r = Inr () \<longleftrightarrow> pass" "omap_find (c_data c') k = Some d'"
      using f d Cons.prems call by (auto simp: freq_op_def freq_check_def Let_def omap_find_set split: if_splits)
    then show ?thesis
      using True Cons.IH [of c' d'] answers_to_Cons [where m = "freq_op beyond" and P = "asks_for beyond k" and calls = calls, OF f] d call by (auto split: prod.splits)
  next
    case False
    then have "omap_find (c_data c') k = Some d"
      using f Cons.prems call by (auto simp: freq_op_def freq_check_def Let_def omap_find_set split: option.splits prod.splits)
    then show ?thesis
      using False Cons.IH [of c' d] answers_to_Cons [where m = "freq_op beyond" and P = "asks_for beyond k" and calls = calls, OF f] call by simp
  qed
qed

lemma passed_for_unlimited:
  assumes "omap_find (c_data c) k = None"
  shows "passed_for beyond k calls c = replicate (length (filter (asks_for beyond k) calls)) True"
  using assms
proof (induction calls arbitrary: c)
  case Nil
  then show ?case by simp
next
  case (Cons call calls)
  obtain now ip request_type where call: "call = (now, ip, request_type)" by (cases call) auto
  obtain r c' where f: "freq_op beyond call c = (r, c')" by (cases "freq_op beyond call c")
  have "omap_find (c_data c') k = None" "frequency_key beyond request_type ip = k \<longrightarrow> r = Inr ()"
    using f Cons.prems call by (auto simp: freq_op_def freq_check_def Let_def omap_find_set split: option.splits prod.splits)
  then show ?case
    using Cons.IH [of c'] answers_to_Cons [where m = "freq_op beyond" and P = "asks_for beyond k" and calls = calls, OF f] call by simp
qed

text \<open>C31: whatever requests of other addresses and types come between, of the requests for one limited key that fall
  into any interval of \<open>limit_time\<close> seconds at most twice \<open>limit_count\<close> and one pass; a key without a limit
  always passes.\<close>

theorem frequency_limit_bounds_rate:
  assumes "freq_valid d" and "length calls + nat (fd_call_times d) < 2 ^ 31"
    and "\<forall>call \<in> set calls. asks_for beyond k call \<longrightarrow> a \<le> fst call \<and> fst call \<le> a + fd_limit_time d"
  shows "(omap_find (c_data c) k = Some d \<longrightarrow>
      passed (passed_for beyond k calls c) \<le> 2 * nat (fd_limit_count d) + 1) \<and>
    (omap_find (c_data c) k = None \<longrightarrow> (\<forall>b \<in> set (passed_for beyond k calls c). b))"
proof -
  let ?ts = "map fst (filter (asks_for beyond k) calls)"
  define n where "n = length ?ts"
  have "n \<le> length calls" by (simp add: n_def)
  then have "n \<le> nat (2147483647 - fd_call_times d)" using assms(1,2) by (simp add: freq_valid_def)
  then have "passed (fst (run_calls freq_call ?ts d)) \<le> 2 * nat (fd_limit_count d) + 1"
    using assms(1,3) unfolding n_def by (intro freq.interval_bound [where a = a]) auto
  then show ?thesis by (simp add: passed_for_run_calls passed_for_unlimited)
qed

definition sample_limit :: frequency_data where
  "sample_limit = \<lparr>fd_limit_time = 10, fd_limit_count = 2, fd_begin_time = 100, fd_call_times = 0\<rparr>"

definition sample_frequency :: frequency_control where
  "sample_frequency = \<lparr>c_data = [((1001, ''10.0.0.1''), sample_limit)], c_rows = 1\<rparr>"

lemma frequency_limit_bounds_rate_witness:
  "passed (passed_for [] (1001, ''10.0.0.1'') (replicate 9 (105, ''10.0.0.1'', 1001)) sample_frequency) \<le> 5"
  using frequency_limit_bounds_rate [where d = sample_limit and c = sample_frequency and a = 100
      and calls = "replicate 9 (105, ''10.0.0.1'', 1001)" and beyond = "[]" and k = "(1001, ''10.0.0.1'')"]
  by (simp add: freq_valid_def sample_limit_def sample_frequency_def)

text \<open>C32: a request that comes after the period is over passes whatever was refused before, and of the requests
  behind it in the next \<open>limit_time\<close> seconds exactly the first \<open>limit_count\<close> pass: the new window lets
  one request more through than the limit.\<close>

theorem waiting_request_is_served:
  assumes "freq_valid d" and "length calls + nat (fd_call_times d) < 2 ^ 31 - 1" and "omap_find (c_data c) (frequency_key beyond request_type ip) = Some d"
    and "fd_begin_time d + fd_limit_time d < now"
    and "\<forall>call \<in> set calls. asks_for beyond (frequency_key beyond request_type ip) call \<longrightarrow> fst call \<le> now + fd_limit_time d"
  shows "let n = length (filter (asks_for beyond (frequency_key beyond request_type ip)) calls); m = nat (fd_limit_count d)
    in passed_for beyond (frequency_key beyond request_type ip) ((now, ip, request_type) # calls) c
      = True # replicate (min n m) True @ replicate (n - m) False"
proof -
  let ?k = "frequency_key beyond request_type ip"
  let ?ts = "map fst (filter (asks_for beyond ?k) calls)"
  define n where "n = length ?ts"
  have "n \<le> length calls" by (simp add: n_def)
  then have "n < nat (2147483647 - fd_call_times d)" using assms(1,2) by (simp add: freq_valid_def)
  then have "fst (run_calls freq_call (now # ?ts) d)
      = True # replicate (min (length ?ts) (nat (fd_limit_count d))) True @ replicate (length ?ts - nat (fd_limit_count d)) False"
    using assms(1,4,5) unfolding n_def by (intro freq.waiting_is_served) auto
  moreover have "asks_for beyond ?k (now, ip, request_type)" by simp
  ultimately show ?thesis using assms(3) by (simp only: passed_for_run_calls filter.simps if_True list.map fst_conv Let_def length_map)
qed

lemma waiting_request_is_served_witness:
  "passed_for [] (1001, ''10.0.0.1'') (replicate 5 (200, ''10.0.0.1'', 1001)) sample_frequency = [True, True, True, False, False]"
proof -
  have k: "frequency_key [] 1001 ''10.0.0.1'' = (1001, ''10.0.0.1'')" by (simp add: frequency_key_def MAX_IP_LEN_def cstr_def)
  have r: "replicate 5 x = x # replicate 4 x" "replicate 2 b = [b, b]" for x :: freq_request and b :: bool
    by (simp_all add: numeral_eq_Suc)
  then show ?thesis
    using waiting_request_is_served [where d = sample_limit and c = sample_frequency and now = 200 and ip = "''10.0.0.1''"
        and request_type = 1001 and calls = "replicate 4 (200, ''10.0.0.1'', 1001)" and beyond = "[]"]
    by (simp add: freq_valid_def sample_limit_def sample_frequency_def k r)
qed

end
