(* ===== verification/Service_Request_Control.thy ===== *)
theory Service_Request_Control
  imports Rate_Limit Url_Param_Map
begin

text \<open>
  Limits that depend on the parameters of a request: \<open>FixFreqControlRule\<close>
  (\<open>src/service_fixed_control_rule.cpp\<close>) and the table of rules \<open>ServiceRequestControl\<close>
  (\<open>src/service_request_control.cpp\<close>). Both counters of a rule are \<open>TimeCountPolicy\<close> and keep the contract
  \<open>rate_limiter\<close> of theory \<open>Rate_Limit\<close>.
\<close>

section \<open>\<open>FixFreqControlRule\<close>\<close>

record control_rule_node =
  ru_value_list :: "string list"
  ru_policy :: time_count_policy

record fix_rule =
  fr_master_key :: string
  fr_master_key_name :: string
  fr_master_policy :: time_count_policy
  fr_key_list :: "string list"
  fr_rules :: "control_rule_node list"
  fr_default_time_period :: int
  fr_default_max_count :: int

text \<open>One rule of the list: values for all keys, then a period and a count, or the default ones. A rule with
  fewer values is reported in the log and left out.\<close>

definition rule_item :: "int \<Rightarrow> nat \<Rightarrow> int \<Rightarrow> int \<Rightarrow> string \<Rightarrow> control_rule_node list" where
  "rule_item now key_size default_time default_count text =
     (let item = split text CHR '','' (int key_size + 2)
      in if length item \<ge> key_size then
           let (time_period, max_count) =
             (if length item \<ge> key_size + 2 then (atoi (item ! key_size), atoi (item ! (key_size + 1)))
              else (default_time, default_count))
           in [\<lparr>ru_value_list = take key_size item, ru_policy = policy_init now time_period max_count\<rparr>]
         else [])"

definition fix_rule_init :: "int \<Rightarrow> string \<Rightarrow> fault + fix_rule" where
  "fix_rule_init now control_rule =
     (let rule_tokens = split control_rule CHR '':'' 1000
      in if \<not> length rule_tokens \<ge> 5 then Inl AssertFail
         else
           let param_vec = split (rule_tokens ! 2) CHR '','' 8;
               key_list = split (rule_tokens ! 3) CHR '','' 8;
               default_vec = split (rule_tokens ! 4) CHR '','' 4
           in if length param_vec \<noteq> 2 then Inl AssertFail
              else if length default_vec \<noteq> 2 then Inl AssertFail
              else if length rule_tokens \<le> 5 then Inl MemoryFault
              else
                let rule_vec = split (rule_tokens ! 5) CHR ''|'' 1024;
                    default_time = atoi (default_vec ! 0);
                    default_count = atoi (default_vec ! 1)
                in Inr \<lparr>fr_master_key = rule_tokens ! 0, fr_master_key_name = rule_tokens ! 1,
                     fr_master_policy = policy_init now (atoi (param_vec ! 0)) (atoi (param_vec ! 1)),
                     fr_key_list = key_list,
                     fr_rules = concat (map (rule_item now (length key_list) default_time default_count) rule_vec),
                     fr_default_time_period = default_time, fr_default_max_count = default_count\<rparr>)"

text \<open>The values of the keys in the request; the list ends at the first key that has none.\<close>

fun rule_values :: "url_map \<Rightarrow> string \<Rightarrow> string list \<Rightarrow> string list" where
  "rule_values param_map service_name [] = []"
| "rule_values param_map service_name (k # ks) =
     (case omap_find param_map k of
        Some v \<Rightarrow> v # rule_values param_map service_name ks
      | None \<Rightarrow> if k = ''service_name'' then service_name # rule_values param_map service_name ks else [])"

fun lookup_rule :: "string list \<Rightarrow> control_rule_node list \<Rightarrow> nat option" where
  "lookup_rule value_list [] = None"
| "lookup_rule value_list (r # rs) =
     (if value_list = ru_value_list r then Some 0 else map_option Suc (lookup_rule value_list rs))"

definition limit_text :: "int \<Rightarrow> time_count_policy \<Rightarrow> string" where
  "limit_text now p = '' called too many times['' @ show_int (tc_current_count p) @ ''] in '' @
     show_int (i32 (now - tc_begin_timestamp p)) @ ''s, over frequence limit:'' @ show_int (tc_max_count p)"

definition master_refused :: "int \<Rightarrow> fix_rule \<Rightarrow> fault" where
  "master_refused now fr = THROW CServerException (error_no ExceedFreqLimit)
     (''master_key:'' @ fr_master_key_name fr @ limit_text now (fr_master_policy fr))"

definition rule_refused :: "int \<Rightarrow> fix_rule \<Rightarrow> control_rule_node \<Rightarrow> fault" where
  "rule_refused now fr r = THROW CServerException (error_no ExceedFreqLimit)
     (''bank:'' @ fr_master_key_name fr @ '','' @ hd (fr_key_list fr) @ '':'' @ hd (ru_value_list r) @ limit_text now (ru_policy r))"

text \<open>\<open>check_rule\<close>. The debug line reads \<open>key_list_[0]\<close> whether there is a key or not. The argument
  \<open>error\<close> is not used.\<close>

definition count_rule :: "int \<Rightarrow> string list \<Rightarrow> (fix_rule, unit) op" where
  "count_rule now value_list = (\<lambda>fr.
     case lookup_rule value_list (fr_rules fr) of
       None \<Rightarrow> (Inr (), fr)
     | Some i \<Rightarrow>
         let r = fr_rules fr ! i;
             (ret, p) = increase_count_1 now (ru_policy r);
             r = r\<lparr>ru_policy := p\<rparr>;
             fr = fr\<lparr>fr_rules := (fr_rules fr)[i := r]\<rparr>
         in (if ret \<noteq> 0 then Inl (rule_refused now fr r) else Inr (), fr))"

definition fix_check_rule :: "int \<Rightarrow> string \<Rightarrow> string \<Rightarrow> (fix_rule, unit) op" where
  "fix_check_rule now service_name request_text = (\<lambda>fr.
     let (ret, p) = increase_count_1 now (fr_master_policy fr);
         fr = fr\<lparr>fr_master_policy := p\<rparr>
     in if ret \<noteq> 0 then (Inl (master_refused now fr), fr)
        else if fr_key_list fr = [] then (Inl MemoryFault, fr)
        else
          let param_map = parseUrl request_text;
              value_list = rule_values param_map service_name (fr_key_list fr)
          in if length value_list < length (fr_key_list fr) then (Inr (), fr)
             else count_rule now value_list fr)"

section \<open>\<open>ServiceRequestControl\<close>\<close>

text \<open>The table owns its rules: a pointer of the map is the rule it leads to.\<close>

record request_control =
  rc_pool :: "(string, fix_rule) omap"
  rc_is_init :: bool

definition rc_clean :: "(request_control, unit) op" where
  "rc_clean = modS (\<lambda>c. c\<lparr>rc_pool := []\<rparr>)"

definition create_fix_rule :: "int \<Rightarrow> string \<Rightarrow> (request_control, unit) op" where
  "create_fix_rule now one_rule = (\<lambda>c.
     let str_vec = split one_rule CHR '':'' 8
     in if length str_vec \<ge> 5 then
          (case fix_rule_init now one_rule of
             Inl e \<Rightarrow> (Inl e, c)
           | Inr fr \<Rightarrow> (Inr (), c\<lparr>rc_pool := omap_set (str_vec ! 0) fr (rc_pool c)\<rparr>))
        else (Inr (), c))"

text \<open>Both forms of \<open>init_fix_i\<close>: from a file and from the rules the switch is sent.\<close>

fun init_fix_rules :: "int \<Rightarrow> string list \<Rightarrow> (request_control, unit) op" where
  "init_fix_rules now [] = returnS ()"
| "init_fix_rules now (r # rs) = seqS (create_fix_rule now r) (init_fix_rules now rs)"

fun init_fix_lines :: "int \<Rightarrow> string list \<Rightarrow> (request_control, unit) op" where
  "init_fix_lines now [] = returnS ()"
| "init_fix_lines now (l # ls) =
     (let buffer = conf_text l
      in if length buffer \<le> 1 then init_fix_lines now ls
         else if hd buffer = CHR ''#'' then init_fix_lines now ls
         else seqS (create_fix_rule now buffer) (init_fix_lines now ls))"

definition init_fix_file :: "int \<Rightarrow> string \<Rightarrow> conf_file \<Rightarrow> (request_control, unit) op" where
  "init_fix_file now name file =
     (case file of
        NoFile err \<Rightarrow> throwS (THROW CConfigException ERR_CONF (''invalid config file:'' @ name))
      | File content err \<Rightarrow> init_fix_lines now (fgets_lines 8094 content))"

definition rc_set_init :: "bool \<Rightarrow> (request_control, unit) op" where
  "rc_set_init b = modS (\<lambda>c. c\<lparr>rc_is_init := b\<rparr>)"

definition rc_init_file :: "int \<Rightarrow> string \<Rightarrow> conf_file \<Rightarrow> (request_control, unit) op" where
  "rc_init_file now name file = seqS (init_fix_file now name file) (rc_set_init True)"

definition rc_init_rules :: "int \<Rightarrow> string list \<Rightarrow> (request_control, unit) op" where
  "rc_init_rules now rules = seqS (init_fix_rules now rules) (rc_set_init True)"

definition rc_re_init_file :: "int \<Rightarrow> string \<Rightarrow> conf_file \<Rightarrow> (request_control, unit) op" where
  "rc_re_init_file now name file =
     seqS (rc_set_init False) (seqS rc_clean (seqS (init_fix_file now name file) (rc_set_init True)))"

definition rc_re_init_rules :: "int \<Rightarrow> string list \<Rightarrow> (request_control, unit) op" where
  "rc_re_init_rules now rules =
     seqS (rc_set_init False) (seqS rc_clean (seqS (init_fix_rules now rules) (rc_set_init True)))"

definition rc_check_rule :: "int \<Rightarrow> string \<Rightarrow> string \<Rightarrow> string \<Rightarrow> (request_control, unit) op" where
  "rc_check_rule now master_key service_name request_text = (\<lambda>c.
     if rc_is_init c then
       (case omap_find (rc_pool c) master_key of
          None \<Rightarrow> (Inr (), c)
        | Some fr \<Rightarrow>
            let (r, fr') = fix_check_rule now service_name request_text fr
            in (r, c\<lparr>rc_pool := omap_set master_key fr' (rc_pool c)\<rparr>))
     else (Inr (), c))"

section \<open>The limits hold whatever comes between\<close>

text \<open>A request: the time, its master key, its service and its text.\<close>

type_synonym rule_request = "int \<times> string \<times> string \<times> string"

definition rule_op :: "rule_request \<Rightarrow> (request_control, unit) op" where
  "rule_op call = (case call of (now, master_key, service, text) \<Rightarrow> rc_check_rule now master_key service text)"

definition with_master :: "string \<Rightarrow> rule_request \<Rightarrow> bool" where
  "with_master mk call \<longleftrightarrow> (case call of (now, master_key, service, text) \<Rightarrow> master_key = mk)"

definition with_values :: "string \<Rightarrow> string list \<Rightarrow> string list \<Rightarrow> rule_request \<Rightarrow> bool" where
  "with_values mk keys vl call \<longleftrightarrow> (case call of (now, master_key, service, text) \<Rightarrow>
     master_key = mk \<and> rule_values (parseUrl text) service keys = vl)"

lemma with_simps [simp]:
  "with_master mk (now, key, service, body) \<longleftrightarrow> key = mk"
  "with_values mk keys vl (now, key, service, body) \<longleftrightarrow> key = mk \<and> rule_values (parseUrl body) service keys = vl"
  by (simp_all add: with_master_def with_values_def)

lemma lookup_rule_Some:
  "lookup_rule vl rs = Some i \<Longrightarrow> i < length rs \<and> ru_value_list (rs ! i) = vl"
  by (induction vl rs arbitrary: i rule: lookup_rule.induct) (auto split: if_splits)

lemma lookup_rule_values: "map ru_value_list rs = map ru_value_list rs' \<Longrightarrow> lookup_rule vl rs = lookup_rule vl rs'"
proof (induction vl rs arbitrary: rs' rule: lookup_rule.induct)
  case (2 vl r rs)
  then obtain r' rs'' where "rs' = r' # rs''" by (cases rs') auto
  with 2 show ?case by auto
qed simp

text \<open>What one check does to a rule: the master counter is always called; the keys and the values of the
  rules stay; the counter of a rule is called exactly if the master lets the request pass and its values are those
  of the rule.\<close>

lemma fix_check_rule_step:
  assumes "fix_check_rule now service text fr = (r, fr')"
  shows "fr_key_list fr' = fr_key_list fr"
    and "map ru_value_list (fr_rules fr') = map ru_value_list (fr_rules fr)"
    and "snd (policy_call now (fr_master_policy fr)) = fr_master_policy fr'"
    and "r = Inr () \<Longrightarrow> fst (policy_call now (fr_master_policy fr))"
    and "lookup_rule vl (fr_rules fr) = Some i \<Longrightarrow> length vl = length (fr_key_list fr) \<Longrightarrow>
      fst (policy_call now (fr_master_policy fr)) \<and> fr_key_list fr \<noteq> [] \<and> rule_values (parseUrl text) service (fr_key_list fr) = vl \<Longrightarrow>
      policy_call now (ru_policy (fr_rules fr ! i)) = (r = Inr (), ru_policy (fr_rules fr' ! i))"
    and "lookup_rule vl (fr_rules fr) = Some i \<Longrightarrow> length vl = length (fr_key_list fr) \<Longrightarrow>
      \<not> (fst (policy_call now (fr_master_policy fr)) \<and> fr_key_list fr \<noteq> [] \<and> rule_values (parseUrl text) service (fr_key_list fr) = vl) \<Longrightarrow>
      ru_policy (fr_rules fr' ! i) = ru_policy (fr_rules fr ! i) \<and>
      (rule_values (parseUrl text) service (fr_key_list fr) = vl \<longrightarrow> r \<noteq> Inr ())"
proof -
  obtain ret p where m: "increase_count_1 now (fr_master_policy fr) = (ret, p)" by (cases "increase_count_1 now (fr_master_policy fr)")
  let ?fr = "fr\<lparr>fr_master_policy := p\<rparr>"
  let ?vl = "rule_values (parseUrl text) service (fr_key_list fr)"
  have pc: "policy_call now (fr_master_policy fr) = (ret = 0, p)" by (simp add: policy_call_def m)
  consider "ret \<noteq> 0" "r = Inl (master_refused now ?fr)" "fr' = ?fr"
    | "ret = 0" "fr_key_list fr = []" "r = Inl MemoryFault" "fr' = ?fr"
    | "ret = 0" "fr_key_list fr \<noteq> []" "length ?vl < length (fr_key_list fr)" "r = Inr ()" "fr' = ?fr"
    | "ret = 0" "fr_key_list fr \<noteq> []" "lookup_rule ?vl (fr_rules fr) = None" "r = Inr ()" "fr' = ?fr"
    | j ret' p' where "ret = 0" "fr_key_list fr \<noteq> []" "lookup_rule ?vl (fr_rules fr) = Some j"
        "increase_count_1 now (ru_policy (fr_rules fr ! j)) = (ret', p')" "r = Inr () \<longleftrightarrow> ret' = 0"
        "fr' = ?fr\<lparr>fr_rules := (fr_rules fr)[j := (fr_rules fr ! j)\<lparr>ru_policy := p'\<rparr>]\<rparr>"
  proof -
    have "fix_check_rule now service text fr = (if ret \<noteq> 0 then (Inl (master_refused now ?fr), ?fr)
        else if fr_key_list fr = [] then (Inl MemoryFault, ?fr)
        else if length ?vl < length (fr_key_list fr) then (Inr (), ?fr) else count_rule now ?vl ?fr)"
      unfolding fix_check_rule_def m Let_def prod.case by simp
    then have E: "(r, fr') = (if ret \<noteq> 0 then (Inl (master_refused now ?fr), ?fr)
        else if fr_key_list fr = [] then (Inl MemoryFault, ?fr)
        else if length ?vl < length (fr_key_list fr) then (Inr (), ?fr) else count_rule now ?vl ?fr)"
      using assms by simp
    show ?thesis
    proof (cases "lookup_rule ?vl (fr_rules fr)")
      case None
      then show ?thesis using E that(1-4) by (auto simp: count_rule_def split: if_splits)
    next
      case (Some j)
      obtain ret' p' where i: "increase_count_1 now (ru_policy (fr_rules fr ! j)) = (ret', p')"
        by (cases "increase_count_1 now (ru_policy (fr_rules fr ! j))")
      have "count_rule now ?vl ?fr = (if ret' \<noteq> 0 then Inl (rule_refused now
          (?fr\<lparr>fr_rules := (fr_rules fr)[j := (fr_rules fr ! j)\<lparr>ru_policy := p'\<rparr>]\<rparr>) ((fr_rules fr ! j)\<lparr>ru_policy := p'\<rparr>)) else Inr (),
          ?fr\<lparr>fr_rules := (fr_rules fr)[j := (fr_rules fr ! j)\<lparr>ru_policy := p'\<rparr>]\<rparr>)"
        using Some i by (simp add: count_rule_def Let_def)
      then show ?thesis using E that(1-3) that(5) [OF _ _ Some i] by (simp split: if_splits)
    qed
  qed
  note cases = this
  show "fr_key_list fr' = fr_key_list fr" using cases by cases auto
  show "snd (policy_call now (fr_master_policy fr)) = fr_master_policy fr'" using cases pc by cases auto
  show "fst (policy_call now (fr_master_policy fr))" if "r = Inr ()" using cases pc that by cases auto
  show "map ru_value_list (fr_rules fr') = map ru_value_list (fr_rules fr)"
    using cases
  proof cases
    case 5
    then have "j < length (fr_rules fr)" using lookup_rule_Some by blast
    then show ?thesis using 5 by (simp add: map_update list_update_same_conv)
  qed auto
  assume l: "lookup_rule vl (fr_rules fr) = Some i" "length vl = length (fr_key_list fr)"
  note i = lookup_rule_Some [OF l(1)]
  show "policy_call now (ru_policy (fr_rules fr ! i)) = (r = Inr (), ru_policy (fr_rules fr' ! i))"
    if "fst (policy_call now (fr_master_policy fr)) \<and> fr_key_list fr \<noteq> [] \<and> ?vl = vl"
    using cases l i pc that by cases (auto simp: policy_call_def)
  show "ru_policy (fr_rules fr' ! i) = ru_policy (fr_rules fr ! i) \<and> (?vl = vl \<longrightarrow> r \<noteq> Inr ())"
    if "\<not> (fst (policy_call now (fr_master_policy fr)) \<and> fr_key_list fr \<noteq> [] \<and> ?vl = vl)"
    using cases
  proof cases
    case 5
    then have "?vl \<noteq> vl" using that pc by auto
    then have "j \<noteq> i" using lookup_rule_Some [OF 5(3)] i by auto
    then show ?thesis using 5 \<open>?vl \<noteq> vl\<close> by simp
  qed (use that pc l in auto)
qed

lemma rule_op_step:
  assumes f: "rule_op (now, mk, service, text) c = (r, c')" and "rc_is_init c"
  shows "rc_is_init c'" and "mk \<noteq> mk' \<Longrightarrow> omap_find (rc_pool c') mk' = omap_find (rc_pool c) mk'"
    and "omap_find (rc_pool c) mk = Some fr \<Longrightarrow>
      \<exists>fr'. fix_check_rule now service text fr = (r, fr') \<and> omap_find (rc_pool c') mk = Some fr'"
  using assms by (auto simp: rule_op_def rc_check_rule_def omap_find_set split: option.splits prod.splits)

text \<open>The requests that passed are among those the counter of the master key let pass.\<close>

lemma passed_master:
  assumes "rc_is_init c" and "omap_find (rc_pool c) mk = Some fr"
  shows "passed (answers_to (with_master mk) rule_op calls c)
    \<le> passed (fst (run_calls policy_call (map fst (filter (with_master mk) calls)) (fr_master_policy fr)))"
  using assms
proof (induction calls arbitrary: c fr)
  case (Cons call calls)
  obtain now key service body where call: "call = (now, key, service, body)" by (cases call) auto
  obtain r c' where f: "rule_op call c = (r, c')" by (cases "rule_op call c")
  note st = rule_op_step [OF f [unfolded call] Cons.prems(1)]
    and ans = answers_to_Cons [where m = rule_op and P = "with_master mk" and calls = calls, OF f]
  show ?case
  proof (cases "key = mk")
    case True
    then obtain fr' where fr': "fix_check_rule now service body fr = (r, fr')" "omap_find (rc_pool c') mk = Some fr'"
      using st(3) Cons.prems(2) by blast
    show ?thesis
      using Cons.IH [OF st(1) fr'(2)] fix_check_rule_step(3,4) [OF fr'(1)] ans call True
      by (auto split: prod.splits)
  next
    case False
    then show ?thesis using Cons.IH [OF st(1), of fr] st(2) [OF False] Cons.prems(2) ans call by simp
  qed
qed simp

text \<open>Those with the values of a rule are among what the counter of the rule let pass, which was called at some of
  the times of such requests.\<close>

lemma passed_values:
  assumes "rc_is_init c" and "omap_find (rc_pool c) mk = Some fr" and "lookup_rule vl (fr_rules fr) = Some i"
    and "length vl = length (fr_key_list fr)"
  shows "\<exists>ts. set ts \<subseteq> fst ` set (filter (with_values mk (fr_key_list fr) vl) calls) \<and> length ts \<le> length calls \<and>
    passed (answers_to (with_values mk (fr_key_list fr) vl) rule_op calls c)
      \<le> passed (fst (run_calls policy_call ts (ru_policy (fr_rules fr ! i))))"
  using assms
proof (induction calls arbitrary: c fr)
  case Nil
  then show ?case by (auto intro: exI [of _ "[]"])
next
  case (Cons call calls)
  obtain now key service body where call: "call = (now, key, service, body)" by (cases call) auto
  obtain r c' where f: "rule_op call c = (r, c')" by (cases "rule_op call c")
  let ?P = "with_values mk (fr_key_list fr) vl"
  note st = rule_op_step [OF f [unfolded call] Cons.prems(1)]
    and ans = answers_to_Cons [where m = rule_op and P = "?P" and calls = calls, OF f]
  show ?case
  proof (cases "key = mk")
    case False
    then have "omap_find (rc_pool c') mk = Some fr" using st(2) Cons.prems(2) by simp
    then show ?thesis
      using Cons.IH [OF st(1) _ Cons.prems(3,4)] ans call False by (fastforce intro: le_SucI)
  next
    case True
    then obtain fr' where fr': "fix_check_rule now service body fr = (r, fr')" "omap_find (rc_pool c') mk = Some fr'"
      using st(3) Cons.prems(2) by blast
    note fs = fix_check_rule_step [OF fr'(1)]
    have l: "lookup_rule vl (fr_rules fr') = Some i"
      using Cons.prems(3) lookup_rule_values [OF fs(2)] by simp
    obtain ts where ts: "set ts \<subseteq> fst ` set (filter ?P calls)" "length ts \<le> length calls"
      "passed (answers_to ?P rule_op calls c') \<le> passed (fst (run_calls policy_call ts (ru_policy (fr_rules fr' ! i))))"
      using Cons.IH [OF st(1) fr'(2) l] Cons.prems(4) fs(1) by auto
    let ?vl = "rule_values (parseUrl body) service (fr_key_list fr)"
    have P: "?P call \<longleftrightarrow> ?vl = vl" using call True by simp
    show ?thesis
    proof (cases "fst (policy_call now (fr_master_policy fr)) \<and> fr_key_list fr \<noteq> [] \<and> ?vl = vl")
      case True
      note s = fs(5) [OF Cons.prems(3,4) True]
      have "set (now # ts) \<subseteq> fst ` set (filter ?P (call # calls))" using ts(1) P True call by force
      moreover have "passed (answers_to ?P rule_op (call # calls) c)
          \<le> passed (fst (run_calls policy_call (now # ts) (ru_policy (fr_rules fr ! i))))"
        using ts(3) ans P True s by (auto split: prod.splits)
      ultimately show ?thesis using ts(2) by (intro exI [of _ "now # ts"]) simp
    next
      case False
      note s = fs(6) [OF Cons.prems(3,4) False]
      have "passed (answers_to ?P rule_op (call # calls) c) \<le> passed (fst (run_calls policy_call ts (ru_policy (fr_rules fr ! i))))"
        using ts(3) ans P s by auto
      moreover have "set ts \<subseteq> fst ` set (filter ?P (call # calls))" using ts(1) by auto
      ultimately show ?thesis using ts(2) by (intro exI [of _ ts]) simp
    qed
  qed
qed

text \<open>C33: whatever requests come between, of the requests with one master key in any interval shorter than the period
  of that key at most \<open>2 * max_count - 1\<close> pass (one, if \<open>max_count\<close> is not positive), whatever its rules are.\<close>

theorem master_limit_bounds_rate:
  assumes "rc_is_init c" and "omap_find (rc_pool c) mk = Some fr"
    and "policy_valid (fr_master_policy fr)" and "length calls + nat (tc_current_count (fr_master_policy fr)) < 2 ^ 31"
    and "\<forall>call \<in> set calls. with_master mk call \<longrightarrow> a \<le> fst call \<and> fst call < a + tc_time_period (fr_master_policy fr)"
  shows "passed (answers_to (with_master mk) rule_op calls c) \<le> 2 * nat (tc_max_count (fr_master_policy fr) - 1) + 1"
proof -
  let ?mp = "fr_master_policy fr"
  define ts where "ts = map fst (filter (with_master mk) calls)"
  have "length ts \<le> length calls" by (simp add: ts_def)
  then have "length ts \<le> nat (2147483647 - tc_current_count ?mp)" using assms(3,4) by (simp add: policy_valid_def)
  then have "passed (fst (run_calls policy_call ts ?mp)) \<le> 2 * nat (tc_max_count ?mp - 1) + 1"
    using assms(3,5) by (intro policy.interval_bound [where a = a]) (auto simp: ts_def)
  then show ?thesis using passed_master [OF assms(1,2), of calls] unfolding ts_def by linarith
qed

text \<open>C34: the same bound holds for each rule of a master key with the period and the count of the rule, for the requests
  that have exactly the values of the rule, and does not need that period to be the shorter one: these requests may go
  over any number of periods of the master key.\<close>

theorem rule_limits_bound_rate:
  assumes "rc_is_init c" and "omap_find (rc_pool c) mk = Some fr"
    and "lookup_rule vl (fr_rules fr) = Some i" and "length vl = length (fr_key_list fr)" and "p = ru_policy (fr_rules fr ! i)"
    and "policy_valid p" and "length calls + nat (tc_current_count p) < 2 ^ 31"
    and "\<forall>call \<in> set calls. with_values mk (fr_key_list fr) vl call \<longrightarrow> b \<le> fst call \<and> fst call < b + tc_time_period p"
  shows "passed (answers_to (with_values mk (fr_key_list fr) vl) rule_op calls c) \<le> 2 * nat (tc_max_count p - 1) + 1"
proof -
  obtain us where us: "set us \<subseteq> fst ` set (filter (with_values mk (fr_key_list fr) vl) calls)" "length us \<le> length calls"
    "passed (answers_to (with_values mk (fr_key_list fr) vl) rule_op calls c) \<le> passed (fst (run_calls policy_call us p))"
    using passed_values [OF assms(1-4), of calls] assms(5) by blast
  have "length us \<le> nat (2147483647 - tc_current_count p)" using us(2) assms(6,7) by (simp add: policy_valid_def)
  then have "passed (fst (run_calls policy_call us p)) \<le> 2 * nat (tc_max_count p - 1) + 1"
    using us(1) assms(6,8) by (intro policy.interval_bound [where a = b]) auto
  then show ?thesis using us(3) by linarith
qed

text \<open>A rule of one minute and a master key of ten seconds; the requests come every five seconds.\<close>

definition sample_rule :: fix_rule where
  "sample_rule = \<lparr>fr_master_key = ''bank'', fr_master_key_name = ''b'', fr_master_policy = policy_init 100 10 50,
     fr_key_list = [''uid''], fr_rules = [\<lparr>ru_value_list = [''7''], ru_policy = policy_init 100 60 2\<rparr>],
     fr_default_time_period = 60, fr_default_max_count = 2\<rparr>"

definition sample_control :: request_control where
  "sample_control = \<lparr>rc_pool = [(''bank'', sample_rule)], rc_is_init = True\<rparr>"

definition sample_calls :: "rule_request list" where
  "sample_calls = map (\<lambda>i. (100 + 5 * i, ''bank'', ''s'', ''uid=7'')) [0..11]"

lemma master_limit_bounds_rate_witness:
  "passed (answers_to (with_master ''bank'') rule_op (replicate 200 (105, ''bank'', ''s'', ''uid=8'')) sample_control) \<le> 99"
  using master_limit_bounds_rate [where c = sample_control and mk = "''bank''" and fr = sample_rule and a = 100
      and calls = "replicate 200 (105, ''bank'', ''s'', ''uid=8'')"]
  by (simp add: sample_control_def sample_rule_def policy_valid_def policy_init_def)

lemma rule_limits_bound_rate_witness:
  "passed (answers_to (with_values ''bank'' [''uid''] [''7'']) rule_op sample_calls sample_control) \<le> 3"
  using rule_limits_bound_rate [where c = sample_control and mk = "''bank''" and fr = sample_rule and vl = "[''7'']" and i = 0
      and p = "policy_init 100 60 2" and b = 100 and calls = sample_calls]
  by (simp add: sample_control_def sample_rule_def policy_valid_def policy_init_def sample_calls_def)

end
