(* ===== verification/Client_Socket.thy ===== *)
theory Client_Socket
  imports Url_Param_Map Api_Base Request_Type_Conf System_Conf
begin

text \<open>
  \<open>CClientSocket\<close> (\<open>src/client_socket.cpp\<close>): one connection from a client, from the request that is read
  through the answer that is written back. The theory shows that a request is received and keyed whole
  however the network cuts it, that an answer is sent whole, and what becomes of the text of an error.
\<close>

section \<open>State\<close>

datatype client_status =
  EM_CL_FREE | EM_CL_READ | EM_CL_PROCESS | EM_CL_SEND | EM_CL_OVER | EM_CL_TIME_OUT

fun client_status_no :: "client_status \<Rightarrow> int" where
  "client_status_no EM_CL_FREE = 0"
| "client_status_no EM_CL_READ = 1"
| "client_status_no EM_CL_PROCESS = 2"
| "client_status_no EM_CL_SEND = 3"
| "client_status_no EM_CL_OVER = 4"
| "client_status_no EM_CL_TIME_OUT = 5"

text \<open>\<open>struct timeval\<close>: seconds and microseconds.\<close>

type_synonym timeval = "int \<times> int"

text \<open>The pointer to the server is left out: there is one. The pointer to the connection of the back end is
  its address. Both packet arrays are zero behind the bytes given.\<close>

record client_socket = sock_base +
  cl_status :: client_status
  cl_thread_no :: int
  cl_is_head :: bool
  cl_seq_no :: int
  cl_req_packet :: string
  cl_req_packet_len :: int
  cl_res_packet :: string
  cl_res_packet_len :: int
  cl_request_type :: int
  cl_request_key :: string
  cl_request_key_index :: int
  cl_request_conf :: request_conf_data
  cl_api :: "nat option"
  cl_access_stamp :: timeval
  cl_recv_ok_stamp :: timeval
  cl_process_stamp :: timeval
  cl_is_system_error :: bool
  cl_ip :: string
  cl_port :: int
  cl_server_ip :: string
  cl_server_port :: int

type_synonym client_world = "client_socket world"

definition request_conf0 :: request_conf_data where
  "request_conf0 = \<lparr>rt_request_type = [], rt_property = 0, rt_site_no = 0, rt_protocol = 0, rt_service_name = []\<rparr>"

section \<open>Operations\<close>

definition client_reset :: "(client_world, unit) op" where
  "client_reset =
     seqS (objW (\<lambda>s. s\<lparr>cl_status := EM_CL_FREE, cl_req_packet := [], cl_req_packet_len := 0, cl_res_packet := [],
       cl_res_packet_len := 0, cl_request_key := [], cl_access_stamp := (0, 0), cl_recv_ok_stamp := (0, 0),
       cl_process_stamp := (0, 0), cl_request_conf := request_conf0, process_buf := [], process_total := 0,
       processed := 0, cl_ip := [], cl_port := 0, cl_thread_no := - 1, cl_is_head := False, cl_api := None,
       cl_request_key_index := - 1, cl_request_type := - 1, cl_server_ip := [], cl_server_port := 0,
       cl_is_system_error := False\<rparr>))
       (\<lambda>(k, s). bindS (sysW (close (s_fd s))) (\<lambda>fd. objW (\<lambda>s. s\<lparr>s_fd := fd\<rparr>)) (k, s))"

text \<open>A new object: \<open>_seq_no\<close> is not set by the constructor.\<close>

definition client_new :: "int \<Rightarrow> client_socket" where
  "client_new seq_no = sock_base.extend sock_init
     \<lparr>cl_status = EM_CL_FREE, cl_thread_no = - 1, cl_is_head = False, cl_seq_no = seq_no, cl_req_packet = [],
      cl_req_packet_len = 0, cl_res_packet = [], cl_res_packet_len = 0, cl_request_type = - 1, cl_request_key = [],
      cl_request_key_index = - 1, cl_request_conf = request_conf0, cl_api = None, cl_access_stamp = (0, 0),
      cl_recv_ok_stamp = (0, 0), cl_process_stamp = (0, 0), cl_is_system_error = False, cl_ip = [], cl_port = 0,
      cl_server_ip = [], cl_server_port = 0\<rparr>"

definition client_fini :: "(client_world, unit) op" where
  "client_fini = client_reset"

text \<open>\<open>peer\<close> is what \<open>getpeername\<close> answers: its error, or the address and the port.\<close>

definition client_init ::
  "int \<Rightarrow> int \<Rightarrow> int \<Rightarrow> string + (string \<times> int) \<Rightarrow> timeval \<Rightarrow> (client_world, unit) op" where
  "client_init fd thread_no seq_no peer now = (\<lambda>(k, s).
     if s_fd s \<noteq> INVALID_SOCKET then (Inl AssertFail, (k, s))
     else if cl_thread_no s \<ge> 0
     then (Inl (THROW CTrpcException ERR_SYS_UNKNOWN
            (''fd: '' @ show_int fd @ '' old thread: '' @ show_int (cl_thread_no s) @ '', new thread: '' @ show_int thread_no)), (k, s))
     else
       seqS (objW (\<lambda>s. s\<lparr>s_fd := fd\<rparr>))
      (seqS (sysW (set_nonblock fd True))
      (case peer of
         Inl err \<Rightarrow> throwS (THROW CSocketException ERR_SOCKET_TERMINAL (''getpeername error: '' @ err))
       | Inr (ip, port) \<Rightarrow>
           objW (\<lambda>s. s\<lparr>cl_ip := ip, cl_port := port, cl_access_stamp := now, cl_recv_ok_stamp := (0, 0),
             cl_process_stamp := (0, 0), cl_thread_no := thread_no, cl_status := EM_CL_READ, cl_seq_no := seq_no\<rparr>))) (k, s))"

definition client_recv_head :: "(client_world, int) op" where
  "client_recv_head = (\<lambda>(k, s).
     case sock_read (s_fd s) 4 k of
       (Inl e, k') \<Rightarrow> (Inl e, (k', s))
     | (Inr (sz, bs), k') \<Rightarrow>
         let s = (if bs = [] then s else s\<lparr>process_buf := write_at (process_buf s) 0 bs\<rparr>)
         in if sz < 4
            then (Inl (THROW CSocketException ERR_IPC_ERROR (''read size error: '' @ show_int sz @ '' < 4'')), (k', s))
            else
              let s = s\<lparr>process_total := get_int (read_at (process_buf s) 0 4)\<rparr>
              in if process_total s \<le> 0 \<or> process_total s > MAX_PACKET_LEN - 4
                 then (Inl (THROW CServerException ERR_PACKET_LENGTH
                        (''req packet len error: '' @ show_int (process_total s))), (k', s))
                 else (Inr RECV_HAVE_MORE,
                       (k', s\<lparr>processed := 4, process_total := process_total s + 4, cl_status := EM_CL_READ,
                              cl_is_head := True\<rparr>)))"

definition client_read :: "timeval \<Rightarrow> (client_world, int) op" where
  "client_read now = (\<lambda>(k, s).
     bindS (if \<not> cl_is_head s then bindS client_recv_head (\<lambda>_. base_recv) else base_recv) (\<lambda>ret.
       if ret = RECV_OK then seqS (objW (\<lambda>s. s\<lparr>cl_status := EM_CL_PROCESS, cl_recv_ok_stamp := now\<rparr>)) (returnS ret)
       else returnS ret) (k, s))"

definition client_write :: "timeval \<Rightarrow> (client_world, int) op" where
  "client_write now =
     bindS base_send (\<lambda>ret.
       if ret = SEND_OK then seqS (objW (\<lambda>s. s\<lparr>cl_status := EM_CL_OVER, cl_process_stamp := now\<rparr>)) (returnS ret)
       else returnS ret)"

definition client_process :: "timeval \<Rightarrow> (client_world, int) op" where
  "client_process now = (\<lambda>(k, s).
     case cl_status s of
       EM_CL_READ \<Rightarrow> client_read now (k, s)
     | EM_CL_SEND \<Rightarrow> client_write now (k, s)
     | st \<Rightarrow> (Inl (THROW CTrpcException ERR_SYS_UNKNOWN (''unknown status: '' @ show_int (client_status_no st))), (k, s)))"

subsection \<open>The request\<close>

text \<open>\<open>%0nu\<close> of an \<open>unsigned int\<close>, and \<open>strstr\<close> as a test.\<close>

definition show_u0 :: "nat \<Rightarrow> int \<Rightarrow> string" where
  "show_u0 n x = (let t = show_nat (nat (x mod 2 ^ 32)) in replicate (n - length t) CHR ''0'' @ t)"

fun has_text :: "string \<Rightarrow> string \<Rightarrow> bool" where
  "has_text p [] = (p = [])"
| "has_text p (c # cs) = (take (length p) (c # cs) = p \<or> has_text p cs)"

definition msg_no_text :: "int \<Rightarrow> int \<Rightarrow> int \<Rightarrow> string" where
  "msg_no_text relay_server_no now msg_index =
     ''MSG_NO='' @ show_u0 3 relay_server_no @ show_u0 10 now @ show_u0 10 msg_index @ ''&''"

text \<open>The index of the last range that holds the request type.\<close>

fun key_index :: "int \<Rightarrow> int \<Rightarrow> request_key_conf list \<Rightarrow> int \<Rightarrow> int" where
  "key_index t i [] found = found"
| "key_index t i (rc # rcs) found =
     key_index t (i + 1) rcs (if t \<ge> rk_begin rc \<and> t < rk_end rc then i else found)"

definition key_missing :: "string \<Rightarrow> fault" where
  "key_missing name = THROW CServerException ERR_PACKET_FMT (''key param: '' @ name @ '' not found'')"

text \<open>The \<open>do .. while\<close> loop over the names of the key; the text built so far stays when it raises.\<close>

fun join_key :: "url_map \<Rightarrow> bool \<Rightarrow> string \<Rightarrow> string list \<Rightarrow> (fault + unit) \<times> string" where
  "join_key param is_first key [] = (Inr (), key)"
| "join_key param is_first key (n # ns) =
     (let key = (if is_first then key else key @ ''^'')
      in if isEmpty param n then (Inl (key_missing n), key)
         else join_key param False (key @ omap_get [] param n) ns)"

definition gen_request_key :: "request_key_conf list \<Rightarrow> (client_socket, unit) op" where
  "gen_request_key request_type_array = (\<lambda>s.
     if request_type_array = []
     then (Inl (THROW CTrpcException ERR_SYS_UNKNOWN ''request_type array is empty''), s)
     else
       let s = s\<lparr>cl_request_key := []\<rparr>; param = parseUrl (cstr (cl_req_packet s))
       in if isEmpty param REQUEST_TYPE_NAME then (Inl (key_missing REQUEST_TYPE_NAME), s)
          else
            let t = atoi (cstr (omap_get [] param REQUEST_TYPE_NAME));
                i = key_index t 0 request_type_array (- 1);
                s = s\<lparr>cl_request_type := t, cl_request_key_index := i\<rparr>
            in if i < 0
               then (Inl (THROW CServerException ERR_PACKET_ERROR (''request_type error: '' @ show_int t)), s)
               else
                 let names = rk_request_key (request_type_array ! nat i)
                 in if names = [] then (Inl MemoryFault, s)
                    else case join_key param True [] names of (r, key) \<Rightarrow> (r, s\<lparr>cl_request_key := key\<rparr>))"

text \<open>The counter \<open>msg_index\<close> is shared by all sockets: the state is a socket and the counter.\<close>

definition client_decode :: "request_key_conf list \<Rightarrow> int \<Rightarrow> int \<Rightarrow> (client_socket \<times> int, unit) op" where
  "client_decode request_type_array relay_server_no now = (\<lambda>(s, msg_index).
     let len = get_int (read_at (process_buf s) 0 4);
         add = \<not> has_text ''MSG_NO'' (cstr (drop 4 (process_buf s))) \<and> process_total s \<le> MAX_PACKET_LEN - 64;
         msg_index = (if add then (msg_index + 1) mod 2 ^ 32 else msg_index);
         msg_no = (if add then msg_no_text relay_server_no now msg_index else [])
     in if len < 0 \<or> len > MAX_PACKET_LEN - 4 \<or> int (length msg_no) + len > MAX_PACKET_LEN
        then (Inl MemoryFault, (s\<lparr>cl_req_packet_len := len, cl_req_packet := msg_no\<rparr>, msg_index))
        else
          let s = s\<lparr>cl_req_packet := msg_no @ read_at (process_buf s) 4 (nat len),
                    cl_req_packet_len := len + int (length msg_no)\<rparr>
          in case gen_request_key request_type_array s of
               (Inl e, s) \<Rightarrow> (Inl e, (s, msg_index))
             | (Inr _, s) \<Rightarrow> (Inr (), (s\<lparr>cl_status := EM_CL_PROCESS\<rparr>, msg_index)))"

subsection \<open>The answer\<close>

text \<open>\<open>_process_buf\<close> is cleared and filled with the length \<open>len\<close> and \<open>len\<close> bytes of \<open>data\<close>.\<close>

definition fill_answer :: "int \<Rightarrow> string \<Rightarrow> (client_socket, unit) op" where
  "fill_answer len data = (\<lambda>s.
     if len < 0 \<or> len + 4 > MAX_PACKET_LEN then (Inl MemoryFault, s\<lparr>process_buf := put_int len\<rparr>)
     else (Inr (), s\<lparr>process_buf := put_int len @ read_at data 0 (nat len), process_total := 4 + len, processed := 0\<rparr>))"

definition busy_text :: "string \<Rightarrow> string" where
  "busy_text result = ''['' @ result @ '']system busy''"

text \<open>The map sent back for an error: the whole answer for a service logged in detail, else three of its entries.
  \<open>operator[]\<close> adds the entries it is asked for.\<close>

definition error_map :: "bool \<Rightarrow> errcode_escape \<Rightarrow> int \<Rightarrow> url_map \<Rightarrow> url_map" where
  "error_map is_detail_service esc result param =
     (let res_param =
            (if is_detail_service then param
             else
               let m = omap_set ''res_info'' (omap_get [] param ''res_info'') (omap_set ''result'' (omap_get [] param ''result'') [])
               in case omap_find param ''comm_value'' of None \<Rightarrow> m | Some v \<Rightarrow> omap_set ''comm_value'' v m);
          escape_text =
            (if isOriginalCode result esc then []
             else if isEscapedCode result esc then omap_get [] esc result
             else omap_get [] param ''res_info'')
      in if length escape_text > 0 then omap_set ''res_info'' escape_text res_param
         else omap_set ''res_info'' (busy_text (omap_get [] param ''result'')) res_param)"

definition encode_protocol_text :: "detail_services \<Rightarrow> errcode_escape \<Rightarrow> (client_socket, unit) op" where
  "encode_protocol_text details esc = (\<lambda>s.
     let param = omap_insert ''result'' [] (parseUrl (cstr (cl_res_packet s)));
         result = atoi (cstr (omap_get [] param ''result''))
     in if result \<noteq> 0 then
          let packet = packUrl (error_map (is_detail_info_service (cl_request_type s) details) esc result param)
          in fill_answer (int (length packet)) packet s
        else fill_answer (cl_res_packet_len s) (cl_res_packet s) s)"

definition encode_protocol_binary :: "errcode_escape \<Rightarrow> (client_socket, unit) op" where
  "encode_protocol_binary esc = (\<lambda>s.
     let result = get_int (read_at (cl_res_packet s) 0 4);
         escape_text =
           (if result = 0 then []
            else if isOriginalCode result esc then []
            else if isEscapedCode result esc then omap_get [] esc result
            else busy_text (show_int result))
     in if length escape_text > 0 then
          let s = s\<lparr>cl_res_packet_len := 4 + int (length escape_text)\<rparr>
          in fill_answer (cl_res_packet_len s) (put_int result @ escape_text) s
        else fill_answer (cl_res_packet_len s) (cl_res_packet s) s)"

definition client_encode :: "detail_services \<Rightarrow> errcode_escape \<Rightarrow> (client_socket, unit) op" where
  "client_encode details esc = (\<lambda>s.
     seqS (if rt_protocol (cl_request_conf s) = EM_PROTOCOL_BIN then encode_protocol_binary esc
           else encode_protocol_text details esc)
       (modS (\<lambda>s. s\<lparr>cl_status := EM_CL_SEND\<rparr>)) s)"

definition get_call_result :: "client_socket \<Rightarrow> int" where
  "get_call_result s =
     (if rt_protocol (cl_request_conf s) = EM_PROTOCOL_BIN then get_int (read_at (cl_res_packet s) 0 4)
      else atoi (cstr (omap_get [] (parseUrl (cstr (cl_res_packet s))) ''result'')))"

definition acc_res_packet :: "client_socket \<Rightarrow> string" where
  "acc_res_packet s =
     (if rt_protocol (cl_request_conf s) = EM_PROTOCOL_BIN \<and> get_call_result s \<noteq> 0
      then take 1022 (''result='' @ show_int (get_call_result s) @ ''&res_info='' @ cstr (drop 4 (cl_res_packet s)))
      else cstr (cl_res_packet s))"

definition microseconds :: "timeval \<Rightarrow> timeval \<Rightarrow> int" where
  "microseconds t0 t1 = i32 ((fst t1 - fst t0) * 1000000 + snd t1 - snd t0)"

definition call_middle_microseconds :: "client_socket \<Rightarrow> int" where
  "call_middle_microseconds s =
     (if fst (cl_process_stamp s) \<noteq> 0 \<and> fst (cl_recv_ok_stamp s) \<noteq> 0
      then microseconds (cl_recv_ok_stamp s) (cl_process_stamp s) else 0)"

definition total_process_microseconds :: "client_socket \<Rightarrow> int" where
  "total_process_microseconds s =
     (if fst (cl_process_stamp s) \<noteq> 0 \<and> fst (cl_access_stamp s) \<noteq> 0
      then microseconds (cl_access_stamp s) (cl_process_stamp s) else 0)"

definition set_process_time_stamp :: "timeval \<Rightarrow> client_socket \<Rightarrow> client_socket" where
  "set_process_time_stamp now s = (if fst (cl_process_stamp s) = 0 then s\<lparr>cl_process_stamp := now\<rparr> else s)"

definition set_recv_time_stamp :: "timeval \<Rightarrow> client_socket \<Rightarrow> client_socket" where
  "set_recv_time_stamp now s = (if fst (cl_recv_ok_stamp s) = 0 then s\<lparr>cl_recv_ok_stamp := now\<rparr> else s)"

section \<open>Repeated calls of \<open>process\<close>\<close>

lemma client_process_read:
  "cl_status s = EM_CL_READ \<Longrightarrow> cl_is_head s \<Longrightarrow> client_process now (k, s) =
     (case base_recv (k, s) of
        (Inl e, w) \<Rightarrow> (Inl e, w)
      | (Inr ret, w) \<Rightarrow> (Inr ret, if ret = RECV_OK
           then (fst w, (snd w)\<lparr>cl_status := EM_CL_PROCESS, cl_recv_ok_stamp := now\<rparr>) else w))"
  by (auto simp: client_process_def client_read_def bindS_def seqS_def objW_def modS_def returnS_def split: prod.split sum.split)

lemma client_process_write:
  "cl_status s = EM_CL_SEND \<Longrightarrow> client_process now (k, s) =
     (case base_send (k, s) of
        (Inl e, w) \<Rightarrow> (Inl e, w)
      | (Inr ret, w) \<Rightarrow> (Inr ret, if ret = SEND_OK
           then (fst w, (snd w)\<lparr>cl_status := EM_CL_OVER, cl_process_stamp := now\<rparr>) else w))"
  by (auto simp: client_process_def client_write_def bindS_def seqS_def objW_def modS_def returnS_def split: prod.split sum.split)

text \<open>What repeating the base operation does, repeating \<open>process\<close> does, with the new status at the end.\<close>

lemma until_client_read:
  assumes "cl_status s = EM_CL_READ" and "cl_is_head s" and "until m RECV_HAVE_MORE base_recv (k, s) = (Inr RECV_OK, (k', s'))"
  shows "until m RECV_HAVE_MORE (client_process now) (k, s)
    = (Inr RECV_OK, (k', s'\<lparr>cl_status := EM_CL_PROCESS, cl_recv_ok_stamp := now\<rparr>))"
  using assms
proof (induction m arbitrary: k s)
  case 0
  then show ?case by (simp add: client_process_read)
next
  case (Suc m)
  obtain r1 k1 s1 where b: "base_recv (k, s) = (r1, (k1, s1))" by (cases "base_recv (k, s)") auto
  obtain bs n where s1: "s1 = s\<lparr>process_buf := bs, processed := n\<rparr>" using base_recv_frame [OF b] by blast
  show ?case
  proof (cases "r1 = Inr RECV_HAVE_MORE")
    case True
    then show ?thesis
      using Suc.prems b s1 Suc.IH [of s1 k1] by (simp add: bindS_def client_process_read code_numbers)
  next
    case False
    then show ?thesis
      using Suc.prems b by (cases r1) (auto simp: bindS_def client_process_read)
  qed
qed

lemma until_client_write:
  assumes "cl_status s = EM_CL_SEND" and "is_ok (s_fd s)" and "buf_ok s" and "processed s < process_total s"
    and "takes_for (Suc n) (k_write k (s_fd s))" and "process_total s - processed s \<le> int n + 1"
  shows "\<exists>k' n'. until n SEND_HAVE_MORE (client_process now) (k, s)
      = (Inr SEND_OK, (k', s\<lparr>processed := n', cl_status := EM_CL_OVER, cl_process_stamp := now\<rparr>))
    \<and> k_sent k' (s_fd s) = k_sent k (s_fd s) @ unsent s \<and> k_read k' = k_read k"
  using assms
proof (induction n arbitrary: k s)
  case (0 k s)
  obtain n k' where b: "base_send (k, s) =
      (Inr (if processed s + int n = process_total s then SEND_OK else SEND_HAVE_MORE),
       (k', s\<lparr>processed := processed s + int n\<rparr>))"
    "0 < n" "int n \<le> process_total s - processed s"
    "k_sent k' (s_fd s) = k_sent k (s_fd s) @ take n (unsent s)" "k_read k' = k_read k"
    using base_send_data [OF "0.prems"(2-5)] by blast
  have e: "processed s + int n = process_total s" using b(2,3) "0.prems"(6) by linarith
  then have "n = length (unsent s)" using "0.prems"(3) by (simp add: unsent_def buf_ok_def)
  then show ?case using b "0.prems"(1) e by (auto simp: client_process_write)
next
  case (Suc m k s)
  obtain n k1 where b: "base_send (k, s) =
      (Inr (if processed s + int n = process_total s then SEND_OK else SEND_HAVE_MORE),
       (k1, s\<lparr>processed := processed s + int n\<rparr>))"
    "0 < n" "int n \<le> process_total s - processed s" "takes_for (Suc m) (k_write k1 (s_fd s))"
    "k_sent k1 (s_fd s) = k_sent k (s_fd s) @ take n (unsent s)" "k_read k1 = k_read k"
    using base_send_data [OF Suc.prems(2-5)] by blast
  show ?case
  proof (cases "processed s + int n = process_total s")
    case True
    then have "n = length (unsent s)" using Suc.prems(3) by (simp add: unsent_def buf_ok_def)
    then show ?thesis
      using b Suc.prems(1) True by (auto simp: bindS_def client_process_write code_numbers)
  next
    case False
    define s1 where "s1 = s\<lparr>processed := processed s + int n\<rparr>"
    have p: "cl_status s1 = EM_CL_SEND" "is_ok (s_fd s1)" "buf_ok s1" "processed s1 < process_total s1"
      "takes_for (Suc m) (k_write k1 (s_fd s1))" "process_total s1 - processed s1 \<le> int m + 1"
      using Suc.prems b False by (auto simp: s1_def buf_ok_def)
    have "until (Suc m) SEND_HAVE_MORE (client_process now) (k, s) = until m SEND_HAVE_MORE (client_process now) (k1, s1)"
      using b(1) Suc.prems(1) False
      by (simp add: bindS_def client_process_write s1_def SEND_HAVE_MORE_def SEND_OK_def)
    moreover have "k_sent k1 (s_fd s) @ unsent s1 = k_sent k (s_fd s) @ unsent s"
      using b(5) unsent_advance [OF Suc.prems(3) b(3)] by (simp add: s1_def)
    ultimately show ?thesis
      using Suc.IH [OF p] b(6) by (auto simp: s1_def)
  qed
qed

text \<open>Receiving never makes the buffer longer than the packet.\<close>

lemma base_recv_length:
  assumes "base_recv (k, s) = (Inr r, (k', s'))" and "buf_ok s" and "length (process_buf s) \<le> nat (process_total s)"
  shows "length (process_buf s') \<le> nat (process_total s') \<and> process_total s' = process_total s"
proof -
  have t: "process_total s' = process_total s" using base_recv_frame [OF assms(1)] by auto
  obtain r1 k1 where rd: "sock_read (s_fd s) (process_total s - processed s) k = (r1, k1)"
    by (cases "sock_read (s_fd s) (process_total s - processed s) k") auto
  obtain c where r1: "case r1 of Inl e \<Rightarrow> c = [] | Inr (m, bs) \<Rightarrow> bs = c \<and> (if c = [] then m = - 1 else m = int (length c))
      \<and> (0 \<le> process_total s - processed s \<longrightarrow> int (length c) \<le> process_total s - processed s)"
    using sock_read_cases [OF rd] by blast
  show ?thesis
  proof (cases r1)
    case (Inl e)
    then show ?thesis using assms(1) rd by (simp add: base_recv_def)
  next
    case (Inr mb)
    then obtain m where m: "r1 = Inr (m, c)" "if c = [] then m = - 1 else m = int (length c)"
      "int (length c) \<le> process_total s - processed s" using r1 assms(2) by (cases mb) (auto simp: buf_ok_def)
    show ?thesis
    proof (cases "c = []")
      case True
      then show ?thesis using assms(1,3) rd m by (auto simp: base_recv_def)
    next
      case False
      then have "process_buf s' = write_at (process_buf s) (nat (processed s)) c"
        using assms(1) rd m by (auto simp: base_recv_def Let_def split: if_splits)
      moreover have "nat (processed s) + length c \<le> nat (process_total s)"
        using m(3) assms(2) unfolding buf_ok_def by linarith
      ultimately show ?thesis using t assms(3) by (simp add: length_write_at)
    qed
  qed
qed

lemma until_recv_length:
  assumes "until n RECV_HAVE_MORE base_recv (k, s) = (Inr r, (k', s'))" and "buf_ok s"
    and "length (process_buf s) \<le> nat (process_total s)"
  shows "length (process_buf s') \<le> nat (process_total s) \<and> process_total s' = process_total s"
  using assms
proof (induction n arbitrary: k s)
  case 0
  then show ?case using base_recv_length by force
next
  case (Suc n)
  obtain r1 k1 s1 where b: "base_recv (k, s) = (r1, (k1, s1))" by (cases "base_recv (k, s)") auto
  show ?case
  proof (cases r1)
    case (Inl e)
    then show ?thesis using Suc.prems(1) b by (simp add: bindS_def)
  next
    case (Inr c)
    note l = base_recv_length [OF b [unfolded Inr] Suc.prems(2,3)]
    have "buf_ok s1" using base_recv_keeps [OF b Suc.prems(2)] by blast
    then show ?thesis
      using Suc.IH [of k1 s1] Suc.prems(1) b Inr l by (auto simp: bindS_def split: if_splits)
  qed
qed

section \<open>A request is received and keyed whole\<close>

text \<open>What the key of a request is to be: the last range that holds its type says which parameters, all of which
  must have a value.\<close>

definition request_key_spec :: "request_key_conf list \<Rightarrow> url_map \<Rightarrow> string option" where
  "request_key_spec rcs m =
     (if isEmpty m REQUEST_TYPE_NAME then None
      else
        let t = atoi (cstr (omap_get [] m REQUEST_TYPE_NAME))
        in case filter (\<lambda>rc. t \<ge> rk_begin rc \<and> t < rk_end rc) rcs of
             [] \<Rightarrow> None
           | fs \<Rightarrow>
               let names = rk_request_key (last fs)
               in if names \<noteq> [] \<and> (\<forall>n \<in> set names. \<not> isEmpty m n)
                  then Some (join CHR ''^'' (map (omap_get [] m) names)) else None)"

lemma key_index_cases:
  assumes "fs = filter (\<lambda>rc. t \<ge> rk_begin rc \<and> t < rk_end rc) rcs"
  shows "if fs = [] then key_index t i rcs found = found
    else \<exists>j < length rcs. key_index t i rcs found = i + int j \<and> rcs ! j = last fs"
  using assms
proof (induction rcs arbitrary: i found fs)
  case (Cons rc rcs)
  let ?P = "\<lambda>rc. t \<ge> rk_begin rc \<and> t < rk_end rc"
  define found' where "found' = (if ?P rc then i else found)"
  note IH = Cons.IH [OF refl, of "i + 1" found']
  have k: "key_index t i (rc # rcs) found = key_index t (i + 1) rcs found'" by (simp add: found'_def)
  show ?case
  proof (cases "filter ?P rcs = []")
    case True
    then show ?thesis using IH k Cons.prems by (auto simp: found'_def)
  next
    case False
    then obtain j where "j < length rcs" "key_index t (i + 1) rcs found' = i + 1 + int j" "rcs ! j = last (filter ?P rcs)"
      using IH by auto
    then show ?thesis using k Cons.prems False by (auto intro!: exI [of _ "Suc j"])
  qed
qed simp

lemma join_key_tail:
  "join_key m False key ns =
     (if \<forall>n \<in> set ns. \<not> isEmpty m n then (Inr (), key @ concat (map (\<lambda>n. CHR ''^'' # omap_get [] m n) ns))
      else (fst (join_key m False key ns), snd (join_key m False key ns))) \<and>
   (fst (join_key m False key ns) = Inr () \<longleftrightarrow> (\<forall>n \<in> set ns. \<not> isEmpty m n))"
  by (induction ns arbitrary: key) (auto simp: Let_def)

lemma join_concat: "join d (t # ts) = t @ concat (map (\<lambda>u. d # u) ts)"
  by (induction ts arbitrary: t) auto

lemma join_key_eq:
  assumes "ns \<noteq> []"
  shows "fst (join_key m True [] ns) = Inr () \<longleftrightarrow> (\<forall>n \<in> set ns. \<not> isEmpty m n)"
    and "\<forall>n \<in> set ns. \<not> isEmpty m n \<Longrightarrow> join_key m True [] ns = (Inr (), join CHR ''^'' (map (omap_get [] m) ns))"
proof -
  obtain n ns' where ns: "ns = n # ns'" using assms by (cases ns) auto
  note t = join_key_tail [of m "omap_get [] m n" ns']
  show "fst (join_key m True [] ns) = Inr () \<longleftrightarrow> (\<forall>n \<in> set ns. \<not> isEmpty m n)"
    using t by (simp add: ns)
  show "join_key m True [] ns = (Inr (), join CHR ''^'' (map (omap_get [] m) ns))" if "\<forall>n \<in> set ns. \<not> isEmpty m n"
    using t that by (simp add: ns join_concat comp_def)
qed

text \<open>The loops of \<open>_gen_request_key\<close> compute the specification; a request without a key raises a
  \<open>CServerException\<close>.\<close>

lemma gen_request_key_spec:
  assumes "rcs \<noteq> []" and "\<forall>rc \<in> set rcs. rk_request_key rc \<noteq> []"
  shows "case request_key_spec rcs (parseUrl (cstr (cl_req_packet s))) of
     Some key \<Rightarrow> \<exists>t i. gen_request_key rcs s = (Inr (), s\<lparr>cl_request_type := t, cl_request_key_index := i, cl_request_key := key\<rparr>)
   | None \<Rightarrow> \<exists>n w. fst (gen_request_key rcs s) = Inl (Throw CServerException n w)"
proof -
  define m where "m = parseUrl (cstr (cl_req_packet s))"
  define t where "t = atoi (cstr (omap_get [] m REQUEST_TYPE_NAME))"
  define fs where "fs = filter (\<lambda>rc. t \<ge> rk_begin rc \<and> t < rk_end rc) rcs"
  define i where "i = key_index t 0 rcs (- 1)"
  note ki = key_index_cases [of fs t rcs 0 "- 1", OF fs_def, folded i_def]
  show ?thesis
  proof (cases "isEmpty m REQUEST_TYPE_NAME")
    case True
    then show ?thesis using assms(1)
      by (simp add: request_key_spec_def gen_request_key_def m_def [symmetric] key_missing_def THROW_def Let_def)
  next
    case ne: False
    show ?thesis
    proof (cases "fs = []")
      case True
      then have "i < 0" using ki by simp
      then show ?thesis using assms(1) ne True
        by (simp add: request_key_spec_def gen_request_key_def m_def [symmetric] t_def [symmetric] fs_def [symmetric]
            i_def [symmetric] THROW_def Let_def)
    next
      case False
      then obtain j where j: "j < length rcs" "i = int j" "rcs ! j = last fs" using ki by auto
      define ns where "ns = rk_request_key (last fs)"
      have ns: "ns \<noteq> []" using assms(2) j by (metis ns_def nth_mem)
      obtain f fs' where fs': "fs = f # fs'" using False by (cases fs) auto
      have spec: "request_key_spec rcs m = (if \<forall>n \<in> set ns. \<not> isEmpty m n then Some (join CHR ''^'' (map (omap_get [] m) ns)) else None)"
        using ne ns by (simp add: request_key_spec_def t_def [symmetric] fs_def [symmetric] Let_def fs' ns_def del: last.simps)
      have g: "gen_request_key rcs s = (case join_key m True [] ns of (r, key) \<Rightarrow>
          (r, s\<lparr>cl_request_type := t, cl_request_key_index := i, cl_request_key := key\<rparr>))"
        using assms(1) ne j ns
        by (simp add: gen_request_key_def m_def [symmetric] t_def [symmetric] i_def [symmetric] ns_def [symmetric] Let_def
            split: prod.split)
      have throws: "\<exists>n w. r = Inl (Throw CServerException n w)" if "join_key m b key ns = (r, key')" "r \<noteq> Inr ()" for b key r key' ns
        using that by (induction ns arbitrary: b key) (auto simp: Let_def key_missing_def THROW_def split: if_splits)
      show ?thesis
        using g spec join_key_eq [OF ns, of m] throws [of True "[]" ns] unfolding m_def [symmetric]
        by (cases "join_key m True [] ns") auto
    qed
  qed
qed

lemma read_at_pad: "length b \<le> n \<Longrightarrow> read_at b 0 n = b @ replicate (n - length b) NUL"
  by (rule nth_equalityI) (auto simp: read_at_def mem_def nth_append)

lemma buffer_text:
  assumes "read_at buf 0 (4 + m) = put_int x @ body" and "length buf \<le> 4 + m" and "length body = m" and "0 < m"
    and "NUL \<notin> set body"
  shows "buf = put_int x @ body"
proof -
  have e: "buf @ replicate (4 + m - length buf) NUL = put_int x @ body"
    using read_at_pad [OF assms(2)] assms(1) by simp
  have "4 + m - length buf = 0"
  proof (rule ccontr)
    assume nz: "4 + m - length buf \<noteq> 0"
    have "last (put_int x @ body) = last body" using assms(3,4) by (cases body) auto
    moreover have "last (put_int x @ body) = NUL" unfolding e [symmetric] using nz by simp
    moreover have "last body \<in> set body" using assms(3,4) by (cases body) auto
    ultimately show False using assms(5) by simp
  qed
  then show ?thesis using e by simp
qed

subsection \<open>The message number in front of a request\<close>

lemma show_u0_chars: "set (show_u0 n x) \<subseteq> {c. isdigit c}"
  using show_nat_digits by (auto simp: show_u0_def Let_def isdigit_def)

lemma msg_no_find:
  "omap_find (parseUrl (msg_no_text no now i @ s)) k =
     (if k = ''MSG_NO'' then Some (decodeUrl (show_u0 3 no @ show_u0 10 now @ show_u0 10 i)) else omap_find (parseUrl s) k)"
proof -
  let ?d = "show_u0 3 no @ show_u0 10 now @ show_u0 10 i"
  have d: "SEG_DEL \<notin> set ?d" using show_u0_chars [of 3 no] show_u0_chars [of 10 now] show_u0_chars [of 10 i]
    by (auto simp: isdigit_def)
  have "segments SEG_DEL (msg_no_text no now i @ s) = (''MSG_NO='' @ ?d) # segments SEG_DEL s"
    using segments_append [of SEG_DEL "''MSG_NO='' @ ?d" s] d by (simp add: msg_no_text_def)
  moreover have "nv_of (''MSG_NO='' @ ?d) = [(''MSG_NO'', decodeUrl ?d)]" by (simp add: nv_of_def)
  ultimately show ?thesis by (simp add: find_parseUrl url_pairs_def)
qed

lemma key_spec_cong:
  assumes "\<And>n. n = REQUEST_TYPE_NAME \<or> (\<exists>rc \<in> set rcs. n \<in> set (rk_request_key rc)) \<Longrightarrow> omap_find m n = omap_find m' n"
  shows "request_key_spec rcs m = request_key_spec rcs m'"
proof -
  have e: "isEmpty m n = isEmpty m' n" "omap_get [] m n = omap_get [] m' n"
    if "n = REQUEST_TYPE_NAME \<or> (\<exists>rc \<in> set rcs. n \<in> set (rk_request_key rc))" for n
    using assms [OF that] by (simp_all add: isEmpty_def omap_get_def)
  let ?fs = "filter (\<lambda>rc. atoi (cstr (omap_get [] m REQUEST_TYPE_NAME)) \<ge> rk_begin rc \<and> atoi (cstr (omap_get [] m REQUEST_TYPE_NAME)) < rk_end rc) rcs"
  have "\<forall>n \<in> set (rk_request_key (last ?fs)). isEmpty m n = isEmpty m' n \<and> omap_get [] m n = omap_get [] m' n" if "?fs \<noteq> []"
  proof -
    have "last ?fs \<in> set rcs" using last_in_set [OF that] by auto
    then show ?thesis using e by blast
  qed
  then show ?thesis
    using e [of REQUEST_TYPE_NAME]
    by (cases ?fs) (auto simp: request_key_spec_def Let_def simp del: last.simps cong: map_cong)
qed

subsection \<open>From the socket to the key\<close>

lemma length_show_u0: "n \<le> 10 \<Longrightarrow> length (show_u0 n x) \<le> 10"
proof -
  assume n: "n \<le> 10"
  have "x mod 2 ^ 32 < 2 ^ 32" by simp
  then have "nat (x mod 2 ^ 32) < 10 ^ Suc 9" by (simp add: nat_less_iff)
  then show ?thesis using n length_show_nat [of "nat (x mod 2 ^ 32)" 9] by (simp add: show_u0_def Let_def)
qed

lemma length_msg_no: "length (msg_no_text no now i) \<le> 38"
  using length_show_u0 [of 3 no] length_show_u0 [of 10 now] length_show_u0 [of 10 i] by (simp add: msg_no_text_def)

lemma NUL_notin_msg_no: "NUL \<notin> set (msg_no_text no now i)"
  using show_u0_chars [of 3 no] show_u0_chars [of 10 now] show_u0_chars [of 10 i]
  by (auto simp: msg_no_text_def isdigit_def)

text \<open>What the back end is sent for a request: the message number in front, unless there is one or no room.\<close>

definition numbered :: "int \<Rightarrow> int \<Rightarrow> int \<Rightarrow> string \<Rightarrow> string" where
  "numbered no now i body =
     (if \<not> has_text ''MSG_NO'' body \<and> int (length body) + 4 \<le> MAX_PACKET_LEN - 64 then msg_no_text no now i @ body else body)"

lemma client_decode_spec:
  assumes "process_buf s = put_int (int (length body)) @ body" and "process_total s = int (length body) + 4"
    and "int (length body) \<le> MAX_PACKET_LEN - 4" and "NUL \<notin> set body" and "rcs \<noteq> []"
    and "\<forall>rc \<in> set rcs. rk_request_key rc \<noteq> [] \<and> ''MSG_NO'' \<notin> set (rk_request_key rc)"
  shows "case request_key_spec rcs (parseUrl body) of
     Some key \<Rightarrow> \<exists>s' i'. client_decode rcs no now (s, i) = (Inr (), (s', i')) \<and> cl_status s' = EM_CL_PROCESS \<and> cl_request_key s' = key \<and>
       cl_req_packet s' = numbered no now ((i + 1) mod 2 ^ 32) body \<and> cl_req_packet_len s' = int (length (cl_req_packet s'))
   | None \<Rightarrow> \<exists>n w. fst (client_decode rcs no now (s, i)) = Inl (Throw CServerException n w)"
proof -
  define add where "add = (\<not> has_text ''MSG_NO'' body \<and> int (length body) + 4 \<le> MAX_PACKET_LEN - 64)"
  define i' where "i' = (if add then (i + 1) mod 2 ^ 32 else i)"
  define msg where "msg = (if add then msg_no_text no now i' else [])"
  define s1 where "s1 = s\<lparr>cl_req_packet := msg @ body, cl_req_packet_len := int (length body) + int (length msg)\<rparr>"
  have len: "get_int (read_at (process_buf s) 0 4) = int (length body)"
    using assms(1,3) host.get_put_exact [of "int (length body)" "[]"]
    by (simp add: read_at_in in_i32_def MAX_PACKET_LEN_def)
  have body: "read_at (process_buf s) 4 (length body) = body" "cstr (drop 4 (process_buf s)) = body"
    using assms(1,4) by (simp_all add: read_at_in cstr_id)
  have addeq: "(\<not> has_text ''MSG_NO'' (cstr (drop 4 (process_buf s))) \<and> process_total s \<le> MAX_PACKET_LEN - 64) = add"
    by (simp add: body(2) assms(2) add_def)
  have "int (length msg) + int (length body) \<le> MAX_PACKET_LEN"
    using length_msg_no [of no now i'] assms(3) by (auto simp: msg_def add_def MAX_PACKET_LEN_def)
  then have d: "client_decode rcs no now (s, i) = (case gen_request_key rcs s1 of
       (Inl e, s) \<Rightarrow> (Inl e, (s, i')) | (Inr _, s) \<Rightarrow> (Inr (), (s\<lparr>cl_status := EM_CL_PROCESS\<rparr>, i')))"
    unfolding client_decode_def prod.case Let_def len addeq i'_def [symmetric] msg_def [symmetric]
    using assms(3) by (simp add: body(1) s1_def add.commute)
  have "NUL \<notin> set (msg @ body)" using assms(4) NUL_notin_msg_no by (simp add: msg_def)
  then have c: "cstr (cl_req_packet s1) = msg @ body" by (simp add: s1_def cstr_id)
  have k: "request_key_spec rcs (parseUrl (msg @ body)) = request_key_spec rcs (parseUrl body)"
    using assms(6) by (cases add) (auto intro!: key_spec_cong simp: msg_def msg_no_find REQUEST_TYPE_NAME_def)
  have g: "case request_key_spec rcs (parseUrl body) of
     Some key \<Rightarrow> \<exists>t i. gen_request_key rcs s1 = (Inr (), s1\<lparr>cl_request_type := t, cl_request_key_index := i, cl_request_key := key\<rparr>)
   | None \<Rightarrow> \<exists>n w. fst (gen_request_key rcs s1) = Inl (Throw CServerException n w)"
    using gen_request_key_spec [of rcs s1] assms(5,6) c k by simp
  have nb: "numbered no now ((i + 1) mod 2 ^ 32) body = msg @ body"
    unfolding numbered_def add_def [symmetric] by (simp add: msg_def i'_def)
  show ?thesis
  proof (cases "request_key_spec rcs (parseUrl body)")
    case None
    then show ?thesis using g d by (cases "gen_request_key rcs s1") auto
  next
    case (Some key)
    then show ?thesis using g d nb by (auto simp: s1_def)
  qed
qed

lemma client_head_step:
  assumes "is_ok (s_fd s)" and "k_read k (s_fd s) = Inr c # q" and "4 \<le> length c" and "data_only q"
    and "stream (Inr c # q) = put_int (int m) @ tl4" and "0 < m" and "int m \<le> MAX_PACKET_LEN - 4" and "process_buf s = []"
  shows "\<exists>k1. client_recv_head (k, s) = (Inr RECV_HAVE_MORE, (k1, s\<lparr>process_buf := put_int (int m),
      processed := 4, process_total := int m + 4, cl_status := EM_CL_READ, cl_is_head := True\<rparr>))
    \<and> data_only (k_read k1 (s_fd s)) \<and> stream (k_read k1 (s_fd s)) = tl4"
proof -
  have c: "take 4 c = put_int (int m)"
    using arg_cong [OF assms(5), of "take 4"] assms(3) by simp
  have t: "drop 4 c @ stream q = tl4"
    using arg_cong [OF assms(5), of "drop 4"] assms(3) by simp
  define q1 where "q1 = (if length c \<le> 4 then q else Inr (drop 4 c) # q)"
  have tc: "take_chunk (Inr c # q) 4 = (Inr (take 4 c), q1)"
    using assms(3) by (auto simp: q1_def)
  have rd: "sock_read (s_fd s) 4 k = (Inr (4, take 4 c), k\<lparr>k_read := (k_read k)(s_fd s := q1)\<rparr>)"
    using assms(1-3) tc by (simp add: sock_read_def sys_read_def)
  have "in_i32 (int m)" using assms(7) by (simp add: in_i32_def MAX_PACKET_LEN_def)
  then have g: "get_int (put_int (int m)) = int m" "read_at (put_int (int m)) 0 4 = put_int (int m)"
    using host.get_put_exact [of "int m" "[]"] by (simp_all add: read_at_in)
  have "data_only q1 \<and> stream q1 = tl4"
    using t assms(3,4) by (auto simp: q1_def)
  then show ?thesis
    using rd assms(6-8) g put_int_ne [of "int m"]
    by (simp add: client_recv_head_def c write_at_Nil Let_def)
qed

text \<open>C7: a client's packet, cut anywhere behind the four bytes of its length, is read to its last byte and not
  further; decoding then builds exactly the key the specification gives for its parameters and leaves the request,
  with a message number in front if it had none, or raises a \<open>CServerException\<close> where there is no key.\<close>

theorem request_received_and_keyed:
  assumes "cl_status s = EM_CL_READ" and "\<not> cl_is_head s" and "process_buf s = []" and "is_ok (s_fd s)"
    and "k_read k (s_fd s) = Inr c # q" and "4 \<le> length c" and "data_only q"
    and "stream (Inr c # q) = put_int (int (length body)) @ body @ rest" and "body \<noteq> []"
    and "int (length body) \<le> MAX_PACKET_LEN - 4" and "NUL \<notin> set body" and "rcs \<noteq> []"
    and "\<forall>rc \<in> set rcs. rk_request_key rc \<noteq> [] \<and> ''MSG_NO'' \<notin> set (rk_request_key rc)"
  shows "\<exists>k' s'. until (length body) RECV_HAVE_MORE (client_process now) (k, s) = (Inr RECV_OK, (k', s')) \<and>
     cl_status s' = EM_CL_PROCESS \<and> stream (k_read k' (s_fd s)) = rest \<and>
     (case request_key_spec rcs (parseUrl body) of
        Some key \<Rightarrow> \<exists>s'' i'. client_decode rcs no t (s', i) = (Inr (), (s'', i')) \<and> cl_status s'' = EM_CL_PROCESS \<and>
          cl_request_key s'' = key \<and> cl_req_packet s'' = numbered no t ((i + 1) mod 2 ^ 32) body \<and>
          cl_req_packet_len s'' = int (length (cl_req_packet s''))
      | None \<Rightarrow> \<exists>n w. fst (client_decode rcs no t (s', i)) = Inl (Throw CServerException n w))"
proof -
  define m where "m = length body"
  have m: "0 < m" "int m \<le> MAX_PACKET_LEN - 4" using assms(9,10) by (auto simp: m_def)
  define s1 where "s1 = s\<lparr>process_buf := put_int (int m), processed := 4, process_total := int m + 4,
    cl_status := EM_CL_READ, cl_is_head := True\<rparr>"
  obtain k1 where h: "client_recv_head (k, s) = (Inr RECV_HAVE_MORE, (k1, s1))"
    "data_only (k_read k1 (s_fd s))" "stream (k_read k1 (s_fd s)) = body @ rest"
    using client_head_step [OF assms(4-7) _ m assms(3)] assms(8) by (auto simp: s1_def m_def)
  have s1: "s_fd s1 = s_fd s" "cl_status s1 = EM_CL_READ" "cl_is_head s1" "received s1 = put_int (int m)"
    "processed s1 = 4" "process_total s1 = int m + 4" "length (process_buf s1) = 4"
    by (simp_all add: s1_def received_def read_at_in)
  have b1: "buf_ok s1" using m s1 by (simp add: buf_ok_def)
  then obtain k' pb where u: "until m RECV_HAVE_MORE base_recv (k1, s1)
      = (Inr RECV_OK, (k', s1\<lparr>process_buf := pb, processed := process_total s1\<rparr>))"
    "read_at pb 0 (nat (process_total s1)) = received s1 @ take (nat (process_total s1 - processed s1)) (body @ rest)"
    "stream (k_read k' (s_fd s)) = drop (nat (process_total s1 - processed s1)) (body @ rest)"
    using recv_until_ok [of s1 k1 m] h assms(4) s1 m by (auto simp: m_def)
  have pb: "read_at pb 0 (4 + m) = put_int (int m) @ body" and rest: "stream (k_read k' (s_fd s)) = rest"
    using u(2,3) s1 by (simp_all add: nat_add_distrib add.commute m_def)
  have "length pb \<le> 4 + m" using until_recv_length [OF u(1) b1] s1 by (simp add: nat_add_distrib)
  then have pbe: "pb = put_int (int m) @ body" by (rule buffer_text [OF pb _ m_def [symmetric] m(1) assms(11)])
  define s2 where "s2 = s1\<lparr>process_buf := pb, processed := process_total s1, cl_status := EM_CL_PROCESS, cl_recv_ok_stamp := now\<rparr>"
  have p: "client_process now (k, s) = client_process now (k1, s1)"
    using assms(1,2) s1(2,3) h(1) by (simp add: client_process_def client_read_def bindS_def)
  have "until m RECV_HAVE_MORE (client_process now) (k, s) = until m RECV_HAVE_MORE (client_process now) (k1, s1)"
    using m(1) by (cases m) (simp_all add: bindS_def p)
  also have "\<dots> = (Inr RECV_OK, (k', s2))"
    using until_client_read [OF s1(2,3) u(1), of now] by (simp add: s2_def)
  finally have un: "until (length body) RECV_HAVE_MORE (client_process now) (k, s) = (Inr RECV_OK, (k', s2))" by (simp add: m_def)
  have "process_buf s2 = put_int (int (length body)) @ body" "process_total s2 = int (length body) + 4"
    using pbe s1 by (simp_all add: s2_def m_def)
  from client_decode_spec [OF this assms(10-13), of no t i] show ?thesis
    using un rest by (intro exI [of _ k'] exI [of _ s2]) (simp add: s2_def)
qed

definition sample_client :: client_socket where
  "sample_client = (client_new 1)\<lparr>s_fd := 7, cl_thread_no := 0, cl_status := EM_CL_READ\<rparr>"

definition sample_keys :: "request_key_conf list" where
  "sample_keys = [\<lparr>rk_begin = 0, rk_end = 10, rk_conf_file = ''f'', rk_request_key = [''request_type'', ''ver'']\<rparr>]"

lemma sample_client_fields:
  "cl_status sample_client = EM_CL_READ" "\<not> cl_is_head sample_client" "process_buf sample_client = []" "s_fd sample_client = 7"
  by (simp_all add: sample_client_def client_new_def sock_init_def sock_base.defs client_socket.defs)

lemma sample_key: "request_key_spec sample_keys (parseUrl ''request_type=7&ver=2'') = Some ''7^2''"
proof -
  have p: "url_pairs ''request_type=7&ver=2'' = [(''request_type'', ''7''), (''ver'', ''2'')]"
    by (simp add: url_pairs_def nv_of_def)
  then have f: "omap_find (parseUrl ''request_type=7&ver=2'') = map_of [(''request_type'', ''7''), (''ver'', ''2'')]"
    by (simp add: fun_eq_iff find_parseUrl)
  show ?thesis
    by (simp add: request_key_spec_def sample_keys_def isEmpty_def omap_get_def f REQUEST_TYPE_NAME_def cstr_def atoi_def
        strtol_def isspace_def isdigit_def digit_val_def i32_def Let_def)
qed

lemma request_received_and_keyed_witness:
  "\<exists>k' s' s'' i'. until 20 RECV_HAVE_MORE (client_process (1, 2))
       (kernel0\<lparr>k_read := (\<lambda>_. [Inr (put_int 20 @ ''requ''), Inr ''est_type=7&ver=2''])\<rparr>, sample_client) = (Inr RECV_OK, (k', s')) \<and>
     client_decode sample_keys 3 1 (s', 0) = (Inr (), (s'', i')) \<and> cl_request_key s'' = ''7^2''"
proof -
  let ?k = "kernel0\<lparr>k_read := (\<lambda>_. [Inr (put_int 20 @ ''requ''), Inr ''est_type=7&ver=2''])\<rparr>"
  have l: "length ''request_type=7&ver=2'' = 20" by simp
  have "\<exists>k' s'. until (length ''request_type=7&ver=2'') RECV_HAVE_MORE (client_process (1, 2)) (?k, sample_client) = (Inr RECV_OK, (k', s')) \<and>
     cl_status s' = EM_CL_PROCESS \<and> stream (k_read k' (s_fd sample_client)) = [] \<and>
     (case request_key_spec sample_keys (parseUrl ''request_type=7&ver=2'') of
        Some key \<Rightarrow> \<exists>s'' i'. client_decode sample_keys 3 1 (s', 0) = (Inr (), (s'', i')) \<and> cl_status s'' = EM_CL_PROCESS \<and>
          cl_request_key s'' = key \<and> cl_req_packet s'' = numbered 3 1 ((0 + 1) mod 2 ^ 32) ''request_type=7&ver=2'' \<and>
          cl_req_packet_len s'' = int (length (cl_req_packet s''))
      | None \<Rightarrow> \<exists>n w. fst (client_decode sample_keys 3 1 (s', 0)) = Inl (Throw CServerException n w))"
    by (rule request_received_and_keyed [where c = "put_int 20 @ ''requ''" and q = "[Inr ''est_type=7&ver=2'']"])
      (simp_all add: sample_client_fields is_ok_def INVALID_SOCKET_def sample_keys_def MAX_PACKET_LEN_def)
  then show ?thesis unfolding l sample_key by auto
qed

section \<open>The answer\<close>

lemma segment_no_delim: "seg \<in> set (segments d s) \<Longrightarrow> d \<notin> set seg"
  by (induction d s arbitrary: seg rule: segments.induct) (auto split: list.splits if_splits)

lemma parsed_keys_plain: "k \<in> fst ` set (parseUrl s) \<Longrightarrow> plain_key k"
proof -
  assume "k \<in> fst ` set (parseUrl s)"
  then obtain v where "map_of (url_pairs s) k = Some v"
    by (metis find_parseUrl omap_find_None_iff option.exhaust)
  then have "(k, v) \<in> set (url_pairs s)" by (rule map_of_SomeD)
  then obtain seg where "seg \<in> set (segments SEG_DEL s)" "k = takeWhile (\<lambda>c. c \<noteq> ELE_DEL) seg"
    by (auto simp: url_pairs_def nv_of_def split: if_splits)
  then show ?thesis
    using segment_no_delim [of seg SEG_DEL s] by (auto simp: plain_key_def dest: set_takeWhileD)
qed

definition plain_map :: "url_map \<Rightarrow> bool" where
  "plain_map m \<longleftrightarrow> omap_ok m \<and> (\<forall>k \<in> fst ` set m. plain_key k)"

lemma parse_plain: "plain_map m \<Longrightarrow> parseUrl (packUrl m) = m"
  unfolding plain_map_def by (elim conjE) (rule parse_pack)

lemma plain_map_set: "plain_key k \<Longrightarrow> plain_map m \<Longrightarrow> plain_map (omap_set k v m)"
  unfolding plain_map_def keys_omap_set by blast

lemma plain_map_parse: "plain_map (parseUrl s)"
  using parsed_keys_plain by (auto simp: plain_map_def)

lemma plain_map_insert: "plain_key k \<Longrightarrow> plain_map m \<Longrightarrow> plain_map (omap_insert k v m)"
  by (simp add: omap_insert_def plain_map_set)

lemma error_map_ok: "plain_map param \<Longrightarrow> plain_map (error_map d esc result param)"
proof -
  assume "plain_map param"
  moreover have "plain_key ''res_info''" "plain_key ''result''" "plain_key ''comm_value''" by (simp_all add: plain_key_def)
  moreover have "plain_map []" by (simp add: plain_map_def)
  ultimately show ?thesis
    by (auto simp: error_map_def Let_def plain_map_set simp del: omap_set.simps split: option.split)
qed

text \<open>The error text a client gets, and the entries beside it.\<close>

lemma error_map_find:
  "omap_find (error_map d esc result param) ''res_info'' = Some
     (let t = (if isOriginalCode result esc then []
               else if isEscapedCode result esc then omap_get [] esc result else omap_get [] param ''res_info'')
      in if t = [] then busy_text (omap_get [] param ''result'') else t)"
  "k \<noteq> ''res_info'' \<Longrightarrow> omap_find (error_map d esc result param) k =
     (if d then omap_find param k
      else if k = ''result'' then Some (omap_get [] param ''result'')
      else if k = ''comm_value'' then omap_find param k else None)"
  by (auto simp: error_map_def Let_def omap_find_set split: option.split)

text \<open>What a client is told of an error: the text configured for the code, else the text of the back end, and
  where that is empty the code and \<open>system busy\<close>; a code configured to keep its original text gets this last one
  too, so the original text is lost. Only the code and \<open>comm_value\<close> go with it, unless the service is logged in
  detail, when all entries do.\<close>

theorem error_answer_text:
  "omap_find (error_map d esc result param) ''res_info'' = Some
     (case omap_find esc result of
        None \<Rightarrow> if omap_get [] param ''res_info'' = [] then busy_text (omap_get [] param ''result'') else omap_get [] param ''res_info''
      | Some t \<Rightarrow> if t = [] \<or> t = ''NO_ESCAPE'' then busy_text (omap_get [] param ''result'') else t) \<and>
   (k = ''res_info'' \<or> omap_find (error_map d esc result param) k =
     (if d then omap_find param k
      else if k = ''result'' then Some (omap_get [] param ''result'')
      else if k = ''comm_value'' then omap_find param k else None))"
proof -
  have e: "omap_find esc result = None \<Longrightarrow> \<not> isOriginalCode result esc \<and> \<not> isEscapedCode result esc"
    "omap_find esc result = Some t \<Longrightarrow> isOriginalCode result esc = (t = ''NO_ESCAPE'') \<and> isEscapedCode result esc \<and> omap_get [] esc result = t" for t
    by (simp_all add: isOriginalCode_def isEscapedCode_def omap_get_def)
  show ?thesis
    by (cases "k = ''res_info''"; cases "omap_find esc result") (simp_all add: error_map_find e Let_def)
qed

lemma fill_answer_Inr:
  "fill_answer len data s = (Inr (), s') \<longleftrightarrow> 0 \<le> len \<and> len + 4 \<le> MAX_PACKET_LEN \<and>
     s' = s\<lparr>process_buf := put_int len @ read_at data 0 (nat len), process_total := 4 + len, processed := 0\<rparr>"
  by (auto simp: fill_answer_def)

text \<open>The bytes behind the length of an answer.\<close>

definition answer_len :: "errcode_escape \<Rightarrow> client_socket \<Rightarrow> string \<Rightarrow> bool" where
  "answer_len esc s body \<longleftrightarrow>
     (let result = get_int (read_at (cl_res_packet s) 0 4)
      in if result = 0 \<or> isOriginalCode result esc \<or> omap_find esc result = Some [] then body = read_at (cl_res_packet s) 0 (nat (cl_res_packet_len s))
         else \<exists>t. body = put_int result @ t \<and> t = (case omap_find esc result of Some t \<Rightarrow> t | None \<Rightarrow> busy_text (show_int result)))"

lemma client_socket_fd: "s_fd (s\<lparr>cl_res_packet_len := n\<rparr>) = s_fd s"
  by simp

lemma client_encode_fills:
  assumes "client_encode details esc s = (Inr (), s')"
  shows "\<exists>body. int (length body) + 4 \<le> MAX_PACKET_LEN \<and> cl_status s' = EM_CL_SEND \<and> s_fd s' = s_fd s \<and>
     process_buf s' = put_int (int (length body)) @ body \<and> process_total s' = 4 + int (length body) \<and> processed s' = 0 \<and>
     (if rt_protocol (cl_request_conf s) = EM_PROTOCOL_BIN then answer_len esc s body
      else if get_call_result s = 0 then body = read_at (cl_res_packet s) 0 (nat (cl_res_packet_len s))
      else parseUrl body = error_map (is_detail_info_service (cl_request_type s) details) esc (get_call_result s)
             (omap_insert ''result'' [] (parseUrl (cstr (cl_res_packet s)))))"
proof -
  obtain s1 where s1: "(if rt_protocol (cl_request_conf s) = EM_PROTOCOL_BIN then encode_protocol_binary esc
        else encode_protocol_text details esc) s = (Inr (), s1)" "s' = s1\<lparr>cl_status := EM_CL_SEND\<rparr>"
    using assms by (auto simp: client_encode_def seqS_def bindS_eq_Inr modS_def split: if_splits)
  have fill: "\<exists>body. body = read_at data 0 (nat len) \<and> int (length body) + 4 \<le> MAX_PACKET_LEN \<and> s_fd s1 = s_fd s2 \<and>
      process_buf s1 = put_int (int (length body)) @ body \<and> process_total s1 = 4 + int (length body) \<and> processed s1 = 0"
    if "fill_answer len data s2 = (Inr (), s1)" for len data s2
    using that by (auto simp: fill_answer_Inr)
  show ?thesis
  proof (cases "rt_protocol (cl_request_conf s) = EM_PROTOCOL_BIN")
    case True
    define result where "result = get_int (read_at (cl_res_packet s) 0 4)"
    define t where "t = (if result = 0 then [] else if isOriginalCode result esc then []
            else if isEscapedCode result esc then omap_get [] esc result else busy_text (show_int result))"
    have eb: "encode_protocol_binary esc s = (if length t > 0
        then fill_answer (4 + int (length t)) (put_int result @ t) (s\<lparr>cl_res_packet_len := 4 + int (length t)\<rparr>)
        else fill_answer (cl_res_packet_len s) (cl_res_packet s) s)"
      unfolding encode_protocol_binary_def Let_def result_def [symmetric] t_def [symmetric] by simp
    show ?thesis
    proof (cases "t = []")
      case te: True
      then have e: "fill_answer (cl_res_packet_len s) (cl_res_packet s) s = (Inr (), s1)"
        using s1(1) True eb te by simp
      have "result = 0 \<or> isOriginalCode result esc \<or> omap_find esc result = Some []"
        using te by (auto simp: t_def isEscapedCode_def omap_get_def busy_text_def split: if_splits option.splits)
      then have al: "answer_len esc s (read_at (cl_res_packet s) 0 (nat (cl_res_packet_len s)))"
        unfolding answer_len_def result_def [symmetric] Let_def by simp
      obtain body where "body = read_at (cl_res_packet s) 0 (nat (cl_res_packet_len s))" "int (length body) + 4 \<le> MAX_PACKET_LEN"
        "s_fd s1 = s_fd s" "process_buf s1 = put_int (int (length body)) @ body" "process_total s1 = 4 + int (length body)" "processed s1 = 0"
        using fill [OF e] by blast
      then show ?thesis using al s1(2) True by (intro exI [of _ body]) simp
    next
      case ne: False
      then have e: "fill_answer (4 + int (length t)) (put_int result @ t) (s\<lparr>cl_res_packet_len := 4 + int (length t)\<rparr>) = (Inr (), s1)"
        using s1(1) True eb ne by simp
      have "read_at (put_int result @ t) 0 (nat (4 + int (length t))) = put_int result @ t"
        by (simp add: read_at_in nat_add_distrib)
      then obtain body where b: "body = put_int result @ t" "int (length body) + 4 \<le> MAX_PACKET_LEN" "s_fd s1 = s_fd s"
        "process_buf s1 = put_int (int (length body)) @ body" "process_total s1 = 4 + int (length body)" "processed s1 = 0"
        using fill [OF e] by auto
      have "result \<noteq> 0 \<and> \<not> isOriginalCode result esc \<and> omap_find esc result \<noteq> Some [] \<and>
          t = (case omap_find esc result of Some t \<Rightarrow> t | None \<Rightarrow> busy_text (show_int result))"
        using ne by (auto simp: t_def isEscapedCode_def omap_get_def split: if_splits option.splits)
      then have "answer_len esc s body" using b(1) unfolding answer_len_def result_def [symmetric] Let_def by auto
      then show ?thesis using b(2-6) s1(2) True by (intro exI [of _ body]) simp
    qed
  next
    case False
    define param where "param = omap_insert ''result'' [] (parseUrl (cstr (cl_res_packet s)))"
    have g: "atoi (cstr (omap_get [] param ''result'')) = get_call_result s"
      using False by (simp add: get_call_result_def param_def omap_get_def omap_find_insert split: option.split)
    show ?thesis
    proof (cases "get_call_result s = 0")
      case True
      then have e: "fill_answer (cl_res_packet_len s) (cl_res_packet s) s = (Inr (), s1)"
        using s1(1) False by (simp add: encode_protocol_text_def Let_def param_def [symmetric] g)
      then show ?thesis using fill [OF e] s1(2) False True by auto
    next
      case nz: False
      define packet where "packet = packUrl (error_map (is_detail_info_service (cl_request_type s) details) esc (get_call_result s) param)"
      have e: "fill_answer (int (length packet)) packet s = (Inr (), s1)"
        using s1(1) False nz by (simp add: encode_protocol_text_def Let_def param_def [symmetric] g packet_def [symmetric])
      have "plain_map param"
        unfolding param_def by (rule plain_map_insert [OF _ plain_map_parse]) (simp add: plain_key_def)
      then have "parseUrl packet = error_map (is_detail_info_service (cl_request_type s) details) esc (get_call_result s) param"
        unfolding packet_def by (rule parse_plain [OF error_map_ok])
      moreover have "read_at packet 0 (nat (int (length packet))) = packet" by (simp add: read_at_in)
      moreover obtain body where "body = read_at packet 0 (nat (int (length packet)))" "int (length body) + 4 \<le> MAX_PACKET_LEN" "s_fd s1 = s_fd s"
        "process_buf s1 = put_int (int (length body)) @ body" "process_total s1 = 4 + int (length body)" "processed s1 = 0"
        using fill [OF e] by blast
      ultimately show ?thesis using s1(2) False nz unfolding param_def by (intro exI [of _ body]) simp
    qed
  qed
qed

text \<open>C8: an encoded answer is written to its last byte, in whatever portions the peer takes it, and the socket is over:
  four bytes of length and the answer of the back end, or for an error of the text protocol a packet that parses to the
  map of the error and for one of the binary protocol the code and its text.\<close>

theorem answer_delivered:
  assumes "client_encode details esc s = (Inr (), s')" and "is_ok (s_fd s)"
    and "takes_for (Suc n) (k_write k (s_fd s))" and "process_total s' \<le> int n + 1"
  shows "\<exists>k' s'' body. until n SEND_HAVE_MORE (client_process now) (k, s') = (Inr SEND_OK, (k', s'')) \<and>
     cl_status s'' = EM_CL_OVER \<and> k_sent k' (s_fd s) = k_sent k (s_fd s) @ put_int (int (length body)) @ body \<and>
     (if rt_protocol (cl_request_conf s) = EM_PROTOCOL_BIN then answer_len esc s body
      else if get_call_result s = 0 then body = read_at (cl_res_packet s) 0 (nat (cl_res_packet_len s))
      else parseUrl body = error_map (is_detail_info_service (cl_request_type s) details) esc (get_call_result s)
             (omap_insert ''result'' [] (parseUrl (cstr (cl_res_packet s)))))"
proof -
  obtain body where b: "int (length body) + 4 \<le> MAX_PACKET_LEN" "cl_status s' = EM_CL_SEND" "s_fd s' = s_fd s"
    "process_buf s' = put_int (int (length body)) @ body" "process_total s' = 4 + int (length body)" "processed s' = 0"
    "if rt_protocol (cl_request_conf s) = EM_PROTOCOL_BIN then answer_len esc s body
      else if get_call_result s = 0 then body = read_at (cl_res_packet s) 0 (nat (cl_res_packet_len s))
      else parseUrl body = error_map (is_detail_info_service (cl_request_type s) details) esc (get_call_result s)
             (omap_insert ''result'' [] (parseUrl (cstr (cl_res_packet s))))"
    using client_encode_fills [OF assms(1)] by blast
  have "buf_ok s'" "processed s' < process_total s'" "process_total s' - processed s' \<le> int n + 1"
    using b assms(4) by (simp_all add: buf_ok_def)
  then obtain k' n' where u: "until n SEND_HAVE_MORE (client_process now) (k, s')
      = (Inr SEND_OK, (k', s'\<lparr>processed := n', cl_status := EM_CL_OVER, cl_process_stamp := now\<rparr>))"
    "k_sent k' (s_fd s) = k_sent k (s_fd s) @ unsent s'"
    using until_client_write [OF b(2), of n k now] assms(2,3) b(3) by auto
  have "unsent s' = put_int (int (length body)) @ body" using b(4-6) by (simp add: unsent_def read_at_in nat_add_distrib)
  then show ?thesis
    using u b(7) by (intro exI [of _ k'] exI [of _ "s'\<lparr>processed := n', cl_status := EM_CL_OVER, cl_process_stamp := now\<rparr>"]
        exI [of _ body]) simp
qed

definition sample_answer :: client_socket where
  "sample_answer = sample_client\<lparr>cl_res_packet := ''result=0&x=1'', cl_res_packet_len := 12\<rparr>"

lemma find_sample_answer: "omap_find (parseUrl ''result=0&x=1'') = map_of [(''result'', ''0''), (''x'', ''1'')]"
proof -
  have "url_pairs ''result=0&x=1'' = [(''result'', ''0''), (''x'', ''1'')]" by (simp add: url_pairs_def nv_of_def)
  then show ?thesis by (simp add: fun_eq_iff find_parseUrl)
qed

lemma answer_delivered_witness:
  "\<exists>k' s''. until 15 SEND_HAVE_MORE (client_process (1, 2))
       (kernel0\<lparr>k_write := (\<lambda>_. replicate 16 (Inr 1))\<rparr>, snd (client_encode {} [] sample_answer)) = (Inr SEND_OK, (k', s'')) \<and>
     cl_status s'' = EM_CL_OVER \<and> k_sent k' 7 = put_int 12 @ ''result=0&x=1''"
proof -
  have f: "s_fd sample_answer = 7" "rt_protocol (cl_request_conf sample_answer) = 0" "cl_res_packet sample_answer = ''result=0&x=1''"
    "cl_res_packet_len sample_answer = 12"
    by (simp_all add: sample_answer_def sample_client_def client_new_def sock_init_def sock_base.defs client_socket.defs request_conf0_def)
  have r: "get_call_result sample_answer = 0"
    by (simp add: get_call_result_def f EM_PROTOCOL_BIN_def cstr_def omap_get_def find_sample_answer atoi_def strtol_def isspace_def
        isdigit_def digit_val_def i32_def)
  have p: "atoi (cstr (omap_get [] (omap_insert ''result'' [] (parseUrl ''result=0&x=1'')) ''result'')) = 0"
    by (simp add: omap_get_def omap_find_insert find_sample_answer cstr_def atoi_def strtol_def isspace_def
        isdigit_def digit_val_def i32_def)
  have c: "cstr ''result=0&x=1'' = ''result=0&x=1''" by (simp add: cstr_def)
  have et: "encode_protocol_text {} [] sample_answer = fill_answer 12 ''result=0&x=1'' sample_answer"
    using p by (simp add: encode_protocol_text_def f c)
  define s' where "s' = snd (client_encode {} [] sample_answer)"
  have e: "client_encode {} [] sample_answer = (Inr (), s')" "process_total s' = 16"
    unfolding s'_def by (simp_all add: client_encode_def et f EM_PROTOCOL_BIN_def fill_answer_def MAX_PACKET_LEN_def seqS_def bindS_def)
  have t: "takes_for (Suc 15) (k_write (kernel0\<lparr>k_write := (\<lambda>_. replicate 16 (Inr 1))\<rparr>) (s_fd sample_answer))"
    by (simp add: takes_for_def)
  have "read_at ''result=0&x=1'' 0 12 = ''result=0&x=1''" by (simp add: read_at_in)
  then show ?thesis
    using answer_delivered [OF e(1) _ t, of "(1, 2)"] e(2) r
    unfolding s'_def [symmetric]
    by (auto simp: f is_ok_def INVALID_SOCKET_def EM_PROTOCOL_BIN_def kernel0_def)
qed

text \<open>C26: an error of a back end whose text fits its own packet can overrun the process buffer of the client, because
  bytes that were not escaped are escaped when the error is packed again.\<close>

theorem error_answer_overruns_buffer:
  "let res = ''result=1&res_info='' @ replicate 11000 (CHR 0x80)
   in int (length res) \<le> MAX_PACKET_LEN \<and>
      fst (client_encode {} [] (sample_client\<lparr>cl_res_packet := res, cl_res_packet_len := int (length res)\<rparr>)) = Inl MemoryFault"
proof -
  define t where "t = replicate 11000 (CHR 0x80)"
  define res where "res = ''result=1&res_info='' @ t"
  have ch: "set t \<subseteq> {CHR 0x80}" "length t = 11000" "t \<noteq> []" by (auto simp: t_def)
  have dt: "decodeUrl s = s" if "CHR ''%'' \<notin> set s" for s using that by (induction s rule: decodeUrl.induct) auto
  have "SEG_DEL \<notin> set (''res_info='' @ t)" using ch by auto
  then have "segments SEG_DEL res = [''result=1'', ''res_info='' @ t]"
    using segments_append [of SEG_DEL "''result=1''" "''res_info='' @ t"] segments_none [of SEG_DEL "''res_info='' @ t"]
    by (simp add: res_def)
  moreover have "decodeUrl t = t" using ch by (intro dt) auto
  ultimately have "url_pairs res = [(''result'', ''1''), (''res_info'', t)]" by (simp add: url_pairs_def nv_of_def)
  then have f: "omap_find (parseUrl res) = map_of [(''result'', ''1''), (''res_info'', t)]" by (simp add: fun_eq_iff find_parseUrl)
  have c: "cstr res = res" using ch by (intro cstr_id) (auto simp: res_def)
  define param where "param = omap_insert ''result'' [] (parseUrl (cstr res))"
  have p: "omap_get [] param ''result'' = ''1''" "omap_get [] param ''res_info'' = t"
    by (simp_all add: param_def c omap_get_def omap_find_insert f)
  have r: "atoi (cstr ''1'') = 1"
    by (simp add: cstr_def atoi_def strtol_def isspace_def isdigit_def digit_val_def i32_def)
  define m where "m = error_map False [] 1 param"
  have "omap_find m ''res_info'' = Some t"
    using error_map_find(1) [of False "[]" 1 param] p ch(3) by (simp add: m_def isOriginalCode_def isEscapedCode_def Let_def)
  then have "(''res_info'', t) \<in> set m" unfolding omap_find_def by (rule map_of_SomeD)
  then have "(''res_info'', t) \<in> set (pack_list m)" by (simp add: pack_list_def MUST_IN_FIRST_FIELD_def)
  then obtain xs ys where "pack_list m = xs @ (''res_info'', t) # ys" by (meson split_list)
  then have "length (pack_pair (''res_info'', t)) \<le> length (packUrl m)" by (simp add: packUrl_list)
  moreover have "length (chTable ! of_char (CHR 0x80)) = 3" by code_simp
  then have "length (encodeUrl s) = 3 * length s" if "set s \<subseteq> {CHR 0x80}" for s
    using that by (induction s) (auto simp: encodeUrl_Cons)
  then have "length (encodeUrl t) = 33000" using ch by simp
  ultimately have len: "33000 \<le> length (packUrl m)" by (simp add: pack_pair_def)
  have f2: "rt_protocol (cl_request_conf sample_client) = 0" "cl_request_type sample_client = - 1"
    by (simp_all add: sample_client_def client_new_def sock_init_def sock_base.defs client_socket.defs request_conf0_def)
  have "encode_protocol_text {} [] (sample_client\<lparr>cl_res_packet := res, cl_res_packet_len := int (length res)\<rparr>)
      = fill_answer (int (length (packUrl m))) (packUrl m) (sample_client\<lparr>cl_res_packet := res, cl_res_packet_len := int (length res)\<rparr>)"
    by (simp add: encode_protocol_text_def param_def [symmetric] p r m_def is_detail_info_service_def Let_def)
  then have "fst (client_encode {} [] (sample_client\<lparr>cl_res_packet := res, cl_res_packet_len := int (length res)\<rparr>)) = Inl MemoryFault"
    using len by (simp add: client_encode_def f2 EM_PROTOCOL_BIN_def fill_answer_def MAX_PACKET_LEN_def seqS_def bindS_def)
  moreover have "int (length res) \<le> MAX_PACKET_LEN" using ch by (simp add: res_def MAX_PACKET_LEN_def)
  ultimately show ?thesis unfolding t_def [symmetric] res_def [symmetric] Let_def by blast
qed

end
