(* ===== verification/Relay_Server.thy ===== *)
theory Relay_Server
  imports Api_Pool Core_Server_Conf Switch_Mgr Access_Control Service_Request_Control Client_Socket Epoll_Monitor
begin

text \<open>
  \<open>CRelayServer\<close> (\<open>src/relay_server.cpp\<close>): the program itself. A connection is accepted by one thread and handed
  to a worker through a pipe; the worker reads the request, checks it, routes it to a site, talks to a connection of
  that site and writes the answer back, one event at a time. The state puts together the states of all other
  theories. Every handler is an operation of the event loop of \<open>Epoll_Monitor\<close>. What the system shows to one call
  of a handler is input. Of the three \<open>catch\<close> clauses the one for \<open>CTrpcException\<close> is modelled: nothing in the
  model raises anything else. Logging is left out.
\<close>

section \<open>State\<close>

text \<open>A worker thread while it does not run, and the messages in its pipe: a descriptor and a sequence number.\<close>

record thread_data =
  td_monitor :: monitor
  td_thread_no :: int
  td_write_fd :: int
  td_read_fd :: int
  td_pipe :: "(int \<times> int) list"

text \<open>The fields of \<open>monitor\<close> are those of the thread that runs, number \<open>rs_running\<close>; \<open>- 1\<close> is the thread that
  accepts, whose monitor is \<open>rs_accept\<close> while another one runs. \<open>rs_pool_env\<close> holds the system, the sites and the
  connections.\<close>

record relay = monitor +
  rs_running :: int
  rs_accept :: monitor
  rs_accept_fd :: int
  rs_process_thread_num :: int
  rs_process_thread :: "thread_data list"
  rs_client_data :: "(int, client_socket) omap"
  rs_pool_env :: pool_env
  rs_sys_conf :: system_conf
  rs_request_type_conf :: request_type_conf
  rs_core_server_conf :: core_server_conf
  rs_access_conf :: access_control
  rs_freqlimit_conf :: frequency_control
  rs_errcode_escape :: errcode_escape
  rs_detail_services :: detail_services
  rs_service_stats_conf :: "string switch_stats_conf"
  rs_site_stats_conf :: "int switch_stats_conf"
  rs_relay_switch_mgr :: relay_switch_mgr
  rs_service_request_control :: request_control
  rs_service_authorize_access :: authorize_access
  rs_msg_index :: int
  rs_thread_index :: int
  rs_seq_no :: int

text \<open>The inputs of one call: the clock, the answers of \<open>epoll\<close> for each descriptor, the bytes behind the buffer of a
  frequency key, the sequence number a new object finds in its memory, the peer of a new connection and the answer of
  the pipe, an error or a number of bytes.\<close>

record relay_env =
  re_now :: timeval
  re_epoll :: "int \<Rightarrow> monitor_env"
  re_beyond :: string
  re_unset_seq_no :: int
  re_peer :: "string + (string \<times> int)"
  re_pipe :: "string + int"

text \<open>An operation on a part of the state.\<close>

definition part :: "('r \<Rightarrow> 's) \<Rightarrow> (('s \<Rightarrow> 's) \<Rightarrow> 'r \<Rightarrow> 'r) \<Rightarrow> ('s, 'a) op \<Rightarrow> ('r, 'a) pop" where
  "part get put m r = (case m (get r) of (x, s) \<Rightarrow> Some (x, put (\<lambda>_. s) r))"

definition on_env :: "(pool_env, 'a) op \<Rightarrow> (relay, 'a) pop" where
  "on_env = part rs_pool_env rs_pool_env_update"

definition on_kernel :: "(kernel, 'a) op \<Rightarrow> (relay, 'a) pop" where
  "on_kernel m = on_env (\<lambda>e. case m (w_kernel e) of (x, k) \<Rightarrow> (x, e\<lparr>w_kernel := k\<rparr>))"

definition on_core :: "(core_world, 'a) op \<Rightarrow> (relay, 'a) pop" where
  "on_core m r = (case m (rs_pool_env r, rs_core_server_conf r) of
     (x, (e, c)) \<Rightarrow> Some (x, r\<lparr>rs_pool_env := e, rs_core_server_conf := c\<rparr>))"

definition on_switch :: "(switch_world, 'a) op \<Rightarrow> (relay, 'a) pop" where
  "on_switch m r = (case m (rs_relay_switch_mgr r, (rs_pool_env r, rs_core_server_conf r)) of
     (x, (sm, (e, c))) \<Rightarrow> Some (x, r\<lparr>rs_relay_switch_mgr := sm, rs_pool_env := e, rs_core_server_conf := c\<rparr>))"

definition lookupP :: "(relay \<Rightarrow> fault + 'a) \<Rightarrow> (relay, 'a) pop" where
  "lookupP f r = Some (f r, r)"

subsection \<open>Clients\<close>

text \<open>\<open>_client_socket\<close>: \<open>operator[]\<close> makes a new object for a descriptor not met before. A reference to a client is
  its descriptor.\<close>

definition client_of :: "int \<Rightarrow> relay \<Rightarrow> client_socket" where
  "client_of fd r = omap_get (client_new 0) (rs_client_data r) fd"

definition find_client :: "relay_env \<Rightarrow> int \<Rightarrow> (relay, unit) pop" where
  "find_client env fd = liftP (modS (\<lambda>r. r\<lparr>rs_client_data :=
     omap_insert fd (client_new (re_unset_seq_no env)) (rs_client_data r)\<rparr>))"

definition put_client :: "int \<Rightarrow> client_socket \<Rightarrow> relay \<Rightarrow> relay" where
  "put_client fd s r = r\<lparr>rs_client_data := omap_set fd s (rs_client_data r)\<rparr>"

definition on_client :: "int \<Rightarrow> (client_world, 'a) op \<Rightarrow> (relay, 'a) pop" where
  "on_client fd m r = (case m (w_kernel (rs_pool_env r), client_of fd r) of
     (x, (k, s)) \<Rightarrow> Some (x, put_client fd s (r\<lparr>rs_pool_env := (rs_pool_env r)\<lparr>w_kernel := k\<rparr>\<rparr>)))"

definition of_client :: "int \<Rightarrow> (client_socket \<Rightarrow> 'a) \<Rightarrow> (relay, 'a) pop" where
  "of_client fd f = liftP (getS (\<lambda>r. f (client_of fd r)))"

definition mod_client :: "int \<Rightarrow> (client_socket \<Rightarrow> client_socket) \<Rightarrow> (relay, unit) pop" where
  "mod_client fd f = liftP (modS (\<lambda>r. put_client fd (f (client_of fd r)) r))"

definition client_obj :: "(client_socket, 'a) op \<Rightarrow> (client_world, 'a) op" where
  "client_obj m = (\<lambda>(k, s). case m s of (x, s') \<Rightarrow> (x, (k, s')))"

subsection \<open>Threads\<close>

definition load_monitor :: "monitor \<Rightarrow> relay \<Rightarrow> relay" where
  "load_monitor mo r = r\<lparr>mo_heap := mo_heap mo, mo_fresh := mo_fresh mo, mo_queue := mo_queue mo, mo_stop := mo_stop mo,
     mo_epoll_fd := mo_epoll_fd mo, mo_interest := mo_interest mo, mo_heart_beat_count := mo_heart_beat_count mo,
     mo_heart_beats := mo_heart_beats mo, mo_error_text := mo_error_text mo\<rparr>"

definition thread_at :: "int \<Rightarrow> relay \<Rightarrow> thread_data option" where
  "thread_at i r = (if 0 \<le> i \<and> nat i < length (rs_process_thread r) then Some (rs_process_thread r ! nat i) else None)"

definition put_thread :: "int \<Rightarrow> thread_data \<Rightarrow> relay \<Rightarrow> relay" where
  "put_thread i td r = r\<lparr>rs_process_thread := (rs_process_thread r)[nat i := td]\<rparr>"

text \<open>An operation on the monitor of worker \<open>i\<close>, running or not; behind the array there is none.\<close>

definition on_thread :: "int \<Rightarrow> (relay, 'a) pop \<Rightarrow> (relay, 'a) pop" where
  "on_thread i m r =
     (case thread_at i r of
        None \<Rightarrow> Some (Inl MemoryFault, r)
      | Some td \<Rightarrow>
          if i = rs_running r then m r
          else (case m (load_monitor (td_monitor td) r) of
                  None \<Rightarrow> None
                | Some (x, r') \<Rightarrow> Some (x, load_monitor (monitor.truncate r)
                    (put_thread i (td\<lparr>td_monitor := monitor.truncate r'\<rparr>) r'))))"

definition get_thread_no :: "int \<Rightarrow> (relay, int) pop" where
  "get_thread_no fd = lookupP (\<lambda>r.
     let s = client_of fd r
     in if cl_thread_no s < 0
        then Inl (THROW CTrpcException ERR_SYS_UNKNOWN
               (''fd: '' @ show_int (s_fd s) @ '', thread_no error: '' @ show_int (cl_thread_no s)))
        else Inr (cl_thread_no s))"

text \<open>The handlers the events refer to.\<close>

definition CLIENT_ACCEPT_HANDLER :: nat where "CLIENT_ACCEPT_HANDLER = 0"
definition PROCESS_THREAD_HANDLE :: nat where "PROCESS_THREAD_HANDLE = 1"
definition DISPATCH_HANDLER :: nat where "DISPATCH_HANDLER = 2"
definition SERVICE_HANDLER :: nat where "SERVICE_HANDLER = 3"

text \<open>A handler's own variable \<open>event_base\<close>, which \<open>del_event\<close> clears, is the second half of the state.\<close>

type_synonym event_world = "relay \<times> nat option"

definition onR :: "(relay, 'a) pop \<Rightarrow> (event_world, 'a) pop" where
  "onR m = (\<lambda>(r, p). case m r of None \<Rightarrow> None | Some (x, r') \<Rightarrow> Some (x, (r', p)))"

definition del_own_event :: "monitor_env \<Rightarrow> int \<Rightarrow> (event_world, unit) pop" where
  "del_own_event env i = (\<lambda>(r, p).
     case on_thread i (del_event env p) r of
       None \<Rightarrow> None
     | Some (Inl f, r') \<Rightarrow> Some (Inl f, (r', p))
     | Some (Inr p', r') \<Rightarrow> Some (Inr (), (r', p')))"

text \<open>\<open>event_base != NULL \<and> event_base->is_in_queue()\<close>.\<close>

definition own_event_in_queue :: "int \<Rightarrow> (event_world, bool) pop" where
  "own_event_in_queue i = (\<lambda>(r, p).
     case p of
       None \<Rightarrow> Some (Inr False, (r, p))
     | Some a \<Rightarrow> onR (on_thread i (lookupP (\<lambda>r. case mo_heap r a of None \<Rightarrow> Inl MemoryFault | Some e \<Rightarrow> Inr (ev_in_queue e)))) (r, p))"

definition with_event :: "nat option \<Rightarrow> (event_world, 'a) pop \<Rightarrow> (relay, 'a) pop" where
  "with_event p m r = (case m (r, p) of None \<Rightarrow> None | Some (x, (r', p')) \<Rightarrow> Some (x, r'))"

text \<open>\<open>catch (..) { f; throw; }\<close>.\<close>

definition rethrowP :: "('s, 'a) pop \<Rightarrow> (int \<Rightarrow> string \<Rightarrow> ('s, unit) pop) \<Rightarrow> ('s, 'a) pop" where
  "rethrowP m f s = (case m s of
     Some (Inl (Throw k n w), s') \<Rightarrow> bindP (f n w) (\<lambda>_. liftP (throwS (Throw k n w))) s'
   | x \<Rightarrow> x)"

definition throwP :: "fault \<Rightarrow> ('s, 'a) pop" where
  "throwP f = liftP (throwS f)"

definition doneP :: "('s, unit) pop" where
  "doneP = liftP (returnS ())"

section \<open>Accepting a connection\<close>

definition SIZEOF_PIPE_MSG :: int where "SIZEOF_PIPE_MSG = 8"

text \<open>\<open>write\<close> on a pipe takes a message of eight bytes whole or fails.\<close>

definition write_pipe :: "relay_env \<Rightarrow> int \<Rightarrow> int \<times> int \<Rightarrow> (relay, unit) pop" where
  "write_pipe env i msg r =
     (case thread_at i r of
        None \<Rightarrow> Some (Inl MemoryFault, r)
      | Some td \<Rightarrow>
          let where_text = ''write thread_'' @ show_int (td_thread_no td) @ ''s pipe: '' @ show_int (td_write_fd td)
          in (case re_pipe env of
                Inl err \<Rightarrow> Some (Inl (THROW CIpcException ERR_IPC_ERROR (where_text @ '', error: '' @ err)), r)
              | Inr count \<Rightarrow>
                  if count \<noteq> SIZEOF_PIPE_MSG
                  then Some (Inl (THROW CIpcException ERR_IPC_ERROR (where_text @ '', size error: '' @ show_int count
                         @ '' != '' @ show_int SIZEOF_PIPE_MSG)), r)
                  else Some (Inr (), put_thread i (td\<lparr>td_pipe := td_pipe td @ [msg]\<rparr>) r)))"

text \<open>The static \<open>thread_index\<close> and \<open>seq_no\<close> are fields of the state.\<close>

definition choose_thread :: "relay_env \<Rightarrow> int \<Rightarrow> (relay, unit) pop" where
  "choose_thread env fd r =
     (let i = rs_thread_index r; next_index = i + 1;
          r = r\<lparr>rs_thread_index := (if next_index \<ge> rs_process_thread_num r - 1 then 0 else next_index)\<rparr>
      in case thread_at i r of
           None \<Rightarrow> Some (Inl MemoryFault, r)
         | Some td \<Rightarrow>
             let seq_no = (rs_seq_no r + 1) mod 2 ^ 32; r = r\<lparr>rs_seq_no := seq_no\<rparr>
             in bindP (on_client fd (client_init fd (td_thread_no td) seq_no (re_peer env) (re_now env))) (\<lambda>_.
                bindP (of_client fd cl_seq_no) (\<lambda>seq_no. write_pipe env i (fd, seq_no))) r)"

definition process_accept :: "relay_env \<Rightarrow> int \<Rightarrow> (relay, unit) pop" where
  "process_accept env fd r =
     (if fd \<noteq> rs_accept_fd r then Some (Inl AssertFail, r)
      else
        bindP (on_kernel (accept fd)) (\<lambda>client_fd.
          if client_fd < 0
          then (\<lambda>r. throwP (THROW CServerException ERR_SOCKET_AGAIN
                  (''accept error: '' @ k_strerror (w_kernel (rs_pool_env r)) (k_errno (w_kernel (rs_pool_env r))))) r)
          else
            bindP (find_client env client_fd) (\<lambda>_.
              rethrowP (choose_thread env client_fd) (\<lambda>n w.
                bindP (on_kernel (close client_fd)) (\<lambda>_. on_client client_fd client_fini)))) r)"

text \<open>The handler of the listening socket: an error is logged.\<close>

definition client_accept_handler :: "relay_env \<Rightarrow> int \<Rightarrow> (relay, unit) pop" where
  "client_accept_handler env fd = catchP (process_accept env fd) (\<lambda>n w. doneP)"

section \<open>The answer to an error\<close>

text \<open>Both forms of an error in \<open>_res_packet\<close>; the array behind \<open>strncpy\<close> is zero.\<close>

definition error_binary :: "int \<Rightarrow> string \<Rightarrow> client_socket \<Rightarrow> client_socket" where
  "error_binary error res_info s =
     s\<lparr>cl_res_packet := write_at (cl_res_packet s) 0 (put_int error @ cstr res_info),
       cl_res_packet_len := 4 + int (length (cstr res_info))\<rparr>"

definition error_packet :: "int \<Rightarrow> string \<Rightarrow> string" where
  "error_packet error res_info =
     packUrl (omap_set ''res_info'' (cstr res_info) (omap_set ''result'' (show_int error) []))"

definition error_text :: "int \<Rightarrow> string \<Rightarrow> client_socket \<Rightarrow> client_socket" where
  "error_text error res_info s =
     (let res_packet = error_packet error res_info
      in s\<lparr>cl_res_packet := take (nat (MAX_PACKET_LEN - 1)) (cstr res_packet),
           cl_res_packet_len := (if int (length res_packet) > MAX_PACKET_LEN then MAX_PACKET_LEN - 1
                                 else int (length res_packet))\<rparr>)"

definition route_of :: "int \<Rightarrow> relay \<Rightarrow> fault + request_conf_data" where
  "route_of fd r = request_get (cstr (cl_request_key (client_of fd r))) (rs_request_type_conf r)"

definition try_switch :: "relay_env \<Rightarrow> int \<Rightarrow> string \<Rightarrow> int \<Rightarrow> (relay, int) pop" where
  "try_switch env site_no service_name error r =
     on_switch (trySwitch (rs_sys_conf r) (fst (re_now env)) site_no service_name error) r"

text \<open>The answer is encoded and the client waits for the socket to take it.\<close>

definition encode_answer :: "int \<Rightarrow> (relay, unit) pop" where
  "encode_answer fd r = on_client fd (client_obj (client_encode (rs_detail_services r) (rs_errcode_escape r))) r"

definition await_client :: "relay_env \<Rightarrow> int \<Rightarrow> int \<Rightarrow> int \<Rightarrow> (relay, unit) pop" where
  "await_client env fd i event r =
     (let sock = s_fd (client_of fd r)
      in on_thread i (add_event (re_epoll env sock) sock event (Some DISPATCH_HANDLER) 0 (sc_cgi_write_time_out (rs_sys_conf r))) r)"

definition write_error :: "relay_env \<Rightarrow> int \<Rightarrow> int \<Rightarrow> string \<Rightarrow> (relay, unit) pop" where
  "write_error env fd error res_info =
     bindP (mod_client fd (\<lambda>s. set_process_time_stamp (re_now env) (set_recv_time_stamp (re_now env) (s\<lparr>cl_is_system_error := True\<rparr>)))) (\<lambda>_.
     bindP (liftP (getS (route_of fd))) (\<lambda>route.
     bindP (get_thread_no fd) (\<lambda>i.
     bindP (case route of
              Inr conf \<Rightarrow>
                if rt_protocol conf = EM_PROTOCOL_BIN
                then (if 4 + int (length (cstr res_info)) > MAX_PACKET_LEN then throwP MemoryFault
                      else mod_client fd (error_binary error res_info))
                else mod_client fd (error_text error res_info)
            | Inl e \<Rightarrow> mod_client fd (error_text error res_info)) (\<lambda>_.
     bindP (case route of
              Inr conf \<Rightarrow> bindP (try_switch env (rt_site_no conf) (rt_service_name conf) error) (\<lambda>_. doneP)
            | Inl e \<Rightarrow> doneP) (\<lambda>_.
     bindP (encode_answer fd) (\<lambda>_.
       await_client env fd i (EV_WRITE + EV_TIMEOUT)))))))"

section \<open>A message from the accepting thread\<close>

definition reader_of :: "int \<Rightarrow> relay \<Rightarrow> int option" where
  "reader_of fd r = map_option int (find_index (\<lambda>td. td_read_fd td = fd) (rs_process_thread r))"

text \<open>\<open>read\<close> waits on an empty pipe.\<close>

definition read_pipe :: "relay_env \<Rightarrow> int \<Rightarrow> (relay, int \<times> int) pop" where
  "read_pipe env fd r =
     (let where_text = ''read pipe: '' @ show_int fd
      in case re_pipe env of
           Inl err \<Rightarrow> Some (Inl (THROW CIpcException ERR_IPC_ERROR (where_text @ '', error: '' @ err)), r)
         | Inr count \<Rightarrow>
             if count \<noteq> SIZEOF_PIPE_MSG
             then Some (Inl (THROW CIpcException ERR_IPC_ERROR
                    (where_text @ '', size error: '' @ show_int count @ '' != '' @ show_int SIZEOF_PIPE_MSG)), r)
             else (case reader_of fd r of
                     None \<Rightarrow> None
                   | Some i \<Rightarrow>
                       (case thread_at i r of
                          None \<Rightarrow> None
                        | Some td \<Rightarrow>
                            (case td_pipe td of
                               [] \<Rightarrow> None
                             | msg # msgs \<Rightarrow> Some (Inr msg, put_thread i (td\<lparr>td_pipe := msgs\<rparr>) r)))))"

text \<open>An error before the answer is being sent is answered; one while it is being sent ends the connection.\<close>

definition answer_or_close :: "relay_env \<Rightarrow> int \<Rightarrow> int \<Rightarrow> string \<Rightarrow> (relay, unit) pop" where
  "answer_or_close env fd error what =
     bindP (of_client fd cl_status) (\<lambda>st.
       if st \<noteq> EM_CL_SEND then write_error env fd error what else on_client fd client_fini)"

definition process_dispatch :: "relay_env \<Rightarrow> int \<Rightarrow> (relay, unit) pop" where
  "process_dispatch env fd =
     bindP (read_pipe env fd) (\<lambda>(client_fd, seq_no).
     bindP (find_client env client_fd) (\<lambda>_.
       rethrowP
         (bindP (of_client client_fd cl_seq_no) (\<lambda>own_seq_no.
            if seq_no \<noteq> own_seq_no
            then throwP (THROW CIpcException ERR_IPC_ERROR (''packet seq_no not match -- pipe: '' @ show_int seq_no
                   @ '' != socket: '' @ show_int own_seq_no))
            else
              bindP (get_thread_no client_fd) (\<lambda>i.
              bindP (of_client client_fd cl_ip) (\<lambda>ip.
              bindP (part rs_access_conf rs_access_conf_update (access_check_ip ip)) (\<lambda>_.
                await_client env client_fd i (EV_READ + EV_TIMEOUT))))))
         (answer_or_close env client_fd)))"

definition process_thread_handle :: "relay_env \<Rightarrow> int \<Rightarrow> (relay, unit) pop" where
  "process_thread_handle env fd = catchP (process_dispatch env fd) (\<lambda>n w. doneP)"

section \<open>The back end\<close>

text \<open>What is read of a connection through its pointer, and its sequence number set.\<close>

definition of_api :: "nat option \<Rightarrow> (api_base \<Rightarrow> 'a) \<Rightarrow> (relay, 'a) pop" where
  "of_api api f = lookupP (\<lambda>r.
     case api of
       None \<Rightarrow> Inl MemoryFault
     | Some a \<Rightarrow> (case obj_at (rs_pool_env r) a of None \<Rightarrow> Inl MemoryFault | Some x \<Rightarrow> Inr (f (obj_base x))))"

definition on_api :: "nat option \<Rightarrow> (nat \<Rightarrow> (pool_env, 'a) op) \<Rightarrow> (relay, 'a) pop" where
  "on_api api m = (case api of None \<Rightarrow> throwP MemoryFault | Some a \<Rightarrow> on_env (m a))"

definition set_client_seq_no :: "int \<Rightarrow> nat \<Rightarrow> (pool_env, unit) op" where
  "set_client_seq_no n = obj_call (objW (\<lambda>s. s\<lparr>a_client_seq_no := n\<rparr>)) (objW (\<lambda>s. s\<lparr>a_client_seq_no := n\<rparr>))"

text \<open>The events of a connection belong to the thread of its client; the client is the parameter of the handler.\<close>

definition await_api :: "relay_env \<Rightarrow> int \<Rightarrow> nat option \<Rightarrow> int \<Rightarrow> int \<Rightarrow> (relay, unit) pop" where
  "await_api env c api i event =
     bindP (of_api api (\<lambda>b. (s_fd b, a_time_out b))) (\<lambda>(fd, time_out).
       on_thread i (add_event (re_epoll env fd) fd event (Some SERVICE_HANDLER) c time_out))"

definition update_own_event :: "relay_env \<Rightarrow> int \<Rightarrow> nat option \<Rightarrow> int \<Rightarrow> int \<Rightarrow> (event_world, unit) pop" where
  "update_own_event env c api i event =
     bindP (onR (of_api api s_fd)) (\<lambda>fd (r, p).
       onR (on_thread i (update_event (re_epoll env fd) p event (Some SERVICE_HANDLER) c)) (r, p))"

text \<open>The answer of the back end: it must belong to the request the client has sent.\<close>

definition take_answer :: "relay_env \<Rightarrow> int \<Rightarrow> nat option \<Rightarrow> int \<Rightarrow> (relay, unit) pop" where
  "take_answer env c api i =
     bindP (of_api api a_client_seq_no) (\<lambda>api_seq_no.
     bindP (of_client c cl_seq_no) (\<lambda>seq_no.
       if api_seq_no \<noteq> seq_no then on_api api (api_set_free False)
       else
         bindP (of_client c cl_res_packet) (\<lambda>buf.
         bindP (on_api api (obj_decode buf)) (\<lambda>(packet, len).
         bindP (mod_client c (\<lambda>s. s\<lparr>cl_res_packet := packet, cl_res_packet_len := len\<rparr>)) (\<lambda>_.
         bindP (on_api api (api_set_free False)) (\<lambda>_.
         bindP (mod_client c (\<lambda>s. s\<lparr>cl_api := None\<rparr>)) (\<lambda>_.
         bindP (of_client c get_call_result) (\<lambda>result.
         bindP (if result \<noteq> 0
                then bindP (lookupP (route_of c)) (\<lambda>conf.
                     bindP (try_switch env (rt_site_no conf) (rt_service_name conf) result) (\<lambda>_. doneP))
                else doneP) (\<lambda>_.
         bindP (encode_answer c) (\<lambda>_.
           await_client env c i (EV_WRITE + EV_TIMEOUT)))))))))))"

definition service_dispatch :: "relay_env \<Rightarrow> int \<Rightarrow> nat option \<Rightarrow> (event_world, unit) pop" where
  "service_dispatch env c api =
     bindP (onR (get_thread_no c)) (\<lambda>i.
     bindP (onR (on_api api obj_process)) (\<lambda>ret.
       if ret = CONNECTING then onR (await_api env c api i (EV_READ + EV_TIMEOUT + EV_WRITE))
       else if ret = INIT_OK
       then (\<lambda>(r, p).
               (if p = None then onR (await_api env c api i (EV_WRITE + EV_TIMEOUT))
                else update_own_event env c api i (EV_WRITE + EV_TIMEOUT)) (r, p))
       else if ret = SEND_HAVE_MORE then doneP
       else if ret = SEND_OK
       then (\<lambda>(r, p).
               (if p = None then throwP AssertFail
                else update_own_event env c api i (EV_READ + EV_TIMEOUT)) (r, p))
       else if ret = RECV_HAVE_MORE then doneP
       else if ret = RECV_OK
       then bindP (onR (of_api api s_fd)) (\<lambda>fd.
            bindP (del_own_event (re_epoll env fd) i) (\<lambda>_. onR (take_answer env c api i)))
       else throwP (THROW CTrpcException ERR_SYS_UNKNOWN (''unknow api ret: '' @ show_int ret))))"

text \<open>The connection is released by force and the client forgets it.\<close>

definition drop_api :: "int \<Rightarrow> nat option \<Rightarrow> (relay, unit) pop" where
  "drop_api c api = bindP (on_api api (api_set_free True)) (\<lambda>_. mod_client c (\<lambda>s. s\<lparr>cl_api := None\<rparr>))"

definition call_server :: "relay_env \<Rightarrow> int \<Rightarrow> (relay, unit) pop" where
  "call_server env c =
     bindP (lookupP (route_of c)) (\<lambda>conf.
     bindP (mod_client c (\<lambda>s. s\<lparr>cl_request_conf := conf\<rparr>)) (\<lambda>_.
     bindP (on_core (get_api (rt_site_no conf))) (\<lambda>a.
     bindP (of_api (Some a) (\<lambda>b. (a_ip b, a_port b))) (\<lambda>(ip, port).
     bindP (mod_client c (\<lambda>s. s\<lparr>cl_server_ip := ip, cl_server_port := port\<rparr>)) (\<lambda>_.
     bindP (of_client c (\<lambda>s. (cl_seq_no s, cl_req_packet s, cl_req_packet_len s))) (\<lambda>(seq_no, packet, len).
     bindP (on_env (set_client_seq_no seq_no a)) (\<lambda>_.
     bindP (on_env (obj_encode (Some packet) len (Some (rt_service_name conf)) a)) (\<lambda>_.
     bindP (mod_client c (\<lambda>s. s\<lparr>cl_api := Some a\<rparr>)) (\<lambda>_.
       rethrowP (with_event None (service_dispatch env c (Some a))) (\<lambda>n w. drop_api c (Some a)))))))))))"

section \<open>A request\<close>

definition not_authorized :: "client_socket \<Rightarrow> fault" where
  "not_authorized s = THROW CServerException (error_no InvalidAccess)
     (''ip:'' @ cl_ip s @ '' is not authorized to access request_type:'' @ show_int (cl_request_type s))"

definition service_access_control_check :: "relay_env \<Rightarrow> int \<Rightarrow> (relay, unit) pop" where
  "service_access_control_check env fd =
     bindP (lookupP (route_of fd)) (\<lambda>conf.
     bindP (of_client fd (\<lambda>s. s)) (\<lambda>s.
     bindP (part rs_freqlimit_conf rs_freqlimit_conf_update
              (freq_check (re_beyond env) (fst (re_now env)) (cl_ip s) (cl_request_type s))) (\<lambda>_.
     bindP (lookupP (\<lambda>r. master_request_key (cl_request_type s) (rs_sys_conf r))) (\<lambda>master_key.
       if length master_key > 0
       then part rs_service_request_control rs_service_request_control_update
              (rc_check_rule (fst (re_now env)) (omap_get [] (parseUrl (cstr (cl_req_packet s))) master_key)
                 (rt_service_name conf) (cstr (cl_req_packet s)))
       else doneP))))"

definition decode_request :: "relay_env \<Rightarrow> int \<Rightarrow> (relay, unit) pop" where
  "decode_request env fd r =
     (case client_decode (sc_request_key (rs_sys_conf r)) (sc_relay_svr_no (rs_sys_conf r)) (fst (re_now env))
             (client_of fd r, rs_msg_index r) of
        (x, (s, msg_index)) \<Rightarrow> Some (x, put_client fd s (r\<lparr>rs_msg_index := msg_index\<rparr>)))"

text \<open>The checks between the decoding of a request and its way to the back end.\<close>

definition admit_request :: "relay_env \<Rightarrow> int \<Rightarrow> (relay, unit) pop" where
  "admit_request env fd =
     bindP (of_client fd (\<lambda>s. s)) (\<lambda>s.
     bindP (part rs_access_conf rs_access_conf_update (access_check (cl_ip s) (cl_request_type s))) (\<lambda>_.
     bindP (liftP (getS (\<lambda>r. authorized (cl_request_type s) (cl_ip s) (rs_service_authorize_access r)))) (\<lambda>ok.
       if \<not> ok then throwP (not_authorized s) else service_access_control_check env fd)))"

definition forward_request :: "relay_env \<Rightarrow> int \<Rightarrow> (relay, unit) pop" where
  "forward_request env fd =
     bindP (lookupP (route_of fd)) (\<lambda>conf.
     bindP (liftP (modS (\<lambda>r. r\<lparr>rs_relay_switch_mgr :=
              incrRequest (fst (re_now env)) (rt_site_no conf) (rt_service_name conf) (rs_relay_switch_mgr r)\<rparr>))) (\<lambda>_.
       call_server env fd))"

definition thread_dispatch :: "relay_env \<Rightarrow> int \<Rightarrow> int \<Rightarrow> client_status \<Rightarrow> (event_world, unit) pop" where
  "thread_dispatch env fd i socket_status =
     bindP (onR (of_client fd cl_status)) (\<lambda>st.
       if st \<noteq> socket_status
       then throwP (THROW CTrpcException ERR_SYS_UNKNOWN (''client_socket status: '' @ show_int (client_status_no st)
              @ '', now: '' @ show_int (client_status_no socket_status)))
       else
         bindP (onR (of_client fd s_fd)) (\<lambda>sock.
         bindP (onR (on_client fd (client_process (re_now env)))) (\<lambda>ret.
           if ret = RECV_HAVE_MORE then doneP
           else if ret = RECV_OK
           then bindP (del_own_event (re_epoll env sock) i) (\<lambda>_.
                  onR (bindP (decode_request env fd) (\<lambda>_.
                       bindP (admit_request env fd) (\<lambda>_. forward_request env fd))))
           else if ret = SEND_HAVE_MORE then doneP
           else if ret = SEND_OK
           then bindP (del_own_event (re_epoll env sock) i) (\<lambda>_. onR (on_client fd client_fini))
           else throwP (THROW CServerException ERR_SYS_UNKNOWN (''process ret errot: '' @ show_int ret)))))"

definition read_timed_out :: "client_socket \<Rightarrow> fault" where
  "read_timed_out s = THROW CServerException ERR_SOCKET_TIME_OUT
     (''ip: '' @ cl_ip s @ '', port: '' @ show_int (cl_port s) @ '', read time out, fd: '' @ show_int (s_fd s))"

text \<open>The event a handler is called for is taken out if it is still in the queue.\<close>

definition del_if_queued :: "monitor_env \<Rightarrow> int \<Rightarrow> (event_world, unit) pop" where
  "del_if_queued env i =
     bindP (own_event_in_queue i) (\<lambda>queued. if queued then del_own_event env i else doneP)"

text \<open>The handler of a client's socket.\<close>

definition dispatch_handler :: "relay_env \<Rightarrow> int \<Rightarrow> int \<Rightarrow> nat \<Rightarrow> (relay, unit) pop" where
  "dispatch_handler env fd event p =
     bindP (find_client env fd) (\<lambda>_.
     bindP (get_thread_no fd) (\<lambda>i.
       with_event (Some p)
         (catchP
           (if check_mask event EV_READ then thread_dispatch env fd i EM_CL_READ
            else if check_mask event EV_WRITE then thread_dispatch env fd i EM_CL_SEND
            else if check_mask event EV_TIMEOUT
            then bindP (onR (of_client fd (\<lambda>s. s))) (\<lambda>s. throwP (read_timed_out s))
            else throwP (THROW CTrpcException ERR_SYS_UNKNOWN (''event error: '' @ show_int event)))
           (\<lambda>n w. bindP (del_if_queued (re_epoll env fd) i) (\<lambda>_. onR (answer_or_close env fd n w))))))"

text \<open>The handler of a connection to a back end; its parameter is the client.\<close>

definition service_handler :: "relay_env \<Rightarrow> int \<Rightarrow> int \<Rightarrow> int \<Rightarrow> nat \<Rightarrow> (relay, unit) pop" where
  "service_handler env fd event c p =
     bindP (of_client c cl_api) (\<lambda>api.
     bindP (get_thread_no c) (\<lambda>i.
       with_event (Some p)
         (catchP
           (if check_mask event EV_READ \<or> check_mask event EV_WRITE then service_dispatch env c api
            else if check_mask event EV_TIMEOUT
            then bindP (onR (of_client c (\<lambda>s. s))) (\<lambda>s. throwP (read_timed_out s))
            else throwP (THROW CTrpcException ERR_SYS_UNKNOWN (''event error: '' @ show_int event)))
           (\<lambda>n w. bindP (del_if_queued (re_epoll env fd) i) (\<lambda>_.
                   onR (bindP (drop_api c api) (\<lambda>_. write_error env c n w)))))))"

text \<open>All handlers, as the event loop calls them.\<close>

definition relay_handler :: "relay_env \<Rightarrow> relay handler" where
  "relay_handler env f fd active param p =
     (if f = CLIENT_ACCEPT_HANDLER then client_accept_handler env fd
      else if f = PROCESS_THREAD_HANDLE then process_thread_handle env fd
      else if f = DISPATCH_HANDLER then dispatch_handler env fd active p
      else if f = SERVICE_HANDLER then service_handler env fd active param p
      else throwP MemoryFault)"

section \<open>Configuration\<close>

text \<open>The files of \<open>./conf\<close>, the clock, the bytes behind the buffers and the value of an uninitialised key.\<close>

record conf_env =
  cf_file :: "string \<Rightarrow> conf_file"
  cf_xml :: "string + xml list"
  cf_now :: int
  cf_beyond :: string
  cf_unset_key :: int

definition SYSTEM_CONF :: string where "SYSTEM_CONF = ''./conf/SysConfig.conf''"
definition HASITE_CONF :: string where "HASITE_CONF = ''./conf/hasite.xml''"
definition CORE_SERVER_CONF :: string where "CORE_SERVER_CONF = ''./conf/CoreServer.conf''"
definition ACCESS_CONF :: string where "ACCESS_CONF = ''./conf/AuthAddr.conf''"
definition FRELIMIT_CONF :: string where "FRELIMIT_CONF = ''./conf/FreqLimit.conf''"
definition ERRCODE_ESCAPE_CONF :: string where "ERRCODE_ESCAPE_CONF = ''./conf/ErrInfo.conf''"
definition SERVICE_STATS_CONF :: string where "SERVICE_STATS_CONF = ''./conf/service_switch_stats.conf''"
definition SITE_STATS_CONF :: string where "SITE_STATS_CONF = ''./conf/site_switch_stats.conf''"
definition DETAIL_INFO_SERVICE_CONF :: string where "DETAIL_INFO_SERVICE_CONF = ''./conf/DetailInfoRequestType.conf''"
definition SERVICE_AUTHORIZE_ACCESS_CONF :: string where
  "SERVICE_AUTHORIZE_ACCESS_CONF = ''./conf/service_authorize_addr.conf''"

definition on_hasite :: "(hasite_conf, 'a) op \<Rightarrow> (relay, 'a) pop" where
  "on_hasite m = on_env (hasiteE m)"

fun read_routes :: "conf_env \<Rightarrow> request_key_conf list \<Rightarrow> (relay, unit) pop" where
  "read_routes cf [] = doneP"
| "read_routes cf (k # ks) =
     bindP (part rs_request_type_conf rs_request_type_conf_update (request_read_conf (rk_conf_file k) (cf_file cf (rk_conf_file k)))) (\<lambda>_.
       read_routes cf ks)"

definition read_all_routes :: "conf_env \<Rightarrow> (relay, unit) pop" where
  "read_all_routes cf =
     bindP (part rs_request_type_conf rs_request_type_conf_update request_clear) (\<lambda>_.
     bindP (liftP (getS (\<lambda>r. sc_request_key (rs_sys_conf r)))) (\<lambda>ks. read_routes cf ks))"

definition read_conf :: "conf_env \<Rightarrow> (relay, unit) pop" where
  "read_conf cf =
     bindP (part rs_sys_conf rs_sys_conf_update (sysconf_init SYSTEM_CONF (cf_file cf SYSTEM_CONF))) (\<lambda>_.
     bindP (read_all_routes cf) (\<lambda>_.
     bindP (part rs_core_server_conf rs_core_server_conf_update (\<lambda>c.
              case core_read_conf CORE_SERVER_CONF (cf_file cf CORE_SERVER_CONF) (cc_conf c) of (x, d) \<Rightarrow> (x, c\<lparr>cc_conf := d\<rparr>))) (\<lambda>_.
     bindP (on_hasite (hasite_read_conf HASITE_CONF (cf_xml cf))) (\<lambda>_.
     bindP (part rs_access_conf rs_access_conf_update (access_read_conf ACCESS_CONF (cf_file cf ACCESS_CONF))) (\<lambda>_.
     bindP (part rs_freqlimit_conf rs_freqlimit_conf_update
              (freq_read_conf (cf_beyond cf) (cf_now cf) FRELIMIT_CONF (cf_file cf FRELIMIT_CONF))) (\<lambda>_.
     bindP (part rs_errcode_escape rs_errcode_escape_update
              (errcode_read_conf (cf_beyond cf) ERRCODE_ESCAPE_CONF (cf_file cf ERRCODE_ESCAPE_CONF))) (\<lambda>_.
     bindP (part rs_service_stats_conf rs_service_stats_conf_update
              (stats_conf_init cast_word SERVICE_STATS_CONF (cf_file cf SERVICE_STATS_CONF))) (\<lambda>_.
     bindP (part rs_site_stats_conf rs_site_stats_conf_update
              (stats_conf_init (cast_int (cf_unset_key cf)) SITE_STATS_CONF (cf_file cf SITE_STATS_CONF))) (\<lambda>_.
       part rs_detail_services rs_detail_services_update
         (detail_read_conf DETAIL_INFO_SERVICE_CONF (cf_file cf DETAIL_INFO_SERVICE_CONF)))))))))))"

definition reload_conf :: "conf_env \<Rightarrow> (relay, unit) pop" where
  "reload_conf cf =
     bindP (read_all_routes cf) (\<lambda>_.
     bindP (part rs_access_conf rs_access_conf_update access_clear) (\<lambda>_.
     bindP (part rs_access_conf rs_access_conf_update (access_read_conf ACCESS_CONF (cf_file cf ACCESS_CONF))) (\<lambda>_.
     bindP (part rs_freqlimit_conf rs_freqlimit_conf_update freq_clear) (\<lambda>_.
     bindP (part rs_freqlimit_conf rs_freqlimit_conf_update
              (freq_read_conf (cf_beyond cf) (cf_now cf) FRELIMIT_CONF (cf_file cf FRELIMIT_CONF))) (\<lambda>_.
     bindP (part rs_errcode_escape rs_errcode_escape_update errcode_clean) (\<lambda>_.
     bindP (part rs_errcode_escape rs_errcode_escape_update
              (errcode_read_conf (cf_beyond cf) ERRCODE_ESCAPE_CONF (cf_file cf ERRCODE_ESCAPE_CONF))) (\<lambda>_.
     bindP (part rs_detail_services rs_detail_services_update
              (detail_reload DETAIL_INFO_SERVICE_CONF (cf_file cf DETAIL_INFO_SERVICE_CONF))) (\<lambda>_.
     bindP (part rs_service_authorize_access rs_service_authorize_access_update
              (authorize_re_init SERVICE_AUTHORIZE_ACCESS_CONF (cf_file cf SERVICE_AUTHORIZE_ACCESS_CONF))) (\<lambda>_.
     bindP (on_hasite (hasite_reload HASITE_CONF (cf_xml cf))) (\<lambda>_.
     bindP (on_core (core_re_init CORE_SERVER_CONF (cf_file cf CORE_SERVER_CONF))) (\<lambda>_.
     bindP (part rs_service_stats_conf rs_service_stats_conf_update
              (stats_conf_re_init cast_word SERVICE_STATS_CONF (cf_file cf SERVICE_STATS_CONF))) (\<lambda>_.
     bindP (part rs_site_stats_conf rs_site_stats_conf_update
              (stats_conf_re_init (cast_int (cf_unset_key cf)) SITE_STATS_CONF (cf_file cf SITE_STATS_CONF))) (\<lambda>_.
       liftP (modS (\<lambda>r. r\<lparr>rs_relay_switch_mgr :=
         switch_mgr_re_init (cf_now cf) (rs_service_stats_conf r) (rs_site_stats_conf r) (rs_relay_switch_mgr r)\<rparr>)))))))))))))))"

section \<open>Start and run\<close>

text \<open>What the system answers when a worker is made: its pipe, write end first, and its \<open>epoll\<close> descriptor.\<close>

record thread_input =
  ti_pipe :: "string + (int \<times> int)"
  ti_epoll_fd :: int
  ti_env :: monitor_env

definition monitor_new :: monitor where
  "monitor_new = \<lparr>mo_heap = fst (queue_new 0 Map.empty), mo_fresh = 1, mo_queue = snd (queue_new 0 Map.empty), mo_stop = False,
     mo_epoll_fd = INVALID_EPOLL, mo_interest = Map.empty, mo_heart_beat_count = 0, mo_heart_beats = [], mo_error_text = []\<rparr>"

definition thread_new :: thread_data where
  "thread_new = \<lparr>td_monitor = monitor_new, td_thread_no = 0, td_write_fd = 0, td_read_fd = 0, td_pipe = []\<rparr>"

definition init_thread :: "thread_input \<Rightarrow> int \<Rightarrow> (relay, unit) pop" where
  "init_thread inp i =
     (case ti_pipe inp of
        Inl err \<Rightarrow> throwP (THROW CTrpcException ERR_SYS_UNKNOWN (''thread_'' @ show_int i @ ''s pipe create error: '' @ err))
      | Inr (write_fd, read_fd) \<Rightarrow>
          bindP (liftP (modS (put_thread i (thread_new\<lparr>td_thread_no := i, td_write_fd := write_fd, td_read_fd := read_fd\<rparr>)))) (\<lambda>_.
          bindP (on_thread i (liftP (monitor_init (ti_epoll_fd inp)))) (\<lambda>_.
            on_thread i (add_event (ti_env inp) read_fd (EV_READ + EV_PERSIST) (Some PROCESS_THREAD_HANDLE) 0 0))))"

fun init_threads :: "(nat \<Rightarrow> thread_input) \<Rightarrow> nat \<Rightarrow> (relay, unit) pop" where
  "init_threads inputs 0 = doneP"
| "init_threads inputs (Suc n) = bindP (init_threads inputs n) (\<lambda>_. init_thread (inputs n) (int n))"

text \<open>The object as the constructors leave it; the monitor is that of the accepting thread. Numbers they leave unset are
  zero here: each is set before it is read.\<close>

definition relay_new :: "kernel \<Rightarrow> relay" where
  "relay_new k = monitor.extend monitor_new \<lparr>rs_running = - 1, rs_accept = monitor_new, rs_accept_fd = 0, rs_process_thread_num = 0,
     rs_process_thread = [], rs_client_data = [], rs_pool_env = \<lparr>w_kernel = k, w_hasite = [], w_heap = [], w_keepalive = 0\<rparr>,
     rs_sys_conf = no_settings, rs_request_type_conf = \<lparr>c_data = [], c_rows = 0\<rparr>,
     rs_core_server_conf = \<lparr>cc_conf = \<lparr>c_data = [], c_rows = 0\<rparr>, cc_pool = []\<rparr>,
     rs_access_conf = \<lparr>c_data = [], c_rows = 0\<rparr>, rs_freqlimit_conf = \<lparr>c_data = [], c_rows = 0\<rparr>,
     rs_errcode_escape = [], rs_detail_services = {}, rs_service_stats_conf = \<lparr>sw_stats_info = [], sw_is_init = False\<rparr>,
     rs_site_stats_conf = \<lparr>sw_stats_info = [], sw_is_init = False\<rparr>, rs_relay_switch_mgr = switch_mgr_new,
     rs_service_request_control = \<lparr>rc_pool = [], rc_is_init = False\<rparr>,
     rs_service_authorize_access = \<lparr>az_set = [], az_is_init = False\<rparr>, rs_msg_index = 0, rs_thread_index = 0, rs_seq_no = 0\<rparr>"

text \<open>A negative number of threads ends in \<open>std::bad_alloc\<close>.\<close>

definition init_process_thread :: "(nat \<Rightarrow> thread_input) \<Rightarrow> (relay, unit) pop" where
  "init_process_thread inputs =
     bindP (liftP (getS (\<lambda>r. sc_thread_num (rs_sys_conf r)))) (\<lambda>num.
     if num < 0 then throwP MemoryFault
     else
       bindP (liftP (modS (\<lambda>r. r\<lparr>rs_process_thread_num := num, rs_process_thread := replicate (nat num) thread_new\<rparr>))) (\<lambda>_.
         init_threads inputs (nat num)))"

definition init_accept_socket :: "int \<Rightarrow> monitor_env \<Rightarrow> (relay, unit) pop" where
  "init_accept_socket epoll_fd env =
     bindP (on_kernel tcp_sock) (\<lambda>fd.
     bindP (liftP (modS (\<lambda>r. r\<lparr>rs_accept_fd := fd\<rparr>))) (\<lambda>_.
     bindP (on_kernel (set_reuser_addr fd)) (\<lambda>_.
     bindP (liftP (getS (\<lambda>r. (sc_server_ip (rs_sys_conf r), sc_server_port (rs_sys_conf r))))) (\<lambda>(ip, port).
     bindP (on_kernel (net_bind_ip fd ip port)) (\<lambda>_.
     bindP (on_kernel (nonblock_listen fd 128)) (\<lambda>_.
     bindP (liftP (monitor_init epoll_fd)) (\<lambda>_.
       add_event env fd (EV_READ + EV_PERSIST) (Some CLIENT_ACCEPT_HANDLER) 0 0)))))))"

text \<open>\<open>init\<close> without the management thread, whose command does nothing.\<close>

definition relay_server_init :: "conf_env \<Rightarrow> (nat \<Rightarrow> thread_input) \<Rightarrow> int \<Rightarrow> monitor_env \<Rightarrow> (relay, unit) pop" where
  "relay_server_init cf inputs epoll_fd env =
     bindP (read_conf cf) (\<lambda>_.
     bindP (liftP (modS (\<lambda>r. r\<lparr>rs_pool_env := (rs_pool_env r)\<lparr>w_keepalive := sc_keepalive_idle (rs_sys_conf r)\<rparr>\<rparr>))) (\<lambda>_.
     bindP (on_core init_api_pool) (\<lambda>_.
     bindP (liftP (modS (\<lambda>r. r\<lparr>rs_relay_switch_mgr :=
              switch_mgr_init (cf_now cf) (rs_service_stats_conf r) (rs_site_stats_conf r) (rs_relay_switch_mgr r)\<rparr>))) (\<lambda>_.
     bindP (part rs_service_authorize_access rs_service_authorize_access_update
              (authorize_init SERVICE_AUTHORIZE_ACCESS_CONF (cf_file cf SERVICE_AUTHORIZE_ACCESS_CONF))) (\<lambda>_.
     bindP (init_process_thread inputs) (\<lambda>_.
       init_accept_socket epoll_fd env))))))"

text \<open>Thread \<open>i\<close> goes on running; \<open>- 1\<close> is the one that accepts.\<close>

definition switch_thread :: "int \<Rightarrow> relay \<Rightarrow> relay" where
  "switch_thread i r =
     (let old = rs_running r;
          r = (case thread_at old r of
                 None \<Rightarrow> r\<lparr>rs_accept := monitor.truncate r\<rparr>
               | Some td \<Rightarrow> put_thread old (td\<lparr>td_monitor := monitor.truncate r\<rparr>) r)
      in (load_monitor (case thread_at i r of None \<Rightarrow> rs_accept r | Some td \<Rightarrow> td_monitor td) r)\<lparr>rs_running := i\<rparr>)"

text \<open>Rounds of the threads' event loops, in the order they happen.\<close>

fun relay_run :: "(int \<times> relay_env \<times> int \<times> ((int \<times> int) \<times> nat \<times> int) list option) list \<Rightarrow> (relay, bool) pop" where
  "relay_run [] = liftP (returnS True)"
| "relay_run ((i, env, time, ready) # rounds) =
     bindP (liftP (modS (switch_thread i))) (\<lambda>_.
     bindP (monitor_once (relay_handler env) time ready) (\<lambda>goes_on.
       if goes_on then relay_run rounds else liftP (returnS False)))"

section \<open>The management commands\<close>

text \<open>\<open>relay_mgr_command.cpp\<close>: the body of \<open>process\<close> behind its first statement, a \<open>return\<close>, is never reached.\<close>

record timed_command =
  tc_cmd_type :: int
  tc_time_out :: int
  tc_time_stamp :: int

definition FIX_FREQ_CONTROL_CMD :: int where "FIX_FREQ_CONTROL_CMD = 1000"

definition create_relay_mgr_command :: "int \<Rightarrow> timed_command list" where
  "create_relay_mgr_command now = [\<lparr>tc_cmd_type = FIX_FREQ_CONTROL_CMD, tc_time_out = 30, tc_time_stamp = now\<rparr>]"

definition latest_expire_command_time :: "int \<Rightarrow> timed_command list \<Rightarrow> int" where
  "latest_expire_command_time now command_list =
     fold (\<lambda>command t. if t > tc_time_out command then tc_time_out command else t) command_list (i32 now)"

definition command_process :: "timed_command \<Rightarrow> (relay, unit) pop" where
  "command_process command = doneP"

text \<open>One turn of the management thread after its wait.\<close>

fun mgr_turn :: "int \<Rightarrow> timed_command list \<Rightarrow> (relay, timed_command list) pop" where
  "mgr_turn now [] = liftP (returnS [])"
| "mgr_turn now (c # cs) =
     (if now - tc_time_stamp c \<ge> tc_time_out c
      then bindP (command_process c) (\<lambda>_. bindP (mgr_turn now cs) (\<lambda>cs'. liftP (returnS (c\<lparr>tc_time_stamp := now\<rparr> # cs'))))
      else bindP (mgr_turn now cs) (\<lambda>cs'. liftP (returnS (c # cs'))))"

end
