(* ===== verification/Relay_Frame.thy ===== *)
theory Relay_Frame
  imports Relay_Server
begin

text \<open>
  What the handlers of \<open>Relay_Server\<close> leave alone, whatever the system answers: an event changes one client at most
  and no handler changes the configuration. Both are instances of one locale: a preorder on states that a handler's
  primitive steps respect is respected by the handler.
\<close>

section \<open>Operations that keep a relation\<close>

definition keepsP :: "('s \<Rightarrow> 's \<Rightarrow> bool) \<Rightarrow> ('s, 'a) pop \<Rightarrow> bool" where
  "keepsP R m \<longleftrightarrow> (\<forall>s x s'. m s = Some (x, s') \<longrightarrow> R s s')"

lemma keepsP_D: "keepsP R m \<Longrightarrow> m s = Some (x, s') \<Longrightarrow> R s s'"
  unfolding keepsP_def by blast

lemma keepsP_case: "keepsP R m \<Longrightarrow> case m s of None \<Rightarrow> True | Some (x, s') \<Rightarrow> R s s'"
  by (auto dest: keepsP_D split: option.split)

lemma bindP_cases:
  assumes "bindP m f s = Some (y, s'')"
  obtains e where "m s = Some (Inl e, s'')" "y = Inl e"
  | x s' where "m s = Some (Inr x, s')" "f x s' = Some (y, s'')"
  using assms by (auto simp: bindP_def split: option.splits prod.splits sum.splits)

text \<open>A preorder is kept by the control structures of the operations.\<close>

locale preorder_frame =
  fixes same :: "'s \<Rightarrow> 's \<Rightarrow> bool"
  assumes same_refl: "same s s"
    and same_trans: "same s t \<Longrightarrow> same t u \<Longrightarrow> same s u"
begin

lemma keep_bind:
  assumes m: "keepsP same m" and f: "\<And>x. keepsP same (f x)"
  shows "keepsP same (bindP m f)"
  unfolding keepsP_def
proof (intro allI impI)
  fix s y s'' assume "bindP m f s = Some (y, s'')"
  then show "same s s''"
    by (rule bindP_cases) (auto dest: keepsP_D [OF m] keepsP_D [OF f] intro: same_trans)
qed

lemma keep_lift: "(\<And>s. same s (snd (m s))) \<Longrightarrow> keepsP same (liftP m)"
  by (auto simp: keepsP_def) (metis snd_conv)

lemma keep_get: "keepsP same (liftP (getS f))" "keepsP same (liftP (returnS x))" "keepsP same (throwP e)" "keepsP same doneP"
  by (auto simp: keepsP_def throwP_def doneP_def same_refl)

lemma keep_mod: "(\<And>s. same s (f s)) \<Longrightarrow> keepsP same (liftP (modS f))"
  by (auto simp: keepsP_def)

lemma keep_catch: "keepsP same m \<Longrightarrow> (\<And>n w. keepsP same (f n w)) \<Longrightarrow> keepsP same (catchP m f)"
  unfolding keepsP_def catchP_def
  by (auto split: option.splits prod.splits sum.splits fault.splits) (metis same_trans)+

lemma keep_rethrow: "keepsP same m \<Longrightarrow> (\<And>n w. keepsP same (f n w)) \<Longrightarrow> keepsP same (rethrowP m f)"
  unfolding keepsP_def rethrowP_def throwP_def
  by (auto split: option.splits prod.splits sum.splits fault.splits elim!: bindP_cases) (metis same_trans)+

lemma keep_if: "(b \<Longrightarrow> keepsP same m) \<Longrightarrow> (\<not> b \<Longrightarrow> keepsP same n) \<Longrightarrow> keepsP same (if b then m else n)"
  by simp

lemma keep_at: "(\<And>s. keepsP same (f s)) \<Longrightarrow> keepsP same (\<lambda>s. f s s)"
  by (simp add: keepsP_def)

lemma keep_prod: "(\<And>a b. keepsP same (f a b)) \<Longrightarrow> keepsP same (case x of (a, b) \<Rightarrow> f a b)"
  by (cases x) simp

lemmas keep_rules = keep_bind keep_get keep_catch keep_rethrow keep_if keep_prod

end

section \<open>The monitor touches nothing else\<close>

text \<open>The fields of the relay are what extends the monitor.\<close>

definition same_more :: "'a monitor_scheme \<Rightarrow> 'a monitor_scheme \<Rightarrow> bool" where
  "same_more mo mo' \<longleftrightarrow> monitor.more mo' = monitor.more mo"

interpretation mon: preorder_frame same_more
  by unfold_locales (simp_all add: same_more_def)

lemma queueP_more: "keepsP same_more (queueP m)"
  by (auto simp: keepsP_def queueP_def same_more_def split: option.splits prod.splits)

lemma ctl_more:
  "same_more mo (snd (add_fd env p mo))" "same_more mo (snd (update_fd env p mo))" "same_more mo (snd (del_fd env p mo))"
  by (simp_all add: add_fd_def update_fd_def del_fd_def same_more_def split: option.split)

lemma monitor_enter_more: "keepsP same_more (monitor_enter env p)"
  unfolding monitor_enter_def
  by (intro mon.keep_bind queueP_more mon.keep_lift) (auto simp: ctl_more mon.same_refl split: option.split)

lemma set_error_text_more: "keepsP same_more (set_error_text env)"
  by (auto simp: keepsP_def set_error_text_def same_more_def)

lemma monitor_add_more: "keepsP same_more (monitor_add env fd event handler param time_out)"
proof -
  have "keepsP same_more (catchP (bindP (monitor_enter env a) (\<lambda>_. liftP (returnS 0))) (\<lambda>n w. set_error_text env))" for a
    by (intro mon.keep_rules monitor_enter_more set_error_text_more)
  then show ?thesis
    unfolding keepsP_def monitor_add_eq same_more_def with_new_def by fastforce
qed

lemma monitor_update_more: "keepsP same_more (monitor_update env p event handler param)"
proof -
  have "keepsP same_more (catchP (bindP (liftP (update_fd env a)) (\<lambda>_. liftP (returnS 0))) (\<lambda>n w. set_error_text env))" for a
    by (intro mon.keep_rules mon.keep_lift ctl_more set_error_text_more)
  then show ?thesis
    unfolding keepsP_def monitor_update_def same_more_def by (fastforce split: option.splits)
qed

lemma monitor_del_more: "same_more mo (snd (monitor_del env p mo))"
proof -
  have d: "monitor.more (snd (bindS (del_fd env a) (\<lambda>_ mo. (Inr None, mo\<lparr>mo_heap := (mo_heap mo)(a := None)\<rparr>)) mo1))
      = monitor.more mo1" for a and mo1 :: "'a monitor_scheme"
    using ctl_more(3) [of mo1 env a] by (cases "del_fd env a mo1") (auto simp: bindS_def same_more_def split: sum.split)
  show ?thesis
    by (auto simp: monitor_del_def same_more_def d [of _ "mo\<lparr>mo_heap := h, mo_queue := q\<rparr>" for h q]
        split: option.split prod.split sum.split)
qed

lemma event_ops_more:
  "keepsP same_more (add_event env fd event handler param time_out)"
  "keepsP same_more (update_event env p event handler param)"
  "keepsP same_more (del_event env p)"
  unfolding add_event_def update_event_def del_event_def
  by (intro mon.keep_bind monitor_add_more monitor_update_more mon.keep_lift monitor_del_more;
      simp add: mon.same_refl)+

section \<open>A relation on the relay\<close>

text \<open>What a relation has to allow an operation on the monitors: their fields, and the monitor and the pipe of a worker.\<close>

locale worker_frame = preorder_frame same for same :: "relay \<Rightarrow> relay \<Rightarrow> bool" +
  assumes monitors: "same_more r r' \<Longrightarrow> same r r'"
    and threads: "thread_at i r = Some td \<Longrightarrow> same r (put_thread i (td\<lparr>td_pipe := q\<rparr>) r)"
      "thread_at i r = Some td \<Longrightarrow> same r (put_thread i (td\<lparr>td_monitor := mo\<rparr>) r)"
begin

lemma keep_monitor_op: "keepsP same_more m \<Longrightarrow> keepsP same m"
  unfolding keepsP_def using monitors by blast

lemma load_same: "same r (load_monitor mo r)"
  by (rule monitors) (simp add: same_more_def load_monitor_def)

lemma keep_on_thread:
  assumes "keepsP same_more m"
  shows "keepsP same (on_thread i m)"
  unfolding keepsP_def
proof (intro allI impI)
  fix r x r' assume a: "on_thread i m r = Some (x, r')"
  show "same r r'"
  proof (cases "thread_at i r")
    case None
    then show ?thesis using a by (simp add: on_thread_def same_refl)
  next
    case (Some td)
    show ?thesis
    proof (cases "i = rs_running r")
      case True
      then show ?thesis using a Some keepsP_D [OF keep_monitor_op [OF assms]] by (simp add: on_thread_def)
    next
      case False
      then obtain r1 where r1: "m (load_monitor (td_monitor td) r) = Some (x, r1)"
        "r' = load_monitor (monitor.truncate r) (put_thread i (td\<lparr>td_monitor := monitor.truncate r1\<rparr>) r1)"
        using a Some by (auto simp: on_thread_def split: option.splits prod.splits)
      have more: "same_more r r1"
        using mon.same_trans [OF _ keepsP_D [OF assms r1(1)], of r] by (simp add: same_more_def load_monitor_def)
      then have "rs_process_thread r1 = rs_process_thread r" by (cases r, cases r1) (simp add: same_more_def)
      then have "thread_at i r1 = Some td" using Some by (simp add: thread_at_def split: if_split_asm)
      from threads(2) [OF this] show ?thesis using r1(2) monitors [OF more] load_same same_trans by blast
    qed
  qed
qed

end

text \<open>What a relation has to allow the work on the back ends: besides, their connections, their sites and the switches.\<close>

locale backend_frame = worker_frame same for same :: "relay \<Rightarrow> relay \<Rightarrow> bool" +
  assumes backends: "same r (r\<lparr>rs_pool_env := e\<rparr>)" "same r (r\<lparr>rs_core_server_conf := cc\<rparr>)"
      "same r (r\<lparr>rs_relay_switch_mgr := sm\<rparr>)"
begin

lemma keep_lookup: "keepsP same (lookupP f)" "keepsP same (of_client fd g)" "keepsP same (get_thread_no fd)"
    "keepsP same (of_api api h)"
  by (auto simp: keepsP_def lookupP_def of_client_def get_thread_no_def of_api_def same_refl)

lemma keep_on_env: "keepsP same (on_env m)"
  by (auto simp: keepsP_def on_env_def part_def backends split: prod.splits)

lemma keep_on_kernel: "keepsP same (on_kernel m)"
  by (simp add: on_kernel_def keep_on_env)

lemma keep_on_core: "keepsP same (on_core m)"
  unfolding keepsP_def on_core_def
  by (auto split: prod.splits intro: same_trans [OF backends(1) backends(2)])

lemma keep_on_switch: "keepsP same (on_switch m)"
  unfolding keepsP_def on_switch_def
  by (auto split: prod.splits intro: same_trans [OF backends(3) same_trans [OF backends(1) backends(2)]])

lemma keep_try_switch: "keepsP same (try_switch env site service error)"
  unfolding try_switch_def by (rule keep_at) (rule keep_on_switch)

lemma keep_await_client: "keepsP same (await_client env fd i event)"
  unfolding await_client_def Let_def by (rule keep_at) (intro keep_on_thread event_ops_more)

lemma keep_await_api: "keepsP same (await_api env k api i event)"
  unfolding await_api_def
  by (intro keep_bind keep_prod keep_lookup keep_on_thread event_ops_more)

lemma keep_on_api: "keepsP same (on_api api m)"
  by (cases api) (simp_all add: on_api_def keep_get keep_on_env)

lemmas keep_backend_steps = keep_rules keep_lookup keep_on_env keep_on_kernel keep_on_core keep_try_switch keep_await_client
  keep_await_api keep_on_api

end

text \<open>A handler's own event lies beside the relay.\<close>

definition beside :: "('s \<Rightarrow> 's \<Rightarrow> bool) \<Rightarrow> 's \<times> 'e \<Rightarrow> 's \<times> 'e \<Rightarrow> bool" where
  "beside R = (\<lambda>(r, p) (r', p'). R r r')"

sublocale backend_frame \<subseteq> ev: preorder_frame "beside same"
  by unfold_locales (auto simp: beside_def same_refl intro: same_trans)

context backend_frame
begin

lemma keep_onR: "keepsP same m \<Longrightarrow> keepsP (beside same) (onR m)"
  by (auto simp: keepsP_def onR_def beside_def split: option.splits prod.splits)

lemma keep_with_event: "keepsP (beside same) m \<Longrightarrow> keepsP same (with_event p m)"
  by (fastforce simp: keepsP_def with_event_def beside_def split: option.splits prod.splits)

lemma keep_del_own_event: "keepsP (beside same) (del_own_event env i)"
proof -
  have "same r r'" if "on_thread i (del_event env p) r = Some (x, r')" for p r x r'
    by (rule keepsP_D [OF keep_on_thread [OF event_ops_more(3)] that])
  then show ?thesis
    by (fastforce simp: keepsP_def del_own_event_def beside_def split: option.splits prod.splits sum.splits)
qed

lemma keep_pair: "(\<And>r p. keepsP (beside same) (f r p)) \<Longrightarrow> keepsP (beside same) (\<lambda>(r, p). f r p (r, p))"
  by (auto simp: keepsP_def)

lemma keep_update_own_event: "keepsP (beside same) (update_own_event env k api i event)"
  unfolding update_own_event_def
  by (intro ev.keep_bind keep_onR keep_lookup keep_pair keep_on_thread event_ops_more)

lemma keep_own_event_in_queue: "keepsP (beside same) (own_event_in_queue i)"
proof -
  have "keepsP same (on_thread i (lookupP f))" for f :: "relay \<Rightarrow> fault + bool"
    by (rule keep_on_thread) (simp add: keepsP_def lookupP_def mon.same_refl)
  then have "beside same w w'" if "onR (on_thread i (lookupP f)) w = Some (x, w')" for f :: "relay \<Rightarrow> fault + bool" and w x w'
    using keepsP_D [OF keep_onR that] by blast
  then show ?thesis
    unfolding keepsP_def own_event_in_queue_def using ev.same_refl by (auto split: option.splits)
qed

lemma keep_del_if_queued: "keepsP (beside same) (del_if_queued env i)"
  unfolding del_if_queued_def
  by (intro ev.keep_bind ev.keep_if ev.keep_get keep_own_event_in_queue keep_del_own_event)

lemmas keep_event_steps = ev.keep_rules keep_onR keep_with_event keep_del_own_event keep_update_own_event keep_del_if_queued

end

text \<open>What a relation has to allow a handler that works for the client \<open>c\<close>: besides, the counters and the object of
  that client.\<close>

locale handler_frame = backend_frame same for same :: "relay \<Rightarrow> relay \<Rightarrow> bool" +
  fixes c :: int
  assumes counters: "same r (r\<lparr>rs_freqlimit_conf := fc\<rparr>)" "same r (r\<lparr>rs_service_request_control := rc\<rparr>)"
      "same r (r\<lparr>rs_msg_index := n\<rparr>)" "same r (r\<lparr>rs_seq_no := n mod 2 ^ 32\<rparr>)"
    and wheel: "same r (r\<lparr>rs_thread_index :=
        (if rs_thread_index r + 1 \<ge> rs_process_thread_num r - 1 then 0 else rs_thread_index r + 1)\<rparr>)"
    and client: "same r (r\<lparr>rs_client_data := omap_set c s (rs_client_data r)\<rparr>)"
begin

lemma put_client_same: "same r (put_client c s r)"
  by (simp add: put_client_def client)

lemma keep_on_client: "keepsP same (on_client c m)"
  unfolding keepsP_def on_client_def
  by (auto split: prod.splits intro: same_trans [OF backends(1) put_client_same])

lemma keep_mod_client: "keepsP same (mod_client c f)"
  unfolding mod_client_def by (rule keep_mod) (rule put_client_same)

lemma keep_find_client: "keepsP same (find_client env c)"
  unfolding find_client_def omap_insert_def
  by (rule keep_mod) (simp add: client same_refl split: option.split)

lemma keep_encode_answer: "keepsP same (encode_answer c)"
  unfolding encode_answer_def by (rule keep_at) (rule keep_on_client)

lemma keep_decode_request: "keepsP same (decode_request env c)"
  unfolding keepsP_def decode_request_def
  by (auto split: prod.splits intro: same_trans [OF counters(3) put_client_same])

lemmas keep_steps = keep_backend_steps keep_on_client keep_mod_client keep_find_client keep_encode_answer keep_decode_request

text \<open>The handlers' parts, in the order of the code.\<close>

lemma keep_write_error: "keepsP same (write_error env c error info)"
  unfolding write_error_def
  by (intro keep_bind keep_steps) (auto split: sum.split intro!: keep_steps)

lemma keep_answer_or_close: "keepsP same (answer_or_close env c error what)"
  unfolding answer_or_close_def by (intro keep_steps keep_write_error)

lemma keep_take_answer: "keepsP same (take_answer env c api i)"
  unfolding take_answer_def by (intro keep_steps)

lemma keep_service_dispatch: "keepsP (beside same) (service_dispatch env c api)"
  unfolding service_dispatch_def
  by (intro keep_event_steps keep_steps keep_pair keep_take_answer)

lemma keep_drop_api: "keepsP same (drop_api c api)"
  unfolding drop_api_def by (intro keep_steps)

lemma keep_call_server: "keepsP same (call_server env c)"
  unfolding call_server_def by (intro keep_steps keep_with_event keep_service_dispatch keep_drop_api)

end

context handler_frame
begin

lemma keep_freq_check: "keepsP same (part rs_freqlimit_conf rs_freqlimit_conf_update m)"
  by (auto simp: keepsP_def part_def counters split: prod.splits)

lemma keep_check_rule: "keepsP same (part rs_service_request_control rs_service_request_control_update m)"
  by (auto simp: keepsP_def part_def counters split: prod.splits)

text \<open>The checks of \<open>CAccessControl\<close> only look.\<close>

lemma keep_access_check:
  "keepsP same (part rs_access_conf rs_access_conf_update (access_check ip t))"
  "keepsP same (part rs_access_conf rs_access_conf_update (access_check_ip ip))"
  by (auto simp: keepsP_def part_def access_check_def access_check_ip_def same_refl split: option.splits if_splits)

lemma keep_admit_request: "keepsP same (admit_request env c)"
  unfolding admit_request_def service_access_control_check_def
  by (intro keep_steps keep_access_check keep_freq_check keep_check_rule)

lemma keep_forward_request: "keepsP same (forward_request env c)"
  unfolding forward_request_def by (intro keep_steps keep_mod backends keep_call_server)

lemma keep_thread_dispatch: "keepsP (beside same) (thread_dispatch env c i st)"
  unfolding thread_dispatch_def
  by (intro keep_event_steps keep_steps keep_admit_request keep_forward_request)

lemma keep_dispatch_handler: "keepsP same (dispatch_handler env c event p)"
  unfolding dispatch_handler_def
  by (intro keep_steps keep_event_steps keep_thread_dispatch keep_answer_or_close)

lemma keep_service_handler: "keepsP same (service_handler env fd event c p)"
  unfolding service_handler_def
  by (intro keep_steps keep_event_steps keep_service_dispatch keep_drop_api keep_write_error)

lemma keep_write_pipe: "keepsP same (write_pipe env i msg)"
  by (auto simp: keepsP_def write_pipe_def Let_def threads same_refl split: option.splits sum.splits if_splits)

lemma keep_choose_thread: "keepsP same (choose_thread env c)"
  unfolding keepsP_def
proof (intro allI impI)
  fix r x r' assume a: "choose_thread env c r = Some (x, r')"
  define r1 where "r1 = r\<lparr>rs_thread_index := (if rs_thread_index r + 1 \<ge> rs_process_thread_num r - 1 then 0 else rs_thread_index r + 1)\<rparr>"
  have r1: "same r r1" by (simp only: r1_def wheel)
  show "same r r'"
  proof (cases "thread_at (rs_thread_index r) r1")
    case None
    then show ?thesis using a r1 by (auto simp: choose_thread_def r1_def Let_def)
  next
    case (Some td)
    define n where "n = (rs_seq_no r1 + 1) mod 2 ^ 32"
    have k: "keepsP same (bindP (on_client c (client_init c (td_thread_no td) n (re_peer env) (re_now env)))
        (\<lambda>_. bindP (of_client c cl_seq_no) (\<lambda>seq_no. write_pipe env (rs_thread_index r) (c, seq_no))))"
      by (intro keep_steps keep_write_pipe)
    have "same (r1\<lparr>rs_seq_no := n\<rparr>) r'"
      using a Some by (intro keepsP_D [OF k, of _ x]) (simp add: choose_thread_def r1_def n_def Let_def)
    then show ?thesis using r1 counters(4) [of r1 "rs_seq_no r1 + 1"] same_trans unfolding n_def by blast
  qed
qed

lemma keep_read_pipe: "keepsP same (read_pipe env fd)"
  by (auto simp: keepsP_def read_pipe_def Let_def threads same_refl split: option.splits sum.splits if_splits list.splits)

lemma keep_accept_client:
  "keepsP same (bindP (find_client env c) (\<lambda>_.
     rethrowP (choose_thread env c) (\<lambda>n w. bindP (on_kernel (close c)) (\<lambda>_. on_client c client_fini))))"
  by (intro keep_steps keep_choose_thread)

lemma keep_dispatch_client:
  "keepsP same (bindP (find_client env c) (\<lambda>_. rethrowP
     (bindP (of_client c cl_seq_no) (\<lambda>own_seq_no.
        if seq_no \<noteq> own_seq_no then throwP (f own_seq_no)
        else bindP (get_thread_no c) (\<lambda>i. bindP (of_client c cl_ip) (\<lambda>ip.
             bindP (part rs_access_conf rs_access_conf_update (access_check_ip ip)) (\<lambda>_. await_client env c i (EV_READ + EV_TIMEOUT))))))
     (answer_or_close env c)))"
  by (intro keep_steps keep_access_check keep_answer_or_close)

end

section \<open>The instances\<close>

text \<open>Every client but one is as it was; the configuration is.\<close>

definition other_clients :: "int \<Rightarrow> relay \<Rightarrow> relay \<Rightarrow> bool" where
  "other_clients c r r' \<longleftrightarrow> (\<forall>k. k \<noteq> c \<longrightarrow> omap_find (rs_client_data r') k = omap_find (rs_client_data r) k)"

definition same_conf :: "relay \<Rightarrow> relay \<Rightarrow> bool" where
  "same_conf r r' \<longleftrightarrow> rs_sys_conf r' = rs_sys_conf r \<and> rs_request_type_conf r' = rs_request_type_conf r \<and>
     rs_access_conf r' = rs_access_conf r \<and> rs_errcode_escape r' = rs_errcode_escape r \<and>
     rs_detail_services r' = rs_detail_services r \<and> rs_service_authorize_access r' = rs_service_authorize_access r \<and>
     rs_service_stats_conf r' = rs_service_stats_conf r \<and> rs_site_stats_conf r' = rs_site_stats_conf r \<and>
     rs_accept_fd r' = rs_accept_fd r \<and> rs_process_thread_num r' = rs_process_thread_num r \<and> rs_running r' = rs_running r"

lemma same_more_fields:
  "same_more r r' \<Longrightarrow> rs_client_data r' = rs_client_data r \<and> same_conf r (r' :: relay)"
  by (cases r, cases r') (auto simp: same_more_def same_conf_def)

interpretation others: handler_frame "other_clients c" c for c
  by unfold_locales (auto simp: other_clients_def omap_find_set put_thread_def dest: same_more_fields)

interpretation conf: handler_frame same_conf c for c
  by unfold_locales (auto simp: same_conf_def put_thread_def dest: same_more_fields)

text \<open>Which client it is the accepting and the reading handler learn from the system.\<close>

definition one_client :: "(relay, 'a) pop \<Rightarrow> bool" where
  "one_client m \<longleftrightarrow> (\<forall>r x r'. m r = Some (x, r') \<longrightarrow> same_conf r r' \<and> (\<exists>c. other_clients c r r'))"

lemma one_clientI: "keepsP same_conf m \<Longrightarrow> keepsP (other_clients c) m \<Longrightarrow> one_client m"
  unfolding one_client_def keepsP_def by blast

lemma one_client_case: "one_client m \<Longrightarrow> case m r of None \<Rightarrow> True | Some (x, r') \<Rightarrow> same_conf r r' \<and> (\<exists>c. other_clients c r r')"
  by (auto simp: one_client_def split: option.split)

lemma one_client_bind:
  assumes m: "keepsP same_conf m" "\<And>c. keepsP (other_clients c) m" and f: "\<And>x. one_client (f x)"
  shows "one_client (bindP m f)"
  unfolding one_client_def
proof (intro allI impI)
  fix r x r' assume "bindP m f r = Some (x, r')"
  then show "same_conf r r' \<and> (\<exists>c. other_clients c r r')"
  proof (rule bindP_cases)
    fix e assume "m r = Some (Inl e, r')"
    then show ?thesis using keepsP_D [OF m(1)] keepsP_D [OF m(2)] by blast
  next
    fix y r1 assume a: "m r = Some (Inr y, r1)" "f y r1 = Some (x, r')"
    obtain c where c: "same_conf r1 r'" "other_clients c r1 r'" using f [of y] a(2) unfolding one_client_def by blast
    show ?thesis
      using conf.same_trans [OF keepsP_D [OF m(1) a(1)] c(1)] others.same_trans [OF keepsP_D [OF m(2) a(1)] c(2)] by blast
  qed
qed

lemma one_client_catch: "one_client m \<Longrightarrow> one_client (catchP m (\<lambda>n w. doneP))"
  unfolding one_client_def catchP_def
  by (auto simp: doneP_def split: option.splits prod.splits sum.splits fault.splits)

lemma process_accept_one: "one_client (process_accept env fd)"
proof -
  have err: "one_client (\<lambda>r. throwP (g r) r)" for g :: "relay \<Rightarrow> fault"
    by (auto simp: one_client_def throwP_def intro: conf.same_refl others.same_refl)
  have "one_client (bindP (on_kernel (accept fd)) (\<lambda>client_fd.
      if client_fd < 0
      then (\<lambda>r. throwP (THROW CServerException ERR_SOCKET_AGAIN
              (''accept error: '' @ k_strerror (w_kernel (rs_pool_env r)) (k_errno (w_kernel (rs_pool_env r))))) r)
      else bindP (find_client env client_fd) (\<lambda>_. rethrowP (choose_thread env client_fd) (\<lambda>n w.
             bindP (on_kernel (close client_fd)) (\<lambda>_. on_client client_fd client_fini)))))"
  proof (intro one_client_bind conf.keep_on_kernel others.keep_on_kernel, goal_cases)
    case (1 c)
    then show ?case
    proof (cases "c < 0")
      case True
      then show ?thesis by (simp only: True if_True) (rule err)
    next
      case False
      then show ?thesis by (simp add: one_clientI [OF conf.keep_accept_client others.keep_accept_client])
    qed
  qed
  moreover have "one_client (\<lambda>r. Some (Inl AssertFail, r))"
    by (auto simp: one_client_def intro: conf.same_refl others.same_refl)
  ultimately show ?thesis
    unfolding one_client_def process_accept_def by (simp split: if_splits)
qed

lemma process_dispatch_one: "one_client (process_dispatch env fd)"
  unfolding process_dispatch_def
proof (intro one_client_bind conf.keep_read_pipe others.keep_read_pipe, goal_cases)
  case (1 msg)
  obtain c n where "msg = (c, n)" by (cases msg)
  then show ?case
    using one_clientI [OF conf.keep_dispatch_client [of env c n] others.keep_dispatch_client [of c env n]] by simp
qed

section \<open>An answer to another request\<close>

text \<open>The client is as it was, or it has been told of an error; the second alone, once so, stays so.\<close>

definition unanswered :: "int \<Rightarrow> relay \<Rightarrow> relay \<Rightarrow> bool" where
  "unanswered c r r' \<longleftrightarrow> client_of c r' = client_of c r \<or> cl_is_system_error (client_of c r')"

definition stays_told :: "int \<Rightarrow> relay \<Rightarrow> relay \<Rightarrow> bool" where
  "stays_told c r r' \<longleftrightarrow> (if cl_is_system_error (client_of c r) then cl_is_system_error (client_of c r') else True)"

lemma same_more_client: "same_more r r' \<Longrightarrow> client_of c (r' :: relay) = client_of c r \<and> rs_pool_env r' = rs_pool_env r"
  by (cases r, cases r') (auto simp: same_more_def client_of_def)

interpretation unanswered: backend_frame "unanswered c" for c
  by unfold_locales (auto simp: unanswered_def client_of_def put_thread_def dest: same_more_fields)

interpretation stays_told: backend_frame "stays_told c" for c
  by unfold_locales (auto simp: stays_told_def client_of_def put_thread_def dest: same_more_fields)

lemma client_of_put [simp]: "client_of k (put_client fd s r) = (if k = fd then s else client_of k r)"
  by (simp add: client_of_def put_client_def omap_get_def omap_find_set)

lemma stays_told_mod: "(\<And>s. cl_is_system_error (f s) = cl_is_system_error s) \<Longrightarrow> keepsP (stays_told c) (mod_client c f)"
  by (auto simp: keepsP_def mod_client_def stays_told_def)

lemma fill_answer_error: "cl_is_system_error (snd (fill_answer len data s)) = cl_is_system_error s"
  by (simp add: fill_answer_def)

lemma encode_keeps_error:
  "cl_is_system_error (snd (encode_protocol_binary esc s)) = cl_is_system_error s"
  "cl_is_system_error (snd (encode_protocol_text details esc s)) = cl_is_system_error s"
  by (simp_all only: encode_protocol_binary_def encode_protocol_text_def Let_def fill_answer_error split: if_split) simp_all

lemma client_encode_error: "cl_is_system_error (snd (client_encode details esc s)) = cl_is_system_error s"
proof -
  have "cl_is_system_error (snd (seqS m (modS (\<lambda>s. s\<lparr>cl_status := EM_CL_SEND\<rparr>)) s)) = cl_is_system_error (snd (m s))"
    for m :: "(client_socket, unit) op"
    by (cases "m s") (simp add: seqS_def bindS_def split: sum.split)
  then show ?thesis by (simp add: client_encode_def encode_keeps_error)
qed

lemma stays_told_encode: "keepsP (stays_told c) (encode_answer c)"
  using client_encode_error
  by (auto simp: keepsP_def encode_answer_def on_client_def client_obj_def stays_told_def split: prod.splits) (metis snd_conv)+

text \<open>\<open>_write_error\<close> tells the client of the error before it does anything else.\<close>

lemma write_error_tells: "write_error env c error info r = Some (x, r') \<Longrightarrow> cl_is_system_error (client_of c r')"
proof -
  let ?f = "\<lambda>s. set_process_time_stamp (re_now env) (set_recv_time_stamp (re_now env) (s\<lparr>cl_is_system_error := True\<rparr>))"
  define rest where "rest = bindP (liftP (getS (route_of c))) (\<lambda>route. bindP (get_thread_no c) (\<lambda>i.
     bindP (case route of
              Inr conf \<Rightarrow>
                if rt_protocol conf = EM_PROTOCOL_BIN
                then (if 4 + int (length (cstr info)) > MAX_PACKET_LEN then throwP MemoryFault
                      else mod_client c (error_binary error info))
                else mod_client c (error_text error info)
            | Inl e \<Rightarrow> mod_client c (error_text error info)) (\<lambda>_.
     bindP (case route of
              Inr conf \<Rightarrow> bindP (try_switch env (rt_site_no conf) (rt_service_name conf) error) (\<lambda>_. doneP)
            | Inl e \<Rightarrow> doneP) (\<lambda>_.
     bindP (encode_answer c) (\<lambda>_. await_client env c i (EV_WRITE + EV_TIMEOUT))))))"
  have "keepsP (stays_told c) rest"
    unfolding rest_def
    by (intro stays_told.keep_backend_steps stays_told_encode)
      (auto split: sum.split intro!: stays_told.keep_backend_steps stays_told_mod simp: error_binary_def error_text_def Let_def)
  moreover assume "write_error env c error info r = Some (x, r')"
  then have "bindP (mod_client c ?f) (\<lambda>_. rest) r = Some (x, r')" by (simp only: write_error_def rest_def)
  then have "rest (put_client c (?f (client_of c r)) r) = Some (x, r')" by (simp add: bindP_def mod_client_def)
  ultimately have "stays_told c (put_client c (?f (client_of c r)) r) r'" by (rule keepsP_D)
  then show ?thesis by (simp add: stays_told_def set_process_time_stamp_def set_recv_time_stamp_def split: if_splits)
qed

lemma drop_and_tell:
  assumes "bindP (drop_api c api) (\<lambda>_. write_error env c n w) r = Some (x, r')"
  shows "unanswered c r r'"
proof -
  obtain y r1 where d: "on_api api (api_set_free True) r = Some (y, r1)"
    using assms by (auto simp: bindP_def drop_api_def split: option.splits)
  then have k: "unanswered c r r1" by (rule keepsP_D [OF unanswered.keep_on_api])
  show ?thesis
  proof (cases y)
    case (Inl e)
    then show ?thesis using assms d k by (simp add: bindP_def drop_api_def)
  next
    case (Inr u)
    then have "write_error env c n w (put_client c ((client_of c r1)\<lparr>cl_api := None\<rparr>) r1) = Some (x, r')"
      using assms d by (simp add: bindP_def drop_api_def mod_client_def)
    from write_error_tells [OF this] show ?thesis by (simp add: unanswered_def)
  qed
qed

text \<open>The connection the client holds was last called for another request.\<close>

definition other_request :: "int \<Rightarrow> nat option \<Rightarrow> relay \<Rightarrow> bool" where
  "other_request c api r \<longleftrightarrow> (case api of None \<Rightarrow> False
     | Some a \<Rightarrow> (case obj_at (rs_pool_env r) a of None \<Rightarrow> False
        | Some x \<Rightarrow> a_client_seq_no (obj_base x) \<noteq> cl_seq_no (client_of c r)))"

lemma obj_process_seq_no:
  assumes "obj_process a e = (q, e')" and "obj_at e a = Some x"
  shows "\<exists>y. obj_at e' a = Some y \<and> a_client_seq_no (obj_base y) = a_client_seq_no (obj_base x)"
proof (cases x)
  case (RelayObj s)
  obtain q k s' where f: "api_process (relay_vtable (w_keepalive e)) (w_kernel e, s) = (q, (k, s'))"
    by (cases "api_process (relay_vtable (w_keepalive e)) (w_kernel e, s)") auto
  then have "a_client_seq_no s' = a_client_seq_no s" using relay.process_step [OF f] by (simp add: same_call_def)
  then show ?thesis
    using f assms RelayObj obj_at_lt [OF assms(2)] by (auto simp: obj_process_def obj_call_def api_base.defs)
next
  case (MiddleObj s)
  obtain q k s' where f: "api_process (middle_vtable (w_keepalive e)) (w_kernel e, s) = (q, (k, s'))"
    by (cases "api_process (middle_vtable (w_keepalive e)) (w_kernel e, s)") auto
  then have "a_client_seq_no s' = a_client_seq_no s" using middle.process_step [OF f] by (simp add: same_call_def)
  then show ?thesis
    using f assms MiddleObj obj_at_lt [OF assms(2)] by (auto simp: obj_process_def obj_call_def api_base.defs)
qed

text \<open>Then its answer is not taken.\<close>

lemma take_answer_other:
  assumes "other_request c api r" and "take_answer env c api i r = Some (x, r')"
  shows "client_of c r' = client_of c r"
  using assms
  by (auto simp: other_request_def take_answer_def bindP_def of_api_def lookupP_def of_client_def on_api_def on_env_def part_def
      client_of_def split: option.splits prod.splits sum.splits)

text \<open>The monitor is of no account to that.\<close>

definition same_calls :: "int \<Rightarrow> relay \<Rightarrow> relay \<Rightarrow> bool" where
  "same_calls c r r' \<longleftrightarrow> client_of c r' = client_of c r \<and> rs_pool_env r' = rs_pool_env r"

interpretation same_calls: worker_frame "same_calls c" for c
  by unfold_locales
    (auto simp: same_calls_def client_of_def put_thread_def dest: same_more_client [THEN conjunct2] same_more_fields)

lemma del_own_event_calls: "del_own_event env i (r, p) = Some (x, (r', p')) \<Longrightarrow> same_calls c r r'"
  using keepsP_D [OF same_calls.keep_on_thread [OF event_ops_more(3)]]
  by (fastforce simp: del_own_event_def split: option.splits prod.splits sum.splits)

lemma service_dispatch_other:
  assumes o: "other_request c api r" and r: "service_dispatch env c api (r, p) = Some (x, (r', p'))"
  shows "unanswered c r r'"
proof -
  define rest where "rest = (\<lambda>i ret. if ret = CONNECTING then onR (await_api env c api i (EV_READ + EV_TIMEOUT + EV_WRITE))
       else if ret = INIT_OK
       then (\<lambda>(r, p).
               (if p = None then onR (await_api env c api i (EV_WRITE + EV_TIMEOUT))
                else update_own_event env c api i (EV_WRITE + EV_TIMEOUT)) (r, p))
       else if ret = SEND_HAVE_MORE then doneP
       else if ret = SEND_OK
       then (\<lambda>(r, p).
               (if p = None then throwP AssertFail
                else update_own_event env c api i (EV_READ + EV_TIMEOUT)) (r, p))
       else if ret = RECV_HAVE_MORE then doneP
       else if ret = RECV_OK
       then bindP (onR (of_api api s_fd)) (\<lambda>fd.
            bindP (del_own_event (re_epoll env fd) i) (\<lambda>_. onR (take_answer env c api i)))
       else throwP (THROW CTrpcException ERR_SYS_UNKNOWN (''unknow api ret: '' @ show_int ret)))"
  have eq: "service_dispatch env c api = bindP (onR (get_thread_no c)) (\<lambda>i. bindP (onR (on_api api obj_process)) (rest i))"
    by (simp add: service_dispatch_def rest_def)
  obtain a obj where a: "api = Some a" "obj_at (rs_pool_env r) a = Some obj"
    "a_client_seq_no (obj_base obj) \<noteq> cl_seq_no (client_of c r)"
    using o by (auto simp: other_request_def split: option.splits)
  obtain q e1 where pr: "obj_process a (rs_pool_env r) = (q, e1)" by (cases "obj_process a (rs_pool_env r)") auto
  define r1 where "r1 = r\<lparr>rs_pool_env := e1\<rparr>"
  have step: "onR (on_api api obj_process) (r, p) = Some (q, (r1, p))"
    by (simp add: a(1) onR_def on_api_def on_env_def part_def pr r1_def)
  have c1: "client_of c r1 = client_of c r" by (simp add: r1_def client_of_def)
  have o1: "other_request c api r1"
    using obj_process_seq_no [OF pr a(2)] a c1 by (auto simp: other_request_def r1_def client_of_def)
  have u1: "unanswered c r r1" using c1 by (simp add: unanswered_def)
  have "onR (get_thread_no c) (r, p) = Some (Inl e, (r, p)) \<or> (\<exists>i. onR (get_thread_no c) (r, p) = Some (Inr i, (r, p)))"
    if "e = THROW CTrpcException ERR_SYS_UNKNOWN
      (''fd: '' @ show_int (s_fd (client_of c r)) @ '', thread_no error: '' @ show_int (cl_thread_no (client_of c r)))" for e
    by (simp add: that onR_def get_thread_no_def lookupP_def Let_def)
  then consider e where "onR (get_thread_no c) (r, p) = Some (Inl e, (r, p))"
    | i where "onR (get_thread_no c) (r, p) = Some (Inr i, (r, p))" by blast
  then show ?thesis
  proof cases
    case 1
    then show ?thesis using r by (simp add: eq bindP_def unanswered_def)
  next
    case (2 i)
    show ?thesis
    proof (cases q)
      case (Inl e)
      then show ?thesis using r 2 step u1 by (simp add: eq bindP_def)
    next
      case (Inr ret)
      then have g: "rest i ret (r1, p) = Some (x, (r', p'))" using r 2 step by (simp add: eq bindP_def)
      show ?thesis
      proof (cases "ret = RECV_OK")
        case False
        then have "keepsP (beside (unanswered c)) (rest i ret)"
          unfolding rest_def
          by (simp only: if_False) (intro unanswered.keep_event_steps unanswered.keep_pair unanswered.keep_backend_steps)
        then have "beside (unanswered c) (r1, p) (r', p')" using g by (rule keepsP_D)
        then show ?thesis using u1 unanswered.same_trans by (simp add: beside_def)
      next
        case True
        then have g: "bindP (onR (of_api api s_fd)) (\<lambda>fd. bindP (del_own_event (re_epoll env fd) i)
            (\<lambda>_. onR (take_answer env c api i))) (r1, p) = Some (x, (r', p'))"
          using g by (simp add: rest_def CONNECTING_def INIT_OK_def SEND_HAVE_MORE_def SEND_OK_def RECV_HAVE_MORE_def RECV_OK_def)
        obtain y where "onR (of_api api s_fd) (r1, p) = Some (Inr y, (r1, p))"
          using o1 by (auto simp: onR_def of_api_def lookupP_def other_request_def split: option.splits)
        then have g: "bindP (del_own_event (re_epoll env y) i) (\<lambda>_. onR (take_answer env c api i)) (r1, p) = Some (x, (r', p'))"
          using g by (simp add: bindP_def)
        then obtain z r2 p2 where d: "del_own_event (re_epoll env y) i (r1, p) = Some (z, (r2, p2))"
          by (auto simp: bindP_def split: option.splits)
        note same = del_own_event_calls [OF d, of c, unfolded same_calls_def]
        show ?thesis
        proof (cases z)
          case (Inl e)
          then show ?thesis using g d same c1 by (simp add: bindP_def unanswered_def)
        next
          case (Inr u)
          then have "onR (take_answer env c api i) (r2, p2) = Some (x, (r', p'))" using g d by (simp add: bindP_def)
          then have "take_answer env c api i r2 = Some (x, r')" by (auto simp: onR_def split: option.splits)
          moreover have "other_request c api r2 = other_request c api r1"
            unfolding other_request_def conjunct1 [OF same] conjunct2 [OF same] ..
          ultimately show ?thesis using take_answer_other o1 same c1 by (metis unanswered_def)
        qed
      qed
    qed
  qed
qed

lemma service_handler_other:
  assumes o: "other_request c (cl_api (client_of c r)) r" and h: "service_handler env fd event c p r = Some (x, r')"
  shows "unanswered c r r'"
proof -
  define api where "api = cl_api (client_of c r)"
  define body where "body = (if check_mask event EV_READ \<or> check_mask event EV_WRITE then service_dispatch env c api
            else if check_mask event EV_TIMEOUT
            then bindP (onR (of_client c (\<lambda>s. s))) (\<lambda>s. throwP (read_timed_out s))
            else throwP (THROW CTrpcException ERR_SYS_UNKNOWN (''event error: '' @ show_int event)))"
  define tell where "tell = (\<lambda>i n w. bindP (del_if_queued (re_epoll env fd) i) (\<lambda>_.
                   onR (bindP (drop_api c api) (\<lambda>_. write_error env c n w))))"
  have body: "unanswered c r r1" if "body (r, q) = Some (y, (r1, q1))" for y r1 q q1
  proof (cases "check_mask event EV_READ \<or> check_mask event EV_WRITE")
    case True
    then show ?thesis using that o service_dispatch_other unfolding body_def api_def by (simp split: if_splits)
  next
    case False
    then have "keepsP (beside (unanswered c)) body"
      unfolding body_def by simp (intro conjI impI unanswered.keep_event_steps unanswered.keep_backend_steps)
    from keepsP_D [OF this that] show ?thesis by (simp add: beside_def)
  qed
  have told: "unanswered c r1 r2" if "tell i n w (r1, q1) = Some (y, (r2, q2))" for i n w y r1 q1 r2 q2
  proof -
    have "keepsP (beside (unanswered c)) (onR (bindP (drop_api c api) (\<lambda>_. write_error env c n w)))"
      by (rule unanswered.keep_onR) (use drop_and_tell in \<open>auto simp: keepsP_def\<close>)
    then have "keepsP (beside (unanswered c)) (tell i n w)"
      unfolding tell_def by (intro unanswered.ev.keep_bind unanswered.keep_del_if_queued)
    from keepsP_D [OF this that] show ?thesis by (simp add: beside_def)
  qed
  have caught: "unanswered c r r2" if run: "catchP body (tell i) (r, q) = Some (y, (r2, q2))" for i y q r2 q2
  proof -
    obtain z r1 q1 where b: "body (r, q) = Some (z, (r1, q1))"
      using run by (cases "body (r, q)") (auto simp: catchP_def)
    then consider "r2 = r1" | n w where "tell i n w (r1, q1) = Some (y, (r2, q2))"
      using run by (auto simp: catchP_def split: sum.splits fault.splits)
    then show ?thesis using body [OF b] told unanswered.same_trans by cases blast+
  qed
  have look: "bindP (of_client c cl_api) g r = g api r" for g :: "nat option \<Rightarrow> (relay, unit) pop"
    by (simp add: bindP_def of_client_def api_def)
  have "bindP (get_thread_no c) (\<lambda>i. with_event (Some p) (catchP body (tell i))) r = Some (x, r')"
    using h unfolding service_handler_def look body_def tell_def .
  then show ?thesis
  proof (rule bindP_cases)
    fix e assume "get_thread_no c r = Some (Inl e, r')"
    then show ?thesis by (simp add: get_thread_no_def lookupP_def unanswered_def)
  next
    fix i r1 assume "get_thread_no c r = Some (Inr i, r1)" "with_event (Some p) (catchP body (tell i)) r1 = Some (x, r')"
    then show ?thesis using caught
      by (auto simp: get_thread_no_def lookupP_def with_event_def split: option.splits prod.splits)
  qed
qed

text \<open>C1: whatever handler an event calls and whatever the system answers, the configuration stays as it is and no
  client but one is changed: for an event of a client's socket that client, for an event of a back end's connection the
  client it was opened for. And if the connection that client holds was last called for another request (the numbers
  differ), its answer does not reach the client: the client is left as it is, or told of an error.\<close>

theorem event_concerns_one_client:
  "case relay_handler env f fd active param p r of None \<Rightarrow> True
   | Some (x, r') \<Rightarrow> same_conf r r' \<and> (\<exists>c. other_clients c r r' \<and>
       (if f = DISPATCH_HANDLER then c = fd else if f = SERVICE_HANDLER then c = param else True)) \<and>
     (if f = SERVICE_HANDLER \<and> other_request param (cl_api (client_of param r)) r
      then client_of param r' = client_of param r \<or> cl_is_system_error (client_of param r') else True)"
proof -
  note numbers = CLIENT_ACCEPT_HANDLER_def PROCESS_THREAD_HANDLE_def DISPATCH_HANDLER_def SERVICE_HANDLER_def
  consider "f = DISPATCH_HANDLER" | "f = SERVICE_HANDLER" | "f \<noteq> DISPATCH_HANDLER" "f \<noteq> SERVICE_HANDLER" by blast
  then show ?thesis
  proof cases
    case 1
    then show ?thesis
      using keepsP_D [OF conf.keep_dispatch_handler] keepsP_D [OF others.keep_dispatch_handler]
      by (auto simp: relay_handler_def numbers split: option.split)
  next
    case 2
    then show ?thesis
      using keepsP_D [OF conf.keep_service_handler] keepsP_D [OF others.keep_service_handler]
        service_handler_other [unfolded unanswered_def]
      by (auto simp: relay_handler_def numbers split: option.split)
  next
    case 3
    have "one_client (relay_handler env f fd active param p)"
      using 3 unfolding relay_handler_def client_accept_handler_def process_thread_handle_def
      by (simp add: one_client_catch process_accept_one process_dispatch_one
          one_clientI [OF conf.keep_get(3) others.keep_get(3) [of 0]])
    then show ?thesis using 3 unfolding one_client_def by (auto split: option.split)
  qed
qed

end
