(* ===== verification/Relay_Requests.thy ===== *)
theory Relay_Requests
  imports Relay_Frame
begin

text \<open>
  What \<open>Relay_Server\<close> does for a client: how connections are dealt out to the threads, which requests are forwarded,
  what becomes of the others, and when an answer of a back end is taken.
\<close>

section \<open>Clients in the state\<close>

lemma put_client_fields [simp]:
  "rs_pool_env (put_client fd s r) = rs_pool_env r" "rs_core_server_conf (put_client fd s r) = rs_core_server_conf r"
  "rs_relay_switch_mgr (put_client fd s r) = rs_relay_switch_mgr r" "rs_request_type_conf (put_client fd s r) = rs_request_type_conf r"
  "rs_sys_conf (put_client fd s r) = rs_sys_conf r" "rs_running (put_client fd s r) = rs_running r"
  "rs_process_thread (put_client fd s r) = rs_process_thread r" "rs_access_conf (put_client fd s r) = rs_access_conf r"
  "rs_service_authorize_access (put_client fd s r) = rs_service_authorize_access r"
  "rs_freqlimit_conf (put_client fd s r) = rs_freqlimit_conf r" "rs_detail_services (put_client fd s r) = rs_detail_services r"
  "rs_errcode_escape (put_client fd s r) = rs_errcode_escape r" "rs_msg_index (put_client fd s r) = rs_msg_index r"
  "rs_service_request_control (put_client fd s r) = rs_service_request_control r"
  "mo_interest (put_client fd s r) = mo_interest r" "mo_epoll_fd (put_client fd s r) = mo_epoll_fd r"
  "mo_heap (put_client fd s r) = mo_heap r" "mo_queue (put_client fd s r) = mo_queue r" "mo_fresh (put_client fd s r) = mo_fresh r"
  by (simp_all add: put_client_def)

lemma client_of_fields [simp]:
  "client_of fd (r\<lparr>rs_pool_env := e\<rparr>) = client_of fd r" "client_of fd (r\<lparr>rs_core_server_conf := cc\<rparr>) = client_of fd r"
  "client_of fd (r\<lparr>rs_relay_switch_mgr := sm\<rparr>) = client_of fd r" "client_of fd (r\<lparr>rs_freqlimit_conf := fc\<rparr>) = client_of fd r"
  "client_of fd (r\<lparr>rs_service_request_control := rc\<rparr>) = client_of fd r" "client_of fd (r\<lparr>rs_msg_index := n\<rparr>) = client_of fd r"
  by (simp_all add: client_of_def)

text \<open>The monitor's invariant looks at the monitor only.\<close>

lemma monitor_ok_relay [simp]:
  "monitor_ok (put_client fd s r) m = monitor_ok r m" "monitor_ok (r\<lparr>rs_pool_env := e\<rparr>) m = monitor_ok r m"
  "monitor_ok (r\<lparr>rs_core_server_conf := cc\<rparr>) m = monitor_ok r m" "monitor_ok (r\<lparr>rs_relay_switch_mgr := sm\<rparr>) m = monitor_ok r m"
  "monitor_ok (r\<lparr>rs_freqlimit_conf := fc\<rparr>) m = monitor_ok r m"
  "monitor_ok (r\<lparr>rs_service_request_control := rc\<rparr>) m = monitor_ok r m" "monitor_ok (r\<lparr>rs_msg_index := n\<rparr>) m = monitor_ok r m"
  by (simp_all add: monitor_ok_def)

lemma bindP_Some: "m s = Some (Inr x, s') \<Longrightarrow> bindP m f s = f x s'"
  by (rule bindP_simps)

lemma steps [simp]:
  "of_client fd f r = Some (Inr (f (client_of fd r)), r)"
  "mod_client fd g r = Some (Inr (), put_client fd (g (client_of fd r)) r)"
  "lookupP h r = Some (h r, r)" "throwP e s = Some (Inl e, s)" "doneP s = Some (Inr (), s)"
  by (simp_all add: of_client_def mod_client_def lookupP_def throwP_def doneP_def)

lemma on_client_step: "m (w_kernel (rs_pool_env r), client_of fd r) = (x, (k, s)) \<Longrightarrow>
    on_client fd m r = Some (x, put_client fd s (r\<lparr>rs_pool_env := (rs_pool_env r)\<lparr>w_kernel := k\<rparr>\<rparr>))"
  by (simp add: on_client_def)

lemma onR_step: "m r = Some (x, r') \<Longrightarrow> onR m (r, p) = Some (x, (r', p))"
  by (simp add: onR_def)

lemma omap_set_set: "omap_set k v (omap_set k v' m) = omap_set k v m"
  by (induction k v' m rule: omap_set.induct) auto

lemma put_put [simp]: "put_client fd s (put_client fd s' r) = put_client fd s r"
  by (simp add: put_client_def omap_set_set)

section \<open>Which requests are forwarded\<close>

text \<open>The specification: the first of the checks a request fails, in the order address and type, authorisation, route,
  frequency of the address, rule of the service.\<close>

definition refusal :: "relay_env \<Rightarrow> client_socket \<Rightarrow> relay \<Rightarrow> fault option" where
  "refusal env s r =
     (case fst (access_check (cl_ip s) (cl_request_type s) (rs_access_conf r)) of
        Inl f \<Rightarrow> Some f
      | Inr _ \<Rightarrow>
          if \<not> authorized (cl_request_type s) (cl_ip s) (rs_service_authorize_access r) then Some (not_authorized s)
          else case request_get (cstr (cl_request_key s)) (rs_request_type_conf r) of
            Inl f \<Rightarrow> Some f
          | Inr conf \<Rightarrow>
              (case fst (freq_check (re_beyond env) (fst (re_now env)) (cl_ip s) (cl_request_type s) (rs_freqlimit_conf r)) of
                 Inl f \<Rightarrow> Some f
               | Inr _ \<Rightarrow>
                   (case master_request_key (cl_request_type s) (rs_sys_conf r) of
                      Inl f \<Rightarrow> Some f
                    | Inr key \<Rightarrow>
                        if key = [] then None
                        else case fst (rc_check_rule (fst (re_now env)) (omap_get [] (parseUrl (cstr (cl_req_packet s))) key)
                                    (rt_service_name conf) (cstr (cl_req_packet s)) (rs_service_request_control r)) of
                               Inl f \<Rightarrow> Some f | Inr _ \<Rightarrow> None)))"

text \<open>What the checks may change: the counters of the limits.\<close>

definition counted :: "relay \<Rightarrow> relay \<Rightarrow> bool" where
  "counted r r' \<longleftrightarrow> r' = r\<lparr>rs_freqlimit_conf := rs_freqlimit_conf r', rs_service_request_control := rs_service_request_control r'\<rparr>"

lemma counted_simps [simp]:
  "counted r r" "counted r (r\<lparr>rs_freqlimit_conf := fc\<rparr>)" "counted r (r\<lparr>rs_freqlimit_conf := fc, rs_service_request_control := rc\<rparr>)"
  by (simp_all add: counted_def)

lemma access_check_conf: "snd (access_check ip t c) = c"
  by (simp add: access_check_def split: option.split)

lemma bind_access: "bindP (part rs_access_conf rs_access_conf_update (access_check ip t)) g r =
    (case fst (access_check ip t (rs_access_conf r)) of Inl e \<Rightarrow> Some (Inl e, r) | Inr x \<Rightarrow> g x r)"
  using access_check_conf [of ip t "rs_access_conf r"]
  by (cases "access_check ip t (rs_access_conf r)") (simp add: part_def bindP_def)

lemma bind_freq: "bindP (part rs_freqlimit_conf rs_freqlimit_conf_update m) g r =
    (case fst (m (rs_freqlimit_conf r)) of
       Inl e \<Rightarrow> Some (Inl e, r\<lparr>rs_freqlimit_conf := snd (m (rs_freqlimit_conf r))\<rparr>)
     | Inr x \<Rightarrow> g x (r\<lparr>rs_freqlimit_conf := snd (m (rs_freqlimit_conf r))\<rparr>))"
  by (simp add: part_def bindP_def split_beta)

lemma part_rule: "part rs_service_request_control rs_service_request_control_update m r =
    Some (fst (m (rs_service_request_control r)), r\<lparr>rs_service_request_control := snd (m (rs_service_request_control r))\<rparr>)"
  by (simp add: part_def split_beta)

lemma bind_steps [simp]:
  "bindP (lookupP h) g r = (case h r of Inl e \<Rightarrow> Some (Inl e, r) | Inr x \<Rightarrow> g x r)"
  "bindP (of_client fd u) k r = k (u (client_of fd r)) r"
  by (simp_all add: bindP_def)

text \<open>The code makes these checks and nothing else.\<close>

lemma service_check_eq:
  "case service_access_control_check env fd r of None \<Rightarrow> False | Some (x, r') \<Rightarrow> counted r r' \<and>
     (case request_get (cstr (cl_request_key (client_of fd r))) (rs_request_type_conf r) of
        Inl f \<Rightarrow> x = Inl f
      | Inr conf \<Rightarrow>
          (case fst (freq_check (re_beyond env) (fst (re_now env)) (cl_ip (client_of fd r)) (cl_request_type (client_of fd r)) (rs_freqlimit_conf r)) of
             Inl f \<Rightarrow> x = Inl f
           | Inr _ \<Rightarrow>
               (case master_request_key (cl_request_type (client_of fd r)) (rs_sys_conf r) of
                  Inl f \<Rightarrow> x = Inl f
                | Inr key \<Rightarrow>
                    if key = [] then x = Inr ()
                    else x = fst (rc_check_rule (fst (re_now env)) (omap_get [] (parseUrl (cstr (cl_req_packet (client_of fd r)))) key)
                           (rt_service_name conf) (cstr (cl_req_packet (client_of fd r))) (rs_service_request_control r)))))"
  by (simp add: service_access_control_check_def route_of_def bind_freq part_rule split: sum.split)

lemma admit_request_eq:
  "case admit_request env fd r of None \<Rightarrow> False | Some (x, r') \<Rightarrow>
     x = (case refusal env (client_of fd r) r of Some f \<Rightarrow> Inl f | None \<Rightarrow> Inr ()) \<and> counted r r'"
proof -
  have eq: "admit_request env fd r =
      (case fst (access_check (cl_ip (client_of fd r)) (cl_request_type (client_of fd r)) (rs_access_conf r)) of
         Inl f \<Rightarrow> Some (Inl f, r)
       | Inr _ \<Rightarrow>
           if \<not> authorized (cl_request_type (client_of fd r)) (cl_ip (client_of fd r)) (rs_service_authorize_access r)
           then Some (Inl (not_authorized (client_of fd r)), r)
           else service_access_control_check env fd r)"
    by (simp add: admit_request_def bind_access bindP_def [of "liftP m" for m] split: sum.split)
  show ?thesis
    using service_check_eq [where env = env and fd = fd and r = r]
    by (auto simp: eq refusal_def split: sum.splits option.splits if_splits)
qed

section \<open>The answer to an error\<close>

text \<open>An error the relay itself reports: the map it packs, and what is made of it for the client.\<close>

definition error_params :: "int \<Rightarrow> string \<Rightarrow> url_map" where
  "error_params n w = omap_set ''res_info'' w (omap_set ''result'' (show_int n) [])"

lemma error_params_plain: "plain_map (error_params n w)"
proof -
  have "plain_key ''res_info''" "plain_key ''result''" by (simp_all add: plain_key_def)
  moreover have "plain_map []" by (simp add: plain_map_def)
  ultimately show ?thesis unfolding error_params_def by (intro plain_map_set)
qed

lemma error_params_find: "omap_find (error_params n w) ''result'' = Some (show_int n)" "omap_find (error_params n w) ''res_info'' = Some w"
  by (simp_all add: error_params_def omap_find_set del: omap_set.simps)

lemma encodeUrl_NUL: "NUL \<notin> set s \<Longrightarrow> NUL \<notin> set (encodeUrl s)"
proof (induction s)
  case (Cons c s)
  then show ?case by (cases rule: table_cases [of c]) (auto simp: encodeUrl_Cons)
qed simp

lemma error_packet_text:
  assumes "in_i32 n" and "NUL \<notin> set w" and "length w \<le> EXCEPTION_MSG_LEN"
  shows "error_packet n w = packUrl (error_params n w) \<and> NUL \<notin> set (error_packet n w) \<and>
    int (length (error_packet n w)) < MAX_PACKET_LEN - 1"
proof -
  have p: "error_packet n w = pack_pair (''result'', show_int n) @ pack_pair (''res_info'', w)"
    using assms(2) by (simp add: error_packet_def packUrl_def MUST_IN_FIRST_FIELD_def cstr_id omap_find_def)
  have "length (encodeUrl w) \<le> 3 * EXCEPTION_MSG_LEN" "length (encodeUrl (show_int n)) \<le> 33"
    using length_encodeUrl [of w] length_encodeUrl [of "show_int n"] assms(3) length_show_i32 [OF assms(1)] by linarith+
  then show ?thesis
    using assms(2) p by (simp add: pack_pair_def encodeUrl_NUL NUL_notin_show_int error_packet_def error_params_def cstr_id
        MAX_PACKET_LEN_def EXCEPTION_MSG_LEN_def)
qed

lemma error_text_parse:
  assumes "in_i32 n" and "NUL \<notin> set w" and "length w \<le> EXCEPTION_MSG_LEN"
  shows "parseUrl (cstr (cl_res_packet (error_text n w s))) = error_params n w"
proof -
  have e: "error_packet n w = packUrl (error_params n w)" "NUL \<notin> set (error_packet n w)"
    "int (length (error_packet n w)) < MAX_PACKET_LEN - 1" using error_packet_text [OF assms] by blast+
  have c: "cstr (error_packet n w) = error_packet n w" by (rule cstr_id [OF e(2)])
  have "cl_res_packet (error_text n w s) = error_packet n w"
    using e(3) by (simp add: error_text_def Let_def c)
  then show ?thesis using c parse_plain [OF error_params_plain [of n w]] by (simp add: e(1))
qed

text \<open>The text a client whose route is not binary is told of an error of the relay, and the client that waits for it
  to be sent.\<close>

definition told :: "relay \<Rightarrow> int \<Rightarrow> string \<Rightarrow> client_socket \<Rightarrow> string" where
  "told r n w s = packUrl (error_map (is_detail_info_service (cl_request_type s) (rs_detail_services r)) (rs_errcode_escape r) n
     (error_params n w))"

definition telling :: "relay \<Rightarrow> int \<Rightarrow> string \<Rightarrow> client_socket \<Rightarrow> client_socket" where
  "telling r n w s = (error_text n w s)\<lparr>process_buf := put_int (int (length (told r n w s))) @ told r n w s,
     process_total := 4 + int (length (told r n w s)), processed := 0, cl_status := EM_CL_SEND\<rparr>"

lemma encode_error:
  assumes "in_i32 n" and "n \<noteq> 0" and "NUL \<notin> set w" and "length w \<le> EXCEPTION_MSG_LEN"
    and "rt_protocol (cl_request_conf s) \<noteq> EM_PROTOCOL_BIN" and "int (length (told r n w s)) + 4 \<le> MAX_PACKET_LEN"
  shows "client_encode (rs_detail_services r) (rs_errcode_escape r) (error_text n w s) = (Inr (), telling r n w s)"
proof -
  define t where "t = error_text n w s"
  have f: "cl_request_conf t = cl_request_conf s" "cl_request_type t = cl_request_type s"
    by (simp_all add: t_def error_text_def Let_def)
  have p: "parseUrl (cstr (cl_res_packet t)) = error_params n w"
    unfolding t_def by (rule error_text_parse [OF assms(1,3,4)])
  have i: "omap_insert ''result'' [] (error_params n w) = error_params n w"
    by (simp add: omap_insert_def error_params_find)
  have c: "atoi (cstr (omap_get [] (error_params n w) ''result'')) = n"
    by (simp add: omap_get_def error_params_find cstr_id NUL_notin_show_int atoi_show_int assms(1))
  have "encode_protocol_text (rs_detail_services r) (rs_errcode_escape r) t =
      fill_answer (int (length (told r n w s))) (told r n w s) t"
    using assms(2) by (simp add: encode_protocol_text_def p i c f told_def Let_def)
  also have "\<dots> = (Inr (), t\<lparr>process_buf := put_int (int (length (told r n w s))) @ told r n w s,
      process_total := 4 + int (length (told r n w s)), processed := 0\<rparr>)"
    using assms(6) by (simp add: fill_answer_def read_at_in)
  finally show ?thesis
    using assms(5) f by (simp add: client_encode_def telling_def t_def seqS_def bindS_def)
qed

text \<open>What trying to switch the site of a client does; an unknown route is not tried.\<close>

definition switch_outcome :: "relay_env \<Rightarrow> int \<Rightarrow> int \<Rightarrow> relay \<Rightarrow> (fault + int) \<times> switch_world" where
  "switch_outcome env fd n r =
     (let w = (rs_relay_switch_mgr r, (rs_pool_env r, rs_core_server_conf r))
      in case route_of fd r of
           Inl _ \<Rightarrow> (Inr (- 1), w)
         | Inr conf \<Rightarrow> trySwitch (rs_sys_conf r) (fst (re_now env)) (rt_site_no conf) (rt_service_name conf) n w)"

definition with_switch :: "switch_world \<Rightarrow> relay \<Rightarrow> relay" where
  "with_switch w r = (case w of (sm, (e, c)) \<Rightarrow> r\<lparr>rs_relay_switch_mgr := sm, rs_pool_env := e, rs_core_server_conf := c\<rparr>)"

lemma with_switch_simps [simp]:
  "client_of fd (with_switch w r) = client_of fd r" "monitor_ok (with_switch w r) m = monitor_ok r m"
  "rs_detail_services (with_switch w r) = rs_detail_services r" "rs_errcode_escape (with_switch w r) = rs_errcode_escape r"
  "rs_process_thread (with_switch w r) = rs_process_thread r" "rs_running (with_switch w r) = rs_running r"
  "mo_interest (with_switch w r) = mo_interest r" "mo_epoll_fd (with_switch w r) = mo_epoll_fd r"
  "mo_fresh (with_switch w r) = mo_fresh r" "rs_sys_conf (with_switch w r) = rs_sys_conf r"
  "rs_relay_switch_mgr (with_switch w r) = fst w" "rs_pool_env (with_switch w r) = fst (snd w)"
  "rs_core_server_conf (with_switch w r) = snd (snd w)"
  by (auto simp: with_switch_def client_of_def monitor_ok_def split: prod.split)

lemma with_switch_env [simp]: "(with_switch w r)\<lparr>rs_pool_env := fst (snd w)\<rparr> = with_switch w r"
  by (cases w) (auto simp: with_switch_def)

lemma same_more_relay:
  assumes "same_more r (r' :: relay)"
  shows "rs_client_data r' = rs_client_data r" "rs_pool_env r' = rs_pool_env r" "rs_core_server_conf r' = rs_core_server_conf r"
    "rs_relay_switch_mgr r' = rs_relay_switch_mgr r" "rs_process_thread r' = rs_process_thread r" "rs_running r' = rs_running r"
    "rs_freqlimit_conf r' = rs_freqlimit_conf r" "rs_service_request_control r' = rs_service_request_control r"
    "client_of fd r' = client_of fd r" "same_conf r r'" "rs_msg_index r' = rs_msg_index r"
  using assms same_more_fields [OF assms] by (cases r, cases r', simp add: same_more_def client_of_def)+

text \<open>The event that waits for a client's socket.\<close>

definition can_add :: "relay_env \<Rightarrow> int \<Rightarrow> relay \<Rightarrow> bool" where
  "can_add env sock r \<longleftrightarrow> me_fstat (re_epoll env sock) = None \<and> me_ctl (re_epoll env sock) = None \<and> 0 \<le> mo_epoll_fd r"

lemma await_client_spec:
  assumes ok: "monitor_ok r m" and card: "card (dom m) < 2 ^ 31 - 1"
    and sock: "s_fd (client_of fd r) = sock" "0 \<le> sock" "m sock = None" "can_add env sock r"
    and run: "thread_at (rs_running r) r \<noteq> None"
  shows "\<exists>r'. await_client env fd (rs_running r) event r = Some (Inr (), r') \<and> monitor_ok r' (m(sock \<mapsto> mo_fresh r)) \<and> same_more r r'
    \<and> (\<exists>x. mo_interest r' = (mo_interest r)(sock \<mapsto> (x, mo_fresh r)))"
proof -
  define a where "a = add_event (re_epoll env sock) sock event (Some DISPATCH_HANDLER) 0 (sc_cgi_write_time_out (rs_sys_conf r)) r"
  have "mo_interest r sock = None" using monitor_okD(2) [OF ok, of sock] sock(3) by (cases "mo_interest r sock") auto
  then have "epoll_ctl_error (re_epoll env sock) False sock r = None"
    using sock(4) by (simp add: can_add_def epoll_ctl_error_def)
  then obtain r' where r': "monitor_add (re_epoll env sock) sock event (Some DISPATCH_HANDLER) 0 (sc_cgi_write_time_out (rs_sys_conf r)) r
      = Some (Inr 0, r')" "monitor_ok r' (m(sock \<mapsto> mo_fresh r))" "\<exists>x. mo_interest r' = (mo_interest r)(sock \<mapsto> (x, mo_fresh r))"
    using monitor_add_spec [OF ok card sock(2), of "Some DISPATCH_HANDLER" "re_epoll env sock" event 0
        "sc_cgi_write_time_out (rs_sys_conf r)"] sock(3,4)
    by (auto simp: can_add_def)
  have a: "a = Some (Inr (), r')" using r'(1) by (simp add: a_def add_event_def)
  have "await_client env fd (rs_running r) event r = a"
    using run sock(1) by (auto simp: await_client_def on_thread_def a_def Let_def split: option.split)
  moreover have "same_more r r'" using keepsP_D [OF event_ops_more(1)] a unfolding a_def by blast
  ultimately show ?thesis using a r'(2,3) by blast
qed

definition stamped :: "relay_env \<Rightarrow> client_socket \<Rightarrow> client_socket" where
  "stamped env s = set_process_time_stamp (re_now env) (set_recv_time_stamp (re_now env) (s\<lparr>cl_is_system_error := True\<rparr>))"

lemma stamped_fields [simp]:
  "cl_request_key (stamped env s) = cl_request_key s" "cl_thread_no (stamped env s) = cl_thread_no s"
  "cl_request_conf (stamped env s) = cl_request_conf s" "cl_request_type (stamped env s) = cl_request_type s"
  "s_fd (stamped env s) = s_fd s" "cl_is_system_error (stamped env s)"
  by (simp_all add: stamped_def set_process_time_stamp_def set_recv_time_stamp_def)

lemma telling_fields [simp]:
  "s_fd (telling r n w s) = s_fd s" "cl_status (telling r n w s) = EM_CL_SEND" "cl_thread_no (telling r n w s) = cl_thread_no s"
  by (simp_all add: telling_def error_text_def Let_def)

text \<open>What an error needs to be told to a client of the running thread: the thread is there, the code and its text are
  those of an exception, the route is not binary, the text fits the packet and the socket can be waited for.\<close>

definition tellable :: "relay_env \<Rightarrow> int \<Rightarrow> int \<Rightarrow> string \<Rightarrow> relay \<Rightarrow> bool" where
  "tellable env fd n w r \<longleftrightarrow>
     thread_at (rs_running r) r \<noteq> None \<and> cl_thread_no (client_of fd r) = rs_running r \<and>
     in_i32 n \<and> n \<noteq> 0 \<and> NUL \<notin> set w \<and> length w \<le> EXCEPTION_MSG_LEN \<and>
     (case route_of fd r of Inl _ \<Rightarrow> True | Inr conf \<Rightarrow> rt_protocol conf \<noteq> EM_PROTOCOL_BIN) \<and>
     rt_protocol (cl_request_conf (client_of fd r)) \<noteq> EM_PROTOCOL_BIN \<and>
     int (length (told r n w (client_of fd r))) + 4 \<le> MAX_PACKET_LEN \<and>
     0 \<le> s_fd (client_of fd r) \<and> can_add env (s_fd (client_of fd r)) r"

lemma told_stamped [simp]: "told r n w (stamped env s) = told r n w s"
  by (simp add: told_def)

lemma write_error_spec:
  assumes ok: "monitor_ok r m" and card: "card (dom m) < 2 ^ 31 - 1"
    and t: "tellable env fd n w r" and sock: "s_fd (client_of fd r) = sock" "m sock = None"
    and sw: "switch_outcome env fd n r = (Inr b, w')"
  shows "\<exists>r'. write_error env fd n w r = Some (Inr (), r') \<and> monitor_ok r' (m(sock \<mapsto> mo_fresh r)) \<and>
    client_of fd r' = telling r n w (stamped env (client_of fd r)) \<and>
    (rs_relay_switch_mgr r', (rs_pool_env r', rs_core_server_conf r')) = w' \<and> (\<exists>x. mo_interest r' sock = Some (x, mo_fresh r))"
proof -
  define s where "s = stamped env (client_of fd r)"
  define r2 where "r2 = put_client fd (error_text n w s) r"
  define r3 where "r3 = with_switch w' r2"
  define r4 where "r4 = put_client fd (telling r n w s) r3"
  note ta = t [unfolded tellable_def]
  have i: "0 \<le> rs_running r" using ta by (auto simp: thread_at_def split: if_splits)
  have sn: "cl_thread_no s = rs_running r" using ta by (simp add: s_def)
  have route: "route_of fd (put_client fd s r) = route_of fd r" "route_of fd r2 = route_of fd r"
    by (simp_all add: route_of_def r2_def s_def error_text_def Let_def)
  have "write_error env fd n w r = (bindP (case route_of fd r of
              Inr conf \<Rightarrow> bindP (try_switch env (rt_site_no conf) (rt_service_name conf) n) (\<lambda>_. doneP)
            | Inl e \<Rightarrow> doneP) (\<lambda>_. bindP (encode_answer fd) (\<lambda>_. await_client env fd (rs_running r) (EV_WRITE + EV_TIMEOUT)))) r2"
    using ta i sn by (cases "route_of fd r") (simp_all add: write_error_def bindP_def get_thread_no_def route s_def [symmetric]
        stamped_def [symmetric] r2_def)
  also have "\<dots> = bindP (encode_answer fd) (\<lambda>_. await_client env fd (rs_running r) (EV_WRITE + EV_TIMEOUT)) r3"
  proof (cases "route_of fd r")
    case (Inl e)
    then have "w' = (rs_relay_switch_mgr r2, (rs_pool_env r2, rs_core_server_conf r2))"
      using sw by (simp add: switch_outcome_def r2_def)
    then have "r3 = r2" by (simp add: r3_def with_switch_def)
    then show ?thesis using Inl by (simp add: bindP_def)
  next
    case (Inr conf)
    then have "trySwitch (rs_sys_conf r) (fst (re_now env)) (rt_site_no conf) (rt_service_name conf) n
        (rs_relay_switch_mgr r2, (rs_pool_env r2, rs_core_server_conf r2)) = (Inr b, w')"
      using sw by (simp add: switch_outcome_def r2_def)
    then have "try_switch env (rt_site_no conf) (rt_service_name conf) n r2 = Some (Inr b, r3)"
      by (cases w') (auto simp: try_switch_def on_switch_def r3_def with_switch_def r2_def)
    then show ?thesis using Inr by (simp add: bindP_def)
  qed
  also have "\<dots> = await_client env fd (rs_running r) (EV_WRITE + EV_TIMEOUT) r4"
  proof -
    have "client_encode (rs_detail_services r) (rs_errcode_escape r) (error_text n w s) = (Inr (), telling r n w s)"
      using ta by (intro encode_error) (auto simp: s_def)
    then have "encode_answer fd r3 = Some (Inr (), r4)"
      by (simp add: encode_answer_def on_client_def client_obj_def r3_def r4_def r2_def)
    then show ?thesis by (simp add: bindP_def)
  qed
  finally have eq: "write_error env fd n w r = await_client env fd (rs_running r) (EV_WRITE + EV_TIMEOUT) r4" .
  have r4: "rs_running r4 = rs_running r" "thread_at (rs_running r) r4 = thread_at (rs_running r) r" "mo_fresh r4 = mo_fresh r"
    "monitor_ok r4 m" "s_fd (client_of fd r4) = sock" "can_add env sock r4"
    using ok sock ta by (simp_all add: r4_def r3_def r2_def s_def thread_at_def can_add_def)
  have "\<exists>r'. await_client env fd (rs_running r4) (EV_WRITE + EV_TIMEOUT) r4 = Some (Inr (), r') \<and>
      monitor_ok r' (m(sock \<mapsto> mo_fresh r4)) \<and> same_more r4 r' \<and> (\<exists>x. mo_interest r' = (mo_interest r4)(sock \<mapsto> (x, mo_fresh r4)))"
    using ta sock r4 by (intro await_client_spec [OF r4(4) card r4(5) _ sock(2) r4(6)]) auto
  then obtain r' where r': "write_error env fd n w r = Some (Inr (), r')" "monitor_ok r' (m(sock \<mapsto> mo_fresh r))" "same_more r4 r'"
    "\<exists>x. mo_interest r' sock = Some (x, mo_fresh r)" unfolding eq r4 by auto
  have "client_of fd r' = telling r n w s" "(rs_relay_switch_mgr r', (rs_pool_env r', rs_core_server_conf r')) = w'"
    using same_more_relay [OF r'(3)] by (simp_all add: r4_def r3_def)
  then show ?thesis using r' unfolding s_def by blast
qed

section \<open>A refused request\<close>

lemma monitor_del_epoll_fd: "mo_epoll_fd (snd (monitor_del env p mo)) = mo_epoll_fd mo"
proof -
  have d: "mo_epoll_fd (snd (bindS (del_fd env a) (\<lambda>_ mo. (Inr None, mo\<lparr>mo_heap := (mo_heap mo)(a := None)\<rparr>)) mo1)) = mo_epoll_fd mo1"
    for a and mo1 :: "'a monitor_scheme"
    by (auto simp: bindS_def del_fd_def split: option.split)
  show ?thesis
    by (auto simp: monitor_del_def d [of _ "mo\<lparr>mo_heap := h, mo_queue := q\<rparr>" for h q] split: option.split prod.split sum.split)
qed

text \<open>The event of a client of the running thread is taken out.\<close>

lemma del_own_event_spec:
  assumes ok: "monitor_ok r m" and m: "m fd = Some p" and e: "mo_heap r p = Some ev" "\<not> check_event EV_PERSIST ev"
    and env: "me_ctl env = None" "0 \<le> mo_epoll_fd r" and run: "thread_at (rs_running r) r \<noteq> None"
  shows "\<exists>r'. del_own_event env (rs_running r) (r, Some p) = Some (Inr (), (r', None)) \<and> monitor_ok r' (m(fd := None)) \<and>
    same_more r r' \<and> mo_fresh r' = mo_fresh r \<and> mo_epoll_fd r' = mo_epoll_fd r"
proof -
  obtain r' where r': "monitor_del env (Some p) r = (Inr None, r')" "monitor_ok r' (m(fd := None))" "mo_fresh r' = mo_fresh r"
    using monitor_del_spec [OF ok m e env] by blast
  have "same_more r r'" "mo_epoll_fd r' = mo_epoll_fd r"
    using monitor_del_more [of r env "Some p"] monitor_del_epoll_fd [of env "Some p" r] r'(1) by simp_all
  moreover have "del_own_event env (rs_running r) (r, Some p) = Some (Inr (), (r', None))"
    using run r'(1) by (auto simp: del_own_event_def on_thread_def del_event_def split: option.split)
  ultimately show ?thesis using r' by blast
qed

text \<open>The relay once a request is read and decoded.\<close>

definition decoded :: "int \<Rightarrow> kernel \<Rightarrow> client_socket \<Rightarrow> relay \<Rightarrow> relay" where
  "decoded fd k s r = put_client fd s (r\<lparr>rs_pool_env := (rs_pool_env r)\<lparr>w_kernel := k\<rparr>\<rparr>)"

lemma decoded_simps [simp]:
  "told (decoded fd k s r) n w t = told r n w t" "thread_at i (decoded fd k s r) = thread_at i r" "client_of fd (decoded fd k s r) = s"
  "mo_epoll_fd (decoded fd k s r) = mo_epoll_fd r" "rs_running (decoded fd k s r) = rs_running r"
  by (simp_all add: told_def decoded_def thread_at_def)

text \<open>States that differ from it in the monitor and in the counters of the limits only.\<close>

definition like :: "relay \<Rightarrow> relay \<Rightarrow> bool" where
  "like r r' \<longleftrightarrow> same_conf r r' \<and> rs_client_data r' = rs_client_data r \<and> rs_pool_env r' = rs_pool_env r \<and>
     rs_core_server_conf r' = rs_core_server_conf r \<and> rs_relay_switch_mgr r' = rs_relay_switch_mgr r \<and>
     rs_process_thread r' = rs_process_thread r"

lemma like_outcome:
  assumes "like r r'"
  shows "switch_outcome env fd n r' = switch_outcome env fd n r" "client_of fd r' = client_of fd r" "told r' n w s = told r n w s"
    "mo_epoll_fd r' = mo_epoll_fd r \<Longrightarrow> tellable env fd n w r' = tellable env fd n w r"
proof -
  show c: "client_of fd r' = client_of fd r" using assms by (simp add: like_def client_of_def)
  have rt: "route_of fd r' = route_of fd r" using assms c by (simp add: like_def same_conf_def route_of_def)
  show "switch_outcome env fd n r' = switch_outcome env fd n r"
    using assms rt by (simp add: switch_outcome_def like_def same_conf_def Let_def split: sum.split)
  have td: "told r' n w s = told r n w s" for s using assms by (simp add: told_def like_def same_conf_def)
  then show "told r' n w s = told r n w s" .
  show "tellable env fd n w r' = tellable env fd n w r" if "mo_epoll_fd r' = mo_epoll_fd r"
    using assms c td rt that by (simp add: tellable_def thread_at_def can_add_def like_def same_conf_def)
qed

lemma refusal_conf:
  "same_conf r r' \<Longrightarrow> rs_freqlimit_conf r' = rs_freqlimit_conf r \<Longrightarrow> rs_service_request_control r' = rs_service_request_control r \<Longrightarrow>
     refusal env s r' = refusal env s r"
  unfolding refusal_def same_conf_def by (elim conjE) (simp only:)

text \<open>A whole request has been read: its event is taken out, it is decoded and checked, and if a check fails nothing
  else happens.\<close>

lemma thread_dispatch_refused:
  assumes ok: "monitor_ok r m" and m: "m fd = Some p" and e: "mo_heap r p = Some ev" "\<not> check_event EV_PERSIST ev"
    and env: "me_ctl (re_epoll env fd) = None" "0 \<le> mo_epoll_fd r" and run: "thread_at (rs_running r) r \<noteq> None"
    and s0: "client_of fd r = s0" "s_fd s0 = fd" "cl_status s0 = EM_CL_READ"
    and read: "client_process (re_now env) (w_kernel (rs_pool_env r), s0) = (Inr RECV_OK, (k, s1))"
    and dec: "client_decode (sc_request_key (rs_sys_conf r)) (sc_relay_svr_no (rs_sys_conf r)) (fst (re_now env)) (s1, rs_msg_index r)
      = (Inr (), (s, j))"
    and ref: "refusal env s r = Some f"
  shows "\<exists>r'. thread_dispatch env fd (rs_running r) EM_CL_READ (r, Some p) = Some (Inl f, (r', None)) \<and> like (decoded fd k s r) r' \<and>
    monitor_ok r' (m(fd := None)) \<and> mo_fresh r' = mo_fresh r \<and> mo_epoll_fd r' = mo_epoll_fd r"
proof -
  define r1 where "r1 = decoded fd k s1 r"
  have r1: "monitor_ok r1 m" "mo_heap r1 p = Some ev" "0 \<le> mo_epoll_fd r1" "thread_at (rs_running r1) r1 \<noteq> None"
    "rs_running r1 = rs_running r" "mo_fresh r1 = mo_fresh r" "mo_epoll_fd r1 = mo_epoll_fd r"
    using ok e env run by (simp_all add: r1_def decoded_def thread_at_def split: if_splits)
  obtain r2 where r2: "del_own_event (re_epoll env fd) (rs_running r) (r1, Some p) = Some (Inr (), (r2, None))"
    "monitor_ok r2 (m(fd := None))" "same_more r1 r2" "mo_fresh r2 = mo_fresh r" "mo_epoll_fd r2 = mo_epoll_fd r"
    using del_own_event_spec [OF r1(1) m r1(2) e(2) env(1) r1(3,4)] r1(5-7) by auto
  note sm = same_more_relay [OF r2(3)]
  define r3 where "r3 = put_client fd s (r2\<lparr>rs_msg_index := j\<rparr>)"
  have c2: "client_of fd r2 = s1" "rs_sys_conf r2 = rs_sys_conf r" "rs_msg_index r2 = rs_msg_index r"
    using sm(9) [of fd] sm(10,11) by (simp_all add: r1_def decoded_def same_conf_def)
  have d: "decode_request env fd r2 = Some (Inr (), r3)"
    by (simp add: decode_request_def c2 dec r3_def)
  have conf3: "same_conf r r3" "rs_freqlimit_conf r3 = rs_freqlimit_conf r" "rs_service_request_control r3 = rs_service_request_control r"
    using sm(7,8,10) by (simp_all add: r3_def r1_def decoded_def same_conf_def put_client_def)
  have like3: "like (decoded fd k s r) r3"
    using sm conf3 by (simp add: like_def r3_def r1_def decoded_def same_conf_def put_client_def omap_set_set)
  have "client_of fd r3 = s" by (simp add: r3_def)
  then have "refusal env (client_of fd r3) r3 = Some f" using refusal_conf [OF conf3] ref by simp
  then obtain r4 where r4: "admit_request env fd r3 = Some (Inl f, r4)" "counted r3 r4"
    using admit_request_eq [where env = env and fd = fd and r = r3] by (auto split: option.splits)
  have eq4: "r4 = r3\<lparr>rs_freqlimit_conf := rs_freqlimit_conf r4, rs_service_request_control := rs_service_request_control r4\<rparr>"
    using r4(2) by (simp add: counted_def)
  have k4: "like r3 r4" "monitor_ok r4 (m(fd := None))" "mo_fresh r4 = mo_fresh r" "mo_epoll_fd r4 = mo_epoll_fd r"
    by (subst eq4, simp add: like_def same_conf_def r3_def r2)+
  have st: "RECV_OK \<noteq> RECV_HAVE_MORE" by (simp add: code_numbers)
  have "on_client fd (client_process (re_now env)) r = Some (Inr RECV_OK, r1)"
    using read s0(1) by (simp add: on_client_def r1_def decoded_def)
  then have "thread_dispatch env fd (rs_running r) EM_CL_READ (r, Some p) = Some (Inl f, (r4, None))"
    using s0 r2(1) d r4(1) st by (simp add: thread_dispatch_def bindP_def onR_def)
  moreover have "like (decoded fd k s r) r4" using like3 k4(1) by (simp add: like_def same_conf_def)
  ultimately show ?thesis using k4 by blast
qed

lemma catchP_Throw: "m s = Some (Inl (Throw k n w), s') \<Longrightarrow> catchP m g s = g n w s'"
  by (simp add: catchP_def)

lemma del_if_queued_None: "del_if_queued env i (r, None) = Some (Inr (), (r, None))"
  by (simp add: del_if_queued_def own_event_in_queue_def bindP_def)

text \<open>Telling a client of an error leaves the back ends and their sockets alone: a switch only marks a pool.\<close>

lemma order_switch_env:
  assumes "order_switch sys_conf site (e, c) = (x, (e', c'))"
  shows "w_heap e' = w_heap e \<and> w_kernel e' = w_kernel e"
proof (cases "core_server_name site c")
  case (Inl f)
  then show ?thesis using assms by (auto simp: order_switch_def bindS_def)
next
  case (Inr n)
  then show ?thesis
    using assms by (auto simp: order_switch_eq on_pool_def set_switch_on_def poolS_def split: if_splits option.splits)
qed

lemma trySwitch_env:
  assumes "trySwitch sys_conf now site service_name error (m, (e, c)) = (x, (m', (e', c')))"
  shows "w_heap e' = w_heap e \<and> w_kernel e' = w_kernel e"
proof -
  have service: "w_heap e1 = w_heap e \<and> w_kernel e1 = w_kernel e"
    if "try_service_switch sys_conf now site service_name error (m, (e, c)) = (y, (m1, (e1, c1)))" for y m1 e1 c1
    using that order_switch_env by (fastforce simp: try_service_switch_def Let_def split: if_splits prod.splits sum.splits)
  have site: "w_heap e2 = w_heap e1 \<and> w_kernel e2 = w_kernel e1"
    if "try_site_switch sys_conf now site service_name error (m1, (e1, c1)) = (y, (m2, (e2, c2)))" for y m1 e1 c1 m2 e2 c2
    using that order_switch_env by (fastforce simp: try_site_switch_def Let_def split: if_splits prod.splits sum.splits)
  obtain y m1 e1 c1 where s: "try_service_switch sys_conf now site service_name error (m, (e, c)) = (y, (m1, (e1, c1)))"
    by (cases "try_service_switch sys_conf now site service_name error (m, (e, c))") auto
  note first = service [OF s]
  obtain z m2 e2 c2 where t: "try_site_switch sys_conf now site service_name error (m1, (e1, c1)) = (z, (m2, (e2, c2)))"
    by (cases "try_site_switch sys_conf now site service_name error (m1, (e1, c1))") auto
  note second = site [OF t]
  have "e' = e1 \<or> e' = e2"
    using assms s t by (auto simp: trySwitch_def bindS_def returnS_def split: sum.splits if_splits)
  then show ?thesis using first second by auto
qed

text \<open>No connection is made, taken, used or given back, nothing is sent or received, and the client holds what it held.\<close>

definition no_call :: "int \<Rightarrow> relay \<Rightarrow> relay \<Rightarrow> bool" where
  "no_call fd r r' \<longleftrightarrow> w_heap (rs_pool_env r') = w_heap (rs_pool_env r) \<and> w_kernel (rs_pool_env r') = w_kernel (rs_pool_env r) \<and>
     cl_api (client_of fd r') = cl_api (client_of fd r)"

interpretation no_call: worker_frame "no_call fd" for fd
  by unfold_locales
    (auto simp: no_call_def client_of_def put_thread_def dest: same_more_client [THEN conjunct2] same_more_fields)

lemma no_call_mod: "(\<And>s. cl_api (f s) = cl_api s) \<Longrightarrow> keepsP (no_call fd) (mod_client fd f)"
  by (auto simp: keepsP_def mod_client_def no_call_def)

lemma fill_answer_api: "cl_api (snd (fill_answer len data s)) = cl_api s"
  by (simp add: fill_answer_def)

lemma client_encode_api: "cl_api (snd (client_encode details esc s)) = cl_api s"
proof -
  have "cl_api (snd (seqS m (modS (\<lambda>s. s\<lparr>cl_status := EM_CL_SEND\<rparr>)) s)) = cl_api (snd (m s))"
    for m :: "(client_socket, unit) op"
    by (cases "m s") (simp add: seqS_def bindS_def split: sum.split)
  moreover have "cl_api (snd (encode_protocol_binary esc s)) = cl_api s" "cl_api (snd (encode_protocol_text details esc s)) = cl_api s"
    by (simp_all only: encode_protocol_binary_def encode_protocol_text_def Let_def fill_answer_api split: if_split) simp_all
  ultimately show ?thesis by (simp add: client_encode_def)
qed

lemma no_call_encode: "keepsP (no_call fd) (encode_answer fd)"
  using client_encode_api
  by (auto simp: keepsP_def encode_answer_def on_client_def client_obj_def no_call_def split: prod.splits)
    (metis snd_conv)+

lemma no_call_try: "keepsP (no_call fd) (try_switch env site service error)"
  using trySwitch_env
  by (fastforce simp: keepsP_def try_switch_def on_switch_def no_call_def client_of_def split: prod.splits)

lemma no_call_write_error: "keepsP (no_call fd) (write_error env fd n w)"
proof -
  have look: "keepsP (no_call fd) (get_thread_no fd)" "keepsP (no_call fd) (await_client env fd i event)" for i event
    by (auto simp: keepsP_def get_thread_no_def lookupP_def no_call.same_refl
        await_client_def Let_def intro: keepsP_D [OF no_call.keep_on_thread [OF event_ops_more(1)]])
  show ?thesis
    unfolding write_error_def
    by (intro no_call.keep_rules look no_call_encode no_call_mod)
      (auto split: sum.split simp: error_binary_def error_text_def Let_def set_process_time_stamp_def set_recv_time_stamp_def
        intro!: no_call.keep_rules no_call_mod no_call_try)
qed

text \<open>C2: a request that fails a check is never forwarded, whatever its route, its protocol and the error: the call of
  the handler that has read it neither makes nor takes, uses or gives back a connection to a back end, nor sends or
  receives anything more, and the client gets no connection.\<close>

theorem refused_request_not_forwarded:
  assumes "monitor_ok r m" and "m fd = Some p" and "mo_heap r p = Some ev" and "\<not> check_event EV_PERSIST ev"
    and "me_ctl (re_epoll env fd) = None" and "0 \<le> mo_epoll_fd r" and "thread_at (rs_running r) r \<noteq> None"
    and "omap_find (rs_client_data r) fd = Some s0" and "s_fd s0 = fd" and "cl_status s0 = EM_CL_READ"
    and "cl_thread_no s0 = rs_running r" and "check_mask event EV_READ"
    and "client_process (re_now env) (w_kernel (rs_pool_env r), s0) = (Inr RECV_OK, (k, s1))"
    and "client_decode (sc_request_key (rs_sys_conf r)) (sc_relay_svr_no (rs_sys_conf r)) (fst (re_now env)) (s1, rs_msg_index r)
      = (Inr (), (s, j))"
    and "cl_status s = EM_CL_PROCESS" and "refusal env s r = Some f"
  shows "case dispatch_handler env fd event p r of None \<Rightarrow> True
    | Some (x, r') \<Rightarrow> w_heap (rs_pool_env r') = w_heap (rs_pool_env r) \<and> w_kernel (rs_pool_env r') = k \<and>
        cl_api (client_of fd r') = cl_api s"
proof -
  have s0: "client_of fd r = s0" using assms(8) by (simp add: client_of_def omap_get_def)
  have run: "0 \<le> rs_running r" using assms(7) by (auto simp: thread_at_def split: if_splits)
  obtain r1 where r1: "thread_dispatch env fd (rs_running r) EM_CL_READ (r, Some p) = Some (Inl f, (r1, None))"
    "like (decoded fd k s r) r1"
    using thread_dispatch_refused [OF assms(1-7) s0 assms(9,10,13,14,16)] by blast
  have c1: "client_of fd r1 = s" using like_outcome(2) [OF r1(2)] by simp
  have e1: "w_heap (rs_pool_env r1) = w_heap (rs_pool_env r)" "w_kernel (rs_pool_env r1) = k"
    using r1(2) by (simp_all add: like_def decoded_def put_client_def)
  have find: "find_client env fd r = Some (Inr (), r)" using assms(8) by (simp add: find_client_def omap_insert_def)
  have no: "get_thread_no fd r = Some (Inr (rs_running r), r)"
    using s0 assms(11) run by (simp add: get_thread_no_def Let_def)
  note handler = dispatch_handler_def bindP_Some [where m = "find_client env fd", OF find]
      bindP_Some [where m = "get_thread_no fd", OF no] if_P [OF assms(12)] with_event_def
  show ?thesis
  proof (cases f)
    case (Throw x n w)
    have answer: "answer_or_close env fd n w r1 = write_error env fd n w r1"
      using c1 assms(15) by (simp add: answer_or_close_def bindP_def of_client_def)
    have "dispatch_handler env fd event p r =
        (case onR (answer_or_close env fd n w) (r1, None :: nat option) of None \<Rightarrow> None | Some (x, (r', p')) \<Rightarrow> Some (x, r'))"
      unfolding handler catchP_Throw [where m = "thread_dispatch env fd (rs_running r) EM_CL_READ", OF r1(1) [unfolded Throw]]
        bindP_Some [where m = "del_if_queued (re_epoll env fd) (rs_running r)", OF del_if_queued_None] ..
    then have "dispatch_handler env fd event p r = write_error env fd n w r1"
      by (simp add: onR_def answer split: option.split)
    then show ?thesis
      using keepsP_D [OF no_call_write_error, of env fd n w r1] e1 c1 by (auto simp: no_call_def split: option.split)
  next
    case MemoryFault
    then have "dispatch_handler env fd event p r = Some (Inl f, r1)" unfolding handler using r1(1) by (simp add: catchP_def)
    then show ?thesis using e1 c1 by simp
  next
    case AssertFail
    then have "dispatch_handler env fd event p r = Some (Inl f, r1)" unfolding handler using r1(1) by (simp add: catchP_def)
    then show ?thesis using e1 c1 by simp
  qed
qed

text \<open>C3: a request refused with an error text that fits the buffer, whose route, if it has one, speaks the text
  protocol, is answered: its client, in the very same call of the handler, is left with the packed text of exactly that
  error, waiting to be sent, and with a registered event for it; and the error is counted against the route's own back
  end as a failure of that back end would be.\<close>

theorem refused_request_answered:
  assumes "monitor_ok r m" and "card (dom m) < 2 ^ 31 - 1" and "m fd = Some p" and "mo_heap r p = Some ev"
    and "\<not> check_event EV_PERSIST ev" and "me_ctl (re_epoll env fd) = None"
    and "omap_find (rs_client_data r) fd = Some s0" and "s_fd s0 = fd" and "cl_status s0 = EM_CL_READ"
    and "cl_thread_no s0 = rs_running r" and "check_mask event EV_READ"
    and "client_process (re_now env) (w_kernel (rs_pool_env r), s0) = (Inr RECV_OK, (k, s1))"
    and "client_decode (sc_request_key (rs_sys_conf r)) (sc_relay_svr_no (rs_sys_conf r)) (fst (re_now env)) (s1, rs_msg_index r)
      = (Inr (), (s, j))"
    and "s_fd s = fd" and "cl_status s = EM_CL_PROCESS" and "refusal env s r = Some (Throw x n w)"
    and "tellable env fd n w (decoded fd k s r)" and "switch_outcome env fd n (decoded fd k s r) = (Inr b, w')"
  shows "\<exists>r'. dispatch_handler env fd event p r = Some (Inr (), r') \<and>
    client_of fd r' = telling r n w (stamped env s) \<and> monitor_ok r' (m(fd \<mapsto> mo_fresh r)) \<and> mo_interest r' fd \<noteq> None \<and>
    (rs_relay_switch_mgr r', (rs_pool_env r', rs_core_server_conf r')) = w'"
proof -
  have s0: "client_of fd r = s0" using assms(7) by (simp add: client_of_def omap_get_def)
  note ta = assms(17) [unfolded tellable_def]
  have run: "thread_at (rs_running r) r \<noteq> None" "0 \<le> mo_epoll_fd r" "0 \<le> rs_running r"
    using ta by (auto simp: decoded_def thread_at_def can_add_def split: if_splits)
  obtain r1 where r1: "thread_dispatch env fd (rs_running r) EM_CL_READ (r, Some p) = Some (Inl (Throw x n w), (r1, None))"
    "like (decoded fd k s r) r1" "monitor_ok r1 (m(fd := None))" "mo_fresh r1 = mo_fresh r" "mo_epoll_fd r1 = mo_epoll_fd r"
    using thread_dispatch_refused [OF assms(1,3-6) run(2,1) s0 assms(8,9,12,13,16)] by blast
  note lk = like_outcome [OF r1(2)]
  have c1: "client_of fd r1 = s" using lk(2) by (simp add: decoded_def)
  have "finite (dom m) \<or> infinite (dom m)" by simp
  then have card: "card (dom (m(fd := None))) < 2 ^ 31 - 1"
    using assms(2) by (auto simp: card_Diff_singleton_if split: if_splits)
  have ta1: "tellable env fd n w r1" using lk(4) assms(17) r1(5) by (simp add: decoded_def)
  have sw1: "switch_outcome env fd n r1 = (Inr b, w')" using lk(1) assms(18) by simp
  have sock: "s_fd (client_of fd r1) = fd" "(m(fd := None)) fd = None" using c1 assms(14) by simp_all
  obtain r' where we: "write_error env fd n w r1 = Some (Inr (), r')" "monitor_ok r' ((m(fd := None))(fd \<mapsto> mo_fresh r1))"
    "client_of fd r' = telling r1 n w (stamped env (client_of fd r1))"
    "(rs_relay_switch_mgr r', (rs_pool_env r', rs_core_server_conf r')) = w'" "\<exists>x. mo_interest r' fd = Some (x, mo_fresh r1)"
    using write_error_spec [OF r1(3) card ta1 sock sw1] by blast
  have r': "write_error env fd n w r1 = Some (Inr (), r')" "monitor_ok r' (m(fd \<mapsto> mo_fresh r))"
    "client_of fd r' = telling r1 n w (stamped env s)" "(rs_relay_switch_mgr r', (rs_pool_env r', rs_core_server_conf r')) = w'"
    "mo_interest r' fd \<noteq> None"
    using we r1(4) c1 by (simp_all only: fun_upd_upd) auto
  have "told r1 n w s = told r n w s" for s using lk(3) by (simp add: told_def decoded_def)
  then have tl: "telling r1 n w (stamped env s) = telling r n w (stamped env s)" by (simp add: telling_def)
  have find: "find_client env fd r = Some (Inr (), r)"
    using assms(7) by (simp add: find_client_def omap_insert_def)
  have no: "get_thread_no fd r = Some (Inr (rs_running r), r)"
    using s0 assms(10) run(3) by (simp add: get_thread_no_def Let_def)
  have "answer_or_close env fd n w r1 = Some (Inr (), r')"
    using c1 assms(15) r'(1) by (simp add: answer_or_close_def)
  then have "onR (answer_or_close env fd n w) (r1, None) = Some (Inr (), (r', None :: nat option))" by (simp add: onR_def)
  then have "dispatch_handler env fd event p r = Some (Inr (), r')"
    unfolding dispatch_handler_def bindP_Some [where m = "find_client env fd", OF find]
      bindP_Some [where m = "get_thread_no fd", OF no] if_P [OF assms(11)] with_event_def
      catchP_Throw [where m = "thread_dispatch env fd (rs_running r) EM_CL_READ", OF r1(1)]
      bindP_Some [where m = "del_if_queued (re_epoll env fd) (rs_running r)", OF del_if_queued_None] by simp
  then show ?thesis using r'(2-5) unfolding tl by (intro exI [of _ r'] conjI)
qed

subsection \<open>A concrete run\<close>

text \<open>A relay without any configuration but the key, and a client whose packet has its length read.\<close>

definition body1 :: string where "body1 = ''MSG_NO=1&request_type=7&ver=2''"

definition waiting_client :: client_socket where
  "waiting_client = sample_client\<lparr>s_fd := 9, cl_is_head := True, process_buf := put_int 29, processed := 4, process_total := 33\<rparr>"

definition relay1 :: relay where
  "relay1 = monitor.extend monitor1 \<lparr>rs_running = 0, rs_accept = monitor1, rs_accept_fd = 3, rs_process_thread_num = 1,
     rs_process_thread = [thread_new], rs_client_data = [(9, waiting_client)],
     rs_pool_env = env0\<lparr>w_kernel := kernel0\<lparr>k_read := (\<lambda>_. [Inr body1])\<rparr>\<rparr>,
     rs_sys_conf = no_settings\<lparr>sc_request_key := sample_keys\<rparr>, rs_request_type_conf = \<lparr>c_data = [], c_rows = 0\<rparr>,
     rs_core_server_conf = core0, rs_access_conf = \<lparr>c_data = [], c_rows = 0\<rparr>, rs_freqlimit_conf = \<lparr>c_data = [], c_rows = 0\<rparr>,
     rs_errcode_escape = [], rs_detail_services = {}, rs_service_stats_conf = \<lparr>sw_stats_info = [], sw_is_init = False\<rparr>,
     rs_site_stats_conf = \<lparr>sw_stats_info = [], sw_is_init = False\<rparr>, rs_relay_switch_mgr = switch_mgr_new,
     rs_service_request_control = \<lparr>rc_pool = [], rc_is_init = False\<rparr>,
     rs_service_authorize_access = \<lparr>az_set = [], az_is_init = False\<rparr>, rs_msg_index = 0, rs_thread_index = 0, rs_seq_no = 0\<rparr>"

definition relay_env1 :: relay_env where
  "relay_env1 = \<lparr>re_now = (1, 0), re_epoll = (\<lambda>_. env0_ok), re_beyond = [], re_unset_seq_no = 0, re_peer = Inl [], re_pipe = Inr 8\<rparr>"

definition read_client :: client_socket where
  "read_client = waiting_client\<lparr>process_buf := put_int 29 @ body1, processed := 33, cl_status := EM_CL_PROCESS, cl_recv_ok_stamp := (1, 0)\<rparr>"

definition keyed_client :: client_socket where
  "keyed_client = read_client\<lparr>cl_req_packet := body1, cl_req_packet_len := 29, cl_request_key := ''7^2'', cl_request_type := 7,
     cl_request_key_index := 0\<rparr>"

lemmas client_fields = sample_client_def client_new_def sock_init_def sock_base.defs client_socket.defs

lemma sample_read:
  "client_process (1, 0) (w_kernel (rs_pool_env relay1), waiting_client) = (Inr RECV_OK, (kernel0\<lparr>k_read := (\<lambda>_. [Inr body1])(9 := [])\<rparr>, read_client))"
proof -
  have "cl_status waiting_client = EM_CL_READ" "cl_is_head waiting_client"
    by (simp_all add: waiting_client_def client_fields)
  then show ?thesis
    by (simp add: client_process_read base_recv_def sock_read_def sys_read_def relay1_def env0_def monitor.defs
        waiting_client_def client_fields is_ok_def INVALID_SOCKET_def body1_def write_at_def read_client_def MAX_PACKET_LEN_def)
qed

lemma find_body1: "omap_find (parseUrl body1) = map_of [(''MSG_NO'', ''1''), (''request_type'', ''7''), (''ver'', ''2'')]"
proof -
  have "url_pairs body1 = [(''MSG_NO'', ''1''), (''request_type'', ''7''), (''ver'', ''2'')]"
    by (simp add: body1_def url_pairs_def nv_of_def)
  then show ?thesis by (simp add: fun_eq_iff find_parseUrl)
qed

lemma sample_key1:
  "gen_request_key sample_keys (read_client\<lparr>cl_req_packet := body1, cl_req_packet_len := 29\<rparr>) = (Inr (), keyed_client)"
proof -
  have c: "cstr body1 = body1" by (simp add: body1_def cstr_def)
  have a: "atoi (cstr ''7'') = 7"
    by (simp add: cstr_def atoi_def strtol_def isspace_def isdigit_def digit_val_def i32_def)
  show ?thesis
    by (simp add: gen_request_key_def c isEmpty_def omap_get_def find_body1 REQUEST_TYPE_NAME_def sample_keys_def a Let_def
        keyed_client_def)
qed

lemma sample_decoded: "client_decode sample_keys 0 1 (read_client, 0) = (Inr (), (keyed_client, 0))"
proof -
  have p: "process_buf read_client = put_int 29 @ body1" "process_total read_client = 33"
    by (simp_all add: read_client_def waiting_client_def)
  have l: "get_int (read_at (put_int 29 @ body1) 0 4) = 29"
    using host.get_put_exact [of 29 "[]"] by (simp add: read_at_in in_i32_def)
  have b: "read_at (put_int 29 @ body1) 4 29 = body1" "cstr body1 = body1"
    by (simp_all add: read_at_in body1_def cstr_def)
  have h: "has_text ''MSG_NO'' body1" by (simp add: body1_def)
  have k: "keyed_client\<lparr>cl_status := EM_CL_PROCESS\<rparr> = keyed_client"
    by (simp add: keyed_client_def read_client_def)
  show ?thesis
    by (simp add: client_decode_def p l b h sample_key1 k Let_def MAX_PACKET_LEN_def)
qed

lemma sample_refused: "refusal env keyed_client relay1 = Some (ip_refused [])"
  by (simp add: refusal_def access_check_def relay1_def monitor.defs keyed_client_def read_client_def waiting_client_def
      client_fields omap_find_def)

lemma sample_error: "ip_refused [] = Throw CServerException 10003 ''ip:  not allowed to access''"
  by (simp add: ip_refused_def THROW_def EXCEPTION_MSG_LEN_def)

lemma sample_told: "int (length (told relay1 10003 ''ip:  not allowed to access'' keyed_client)) + 4 \<le> MAX_PACKET_LEN"
proof -
  have "error_map False [] 10003 (error_params 10003 ''ip:  not allowed to access'')
      = [(''res_info'', ''ip:  not allowed to access''), (''result'', show_int 10003)]"
    by (simp add: error_map_def error_params_def isOriginalCode_def isEscapedCode_def omap_get_def omap_find_def Let_def)
  then have "told relay1 10003 ''ip:  not allowed to access'' keyed_client
      = packUrl [(''res_info'', ''ip:  not allowed to access''), (''result'', show_int 10003)]"
    by (simp add: told_def relay1_def monitor.defs is_detail_info_service_def)
  also have "\<dots> = pack_pair (''result'', show_int 10003) @ pack_pair (''res_info'', ''ip:  not allowed to access'')"
    by (simp add: packUrl_def MUST_IN_FIRST_FIELD_def omap_find_def)
  finally show ?thesis
    using length_encodeUrl [of "show_int 10003"] length_show_i32 [of 10003] length_encodeUrl [of "''ip:  not allowed to access''"]
    by (simp add: pack_pair_def MAX_PACKET_LEN_def in_i32_def)
qed

lemma relay1_fields: "mo_fresh relay1 = 1" "mo_epoll_fd relay1 = 5" "client_of 9 relay1 = waiting_client" "rs_running relay1 = 0"
    "thread_at 0 relay1 = Some thread_new" "rs_sys_conf relay1 = no_settings\<lparr>sc_request_key := sample_keys\<rparr>" "rs_msg_index relay1 = 0"
    "omap_find (rs_client_data relay1) 9 = Some waiting_client" "rs_request_type_conf relay1 = \<lparr>c_data = [], c_rows = 0\<rparr>"
  by (simp_all add: relay1_def monitor.defs monitor1_def client_of_def omap_get_def omap_find_def thread_at_def)

lemma client1_fields: "s_fd waiting_client = 9" "cl_status waiting_client = EM_CL_READ" "cl_thread_no waiting_client = 0"
    "s_fd keyed_client = 9" "cl_status keyed_client = EM_CL_PROCESS" "cl_thread_no keyed_client = 0"
    "rt_protocol (cl_request_conf keyed_client) = 0"
  by (simp_all add: keyed_client_def read_client_def waiting_client_def client_fields request_conf0_def)

text \<open>The relay with the client's event registered, about to be called for it.\<close>

lemma sample_called:
  obtains r ev k where "monitor_add env0_ok 9 (EV_READ + EV_TIMEOUT) (Some DISPATCH_HANDLER) 0 0 relay1 = Some (Inr 0, r)"
    "monitor_ok r [9 \<mapsto> 1]" "mo_heap r 1 = Some ev" "\<not> check_event EV_PERSIST ev" "mo_epoll_fd r = 5" "same_more relay1 r"
    "thread_at 0 r = Some thread_new" "rs_running r = 0" "omap_find (rs_client_data r) 9 = Some waiting_client"
    "client_process (re_now relay_env1) (w_kernel (rs_pool_env r), waiting_client) = (Inr RECV_OK, (k, read_client))"
    "client_decode (sc_request_key (rs_sys_conf r)) (sc_relay_svr_no (rs_sys_conf r)) (fst (re_now relay_env1)) (read_client, rs_msg_index r)
      = (Inr (), (keyed_client, 0))"
    "refusal relay_env1 keyed_client r = Some (Throw CServerException 10003 ''ip:  not allowed to access'')"
    "rs_request_type_conf r = \<lparr>c_data = [], c_rows = 0\<rparr>"
    "told r 10003 ''ip:  not allowed to access'' keyed_client = told relay1 10003 ''ip:  not allowed to access'' keyed_client"
proof -
  have ok: "monitor_ok relay1 Map.empty"
    using monitor1_ok by (simp add: monitor_ok_def relay1_def monitor.defs)
  have "mo_interest relay1 = Map.empty" by (simp add: relay1_def monitor.defs monitor1_def)
  then have "epoll_ctl_error env0_ok False 9 relay1 = None" by (simp add: epoll_ctl_error_def env0_ok_def relay1_fields)
  then obtain r ev where a: "monitor_add env0_ok 9 (EV_READ + EV_TIMEOUT) (Some DISPATCH_HANDLER) 0 0 relay1 = Some (Inr 0, r)"
    "monitor_ok r [9 \<mapsto> 1]" "mo_heap r 1 = Some ev" "ev_event ev = EV_READ + EV_TIMEOUT" "mo_epoll_fd r = 5"
    using monitor_add_spec [OF ok, of 9 "Some DISPATCH_HANDLER" env0_ok "EV_READ + EV_TIMEOUT" 0 0]
    by (auto simp: env0_ok_def relay1_fields)
  note more = keepsP_D [OF monitor_add_more a(1)]
  note sm = same_more_relay [OF more]
  have "rs_sys_conf r = rs_sys_conf relay1" "rs_request_type_conf r = \<lparr>c_data = [], c_rows = 0\<rparr>"
    using sm(10) by (simp_all add: same_conf_def relay1_fields)
  moreover have "thread_at 0 r = Some thread_new" "rs_running r = 0"
    using sm(5,6) relay1_fields(4,5) by (simp_all add: thread_at_def split: if_splits)
  moreover have "\<not> check_event EV_PERSIST ev"
    using a(4) by (simp add: check_event_def check_mask_def EV_READ_def EV_TIMEOUT_def EV_PERSIST_def)
  moreover have "omap_find (rs_client_data r) 9 = Some waiting_client" using sm(1) relay1_fields by simp
  moreover have "client_process (re_now relay_env1) (w_kernel (rs_pool_env r), waiting_client)
      = (Inr RECV_OK, (kernel0\<lparr>k_read := (\<lambda>_. [Inr body1])(9 := [])\<rparr>, read_client))"
    using sample_read sm(2) by (simp add: relay_env1_def)
  moreover have "client_decode (sc_request_key (rs_sys_conf r)) (sc_relay_svr_no (rs_sys_conf r)) (fst (re_now relay_env1)) (read_client, rs_msg_index r)
      = (Inr (), (keyed_client, 0))"
    using sample_decoded sm(11) calculation(1) by (simp add: relay1_fields relay_env1_def no_settings_def)
  moreover have "refusal relay_env1 keyed_client r = Some (Throw CServerException 10003 ''ip:  not allowed to access'')"
    using refusal_conf [OF sm(10,7,8)] sample_refused sample_error by simp
  moreover have "told r n w t = told relay1 n w t" for n w t using sm(10) by (simp add: told_def same_conf_def)
  ultimately show thesis using that a more by blast
qed

lemma refused_request_not_forwarded_witness:
  "\<exists>r. monitor_add env0_ok 9 (EV_READ + EV_TIMEOUT) (Some DISPATCH_HANDLER) 0 0 relay1 = Some (Inr 0, r) \<and>
     (case dispatch_handler relay_env1 9 EV_READ 1 r of None \<Rightarrow> True
      | Some (x, r') \<Rightarrow> w_heap (rs_pool_env r') = [] \<and> cl_api (client_of 9 r') = None)"
proof (rule sample_called)
  fix r ev k
  assume a: "monitor_add env0_ok 9 (EV_READ + EV_TIMEOUT) (Some DISPATCH_HANDLER) 0 0 relay1 = Some (Inr 0, r)"
    "monitor_ok r [9 \<mapsto> 1]" "mo_heap r 1 = Some ev" "\<not> check_event EV_PERSIST ev" "mo_epoll_fd r = 5" "same_more relay1 r"
    "thread_at 0 r = Some thread_new" "rs_running r = 0" "omap_find (rs_client_data r) 9 = Some waiting_client"
    and rd: "client_process (re_now relay_env1) (w_kernel (rs_pool_env r), waiting_client) = (Inr RECV_OK, (k, read_client))"
    and dc: "client_decode (sc_request_key (rs_sys_conf r)) (sc_relay_svr_no (rs_sys_conf r)) (fst (re_now relay_env1)) (read_client, rs_msg_index r)
      = (Inr (), (keyed_client, 0))"
    and ref: "refusal relay_env1 keyed_client r = Some (Throw CServerException 10003 ''ip:  not allowed to access'')"
  have e: "w_heap (rs_pool_env r) = []" "cl_api keyed_client = None"
    using same_more_relay(2) [OF a(6)]
    by (simp_all add: relay1_def env0_def monitor.defs keyed_client_def read_client_def waiting_client_def client_fields)
  have "case dispatch_handler relay_env1 9 EV_READ 1 r of None \<Rightarrow> True
    | Some (x, r') \<Rightarrow> w_heap (rs_pool_env r') = w_heap (rs_pool_env r) \<and> w_kernel (rs_pool_env r') = k \<and>
        cl_api (client_of 9 r') = cl_api keyed_client"
    by (rule refused_request_not_forwarded [OF a(2) _ a(3,4) _ _ _ a(9) _ _ _ _ rd dc _ ref])
      (use a(5,7,8) in \<open>simp_all add: check_mask_def EV_READ_def relay_env1_def env0_ok_def client1_fields\<close>)
  then show ?thesis using a(1) e by (intro exI [of _ r]) (auto split: option.splits)
qed

lemma refused_request_answered_witness:
  "\<exists>r r'. monitor_add env0_ok 9 (EV_READ + EV_TIMEOUT) (Some DISPATCH_HANDLER) 0 0 relay1 = Some (Inr 0, r) \<and>
     dispatch_handler relay_env1 9 EV_READ 1 r = Some (Inr (), r') \<and> cl_status (client_of 9 r') = EM_CL_SEND \<and>
     rs_core_server_conf r' = rs_core_server_conf relay1"
proof (rule sample_called)
  let ?w = "''ip:  not allowed to access''"
  fix r ev k
  assume a: "monitor_add env0_ok 9 (EV_READ + EV_TIMEOUT) (Some DISPATCH_HANDLER) 0 0 relay1 = Some (Inr 0, r)"
    "monitor_ok r [9 \<mapsto> 1]" "mo_heap r 1 = Some ev" "\<not> check_event EV_PERSIST ev" "mo_epoll_fd r = 5" "same_more relay1 r"
    "thread_at 0 r = Some thread_new" "rs_running r = 0" "omap_find (rs_client_data r) 9 = Some waiting_client"
    and rd: "client_process (re_now relay_env1) (w_kernel (rs_pool_env r), waiting_client) = (Inr RECV_OK, (k, read_client))"
    and dc: "client_decode (sc_request_key (rs_sys_conf r)) (sc_relay_svr_no (rs_sys_conf r)) (fst (re_now relay_env1)) (read_client, rs_msg_index r)
      = (Inr (), (keyed_client, 0))"
    and ref: "refusal relay_env1 keyed_client r = Some (Throw CServerException 10003 ?w)"
    and conf: "rs_request_type_conf r = \<lparr>c_data = [], c_rows = 0\<rparr>"
    and told: "told r 10003 ?w keyed_client = told relay1 10003 ?w keyed_client"
  note sm = same_more_relay [OF a(6)]
  have route: "route_of 9 (decoded 9 k keyed_client r) = Inl (THROW CConfigException (error_no RequestTypeInvalid)
      (''request_type_conf: request_type not find['' @ cstr (cl_request_key keyed_client) @ '']''))"
    by (simp add: route_of_def decoded_def request_get_def conf omap_find_def)
  have ta: "tellable relay_env1 9 10003 ?w (decoded 9 k keyed_client r)"
    using sample_told told a(5,7,8) client1_fields
    by (simp add: tellable_def route can_add_def relay_env1_def env0_ok_def in_i32_def EXCEPTION_MSG_LEN_def EM_PROTOCOL_BIN_def)
  have sw: "switch_outcome relay_env1 9 10003 (decoded 9 k keyed_client r) =
      (Inr (- 1), (rs_relay_switch_mgr r, ((rs_pool_env r)\<lparr>w_kernel := k\<rparr>, rs_core_server_conf r)))"
    by (simp add: switch_outcome_def route) (simp add: decoded_def)
  have "\<exists>r'. dispatch_handler relay_env1 9 EV_READ 1 r = Some (Inr (), r') \<and>
    client_of 9 r' = telling r 10003 ?w (stamped relay_env1 keyed_client) \<and> monitor_ok r' ([9 \<mapsto> 1](9 \<mapsto> mo_fresh r)) \<and> mo_interest r' 9 \<noteq> None \<and>
    (rs_relay_switch_mgr r', (rs_pool_env r', rs_core_server_conf r'))
      = (rs_relay_switch_mgr r, ((rs_pool_env r)\<lparr>w_kernel := k\<rparr>, rs_core_server_conf r))"
    by (rule refused_request_answered [OF a(2) _ _ a(3,4) _ a(9) client1_fields(1,2) _ _ rd dc client1_fields(4,5) ref ta sw])
      (use a(8) in \<open>simp_all add: check_mask_def EV_READ_def relay_env1_def env0_ok_def client1_fields\<close>)
  then show ?thesis using a(1) sm(3) by auto
qed

section \<open>Connections are dealt out\<close>

lemma client_init_seq_no:
  "client_init fd i n peer now (k, s) = (Inr (), (k', s')) \<Longrightarrow> cl_seq_no s' = n \<and> s_fd s' = fd \<and> cl_thread_no s' = i \<and> cl_status s' = EM_CL_READ"
  by (auto simp: client_init_def seqS_def bindS_def objW_def sysW_def split: if_splits sum.splits prod.splits)

lemma write_pipe_outcome:
  assumes "thread_at i r = Some td"
  obtains y where "write_pipe env i msg r = Some (y, if y = Inr () then put_thread i (td\<lparr>td_pipe := td_pipe td @ [msg]\<rparr>) r else r)"
proof (cases "re_pipe env")
  case (Inl err)
  show thesis by (rule that [of "Inl _"]) (simp add: write_pipe_def assms Inl Let_def)
next
  case (Inr count)
  show thesis
  proof (cases "count = SIZEOF_PIPE_MSG")
    case True
    show thesis by (rule that [of "Inr ()"]) (simp add: write_pipe_def assms Inr True Let_def)
  next
    case False
    show thesis by (rule that [of "Inl _"]) (simp add: write_pipe_def assms Inr False Let_def)
  qed
qed

lemma choose_thread_step:
  assumes "thread_at (rs_thread_index r) r = Some td"
  shows "\<exists>x r'. choose_thread env fd r = Some (x, r') \<and> rs_process_thread_num r' = rs_process_thread_num r \<and>
    rs_thread_index r' = (if rs_thread_index r + 1 \<ge> rs_process_thread_num r - 1 then 0 else rs_thread_index r + 1) \<and>
    rs_seq_no r' = (rs_seq_no r + 1) mod 2 ^ 32 \<and>
    rs_process_thread r' = (if x = Inr ()
      then (rs_process_thread r)[nat (rs_thread_index r) := td\<lparr>td_pipe := td_pipe td @ [(fd, (rs_seq_no r + 1) mod 2 ^ 32)]\<rparr>]
      else rs_process_thread r)"
proof -
  define i where "i = rs_thread_index r"
  define n where "n = (rs_seq_no r + 1) mod 2 ^ 32"
  define r1 where "r1 = r\<lparr>rs_thread_index := (if i + 1 \<ge> rs_process_thread_num r - 1 then 0 else i + 1), rs_seq_no := n\<rparr>"
  have at: "0 \<le> i \<and> nat i < length (rs_process_thread r) \<and> rs_process_thread r ! nat i = td"
    using assms by (simp add: i_def thread_at_def split: if_split_asm)
  then have th: "thread_at i r1 = Some td" "thread_at i (r\<lparr>rs_thread_index := j\<rparr>) = Some td" for j
    by (simp_all add: r1_def thread_at_def)
  have r1: "rs_process_thread_num r1 = rs_process_thread_num r" "rs_process_thread r1 = rs_process_thread r" "rs_seq_no r1 = n"
    "rs_thread_index r1 = (if i + 1 \<ge> rs_process_thread_num r - 1 then 0 else i + 1)" by (simp_all add: r1_def)
  have eq: "choose_thread env fd r = bindP (on_client fd (client_init fd (td_thread_no td) n (re_peer env) (re_now env)))
      (\<lambda>_. bindP (of_client fd cl_seq_no) (\<lambda>seq_no. write_pipe env i (fd, seq_no))) r1"
    using th(2) unfolding choose_thread_def i_def [symmetric] by (simp add: Let_def n_def r1_def)
  obtain x k s where c: "client_init fd (td_thread_no td) n (re_peer env) (re_now env) (w_kernel (rs_pool_env r1), client_of fd r1) = (x, (k, s))"
    by (cases "client_init fd (td_thread_no td) n (re_peer env) (re_now env) (w_kernel (rs_pool_env r1), client_of fd r1)") auto
  define r2 where "r2 = put_client fd s (r1\<lparr>rs_pool_env := (rs_pool_env r1)\<lparr>w_kernel := k\<rparr>\<rparr>)"
  have oc: "on_client fd (client_init fd (td_thread_no td) n (re_peer env) (re_now env)) r1 = Some (x, r2)"
    using c by (simp add: on_client_def r2_def)
  have r2: "rs_process_thread_num r2 = rs_process_thread_num r" "rs_process_thread r2 = rs_process_thread r" "rs_seq_no r2 = n"
    "rs_thread_index r2 = rs_thread_index r1" "thread_at i r2 = Some td" "client_of fd r2 = s"
    using at by (simp_all add: r2_def r1 thread_at_def put_client_def client_of_def omap_get_def omap_find_set)
  show ?thesis
  proof (cases x)
    case (Inl f)
    then show ?thesis using oc r2 r1 by (intro exI [of _ "Inl f"] exI [of _ r2]) (simp add: eq bindP_def n_def i_def)
  next
    case (Inr u)
    have sq: "cl_seq_no s = n" using client_init_seq_no c Inr by simp
    have "choose_thread env fd r = write_pipe env i (fd, n) r2" using oc Inr r2(6) sq by (simp add: eq bindP_def)
    moreover obtain y where "write_pipe env i (fd, n) r2
        = Some (y, if y = Inr () then put_thread i (td\<lparr>td_pipe := td_pipe td @ [(fd, n)]\<rparr>) r2 else r2)"
      using write_pipe_outcome r2(5) by blast
    ultimately show ?thesis using r2 r1 by (simp add: put_thread_def n_def i_def)
  qed
qed

text \<open>Any number of connections, one after the other, with the outcome of each.\<close>

fun deal :: "(relay_env \<times> int) list \<Rightarrow> relay \<Rightarrow> (fault + unit) list \<times> relay" where
  "deal [] r = ([], r)"
| "deal ((env, fd) # cs) r =
     (case choose_thread env fd r of
        None \<Rightarrow> ([], r)
      | Some (x, r') \<Rightarrow> (case deal cs r' of (xs, r'') \<Rightarrow> (x # xs, r'')))"

text \<open>The messages for thread \<open>i\<close> of \<open>n\<close>, for connections of which the first has number \<open>a\<close>.\<close>

definition messages_for :: "nat \<Rightarrow> nat \<Rightarrow> nat \<Rightarrow> int \<Rightarrow> (relay_env \<times> int) list \<Rightarrow> (fault + unit) list \<Rightarrow> (int \<times> int) list" where
  "messages_for i n a seq_no cs xs = [(snd (cs ! j), (seq_no + int j + 1) mod 2 ^ 32).
     j \<leftarrow> [0..<length cs], xs ! j = Inr () \<and> (a + j) mod n = i]"

lemma messages_for_Cons:
  "messages_for i n a seq_no (c # cs) (x # xs) =
     (if x = Inr () \<and> a mod n = i then [(snd c, (seq_no + 1) mod 2 ^ 32)] else []) @ messages_for i n (Suc a) ((seq_no + 1) mod 2 ^ 32) cs xs"
proof -
  have "((seq_no + 1) mod 2 ^ 32 + int j + 1) mod 2 ^ 32 = (seq_no + int (Suc j) + 1) mod 2 ^ 32" for j
    using mod_add_left_eq [of "seq_no + 1" "2 ^ 32" "int j + 1"] by (simp only: add.assoc of_nat_Suc ac_simps)
  then show ?thesis
    unfolding messages_for_def length_Cons upt_conv_Cons [OF zero_less_Suc] map_Suc_upt [symmetric]
    by (simp del: of_nat_Suc mod_Suc_eq cong: if_cong add: o_def comp_def)
qed

text \<open>One turn of the wheel of \<open>m\<close> threads.\<close>

lemma deal_spec:
  assumes "rs_process_thread_num r = int (length (rs_process_thread r))" "rs_process_thread r \<noteq> []"
    "m = max 1 (length (rs_process_thread r) - 1)" "rs_thread_index r = int (a mod m)" "deal cs r = (xs, r')"
  shows "length xs = length cs \<and> rs_thread_index r' = int ((a + length cs) mod m) \<and>
    length (rs_process_thread r') = length (rs_process_thread r) \<and>
    (\<forall>i < length (rs_process_thread r). td_pipe (rs_process_thread r' ! i)
       = td_pipe (rs_process_thread r ! i) @ messages_for i m a (rs_seq_no r) cs xs)"
  using assms
proof (induction cs arbitrary: r a xs r')
  case Nil
  then show ?case by (simp add: messages_for_def)
next
  case (Cons c cs)
  obtain env fd where c: "c = (env, fd)" by (cases c)
  let ?ts = "rs_process_thread r" let ?i = "a mod m"
  have m: "0 < m" "?i < m" "m \<le> length ?ts" using Cons.prems by (auto simp: Suc_le_eq)
  have "thread_at (rs_thread_index r) r = Some (?ts ! ?i)"
    using Cons.prems(4) m by (simp add: thread_at_def)
  from choose_thread_step [OF this, of env fd] obtain x r1 where
    s: "choose_thread env fd r = Some (x, r1)" "rs_process_thread_num r1 = rs_process_thread_num r"
    "rs_thread_index r1 = (if rs_thread_index r + 1 \<ge> rs_process_thread_num r - 1 then 0 else rs_thread_index r + 1)"
    "rs_seq_no r1 = (rs_seq_no r + 1) mod 2 ^ 32"
    "rs_process_thread r1 = (if x = Inr ()
       then ?ts[?i := (?ts ! ?i)\<lparr>td_pipe := td_pipe (?ts ! ?i) @ [(fd, (rs_seq_no r + 1) mod 2 ^ 32)]\<rparr>] else ?ts)"
    using Cons.prems(4) by auto
  have idx: "rs_thread_index r1 = int (Suc a mod m)"
  proof -
    have "int k + 1 \<ge> int n - 1 \<longleftrightarrow> Suc k = max 1 (n - 1)" if "k < max 1 (n - 1)" for k n
      using that by (auto simp: max_def split: if_splits)
    from this [OF m(2) [unfolded Cons.prems(3)]] show ?thesis
      unfolding s(3) Cons.prems(1,4) mod_Suc Cons.prems(3) by simp
  qed
  obtain ys r2 where d: "deal cs r1 = (ys, r2)" by (cases "deal cs r1")
  have xs: "xs = x # ys" "r' = r2" using Cons.prems(5) s(1) d by (simp_all add: c)
  have len: "length (rs_process_thread r1) = length ?ts" using s(5) by simp
  have ne: "rs_process_thread r1 \<noteq> []" using len Cons.prems(2) by auto
  have one: "td_pipe (rs_process_thread r1 ! i) = td_pipe (?ts ! i) @ (if x = Inr () \<and> ?i = i then [(fd, (rs_seq_no r + 1) mod 2 ^ 32)] else [])"
    if "i < length ?ts" for i using that by (simp add: s(5) nth_list_update)
  have ih: "length ys = length cs \<and> rs_thread_index r2 = int ((Suc a + length cs) mod m) \<and>
      length (rs_process_thread r2) = length (rs_process_thread r1) \<and>
      (\<forall>i < length (rs_process_thread r1). td_pipe (rs_process_thread r2 ! i)
         = td_pipe (rs_process_thread r1 ! i) @ messages_for i m (Suc a) (rs_seq_no r1) cs ys)"
    using Cons.IH [OF _ ne _ idx d] Cons.prems(1,3) s(2) len by simp
  then show ?case
    unfolding xs messages_for_Cons using one len s(4) by (simp add: c)
qed

text \<open>C6: The accepting thread deals the connections out in turn to the workers 0, 1, ..., m - 1 where
  m = max 1 (number of workers - 1), and numbers them consecutively modulo 2 ^ 32. Whatever each connection's
  outcome, after any sequence of connections (starting with worker 0) the pipe of every worker has gained exactly the
  messages of the connections that were handed over and whose turn it was, in order, with their numbers; so the last
  of two or more workers never receives a connection.\<close>

theorem connections_dealt_round_robin:
  assumes "rs_process_thread_num r = int (length (rs_process_thread r))" "rs_process_thread r \<noteq> []" "rs_thread_index r = 0"
    and m: "m = max 1 (length (rs_process_thread r) - 1)" and d: "deal cs r = (xs, r')"
  shows "length xs = length cs \<and>
    (\<forall>i < length (rs_process_thread r). td_pipe (rs_process_thread r' ! i) = td_pipe (rs_process_thread r ! i) @
       [(snd (cs ! j), (rs_seq_no r + int j + 1) mod 2 ^ 32). j \<leftarrow> [0..<length cs], xs ! j = Inr () \<and> j mod m = i]) \<and>
    (length (rs_process_thread r) \<ge> 2 \<longrightarrow> td_pipe (last (rs_process_thread r')) = td_pipe (last (rs_process_thread r)))"
proof -
  let ?n = "length (rs_process_thread r)"
  have s: "length xs = length cs \<and> rs_thread_index r' = int ((0 + length cs) mod m) \<and> length (rs_process_thread r') = ?n \<and>
    (\<forall>i < ?n. td_pipe (rs_process_thread r' ! i) = td_pipe (rs_process_thread r ! i) @ messages_for i m 0 (rs_seq_no r) cs xs)"
    by (rule deal_spec [OF assms(1,2) m _ d]) (simp add: assms(3))
  have "messages_for (?n - 1) m 0 (rs_seq_no r) cs xs = []" if "?n \<ge> 2"
  proof -
    have "m = ?n - 1" "0 < ?n - 1" using that m by simp_all
    then have "j mod m \<noteq> ?n - 1" for j using less_imp_neq [OF mod_less_divisor [of "?n - 1" j]] by (simp only:) simp
    then show ?thesis by (simp add: messages_for_def)
  qed
  moreover have "rs_process_thread r' \<noteq> []" using s assms(2) by auto
  ultimately show ?thesis using s assms(2) unfolding messages_for_def by (simp add: last_conv_nth)
qed

definition relay3 :: relay where
  "relay3 = relay1\<lparr>rs_process_thread_num := 3, rs_process_thread := replicate 3 thread_new\<rparr>"

definition arrival :: "int \<Rightarrow> bool \<Rightarrow> relay_env \<times> int" where
  "arrival fd ok = (relay_env1\<lparr>re_peer := Inr (''10.0.0.1'', 80), re_pipe := if ok then Inr SIZEOF_PIPE_MSG else Inl []\<rparr>, fd)"

lemma client_init_fresh:
  assumes "k_fcntl k = []" "k_flags k fd = 0"
  shows "\<exists>s. client_init fd i n (Inr peer) now (k, client_new 0) = (Inr (), (k\<lparr>k_fcntl := [], k_flags := (k_flags k)(fd := O_NONBLOCK)\<rparr>, s))
    \<and> cl_seq_no s = n"
proof -
  have "set_nonblock fd True k = (Inr (), k\<lparr>k_fcntl := [], k_flags := (k_flags k)(fd := O_NONBLOCK)\<rparr>)"
    using assms by (simp add: set_nonblock_def sys_getfl_def sys_setfl_def sys_status_def bindS_def sysS_def returnS_def pop_def O_NONBLOCK_def)
  then show ?thesis
    by (simp add: client_init_def client_new_def sock_init_def sock_base.defs seqS_def bindS_def objW_def sysW_def INVALID_SOCKET_def
        client_socket.defs split: prod.split)
qed

lemma arrival_handed_over:
  assumes "thread_at (rs_thread_index r) r = Some td" "client_of fd r = client_new 0" "k_fcntl (w_kernel (rs_pool_env r)) = []"
    "k_flags (w_kernel (rs_pool_env r)) fd = 0"
  shows "\<exists>x r'. choose_thread (fst (arrival fd ok)) fd r = Some (x, r') \<and> (x = Inr ()) = ok \<and> k_fcntl (w_kernel (rs_pool_env r')) = [] \<and>
    (\<forall>g. g \<noteq> fd \<longrightarrow> k_flags (w_kernel (rs_pool_env r')) g = k_flags (w_kernel (rs_pool_env r)) g \<and> client_of g r' = client_of g r)"
proof -
  define i where "i = rs_thread_index r"
  have at: "0 \<le> i" "nat i < length (rs_process_thread r)" "rs_process_thread r ! nat i = td"
    using assms(1) by (simp_all add: i_def thread_at_def split: if_split_asm)
  obtain s where "client_init fd (td_thread_no td) ((rs_seq_no r + 1) mod 2 ^ 32) (Inr (''10.0.0.1'', 80)) (re_now relay_env1)
      (w_kernel (rs_pool_env r), client_new 0) = (Inr (), ((w_kernel (rs_pool_env r))\<lparr>k_fcntl := [],
        k_flags := (k_flags (w_kernel (rs_pool_env r)))(fd := O_NONBLOCK)\<rparr>, s))" "cl_seq_no s = (rs_seq_no r + 1) mod 2 ^ 32"
    using client_init_fresh [OF assms(3,4)] by blast
  then show ?thesis
    using at assms(2) unfolding choose_thread_def i_def [symmetric]
    by (simp add: Let_def arrival_def thread_at_def on_client_def write_pipe_def bindP_def put_thread_def put_client_def client_of_def
      omap_get_def omap_find_set)
qed

lemma deal_handed_over:
  assumes "rs_process_thread_num r = int (length (rs_process_thread r))" "rs_process_thread r \<noteq> []"
    "rs_thread_index r = int (a mod max 1 (length (rs_process_thread r) - 1))" "distinct (map fst fs)"
    "\<forall>fd \<in> fst ` set fs. client_of fd r = client_new 0 \<and> k_flags (w_kernel (rs_pool_env r)) fd = 0"
    "k_fcntl (w_kernel (rs_pool_env r)) = []"
  shows "map (\<lambda>x. x = Inr ()) (fst (deal (map (\<lambda>(fd, ok). arrival fd ok) fs) r)) = map snd fs"
  using assms
proof (induction fs arbitrary: r a)
  case Nil
  then show ?case by simp
next
  case (Cons f fs)
  obtain fd ok where f: "f = (fd, ok)" by (cases f)
  let ?n = "length (rs_process_thread r)"
  have "a mod max 1 (?n - 1) < max 1 (?n - 1)" by simp
  also have "max 1 (?n - 1) \<le> ?n" using Cons.prems(2) by (simp add: Suc_le_eq)
  finally have at: "thread_at (rs_thread_index r) r = Some (rs_process_thread r ! (a mod max 1 (?n - 1)))"
    using Cons.prems(3) by (simp add: thread_at_def)
  obtain x r1 where s: "choose_thread (fst (arrival fd ok)) fd r = Some (x, r1)" "(x = Inr ()) = ok" "k_fcntl (w_kernel (rs_pool_env r1)) = []"
    "\<forall>g. g \<noteq> fd \<longrightarrow> k_flags (w_kernel (rs_pool_env r1)) g = k_flags (w_kernel (rs_pool_env r)) g \<and> client_of g r1 = client_of g r"
  proof -
    have "client_of fd r = client_new 0" "k_flags (w_kernel (rs_pool_env r)) fd = 0" using Cons.prems(5) by (simp_all add: f)
    from arrival_handed_over [OF at this(1) Cons.prems(6) this(2), of ok] show thesis using that by blast
  qed
  have one: "deal [(fst (arrival fd ok), fd)] r = ([x], r1)" by (simp add: s(1))
  have t: "rs_thread_index r1 = int ((a + 1) mod max 1 (?n - 1))" "length (rs_process_thread r1) = ?n"
    using deal_spec [OF Cons.prems(1,2) refl Cons.prems(3) one] by simp_all
  have n: "rs_process_thread_num r1 = rs_process_thread_num r" using choose_thread_step [OF at, of "fst (arrival fd ok)" fd] s(1) by auto
  have "map (\<lambda>x. x = Inr ()) (fst (deal (map (\<lambda>(fd, ok). arrival fd ok) fs) r1)) = map snd fs"
  proof (rule Cons.IH [of r1 "a + 1"])
    show "\<forall>g \<in> fst ` set fs. client_of g r1 = client_new 0 \<and> k_flags (w_kernel (rs_pool_env r1)) g = 0"
    proof
      fix g assume "g \<in> fst ` set fs"
      moreover have "client_of g r = client_new 0 \<and> k_flags (w_kernel (rs_pool_env r)) g = 0"
        by (rule bspec [OF Cons.prems(5)]) (use \<open>g \<in> fst ` set fs\<close> in simp)
      ultimately show "client_of g r1 = client_new 0 \<and> k_flags (w_kernel (rs_pool_env r1)) g = 0"
        using Cons.prems(4) s(4) by (metis f distinct.simps(2) fst_conv list.simps(9) list.set_map)
    qed
  qed (use Cons.prems(1,2,4) s(3) t n in \<open>auto simp: f\<close>)
  then show ?case using s(1,2) by (cases "deal (map (\<lambda>(fd, ok). arrival fd ok) fs) r1") (simp add: f arrival_def)
qed

lemma connections_dealt_round_robin_witness:
  "\<exists>xs r'. deal (map (\<lambda>(fd, ok). arrival fd ok) [(20, True), (21, True), (22, False), (23, True)]) relay3 = (xs, r') \<and>
     td_pipe (rs_process_thread r' ! 0) = [(20, 1)] \<and> td_pipe (rs_process_thread r' ! 1) = [(21, 2), (23, 4)] \<and> td_pipe (last (rs_process_thread r')) = []"
proof -
  let ?cs = "map (\<lambda>(fd, ok). arrival fd ok) [(20, True), (21, True), (22, False), (23, True)]"
  have f: "rs_process_thread_num relay3 = int (length (rs_process_thread relay3))" "rs_process_thread relay3 \<noteq> []" "rs_thread_index relay3 = 0"
    "rs_seq_no relay3 = 0" "rs_process_thread relay3 = [thread_new, thread_new, thread_new]" "td_pipe thread_new = []"
    "rs_client_data relay3 = [(9, waiting_client)]" "k_flags (w_kernel (rs_pool_env relay3)) fd = 0" "k_fcntl (w_kernel (rs_pool_env relay3)) = []" for fd
    by (simp_all add: relay3_def relay1_def thread_new_def numeral_3_eq_3 monitor.defs env0_def kernel0_def)
  obtain xs r' where d: "deal ?cs relay3 = (xs, r')" by (cases "deal ?cs relay3")
  have "map (\<lambda>x. x = Inr ()) (fst (deal ?cs relay3)) = map snd [(20::int, True), (21, True), (22, False), (23, True)]"
    by (rule deal_handed_over [OF f(1,2), of 0]) (simp_all add: f client_of_def omap_get_def omap_find_def)
  then have x: "xs ! 0 = Inr ()" "xs ! 1 = Inr ()" "xs ! 2 \<noteq> Inr ()" "xs ! 3 = Inr ()"
    unfolding d by (auto simp: map_eq_Cons_conv)
  have u: "[0..<4] = [0, 1, 2, 3::nat]" by (simp add: upt_rec)
  show ?thesis
    using connections_dealt_round_robin [OF f(1-3) refl d] x d by (simp add: f u arrival_def eval_nat_numeral mod_Suc)
qed

end
