(* ===== verification/Relay_Rounds.thy ===== *)
theory Relay_Rounds
  imports Relay_Requests
begin

text \<open>
  The relay over a whole run: after a start that succeeds the table of workers is well formed, and every round of
  every thread's event loop, in whatever order they come, keeps it so.
\<close>

section \<open>The table of workers\<close>

definition table_ok :: "relay \<Rightarrow> bool" where
  "table_ok r \<longleftrightarrow> rs_process_thread_num r = int (length (rs_process_thread r)) \<and>
     0 \<le> rs_thread_index r \<and> rs_thread_index r < max 1 (rs_process_thread_num r - 1) \<and>
     0 \<le> rs_seq_no r \<and> rs_seq_no r < 2 ^ 32 \<and>
     map td_thread_no (rs_process_thread r) = map int [0..<length (rs_process_thread r)]"

definition keeps_table :: "relay \<Rightarrow> relay \<Rightarrow> bool" where
  "keeps_table r r' \<longleftrightarrow> (table_ok r \<longrightarrow> table_ok r') \<and> length (rs_process_thread r') = length (rs_process_thread r)"

lemma same_more_table: "same_more r r' \<Longrightarrow> table_ok r = table_ok r' \<and> rs_process_thread r' = rs_process_thread r"
  by (cases r, cases r') (auto simp: same_more_def table_ok_def)

lemma map_update_same: "i < length xs \<Longrightarrow> f y = f (xs ! i) \<Longrightarrow> map f (xs[i := y]) = map f xs"
  by (simp add: map_update list_update_same_conv)

interpretation table: handler_frame keeps_table c for c
proof unfold_locales
  fix i r td q mo assume "thread_at i r = Some td"
  then have "nat i < length (rs_process_thread r)" "rs_process_thread r ! nat i = td"
    by (simp_all add: thread_at_def split: if_split_asm)
  then show "keeps_table r (put_thread i (td\<lparr>td_pipe := q\<rparr>) r)" "keeps_table r (put_thread i (td\<lparr>td_monitor := mo\<rparr>) r)"
    by (auto simp: keeps_table_def table_ok_def put_thread_def map_update_same)
qed (auto simp: keeps_table_def table_ok_def max_def dest: same_more_table)

text \<open>The handlers of the accepting and the reading thread work for whatever client the system names.\<close>

lemma keep_process_accept: "keepsP keeps_table (process_accept env fd)"
proof -
  have "keepsP keeps_table (\<lambda>r. throwP (g r) r)" for g :: "relay \<Rightarrow> fault"
    by (simp add: keepsP_def throwP_def keeps_table_def)
  then have "keepsP keeps_table (bindP (on_kernel (accept fd)) (\<lambda>client_fd.
      if client_fd < 0
      then (\<lambda>r. throwP (THROW CServerException ERR_SOCKET_AGAIN
              (''accept error: '' @ k_strerror (w_kernel (rs_pool_env r)) (k_errno (w_kernel (rs_pool_env r))))) r)
      else bindP (find_client env client_fd) (\<lambda>_. rethrowP (choose_thread env client_fd) (\<lambda>n w.
             bindP (on_kernel (close client_fd)) (\<lambda>_. on_client client_fd client_fini)))))"
    by (intro table.keep_bind table.keep_if table.keep_on_kernel table.keep_accept_client)
  then show ?thesis
    unfolding keepsP_def process_accept_def by (auto simp: keeps_table_def)
qed

lemma keep_process_dispatch: "keepsP keeps_table (process_dispatch env fd)"
  unfolding process_dispatch_def
  by (intro table.keep_bind table.keep_read_pipe table.keep_prod table.keep_dispatch_client)

lemma keep_relay_handler: "keepsP keeps_table (relay_handler env f fd active param p)"
  unfolding relay_handler_def client_accept_handler_def process_thread_handle_def
  by (intro table.keep_if table.keep_catch table.keep_get keep_process_accept keep_process_dispatch
      table.keep_dispatch_handler table.keep_service_handler)

section \<open>Rounds\<close>

context worker_frame
begin

lemma keep_process_event:
  assumes "\<And>f fd active param p. keepsP same (run f fd active param p)"
  shows "keepsP same (process_event run now p what)"
  unfolding keepsP_def
proof (intro allI impI)
  fix r x r' assume a: "process_event run now p what r = Some (x, r')"
  have h: "same r (r\<lparr>mo_heap := h\<rparr>)" for h by (rule monitors) (simp add: same_more_def)
  have run: "same s s'" if "handler_run run p s = Some (y, s')" for s y s'
    using that keepsP_D [OF assms] same_refl by (auto simp: handler_run_def split: option.splits if_splits)
  show "same r r'"
  proof (cases "mo_heap r p")
    case None
    then show ?thesis using a same_refl by (simp add: process_event_def)
  next
    case (Some e)
    then show ?thesis using a by (simp add: process_event_def) (rule same_trans [OF h run])
  qed
qed

lemma keep_process_events:
  assumes "\<And>f fd active param p. keepsP same (run f fd active param p)"
  shows "keepsP same (process_events run evs)"
proof (induction evs)
  case Nil
  show ?case unfolding process_events.simps by (rule keep_get)
next
  case (Cons ev evs)
  obtain now p what where "ev = (now, p, what)" by (cases ev)
  then show ?case unfolding process_events.simps by (auto intro: keep_bind keep_process_event [OF assms] Cons.IH)
qed

lemma keep_monitor_once:
  assumes "\<And>f fd active param p. keepsP same (run f fd active param p)"
  shows "keepsP same (monitor_once run time ready)"
proof -
  have "keepsP same (heart_beat time)"
    unfolding heart_beat_def by (rule keep_mod) (simp add: monitors same_more_def)
  then have "keepsP same (bindP (case ready of None \<Rightarrow> liftP (returnS ()) | Some evs \<Rightarrow> process_events run evs)
      (\<lambda>_. bindP (heart_beat time) (\<lambda>_. liftP (returnS True))))"
    by (cases ready) (auto intro!: keep_bind keep_get keep_process_events assms)
  then show ?thesis unfolding monitor_once_def keepsP_def using same_refl by auto
qed

lemma keep_switch_thread:
  assumes "\<And>s i. same s (s\<lparr>rs_running := i\<rparr>)" "\<And>s m. same s (s\<lparr>rs_accept := m\<rparr>)"
  shows "same r (switch_thread i r)"
proof -
  define r1 where "r1 = (case thread_at (rs_running r) r of None \<Rightarrow> r\<lparr>rs_accept := monitor.truncate r\<rparr>
      | Some td \<Rightarrow> put_thread (rs_running r) (td\<lparr>td_monitor := monitor.truncate r\<rparr>) r)"
  have "same r r1" unfolding r1_def using threads(2) assms(2) by (auto split: option.split)
  then show ?thesis
    unfolding switch_thread_def Let_def r1_def [symmetric] using load_same assms(1) same_trans by blast
qed

end

lemma run_keeps_table: "relay_run rounds r = Some (x, r') \<Longrightarrow> keeps_table r r'"
proof (induction rounds arbitrary: r)
  case Nil
  then show ?case by (simp add: table.same_refl)
next
  case (Cons round rounds)
  obtain i env time ready where round: "round = (i, env, time, ready)" by (cases round)
  have s: "keeps_table r (switch_thread i r)"
    by (rule table.keep_switch_thread) (auto simp: keeps_table_def table_ok_def)
  have "bindP (monitor_once (relay_handler env) time ready)
      (\<lambda>goes_on. if goes_on then relay_run rounds else liftP (returnS False)) (switch_thread i r) = Some (x, r')"
    using Cons.prems by (simp add: round)
  then show ?case
  proof (rule bindP_cases)
    fix e assume "monitor_once (relay_handler env) time ready (switch_thread i r) = Some (Inl e, r')"
    from keepsP_D [OF table.keep_monitor_once [OF keep_relay_handler] this] show ?thesis by (rule table.same_trans [OF s])
  next
    fix b r1 assume a: "monitor_once (relay_handler env) time ready (switch_thread i r) = Some (Inr b, r1)"
      "(if b then relay_run rounds else liftP (returnS False)) r1 = Some (x, r')"
    have "keeps_table r r1"
      using table.same_trans [OF s keepsP_D [OF table.keep_monitor_once [OF keep_relay_handler] a(1)]] .
    moreover have "keeps_table r1 r'" using a(2) Cons.IH by (cases b) (auto simp: table.same_refl)
    ultimately show ?thesis by (rule table.same_trans)
  qed
qed

section \<open>The start\<close>

text \<open>Once made, the numbers of the workers stay, and so do the two counters of the accepting thread.\<close>

definition same_table :: "relay \<Rightarrow> relay \<Rightarrow> bool" where
  "same_table r r' \<longleftrightarrow> map td_thread_no (rs_process_thread r') = map td_thread_no (rs_process_thread r) \<and>
     rs_process_thread_num r' = rs_process_thread_num r \<and> rs_thread_index r' = rs_thread_index r \<and> rs_seq_no r' = rs_seq_no r \<and>
     rs_running r' = rs_running r \<and> rs_pool_env r' = rs_pool_env r"

lemma same_more_same_table: "same_more r r' \<Longrightarrow> same_table r (r' :: relay)"
  by (cases r, cases r') (auto simp: same_more_def same_table_def)

interpretation fixed: worker_frame same_table
proof unfold_locales
  fix i r td q mo assume "thread_at i r = Some td"
  then have "nat i < length (rs_process_thread r)" "rs_process_thread r ! nat i = td"
    by (simp_all add: thread_at_def split: if_split_asm)
  then show "same_table r (put_thread i (td\<lparr>td_pipe := q\<rparr>) r)" "same_table r (put_thread i (td\<lparr>td_monitor := mo\<rparr>) r)"
    by (auto simp: same_table_def put_thread_def map_update_same)
qed (auto simp: same_table_def dest: same_more_same_table)

lemma bindP_assoc: "bindP (bindP m f) g = bindP m (\<lambda>x. bindP (f x) g)"
  by (auto simp: bindP_def fun_eq_iff split: option.split sum.split)

lemma bindP_InrE:
  assumes "bindP m f s = Some (Inr y, s'')"
  obtains x s' where "m s = Some (Inr x, s')" "f x s' = Some (Inr y, s'')"
  using assms by (rule bindP_cases) auto

lemma monitor_init_more: "keepsP same_more (liftP (monitor_init epoll_fd))"
  by (auto simp: keepsP_def monitor_init_def same_more_def)

lemma init_thread_table:
  assumes "init_thread inp i r = Some (Inr (), r')"
  shows "\<exists>td. td_thread_no td = i \<and> same_table (put_thread i td r) r'"
proof -
  obtain w d where p: "ti_pipe inp = Inr (w, d)"
    using assms by (cases "ti_pipe inp") (auto simp: init_thread_def throwP_def)
  define td where "td = thread_new\<lparr>td_thread_no := i, td_write_fd := w, td_read_fd := d\<rparr>"
  have "keepsP same_table (bindP (on_thread i (liftP (monitor_init (ti_epoll_fd inp)))) (\<lambda>_.
      on_thread i (add_event (ti_env inp) d (EV_READ + EV_PERSIST) (Some PROCESS_THREAD_HANDLE) 0 0)))"
    by (intro fixed.keep_bind fixed.keep_on_thread monitor_init_more event_ops_more)
  from keepsP_D [OF this, of "put_thread i td r" "Inr ()" r'] show ?thesis
    using assms by (intro exI [of _ td]) (simp add: init_thread_def p td_def bindP_def)
qed

lemma init_threads_table:
  assumes "init_threads inputs n r = Some (Inr (), r')" "n \<le> length (rs_process_thread r)"
  shows "map td_thread_no (rs_process_thread r') = map int [0..<n] @ drop n (map td_thread_no (rs_process_thread r)) \<and>
    rs_process_thread_num r' = rs_process_thread_num r \<and> rs_thread_index r' = rs_thread_index r \<and> rs_seq_no r' = rs_seq_no r \<and>
    rs_running r' = rs_running r \<and> rs_pool_env r' = rs_pool_env r"
  using assms
proof (induction n arbitrary: r')
  case 0
  then show ?case by (simp add: doneP_def)
next
  case (Suc n)
  obtain r1 where a: "init_threads inputs n r = Some (Inr (), r1)" "init_thread (inputs n) (int n) r1 = Some (Inr (), r')"
    using Suc.prems(1) by (auto elim: bindP_InrE)
  obtain td where td: "td_thread_no td = int n" "same_table (put_thread (int n) td r1) r'"
    using init_thread_table [OF a(2)] by blast
  have ih: "map td_thread_no (rs_process_thread r1) = map int [0..<n] @ drop n (map td_thread_no (rs_process_thread r))"
    "rs_process_thread_num r1 = rs_process_thread_num r" "rs_thread_index r1 = rs_thread_index r" "rs_seq_no r1 = rs_seq_no r"
    "rs_running r1 = rs_running r" "rs_pool_env r1 = rs_pool_env r"
    using Suc.IH [OF a(1)] Suc.prems(2) by simp_all
  have "drop n (map td_thread_no (rs_process_thread r))
      = map td_thread_no (rs_process_thread r) ! n # drop (Suc n) (map td_thread_no (rs_process_thread r))"
    using Suc.prems(2) Cons_nth_drop_Suc [of n "map td_thread_no (rs_process_thread r)"] by simp
  then show ?case
    using td ih by (simp add: same_table_def put_thread_def map_update list_update_append)
qed

lemma init_process_thread_ok:
  assumes "init_process_thread inputs r = Some (Inr (), r')" "rs_thread_index r = 0" "rs_seq_no r = 0"
  shows "table_ok r' \<and> length (rs_process_thread r') = nat (sc_thread_num (rs_sys_conf r))"
proof -
  let ?num = "sc_thread_num (rs_sys_conf r)"
  have n: "0 \<le> ?num" using assms(1) by (simp add: init_process_thread_def throwP_def bindP_def split: if_split_asm)
  define r1 where "r1 = r\<lparr>rs_process_thread_num := ?num, rs_process_thread := replicate (nat ?num) thread_new\<rparr>"
  have i: "init_threads inputs (nat ?num) r1 = Some (Inr (), r')"
    using assms(1) n by (simp add: init_process_thread_def bindP_def r1_def)
  have t: "map td_thread_no (rs_process_thread r') = map int [0..<nat ?num]" "rs_process_thread_num r' = ?num"
      "rs_thread_index r' = 0" "rs_seq_no r' = 0"
    using init_threads_table [OF i] assms(2,3) by (simp_all add: r1_def)
  have "length (rs_process_thread r') = nat ?num" using arg_cong [OF t(1), of length] by simp
  then show ?thesis using t n by (simp add: table_ok_def)
qed

text \<open>Reading the configuration leaves the counters alone.\<close>

definition same_start :: "relay \<Rightarrow> relay \<Rightarrow> bool" where
  "same_start r r' \<longleftrightarrow> rs_thread_index r' = rs_thread_index r \<and> rs_seq_no r' = rs_seq_no r"

interpretation start: preorder_frame same_start
  by unfold_locales (simp_all add: same_start_def)

lemma keep_part: "(\<And>r s. R r (put (\<lambda>_. s) r)) \<Longrightarrow> keepsP R (part get put m)"
  by (auto simp: keepsP_def part_def split: prod.splits)

lemma start_parts:
  "keepsP same_start (part rs_sys_conf rs_sys_conf_update m1)"
  "keepsP same_start (part rs_request_type_conf rs_request_type_conf_update m2)"
  "keepsP same_start (part rs_core_server_conf rs_core_server_conf_update m3)"
  "keepsP same_start (part rs_access_conf rs_access_conf_update m4)"
  "keepsP same_start (part rs_freqlimit_conf rs_freqlimit_conf_update m5)"
  "keepsP same_start (part rs_errcode_escape rs_errcode_escape_update m6)"
  "keepsP same_start (part rs_service_stats_conf rs_service_stats_conf_update m7)"
  "keepsP same_start (part rs_site_stats_conf rs_site_stats_conf_update m8)"
  "keepsP same_start (part rs_detail_services rs_detail_services_update m9)"
  "keepsP same_start (part rs_service_authorize_access rs_service_authorize_access_update m10)"
  "keepsP same_start (part rs_pool_env rs_pool_env_update m11)"
  by (auto intro!: keep_part simp: same_start_def)

lemma start_core: "keepsP same_start (on_core m)"
  by (auto simp: keepsP_def on_core_def same_start_def split: prod.splits)

lemma start_read_routes: "keepsP same_start (read_routes cf ks)"
proof (induction ks)
  case Nil
  show ?case unfolding read_routes.simps by (rule start.keep_get)
next
  case (Cons k ks)
  show ?case unfolding read_routes.simps by (intro start.keep_bind start_parts Cons.IH)
qed

lemma start_read_conf: "keepsP same_start (read_conf cf)"
  unfolding read_conf_def read_all_routes_def on_hasite_def on_env_def
  by (intro start.keep_bind start.keep_get start_parts start_read_routes)

lemma keep_init_accept_socket: "keepsP keeps_table (init_accept_socket epoll_fd env)"
  unfolding init_accept_socket_def
  by (intro table.keep_bind table.keep_prod table.keep_on_kernel table.keep_get table.keep_mod table.keep_monitor_op
      monitor_init_more event_ops_more) (auto simp: keeps_table_def table_ok_def)

lemma init_table_ok:
  assumes "relay_server_init cf inputs epoll_fd env r = Some (Inr (), r')" "rs_thread_index r = 0" "rs_seq_no r = 0"
  shows "table_ok r'"
proof -
  define before where "before = bindP (read_conf cf) (\<lambda>_.
     bindP (liftP (modS (\<lambda>r. r\<lparr>rs_pool_env := (rs_pool_env r)\<lparr>w_keepalive := sc_keepalive_idle (rs_sys_conf r)\<rparr>\<rparr>))) (\<lambda>_.
     bindP (on_core init_api_pool) (\<lambda>_.
     bindP (liftP (modS (\<lambda>r. r\<lparr>rs_relay_switch_mgr :=
              switch_mgr_init (cf_now cf) (rs_service_stats_conf r) (rs_site_stats_conf r) (rs_relay_switch_mgr r)\<rparr>))) (\<lambda>_.
       part rs_service_authorize_access rs_service_authorize_access_update
         (authorize_init SERVICE_AUTHORIZE_ACCESS_CONF (cf_file cf SERVICE_AUTHORIZE_ACCESS_CONF))))))"
  have k: "keepsP same_start before"
    unfolding before_def
    by (intro start.keep_bind start_read_conf start.keep_mod start_core start_parts) (auto simp: same_start_def)
  have "bindP before (\<lambda>_. bindP (init_process_thread inputs) (\<lambda>_. init_accept_socket epoll_fd env)) r = Some (Inr (), r')"
    using assms(1) by (simp add: relay_server_init_def before_def bindP_assoc)
  then obtain r1 r2 where s: "before r = Some (Inr (), r1)" "init_process_thread inputs r1 = Some (Inr (), r2)"
      "init_accept_socket epoll_fd env r2 = Some (Inr (), r')"
    by (auto elim!: bindP_InrE)
  have "table_ok r2" using init_process_thread_ok [OF s(2)] keepsP_D [OF k s(1)] assms(2,3) by (simp add: same_start_def)
  then show ?thesis using keepsP_D [OF keep_init_accept_socket s(3)] by (simp add: keeps_table_def)
qed

section \<open>A concrete start\<close>

text \<open>A configuration of one site and four workers, and no routes.\<close>

definition sample_conf :: conf_env where
  "sample_conf = \<lparr>cf_file = (\<lambda>name. if name = SYSTEM_CONF then conf_of (map kv_line sample_settings) else File [] None),
     cf_xml = Inr [Element ''hasite'' [] [site_example [''sz'', ''sh'']]], cf_now = 0, cf_beyond = [], cf_unset_key = 0\<rparr>"

lemma read_nothing:
  "config_read_conf get_line name (File [] None) c = (Inr (), c)"
  "stats_conf_init cast name (File [] None) sc = (Inr (), sc\<lparr>sw_is_init := True\<rparr>)"
  "errcode_read_conf beyond name (File [] None) ec = (Inr (), ec)"
  "detail_read_conf name (File [] None) dc = (Inr (), {})"
proof -
  have "fgets_lines n [] = []" for n by (subst fgets_lines.simps) simp
  then show "config_read_conf get_line name (File [] None) c = (Inr (), c)"
    "stats_conf_init cast name (File [] None) sc = (Inr (), sc\<lparr>sw_is_init := True\<rparr>)"
    "errcode_read_conf beyond name (File [] None) ec = (Inr (), ec)"
    "detail_read_conf name (File [] None) dc = (Inr (), {})"
    by (simp_all add: config_read_conf_def seqS_def bindS_def stats_conf_init_def stats_read_conf_def errcode_read_conf_def
        detail_read_conf_def returnS_def modS_def)
qed

lemma read_nothing_parts:
  "bindP (part rs_core_server_conf rs_core_server_conf_update (\<lambda>c.
     case core_read_conf name (File [] None) (cc_conf c) of (x, d) \<Rightarrow> (x, c\<lparr>cc_conf := d\<rparr>))) f r = f () r"
  "bindP (part rs_access_conf rs_access_conf_update (access_read_conf name (File [] None))) f r = f () r"
  "bindP (part rs_freqlimit_conf rs_freqlimit_conf_update (freq_read_conf beyond now name (File [] None))) f r = f () r"
  "bindP (part rs_errcode_escape rs_errcode_escape_update (errcode_read_conf beyond name (File [] None))) f r = f () r"
  "bindP (part rs_service_stats_conf rs_service_stats_conf_update (stats_conf_init cast name (File [] None))) g r
     = g () (r\<lparr>rs_service_stats_conf := (rs_service_stats_conf r)\<lparr>sw_is_init := True\<rparr>\<rparr>)"
  "bindP (part rs_site_stats_conf rs_site_stats_conf_update (stats_conf_init cast' name (File [] None))) g r
     = g () (r\<lparr>rs_site_stats_conf := (rs_site_stats_conf r)\<lparr>sw_is_init := True\<rparr>\<rparr>)"
  "part rs_detail_services rs_detail_services_update (detail_read_conf name (File [] None)) r = Some (Inr (), r\<lparr>rs_detail_services := {}\<rparr>)"
  by (simp_all add: bindP_def part_def core_read_conf_def access_read_conf_def freq_read_conf_def read_nothing)

lemma sample_conf_files: "cf_file sample_conf name = (if name = SYSTEM_CONF then conf_of (map kv_line sample_settings) else File [] None)"
    "cf_xml sample_conf = Inr [Element ''hasite'' [] [site_example [''sz'', ''sh'']]]"
  by (simp_all add: sample_conf_def)

lemma other_names:
  "CORE_SERVER_CONF \<noteq> SYSTEM_CONF" "ACCESS_CONF \<noteq> SYSTEM_CONF" "FRELIMIT_CONF \<noteq> SYSTEM_CONF" "ERRCODE_ESCAPE_CONF \<noteq> SYSTEM_CONF"
  "SERVICE_STATS_CONF \<noteq> SYSTEM_CONF" "SITE_STATS_CONF \<noteq> SYSTEM_CONF" "DETAIL_INFO_SERVICE_CONF \<noteq> SYSTEM_CONF"
  "SERVICE_AUTHORIZE_ACCESS_CONF \<noteq> SYSTEM_CONF" "''./conf/RequestAppServer.conf'' \<noteq> SYSTEM_CONF"
  by code_simp+

lemma sample_hasite: "\<exists>m. hasite_read_conf HASITE_CONF (cf_xml sample_conf) [] = (Inr (), m)"
proof -
  obtain m where "get_site_info (site_example [''sz'', ''sh'']) [] = (Inr (), m)"
    by (simp add: get_site_info_def site_example_def node_example_def bindS_def seqS_def NODE_ATTR_def with_site_eq
        NODE_ATTR_WITH_DEFAULT_def get_protocol_type_def elements_from_def add_sitenode_def Let_def MAX_HASITENODE_def)
  then show ?thesis
    by (simp add: hasite_read_conf_def get_hasite_conf_def sample_conf_files elements_from_def site_example_def seqS_def bindS_def)
qed

lemma relay_new_fields:
  "rs_sys_conf (relay_new k) = no_settings" "rs_request_type_conf (relay_new k) = \<lparr>c_data = [], c_rows = 0\<rparr>"
  "cc_conf (rs_core_server_conf (relay_new k)) = \<lparr>c_data = [], c_rows = 0\<rparr>" "rs_access_conf (relay_new k) = \<lparr>c_data = [], c_rows = 0\<rparr>"
  "w_hasite (rs_pool_env (relay_new k)) = []" "rs_running (relay_new k) = - 1" "w_kernel (rs_pool_env (relay_new k)) = k"
  "monitor.truncate (relay_new k) = monitor_new" "rs_thread_index (relay_new k) = 0" "rs_seq_no (relay_new k) = 0"
  by (simp_all add: relay_new_def monitor.defs)

lemma sample_read_conf:
  "\<exists>r. read_conf sample_conf (relay_new k) = Some (Inr (), r) \<and> rs_running r = - 1 \<and> sc_thread_num (rs_sys_conf r) = 4 \<and>
     w_kernel (rs_pool_env r) = k \<and> monitor.truncate r = monitor_new"
proof -
  obtain s where s: "sysconf_init SYSTEM_CONF (conf_of (map kv_line sample_settings)) no_settings = (Inr (), s)" "sc_thread_num s = 4"
      "map rk_conf_file (sc_request_key s) = [''./conf/RequestAppServer.conf'']"
    using sample_init [of SYSTEM_CONF] by (elim exE conjE) (rule that)
  then obtain rk where rk: "sc_request_key s = [rk]" "rk_conf_file rk = ''./conf/RequestAppServer.conf''" by (auto simp only: map_eq_Cons_conv map_is_Nil_conv)
  obtain m where m: "hasite_read_conf HASITE_CONF (cf_xml sample_conf) [] = (Inr (), m)" using sample_hasite by blast
  note files = sample_conf_files(1) [of CORE_SERVER_CONF, unfolded if_not_P [OF other_names(1)]] sample_conf_files(1) [of ACCESS_CONF, unfolded if_not_P [OF other_names(2)]]
    sample_conf_files(1) [of FRELIMIT_CONF, unfolded if_not_P [OF other_names(3)]] sample_conf_files(1) [of ERRCODE_ESCAPE_CONF, unfolded if_not_P [OF other_names(4)]]
    sample_conf_files(1) [of SERVICE_STATS_CONF, unfolded if_not_P [OF other_names(5)]] sample_conf_files(1) [of SITE_STATS_CONF, unfolded if_not_P [OF other_names(6)]]
    sample_conf_files(1) [of DETAIL_INFO_SERVICE_CONF, unfolded if_not_P [OF other_names(7)]]
  note start = relay_new_fields s(1) rk m other_names sample_conf_files read_nothing
  define r1 where "r1 = (relay_new k)\<lparr>rs_sys_conf := s\<rparr>"
  have "part rs_sys_conf rs_sys_conf_update (sysconf_init SYSTEM_CONF (cf_file sample_conf SYSTEM_CONF)) (relay_new k) = Some (Inr (), r1)"
    unfolding part_def relay_new_fields sample_conf_files(1) if_P [OF refl] s(1) r1_def by simp
  moreover have "read_all_routes sample_conf r1 = Some (Inr (), r1)"
  proof -
    have same: "r1\<lparr>rs_request_type_conf := \<lparr>c_data = [], c_rows = 0\<rparr>\<rparr> = r1"
      by (simp add: r1_def relay_new_def monitor.defs)
    have "rs_request_type_conf r1 = \<lparr>c_data = [], c_rows = 0\<rparr>" "rs_sys_conf r1 = s" by (simp_all add: r1_def start)
    then show ?thesis
      by (simp add: read_all_routes_def part_def bindP_def rk other_names sample_conf_files read_nothing request_clear_def config_clear_def
          request_read_conf_def doneP_def same)
  qed
  moreover have "on_hasite (hasite_read_conf HASITE_CONF (cf_xml sample_conf)) r1
      = Some (Inr (), r1\<lparr>rs_pool_env := (rs_pool_env r1)\<lparr>w_hasite := m\<rparr>\<rparr>)"
    using m by (simp add: on_hasite_def on_env_def hasiteE_def part_def r1_def start)
  ultimately have "\<exists>r2. read_conf sample_conf (relay_new k) = Some (Inr (), r2) \<and> rs_running r2 = rs_running r1 \<and>
      rs_sys_conf r2 = s \<and> w_kernel (rs_pool_env r2) = w_kernel (rs_pool_env r1) \<and> monitor.truncate r2 = monitor.truncate r1"
    unfolding read_conf_def
    by (simp only: read_nothing_parts files bindP_Some [where m = "part rs_sys_conf rs_sys_conf_update m" for m]
        bindP_Some [where m = "read_all_routes m" for m] bindP_Some [where m = "on_hasite m" for m])
      (simp add: r1_def monitor.defs)
  moreover have "rs_running r1 = - 1" "w_kernel (rs_pool_env r1) = k" by (simp_all add: r1_def relay_new_fields)
  moreover have "monitor.truncate r1 = monitor.truncate (relay_new k)" by (simp add: r1_def monitor.defs)
  ultimately show ?thesis using s(2) unfolding relay_new_fields by metis
qed

text \<open>A worker whose pipe and \<open>epoll\<close> descriptor the system gives starts.\<close>

definition good_input :: "thread_input \<Rightarrow> bool" where
  "good_input inp \<longleftrightarrow> (\<exists>w d. ti_pipe inp = Inr (w, d) \<and> 0 \<le> d) \<and> 0 \<le> ti_epoll_fd inp \<and>
     me_fstat (ti_env inp) = None \<and> me_ctl (ti_env inp) = None"

lemma monitor_ok_new_epoll: "monitor_ok (load_monitor (monitor_new\<lparr>mo_epoll_fd := x, mo_interest := Map.empty\<rparr>) r) Map.empty"
  using monitor1_ok by (simp add: monitor_ok_def load_monitor_def monitor1_def monitor_new_def)

lemma first_event_added:
  assumes "me_fstat env = None" "me_ctl env = None" "0 \<le> fd" "handler \<noteq> None" "monitor_ok mo Map.empty" "0 \<le> mo_epoll_fd mo"
    "mo_interest mo = Map.empty"
  shows "\<exists>mo'. add_event env fd event handler param t mo = Some (Inr (), mo')"
proof -
  have "epoll_ctl_error env False fd mo = None" using assms by (simp add: epoll_ctl_error_def)
  then obtain mo' where "monitor_add env fd event handler param t mo = Some (Inr 0, mo')"
    using monitor_add_spec [OF assms(5) _ assms(3,4), of env event param t] assms(1) by auto
  then show ?thesis by (simp add: add_event_def)
qed

lemma init_thread_starts:
  assumes "good_input inp" "i < length (rs_process_thread r)" "rs_running r = - 1"
  shows "\<exists>r'. init_thread inp (int i) r = Some (Inr (), r')"
proof -
  obtain w d where p: "ti_pipe inp = Inr (w, d)" "0 \<le> d" using assms(1) by (auto simp: good_input_def)
  define td where "td = thread_new\<lparr>td_thread_no := int i, td_write_fd := w, td_read_fd := d\<rparr>"
  define mo where "mo = monitor_new\<lparr>mo_epoll_fd := ti_epoll_fd inp, mo_interest := Map.empty\<rparr>"
  define r1 where "r1 = put_thread (int i) td r"
  have td: "thread_at (int i) r1 = Some td" "int i \<noteq> rs_running r1" "td_monitor td = monitor_new"
    using assms(2,3) by (simp_all add: r1_def thread_at_def put_thread_def td_def thread_new_def)
  define r2 where "r2 = load_monitor (monitor.truncate r1) (put_thread (int i) (td\<lparr>td_monitor := mo\<rparr>) (load_monitor mo r1))"
  have one: "on_thread (int i) (liftP (monitor_init (ti_epoll_fd inp))) r1 = Some (Inr (), r2)"
    using td assms(1) unfolding on_thread_def
    by (simp add: monitor_init_def load_monitor_def monitor_new_def good_input_def r2_def mo_def monitor.defs put_thread_def)
  have td2: "thread_at (int i) r2 = Some (td\<lparr>td_monitor := mo\<rparr>)" "int i \<noteq> rs_running r2"
    using td assms(2) by (simp_all add: r2_def r1_def thread_at_def put_thread_def load_monitor_def)
  have "\<exists>r3. add_event (ti_env inp) d (EV_READ + EV_PERSIST) (Some PROCESS_THREAD_HANDLE) 0 0 (load_monitor mo r2) = Some (Inr (), r3)"
  proof (rule first_event_added)
    show "monitor_ok (load_monitor mo r2) Map.empty" unfolding mo_def by (rule monitor_ok_new_epoll)
  qed (use assms(1) p(2) in \<open>simp_all add: good_input_def mo_def load_monitor_def\<close>)
  then have "\<exists>r'. on_thread (int i) (add_event (ti_env inp) d (EV_READ + EV_PERSIST) (Some PROCESS_THREAD_HANDLE) 0 0) r2 = Some (Inr (), r')"
    using td2 by (auto simp: on_thread_def)
  then show ?thesis using one by (auto simp: init_thread_def p td_def r1_def bindP_def)
qed

lemma on_thread_truncate:
  "i \<noteq> rs_running r \<Longrightarrow> on_thread i m r = Some (x, r') \<Longrightarrow> monitor.truncate r' = monitor.truncate r"
  by (auto simp: on_thread_def load_monitor_def monitor.defs split: option.splits)

lemma init_thread_truncate:
  assumes "init_thread inp i r = Some (Inr (), r')" "i \<noteq> rs_running r"
  shows "monitor.truncate r' = monitor.truncate r"
proof -
  obtain w d where p: "ti_pipe inp = Inr (w, d)"
    using assms(1) by (cases "ti_pipe inp") (auto simp: init_thread_def throwP_def)
  define r1 where "r1 = put_thread i (thread_new\<lparr>td_thread_no := i, td_write_fd := w, td_read_fd := d\<rparr>) r"
  obtain r2 where s: "on_thread i (liftP (monitor_init (ti_epoll_fd inp))) r1 = Some (Inr (), r2)"
      "on_thread i (add_event (ti_env inp) d (EV_READ + EV_PERSIST) (Some PROCESS_THREAD_HANDLE) 0 0) r2 = Some (Inr (), r')"
    using assms(1) by (auto simp: init_thread_def p r1_def elim!: bindP_InrE)
  have n: "i \<noteq> rs_running r1" using assms(2) by (simp add: r1_def put_thread_def)
  moreover have "rs_running r2 = rs_running r1"
    using keepsP_D [OF fixed.keep_on_thread [OF monitor_init_more] s(1)] by (simp add: same_table_def)
  ultimately have "monitor.truncate r' = monitor.truncate r1"
    using on_thread_truncate [OF _ s(2)] on_thread_truncate [OF n s(1)] by simp
  then show ?thesis by (simp add: r1_def put_thread_def monitor.defs)
qed

lemma init_threads_start:
  assumes "\<forall>i < n. good_input (inputs i)" "n \<le> length (rs_process_thread r)" "rs_running r = - 1"
  shows "\<exists>r'. init_threads inputs n r = Some (Inr (), r') \<and> monitor.truncate r' = monitor.truncate r"
  using assms
proof (induction n)
  case 0
  then show ?case by (simp add: doneP_def)
next
  case (Suc n)
  obtain r1 where r1: "init_threads inputs n r = Some (Inr (), r1)" "monitor.truncate r1 = monitor.truncate r" using Suc by auto
  have t: "map td_thread_no (rs_process_thread r1) = map int [0..<n] @ drop n (map td_thread_no (rs_process_thread r))" "rs_running r1 = - 1"
    using init_threads_table [OF r1(1)] Suc.prems by simp_all
  have "n < length (rs_process_thread r1)" using arg_cong [OF t(1), of length] Suc.prems(2) by simp
  then obtain r2 where "init_thread (inputs n) (int n) r1 = Some (Inr (), r2)"
    using init_thread_starts [of "inputs n" n r1] Suc.prems t(2) by auto
  then show ?case using r1 init_thread_truncate [of "inputs n" "int n" r1 r2] t(2) by (simp add: bindP_def)
qed

text \<open>A system without errors, whose next socket is 3.\<close>

definition quiet :: "kernel \<Rightarrow> bool" where
  "quiet k \<longleftrightarrow> k_setsockopt k = [] \<and> k_bind k = [] \<and> k_listen k = [] \<and> k_fcntl k = [] \<and> k_flags k 3 = 0 \<and>
     k_addrinfo k = (\<lambda>ip port. Inr ip)"

lemma set_reuser_addr_quiet: "quiet k \<Longrightarrow> \<exists>k'. set_reuser_addr fd k = (Inr (), k') \<and> quiet k'"
  by (simp add: quiet_def set_reuser_addr_def set_sock_opt_def sys_setsockopt_def sys_status_def pop_def bindS_def sysS_def returnS_def)

lemma quiet_steps:
  assumes "quiet k"
  shows "\<exists>k'. net_bind_ip 3 ip port k = (Inr (), k') \<and> quiet k'" "\<exists>k'. nonblock_listen 3 n k = (Inr (), k')"
proof -
  obtain k' where "set_reuser_addr 3 k = (Inr (), k')" "quiet k'" using set_reuser_addr_quiet [OF assms] by blast
  then show "\<exists>k'. net_bind_ip 3 ip port k = (Inr (), k') \<and> quiet k'"
    using assms by (simp add: quiet_def net_bind_ip_def seqS_def bindS_def sys_bind_def sys_status_def pop_def sysS_def returnS_def)
  show "\<exists>k'. nonblock_listen 3 n k = (Inr (), k')"
    using assms by (simp add: quiet_def nonblock_listen_def set_nonblock_def sys_getfl_def sys_setfl_def sys_status_def bindS_def seqS_def
        sysS_def returnS_def pop_def O_NONBLOCK_def listen_def sys_listen_def)
qed

lemma on_kernel_step:
  assumes "m (w_kernel (rs_pool_env r)) = (Inr x, k')"
  shows "bindP (on_kernel m) f r = f x (r\<lparr>rs_pool_env := (rs_pool_env r)\<lparr>w_kernel := k'\<rparr>\<rparr>)"
  using assms by (simp add: bindP_def on_kernel_def on_env_def part_def)

lemma accept_socket_starts:
  assumes "w_kernel (rs_pool_env r) = kernel0\<lparr>k_socket := [Inr 3]\<rparr>" "monitor.truncate r = monitor_new"
    "0 \<le> epoll_fd" "me_fstat env = None" "me_ctl env = None"
  shows "\<exists>r'. init_accept_socket epoll_fd env r = Some (Inr (), r')"
proof -
  obtain k1 where k1: "tcp_sock (w_kernel (rs_pool_env r)) = (Inr 3, k1)" "quiet k1"
    by (simp add: assms(1) quiet_def kernel0_def tcp_sock_def create_def sys_socket_def sys_result_def pop_def bindS_def sysS_def returnS_def)
  obtain k2 where k2: "set_reuser_addr 3 k1 = (Inr (), k2)" "quiet k2" using set_reuser_addr_quiet [OF k1(2)] by blast
  obtain k3 where k3: "net_bind_ip 3 (sc_server_ip (rs_sys_conf r)) (sc_server_port (rs_sys_conf r)) k2 = (Inr (), k3)" "quiet k3"
    using quiet_steps(1) [OF k2(2)] by blast
  obtain k4 where k4: "nonblock_listen 3 128 k3 = (Inr (), k4)" using quiet_steps(2) [OF k3(2)] by blast
  define r1 where "r1 = r\<lparr>rs_accept_fd := 3, rs_pool_env := (rs_pool_env r)\<lparr>w_kernel := k4\<rparr>\<rparr>"
  have eq: "init_accept_socket epoll_fd env r = bindP (liftP (monitor_init epoll_fd)) (\<lambda>_.
       add_event env 3 (EV_READ + EV_PERSIST) (Some CLIENT_ACCEPT_HANDLER) 0 0) r1"
    unfolding init_accept_socket_def on_kernel_step [where m = tcp_sock, OF k1(1)]
    by (simp add: on_kernel_step k2(1) k3(1) k4 bindP_Some r1_def)
  define mo where "mo = load_monitor (monitor_new\<lparr>mo_epoll_fd := epoll_fd, mo_interest := Map.empty\<rparr>) r1"
  have "mo_epoll_fd r1 = INVALID_EPOLL" "r1\<lparr>mo_epoll_fd := epoll_fd, mo_interest := Map.empty\<rparr> = mo"
    by (simp_all add: mo_def load_monitor_def r1_def assms(2) [symmetric] monitor.defs)
      (metis assms(2) monitor.select_convs(5) monitor.truncate_def monitor_new_def)
  then have init: "monitor_init epoll_fd r1 = (Inr (), mo)" using assms(3) by (simp add: monitor_init_def)
  have "\<exists>r'. add_event env 3 (EV_READ + EV_PERSIST) (Some CLIENT_ACCEPT_HANDLER) 0 0 mo = Some (Inr (), r')"
  proof (rule first_event_added)
    show "monitor_ok mo Map.empty" unfolding mo_def by (rule monitor_ok_new_epoll)
  qed (use assms(3-5) in \<open>simp_all add: mo_def load_monitor_def\<close>)
  then show ?thesis by (simp add: eq bindP_def init)
qed

lemma pools_start: "\<exists>c. on_core init_api_pool r = Some (Inr (), r\<lparr>rs_core_server_conf := c\<rparr>)"
  by (auto simp: on_core_def init_api_pool_def modS_def)

lemma authorize_start:
  "\<exists>az. part rs_service_authorize_access rs_service_authorize_access_update (authorize_init name (File [] None)) r
    = Some (Inr (), r\<lparr>rs_service_authorize_access := az\<rparr>)"
proof -
  have "fgets_lines n [] = []" for n by (subst fgets_lines.simps) simp
  then show ?thesis
    by (auto simp: part_def authorize_init_def authorize_init_i_def seqS_def bindS_def modS_def returnS_def)
qed

lemma sample_start:
  assumes "\<forall>i < 4. good_input (inputs i)" "0 \<le> epoll_fd" "me_fstat env = None" "me_ctl env = None"
  shows "\<exists>r. relay_server_init sample_conf inputs epoll_fd env (relay_new (kernel0\<lparr>k_socket := [Inr 3]\<rparr>)) = Some (Inr (), r)
    \<and> length (rs_process_thread r) = 4"
proof -
  let ?k = "kernel0\<lparr>k_socket := [Inr 3]\<rparr>"
  obtain r1 where r1: "read_conf sample_conf (relay_new ?k) = Some (Inr (), r1)" "rs_running r1 = - 1" "sc_thread_num (rs_sys_conf r1) = 4"
     "w_kernel (rs_pool_env r1) = ?k" "monitor.truncate r1 = monitor_new"
    using sample_read_conf [of ?k] by blast
  define ra where "ra = r1\<lparr>rs_pool_env := (rs_pool_env r1)\<lparr>w_keepalive := sc_keepalive_idle (rs_sys_conf r1)\<rparr>\<rparr>"
  obtain c where c: "on_core init_api_pool ra = Some (Inr (), ra\<lparr>rs_core_server_conf := c\<rparr>)" using pools_start by blast
  define rb where "rb = ra\<lparr>rs_core_server_conf := c, rs_relay_switch_mgr :=
      switch_mgr_init (cf_now sample_conf) (rs_service_stats_conf ra) (rs_site_stats_conf ra) (rs_relay_switch_mgr ra)\<rparr>"
  obtain az where az: "part rs_service_authorize_access rs_service_authorize_access_update
      (authorize_init SERVICE_AUTHORIZE_ACCESS_CONF (cf_file sample_conf SERVICE_AUTHORIZE_ACCESS_CONF)) rb
      = Some (Inr (), rb\<lparr>rs_service_authorize_access := az\<rparr>)"
    using authorize_start unfolding sample_conf_files if_not_P [OF other_names(8)] by blast
  define r2 where "r2 = rb\<lparr>rs_service_authorize_access := az\<rparr>"
  have "relay_server_init sample_conf inputs epoll_fd env (relay_new ?k)
        = bindP (init_process_thread inputs) (\<lambda>_. init_accept_socket epoll_fd env) r2"
    using r1(1) c az by (simp add: relay_server_init_def bindP_Some ra_def rb_def r2_def)
  moreover have "rs_running r2 = - 1" "sc_thread_num (rs_sys_conf r2) = 4" "w_kernel (rs_pool_env r2) = ?k"
    using r1(2-4) by (simp_all add: r2_def rb_def ra_def)
  moreover have "monitor.truncate r2 = monitor_new"
    using r1(5) by (simp add: r2_def rb_def ra_def monitor.defs)
  ultimately have r2: "relay_server_init sample_conf inputs epoll_fd env (relay_new ?k)
        = bindP (init_process_thread inputs) (\<lambda>_. init_accept_socket epoll_fd env) r2"
      "rs_running r2 = - 1" "sc_thread_num (rs_sys_conf r2) = 4" "w_kernel (rs_pool_env r2) = ?k" "monitor.truncate r2 = monitor_new"
    by simp_all
  define r3 where "r3 = r2\<lparr>rs_process_thread_num := 4, rs_process_thread := replicate 4 thread_new\<rparr>"
  obtain r4 where r4: "init_threads inputs 4 r3 = Some (Inr (), r4)" "monitor.truncate r4 = monitor.truncate r3"
    using init_threads_start [of 4 inputs r3] assms(1) r2(2) by (auto simp: r3_def)
  have p: "init_process_thread inputs r2 = Some (Inr (), r4)" using r4(1) r2(3) by (simp add: init_process_thread_def bindP_def r3_def)
  have t: "map td_thread_no (rs_process_thread r4) = map int [0..<4]" "w_kernel (rs_pool_env r4) = ?k"
    using init_threads_table [OF r4(1)] r2(4) by (simp_all add: r3_def)
  have "monitor.truncate r4 = monitor_new" using r4(2) r2(5) by (simp add: r3_def monitor.defs)
  then obtain r5 where r5: "init_accept_socket epoll_fd env r4 = Some (Inr (), r5)"
    using accept_socket_starts [of r4 epoll_fd env] t(2) assms(2-4) by blast
  have "length (rs_process_thread r5) = length (rs_process_thread r4)"
    using keepsP_D [OF keep_init_accept_socket r5] by (simp add: keeps_table_def)
  then show ?thesis using r2(1) p r5 arg_cong [OF t(1), of length] by (simp add: bindP_def)
qed

section \<open>Every run\<close>

text \<open>C5: after a start that succeeds, and whatever the threads do from then on in whatever order, with whatever
  answers of the system, the table of workers is well formed: it keeps its size, worker \<open>i\<close> has number \<open>i\<close>, the sequence
  number stays a 32 bit number, and the turn of the next connection is a worker that exists, so \<open>_choose_thread\<close> never
  leaves the array - if the configuration asks for one worker at least.\<close>

theorem workers_stay_well_formed:
  assumes "relay_server_init cf inputs epoll_fd env (relay_new k) = Some (Inr (), r)" and "relay_run rounds r = Some (x, r')"
  shows "table_ok r' \<and> length (rs_process_thread r') = length (rs_process_thread r) \<and>
    (rs_process_thread r \<noteq> [] \<longrightarrow> thread_at (rs_thread_index r') r' \<noteq> None)"
proof -
  have "table_ok r" using init_table_ok [OF assms(1)] by (simp add: relay_new_fields)
  then have t: "table_ok r'" "length (rs_process_thread r') = length (rs_process_thread r)"
    using run_keeps_table [OF assms(2)] by (simp_all add: keeps_table_def)
  then show ?thesis by (auto simp: table_ok_def thread_at_def max_def split: if_splits)
qed

lemma workers_stay_well_formed_witness:
  "\<exists>r r' x. relay_server_init sample_conf (\<lambda>i. \<lparr>ti_pipe = Inr (10, 11), ti_epoll_fd = 6, ti_env = env0_ok\<rparr>) 5 env0_ok
       (relay_new (kernel0\<lparr>k_socket := [Inr 3]\<rparr>)) = Some (Inr (), r) \<and>
     relay_run [(0, relay_env1, 1, None), (- 1, relay_env1, 2, None)] r = Some (x, r') \<and> thread_at (rs_thread_index r') r' \<noteq> None"
proof -
  let ?inputs = "\<lambda>i :: nat. \<lparr>ti_pipe = Inr (10, 11), ti_epoll_fd = 6, ti_env = env0_ok\<rparr>"
  obtain r where r: "relay_server_init sample_conf ?inputs 5 env0_ok (relay_new (kernel0\<lparr>k_socket := [Inr 3]\<rparr>)) = Some (Inr (), r)"
      "length (rs_process_thread r) = 4"
    using sample_start [of ?inputs 5 env0_ok] by (auto simp: good_input_def env0_ok_def)
  obtain x r' where run: "relay_run [(0, relay_env1, 1, None), (- 1, relay_env1, 2, None)] r = Some (x, r')"
    by (fastforce simp: monitor_once_def heart_beat_def bindP_def)
  show ?thesis using workers_stay_well_formed [OF r(1) run] r run by auto
qed

end
