(* ===== verification/Relay_Stop.thy ===== *)
theory Relay_Stop
  imports Relay_Server
begin

text \<open>
  The end of the relay: \<open>CRelayServer::fini\<close> (\<open>src/relay_server.cpp\<close>), which \<open>main\<close> and the destructor both call.
  Whether the array of workers is there is part of the state: \<open>delete\<close> leaves the pointer as it is. Cancelling and
  joining a thread is a call of the system whose outcome only goes into the log.
\<close>

datatype worker_array = NotAllocated | Allocated | Deleted

type_synonym ending = "relay \<times> worker_array"

definition on_relay :: "(relay, 'a) pop \<Rightarrow> (ending, 'a) pop" where
  "on_relay m = (\<lambda>(r, a). case m r of None \<Rightarrow> None | Some (x, r') \<Rightarrow> Some (x, (r', a)))"

definition fini_worker :: "nat \<Rightarrow> (relay, unit) pop" where
  "fini_worker i r =
     (if i < length (rs_process_thread r)
      then let t = rs_process_thread r ! i
           in bindP (on_kernel (close (td_write_fd t))) (\<lambda>_.
              bindP (on_kernel (close (td_read_fd t))) (\<lambda>_.
              bindP (on_thread (int i) monitor_fini) (\<lambda>_.
                on_thread (int i) (liftP (modS monitor_stop))))) r
      else Some (Inl MemoryFault, r))"

fun fini_workers :: "nat \<Rightarrow> (relay, unit) pop" where
  "fini_workers 0 = doneP"
| "fini_workers (Suc n) = bindP (fini_workers n) (\<lambda>_. fini_worker n)"

definition fini_process_thread :: "(ending, unit) pop" where
  "fini_process_thread = (\<lambda>(r, a).
     case a of
       NotAllocated \<Rightarrow> Some (Inr (), (r, a))
     | Deleted \<Rightarrow> Some (Inl MemoryFault, (r, a))
     | Allocated \<Rightarrow>
         bindP (on_relay (fini_workers (nat (rs_process_thread_num r)))) (\<lambda>_ (r, a). Some (Inr (), (r\<lparr>rs_process_thread := []\<rparr>, Deleted)))
           (r, a))"

definition fini_accept_socket :: "(ending, unit) pop" where
  "fini_accept_socket = on_relay (\<lambda>r. bindP (on_kernel (close (rs_accept_fd r))) (\<lambda>_. doneP) r)"

definition relay_server_fini :: "(ending, unit) pop" where
  "relay_server_fini = bindP fini_process_thread (\<lambda>_. fini_accept_socket)"

text \<open>The object is global: \<open>exit\<close> calls its destructor after \<open>main\<close> has called \<open>fini\<close>.\<close>

lemma fini_deletes: "relay_server_fini (r, Allocated) = Some (Inr (), w) \<Longrightarrow> snd w = Deleted"
  by (auto simp: relay_server_fini_def fini_process_thread_def fini_accept_socket_def on_relay_def bindP_def split: option.splits sum.splits prod.splits)

lemma second_fini_faults:
  "relay_server_fini (r, Allocated) = Some (Inr (), w) \<Longrightarrow> relay_server_fini w = Some (Inl MemoryFault, w)"
  using fini_deletes [of r w] by (cases w) (simp add: relay_server_fini_def fini_process_thread_def)

end
