(* ===== verification/Log_File.thy ===== *)
theory Log_File
  imports Comm_Func
begin

text \<open>
  \<open>CLog\<close> (\<open>sys/log.cpp\<close>): lines of text appended to a file, which is shifted along a chain of older files when it
  has grown. The file system is a map from names to contents; which of its calls fail, and with which text, is
  input. The lock makes \<open>puts\<close> one operation. The theory shows what is kept of what was written.
\<close>

section \<open>State\<close>

type_synonym files = "string \<Rightarrow> string option"

record fs_errors =
  fe_open :: "string option"
  fe_puts :: "int option"
  fe_stat :: "string option"
  fe_remove :: "string option"
  fe_rename :: "string \<Rightarrow> string option"

definition no_errors :: fs_errors where
  "no_errors = \<lparr>fe_open = None, fe_puts = None, fe_stat = None, fe_remove = None, fe_rename = (\<lambda>_. None)\<rparr>"

definition LOG_SHIFT_COUNT :: int where "LOG_SHIFT_COUNT = 32"
definition NO_LOG :: int where "NO_LOG = 1"
definition ERROR_LOG :: int where "ERROR_LOG = 2"
definition NORMAL_LOG :: int where "NORMAL_LOG = 3"
definition DEBUG_LOG :: int where "DEBUG_LOG = 4"

text \<open>The sizes of the name arrays and of \<open>_log_buf\<close>.\<close>

definition LOG_NAME_SIZE :: nat where "LOG_NAME_SIZE = 256"
definition LOG_BUF_SIZE :: nat where "LOG_BUF_SIZE = 16384"

record clog =
  lg_open :: bool
  lg_base_path :: string
  lg_max_size :: int
  lg_max_num :: int
  lg_level :: "int option"
  lg_file_name :: string
  lg_write_count :: int
  lg_proc_no :: int
  lg_error_text :: string

type_synonym log_world = "clog \<times> files"

section \<open>Operations\<close>

definition snprintf :: "nat \<Rightarrow> string \<Rightarrow> string" where
  "snprintf n t = take (n - 1) t"

text \<open>\<open>sprintf\<close> into an array of \<open>n\<close> bytes: a longer text is written behind it.\<close>

definition sprintf :: "nat \<Rightarrow> string \<Rightarrow> ('s, string) op" where
  "sprintf n t s = (if length t < n then (Inr t, s) else (Inl MemoryFault, s))"

definition set_error :: "string \<Rightarrow> (log_world, int) op" where
  "set_error t = bindS (sprintf LOG_NAME_SIZE t) (\<lambda>t (l, fs). (Inr (- 1), (l\<lparr>lg_error_text := t\<rparr>, fs)))"

definition log_new :: "string \<Rightarrow> int \<Rightarrow> int \<Rightarrow> int option \<Rightarrow> clog" where
  "log_new log_base_path max_log_size max_log_num log_level =
     (let base = snprintf LOG_NAME_SIZE (cstr log_base_path)
      in \<lparr>lg_open = False, lg_base_path = base, lg_max_size = max_log_size, lg_max_num = max_log_num, lg_level = log_level,
          lg_file_name = snprintf LOG_NAME_SIZE (base @ ''.log''), lg_write_count = 0, lg_proc_no = 0, lg_error_text = []\<rparr>)"

definition log_close :: "(log_world, int) op" where
  "log_close = (\<lambda>(l, fs). (Inr 0, (l\<lparr>lg_open := False\<rparr>, fs)))"

text \<open>\<open>fopen\<close> for appending makes the file if there is none.\<close>

definition log_open :: "fs_errors \<Rightarrow> (log_world, int) op" where
  "log_open errs = (\<lambda>(l, fs).
     if lg_open l then (Inr 0, (l, fs))
     else (case fe_open errs of
             Some err \<Rightarrow> set_error ('' fopen '' @ lg_file_name l @ '': '' @ err) (l, fs)
           | None \<Rightarrow> (Inr 0, (l\<lparr>lg_open := True\<rparr>,
               if fs (lg_file_name l) = None then fs(lg_file_name l \<mapsto> []) else fs))))"

definition numbered_log :: "string \<Rightarrow> int \<Rightarrow> string" where
  "numbered_log base i = base @ ''.log.'' @ show_int i"

definition log_name :: "string \<Rightarrow> int \<Rightarrow> string" where
  "log_name base i = (if i = 0 then base @ ''.log'' else numbered_log base i)"

text \<open>The loop \<open>for (i = _max_log_num - 2; i >= 0; i--)\<close>: \<open>i + 1\<close> rounds are left.\<close>

fun shift_loop :: "fs_errors \<Rightarrow> nat \<Rightarrow> (log_world, int) op" where
  "shift_loop errs 0 = returnS 0"
| "shift_loop errs (Suc i) = (\<lambda>(l, fs).
     bindS (sprintf LOG_NAME_SIZE (log_name (lg_base_path l) (int i))) (\<lambda>old (l, fs).
       if fs old \<noteq> None
       then bindS (sprintf LOG_NAME_SIZE (numbered_log (lg_base_path l) (int i + 1))) (\<lambda>new (l, fs).
              case fe_rename errs old of
                Some err \<Rightarrow> set_error (''rename '' @ old @ '' '' @ new @ '': '' @ err) (l, fs)
              | None \<Rightarrow> shift_loop errs i (l, (fs(new := fs old))(old := None))) (l, fs)
       else shift_loop errs i (l, fs)) (l, fs))"

definition shift_files :: "fs_errors \<Rightarrow> (log_world, int) op" where
  "shift_files errs = (\<lambda>(l, fs).
     bindS (sprintf LOG_NAME_SIZE (log_name (lg_base_path l) 0)) (\<lambda>name (l, fs).
       case (if fe_stat errs \<noteq> None then fe_stat errs else if fs name = None then Some ''No such file or directory'' else None) of
         Some err \<Rightarrow> set_error (''stat '' @ name @ '': '' @ err) (l, fs)
       | None \<Rightarrow>
           if int (length (the (fs name))) < lg_max_size l then (Inr 0, (l, fs))
           else
             bindS (sprintf LOG_NAME_SIZE (numbered_log (lg_base_path l) (lg_max_num l - 1))) (\<lambda>oldest (l, fs).
               if fs oldest \<noteq> None
               then (case fe_remove errs of
                       Some err \<Rightarrow> set_error (''remove '' @ oldest @ '': '' @ err) (l, fs)
                     | None \<Rightarrow> shift_loop errs (nat (lg_max_num l - 1)) (l, fs(oldest := None)))
               else shift_loop errs (nat (lg_max_num l - 1)) (l, fs)) (l, fs)) (l, fs))"

text \<open>The line is a C string; its errors are not handled further, and the result of \<open>shilft_files\<close> is not looked at.\<close>

definition log_puts :: "fs_errors \<Rightarrow> string \<Rightarrow> (log_world, int) op" where
  "log_puts errs str =
     bindS (\<lambda>(l, fs). if lg_open l then (Inr 0, (l, fs)) else log_open errs (l, fs)) (\<lambda>ret (l, fs).
       if ret \<noteq> 0 then (Inr (- 1), (l, fs))
       else (case fe_puts errs of
               Some r \<Rightarrow> (Inr r, (l\<lparr>lg_open := False\<rparr>, fs))
             | None \<Rightarrow>
                 let fs = fs(lg_file_name l \<mapsto> the (fs (lg_file_name l)) @ cstr str);
                     l = l\<lparr>lg_write_count := i32 (lg_write_count l + 1)\<rparr>
                 in if lg_write_count l \<ge> LOG_SHIFT_COUNT
                    then bindS (shift_files errs) (\<lambda>_ (l, fs). (Inr 0, (l\<lparr>lg_write_count := 0\<rparr>, fs))) (l\<lparr>lg_open := False\<rparr>, fs)
                    else (Inr 0, (l, fs))))"

text \<open>Any number of lines, with what \<open>puts\<close> returns for each.\<close>

fun put_all :: "fs_errors \<Rightarrow> string list \<Rightarrow> log_world \<Rightarrow> (fault + int) list \<times> log_world" where
  "put_all errs [] w = ([], w)"
| "put_all errs (s # ss) w = (case log_puts errs s w of (x, w') \<Rightarrow> (case put_all errs ss w' of (xs, w'') \<Rightarrow> (x # xs, w'')))"

section \<open>Lines\<close>

record tm =
  tm_year :: int
  tm_mon :: int
  tm_mday :: int
  tm_hour :: int
  tm_min :: int
  tm_sec :: int

text \<open>\<open>%0wd\<close> of \<open>printf\<close>: zeros up to the width, behind the sign.\<close>

definition pad0 :: "nat \<Rightarrow> int \<Rightarrow> string" where
  "pad0 w x =
     (let t = show_nat (nat \<bar>x\<bar>)
      in if x < 0 then CHR ''-'' # replicate (w - 1 - length t) CHR ''0'' @ t else replicate (w - length t) CHR ''0'' @ t)"

definition date_time :: "tm \<Rightarrow> string" where
  "date_time t =
     pad0 4 (tm_year t + 1900) @ CHR ''-'' # pad0 2 (tm_mon t + 1) @ CHR ''-'' # pad0 2 (tm_mday t) @ CHR '' '' #
     pad0 2 (tm_hour t) @ CHR '':'' # pad0 2 (tm_min t) @ CHR '':'' # pad0 2 (tm_sec t)"

definition time_stamp :: "tm \<Rightarrow> string" where
  "time_stamp t = CHR ''['' # date_time t @ ''] ''"

text \<open>\<open>WRITE_LOG_STR\<close>: \<open>msg\<close> is what \<open>fmt\<close> and its arguments print as, \<open>tid\<close> the number of the thread. What does not
  fit into \<open>_log_buf\<close> is cut off.\<close>

definition log_line :: "tm \<Rightarrow> int \<Rightarrow> string \<Rightarrow> string \<Rightarrow> string" where
  "log_line t tid str msg =
     (let head = time_stamp t @ show_int tid @ '': '' @ str
      in snprintf LOG_BUF_SIZE head @ snprintf (LOG_BUF_SIZE - length head) msg)"

definition get_log_level :: "clog \<Rightarrow> int" where
  "get_log_level l = (case lg_level l of Some v \<Rightarrow> v | None \<Rightarrow> DEBUG_LOG)"

definition log_from :: "int \<Rightarrow> string \<Rightarrow> fs_errors \<Rightarrow> tm \<Rightarrow> int \<Rightarrow> string \<Rightarrow> (log_world, int) op" where
  "log_from lowest str errs t tid msg =
     (\<lambda>(l, fs). if get_log_level l < lowest then (Inr 0, (l, fs)) else log_puts errs (log_line t tid str msg) (l, fs))"

definition error_log :: "fs_errors \<Rightarrow> tm \<Rightarrow> int \<Rightarrow> string \<Rightarrow> (log_world, int) op" where
  "error_log = log_from ERROR_LOG ''ERROR: ''"

definition write_log :: "fs_errors \<Rightarrow> tm \<Rightarrow> int \<Rightarrow> string \<Rightarrow> (log_world, int) op" where
  "write_log = log_from NORMAL_LOG ''''"

definition debug_log :: "fs_errors \<Rightarrow> tm \<Rightarrow> int \<Rightarrow> string \<Rightarrow> (log_world, int) op" where
  "debug_log = log_from DEBUG_LOG ''DEBUG: ''"

definition hex02 :: "char \<Rightarrow> string" where
  "hex02 c = (let n = of_char c in [hex_char (n div 16), hex_char (n mod 16), CHR '' ''])"

text \<open>The loop of \<open>print_hex\<close>: \<open>str\<close> is the row in the making, of at most 50 characters.\<close>

fun hex_loop :: "fs_errors \<Rightarrow> nat \<Rightarrow> string \<Rightarrow> string \<Rightarrow> (log_world, string) op" where
  "hex_loop errs i str [] = returnS str"
| "hex_loop errs i str (c # cs) =
     (let str = (if i \<noteq> 0 \<and> i mod 8 = 0 then str @ '' '' else str)
      in if i \<noteq> 0 \<and> i mod 16 = 0 then bindS (log_puts errs (str @ [char_of (10 :: nat)])) (\<lambda>_. hex_loop errs (Suc i) (hex02 c) cs)
         else hex_loop errs (Suc i) (str @ hex02 c) cs)"

text \<open>After the loop \<open>p\<close> points behind the buffer; \<open>behind\<close> is the byte there, if it can be read.\<close>

definition print_hex :: "fs_errors \<Rightarrow> string \<Rightarrow> char option \<Rightarrow> (log_world, int) op" where
  "print_hex errs buf behind =
     (\<lambda>(l, fs).
        if get_log_level l < DEBUG_LOG then (Inr 0, (l, fs))
        else if buf = [] then (Inl AssertFail, (l, fs))
        else bindS (hex_loop errs 0 [] buf) (\<lambda>str.
               case behind of
                 None \<Rightarrow> throwS MemoryFault
               | Some c \<Rightarrow> bindS (log_puts errs (str @ hex02 c)) (\<lambda>_. returnS 0)) (l, fs))"

definition get_log_level_str :: "int \<Rightarrow> string" where
  "get_log_level_str log_level =
     (if log_level = NO_LOG then ''no'' else if log_level = ERROR_LOG then ''error''
      else if log_level = NORMAL_LOG then ''normal'' else if log_level = DEBUG_LOG then ''debug'' else ''unknown'')"

definition log_level_is_valid :: "int \<Rightarrow> bool" where
  "log_level_is_valid log_level \<longleftrightarrow> log_level \<in> {NO_LOG, ERROR_LOG, NORMAL_LOG, DEBUG_LOG}"

section \<open>One file a day\<close>

definition day_file :: "string \<Rightarrow> tm \<Rightarrow> string \<Rightarrow> string" where
  "day_file path t ending =
     snprintf 256 (cstr path @ CHR ''_'' # pad0 4 (tm_year t + 1900) @ pad0 2 (tm_mon t + 1) @ pad0 2 (tm_mday t) @ ending)"

text \<open>Printing the head of a line and the message to the file \<open>f\<close>, each of which may fail; \<open>note\<close> and \<open>warn\<close> are the
  calls of \<open>write_log\<close> and \<open>error_log\<close> that report a file that cannot be used.\<close>

definition day_print :: "fs_errors \<Rightarrow> int option \<Rightarrow> (string \<Rightarrow> ('l \<times> files, int) op) \<Rightarrow> (string \<Rightarrow> ('l \<times> files, int) op) \<Rightarrow>
    string \<Rightarrow> string \<Rightarrow> string \<Rightarrow> ('l \<times> files, int) op" where
  "day_print errs fail note warn f head msg =
     (\<lambda>(l, fs).
        let size = length (the (fs f))
        in case fe_stat errs of
             Some err \<Rightarrow> bindS (note (''stat '' @ f @ '': '' @ err @ [char_of (10 :: nat)])) (\<lambda>_. returnS (- 1)) (l, fs)
           | None \<Rightarrow>
               if fs f \<noteq> None \<and> size > 1024 * 1024 * 1800
               then bindS (warn (''Day log size too large: '' @ show_int (int size) @ [char_of (10 :: nat)])) (\<lambda>_. returnS (- 1)) (l, fs)
               else (case fe_open errs of
                       Some err \<Rightarrow> bindS (note (''fopen '' @ f @ '': '' @ err @ [char_of (10 :: nat)])) (\<lambda>_. returnS (- 1)) (l, fs)
                     | None \<Rightarrow>
                         let fs = (if fs f = None then fs(f \<mapsto> []) else fs)
                         in case (if head = [] then None else fe_puts errs) of
                              Some r \<Rightarrow> (Inr r, (l, fs))
                            | None \<Rightarrow>
                                let fs = fs(f \<mapsto> the (fs f) @ head)
                                in case fail of Some r \<Rightarrow> (Inr r, (l, fs)) | None \<Rightarrow> (Inr 0, (l, fs(f \<mapsto> the (fs f) @ msg)))))"

text \<open>What the reports meet in the file system is \<open>errs'\<close>.\<close>

definition day_log :: "fs_errors \<Rightarrow> fs_errors \<Rightarrow> int option \<Rightarrow> tm \<Rightarrow> int \<Rightarrow> string \<Rightarrow> string \<Rightarrow> (log_world, int) op" where
  "day_log errs errs' fail t tid path msg =
     (\<lambda>(l, fs). day_print errs fail (write_log errs' t tid) (error_log errs' t tid) (day_file path t ''.log'')
        (time_stamp t @ show_int (lg_proc_no l) @ '': '') msg (l, fs))"

definition day_log_raw :: "fs_errors \<Rightarrow> fs_errors \<Rightarrow> int option \<Rightarrow> tm \<Rightarrow> int \<Rightarrow> string \<Rightarrow> string \<Rightarrow> (log_world, int) op" where
  "day_log_raw errs errs' fail t tid path msg =
     day_print errs fail (write_log errs' t tid) (error_log errs' t tid) (day_file path t ''.log'') [] msg"

section \<open>The chain of files\<close>

definition the_text :: "string option \<Rightarrow> string" where
  "the_text x = (case x of None \<Rightarrow> [] | Some t \<Rightarrow> t)"

text \<open>The contents of the files \<open>n, ..., 0\<close> one after the other, the oldest first.\<close>

fun chain :: "(nat \<Rightarrow> string option) \<Rightarrow> nat \<Rightarrow> string" where
  "chain g 0 = the_text (g 0)"
| "chain g (Suc n) = the_text (g (Suc n)) @ chain g n"

lemma chain_append: "chain (g(0 := Some (the_text (g 0) @ s))) n = chain g n @ s"
  by (induction n) (simp_all add: the_text_def)

lemma chain_shift:
  "(\<And>k. k < n \<Longrightarrow> g' (Suc k) = g k) \<Longrightarrow> g' 0 = None \<Longrightarrow> 0 < n \<Longrightarrow> the_text (g n) @ chain g' n = chain g n"
proof (induction n)
  case (Suc n)
  show ?case
  proof (cases n)
    case 0
    then show ?thesis using Suc.prems by (simp add: the_text_def)
  next
    case (Suc m)
    then have "the_text (g n) @ chain g' n = chain g n" using Suc.IH Suc.prems by simp
    then show ?thesis using Suc.prems(1) [of n] by simp
  qed
qed simp

lemma chain_length_le: "(\<And>i t. i \<le> n \<Longrightarrow> g i = Some t \<Longrightarrow> length t \<le> e) \<Longrightarrow> length (chain g n) \<le> Suc n * e"
proof (induction n)
  case (Suc n)
  have "length (the_text (g (Suc n))) \<le> e" using Suc.prems [of "Suc n"] by (simp add: the_text_def split: option.split)
  moreover have "length (chain g n) \<le> Suc n * e" by (rule Suc.IH, rule Suc.prems) simp_all
  ultimately show ?case by simp
qed (simp add: the_text_def split: option.split)

lemma chain_length_ge: "(\<And>i. 1 \<le> i \<Longrightarrow> i \<le> n \<Longrightarrow> m \<le> length (the_text (g i))) \<Longrightarrow> n * m \<le> length (chain g n)"
  by (induction n) (auto simp: add_mono)

text \<open>What the files \<open>1, ..., n\<close> hold of everything written \<open>w\<close>: a file is between \<open>m\<close> and \<open>e\<close> bytes long, no number is
  left out, and nothing is dropped before the last number is in use.\<close>

definition kept :: "nat \<Rightarrow> nat \<Rightarrow> nat \<Rightarrow> (nat \<Rightarrow> string option) \<Rightarrow> string \<Rightarrow> bool" where
  "kept m e n g w \<longleftrightarrow> (\<exists>d. w = d @ chain g n \<and> (d \<noteq> [] \<longrightarrow> g n \<noteq> None)) \<and>
     (\<forall>i t. 1 \<le> i \<longrightarrow> i \<le> n \<longrightarrow> g i = Some t \<longrightarrow> m \<le> length t \<and> length t \<le> e) \<and>
     (\<forall>i. 1 \<le> i \<longrightarrow> i < n \<longrightarrow> g (Suc i) \<noteq> None \<longrightarrow> g i \<noteq> None)"

lemma kept_append: "kept m e n g w \<Longrightarrow> 0 < n \<Longrightarrow> kept m e n (g(0 := Some (the_text (g 0) @ s))) (w @ s)"
  unfolding kept_def chain_append by auto

lemma kept_cong:
  assumes "kept m e n g w" "\<And>i. i \<le> n \<Longrightarrow> g' i = g i"
  shows "kept m e n g' w"
proof -
  have "chain g' k = chain g k" if "k \<le> n" for k using that assms(2) by (induction k) simp_all
  then show ?thesis using assms by (simp add: kept_def)
qed

lemma kept_size: "kept m e n g w \<Longrightarrow> 1 \<le> i \<Longrightarrow> i \<le> n \<Longrightarrow> g i = Some t \<Longrightarrow> m \<le> length t \<and> length t \<le> e"
  unfolding kept_def by blast

lemma kept_present:
  assumes "kept m e n g w" "g n \<noteq> None" "1 \<le> i" "i \<le> n"
  shows "g i \<noteq> None"
  using assms(4,2,3) assms(1) by (induction rule: inc_induct) (auto simp: kept_def)

lemma kept_shift:
  assumes "kept m e n g w" "g 0 = Some t" "m \<le> length t" "length t \<le> e" "0 < n"
    "\<And>k. k < n \<Longrightarrow> g' (Suc k) = g k" "g' 0 = None"
  shows "kept m e n g' w"
proof -
  obtain d where d: "w = d @ chain g n" "d \<noteq> [] \<longrightarrow> g n \<noteq> None" using assms(1) by (auto simp: kept_def)
  have c: "w = (d @ the_text (g n)) @ chain g' n" using d(1) chain_shift [OF assms(6,7,5)] by simp
  obtain n' where n': "n = Suc n'" using assms(5) by (cases n) auto
  have full: "g' n \<noteq> None" if "d @ the_text (g n) \<noteq> []"
  proof -
    have "g n \<noteq> None" using that d(2) by (auto simp: the_text_def)
    then have "g n' \<noteq> None" using kept_present [OF assms(1), of n'] assms(2) n' by (cases n') auto
    then show ?thesis using assms(6) [of n'] n' by simp
  qed
  have size: "m \<le> length u \<and> length u \<le> e" if i: "1 \<le> i" "i \<le> n" "g' i = Some u" for i u
  proof -
    obtain k where k: "i = Suc k" "k < n" using i by (cases i) auto
    then have u: "g k = Some u" using i(3) assms(6) [of k] by simp
    show ?thesis
    proof (cases "k = 0")
      case True
      then show ?thesis using u assms(2-4) by simp
    next
      case False
      then show ?thesis using kept_size [OF assms(1) _ _ u] k(2) by simp
    qed
  qed
  have "g' i \<noteq> None" if i: "1 \<le> i" "i < n" "g' (Suc i) \<noteq> None" for i
  proof -
    obtain k where k: "i = Suc k" using i by (cases i) auto
    then show ?thesis using i assms(1,2) assms(6) [of k] assms(6) [of i] by (cases k) (auto simp: kept_def)
  qed
  then show ?thesis using c full size unfolding kept_def by blast
qed

section \<open>The operations on the chain\<close>

lemma length_show_index: "i < 2 ^ 31 \<Longrightarrow> length (show_int (int i)) \<le> 11"
  by (rule length_show_i32) (simp add: in_i32_def)

lemma log_name_inj:
  assumes "i < 2 ^ 31" "j < 2 ^ 31" "log_name base (int i) = log_name base (int j)"
  shows "i = j"
proof -
  have n: "log_name base (int k) = base @ ''.log'' @ (if k = 0 then [] else CHR ''.'' # show_int (int k))" for k
    by (simp add: log_name_def numbered_log_def)
  have "(if i = 0 then [] else CHR ''.'' # show_int (int i)) = (if j = 0 then [] else CHR ''.'' # show_int (int j))"
    using assms(3) unfolding n by (simp only: append_same_eq same_append_eq)
  moreover have "int i = int j" if "show_int (int i) = show_int (int j)"
  proof -
    have "in_i32 (int i)" "in_i32 (int j)" using assms(1,2) by (simp_all add: in_i32_def)
    then show ?thesis using arg_cong [OF that, of atoi] by (simp only: atoi_show_int)
  qed
  ultimately show ?thesis by (cases "i = 0"; cases "j = 0") simp_all
qed

lemma log_name_fits: "length base \<le> 238 \<Longrightarrow> i < 2 ^ 31 \<Longrightarrow> length (log_name base (int i)) < LOG_NAME_SIZE"
  using length_show_index [of i] by (simp add: log_name_def numbered_log_def LOG_NAME_SIZE_def)

lemma sprintf_fits: "length t < LOG_NAME_SIZE \<Longrightarrow> bindS (sprintf LOG_NAME_SIZE t) f w = f t w"
  by (simp add: bindS_def sprintf_def)

lemma numbered_name: "numbered_log base (int i + 1) = log_name base (int (Suc i))"
  by (simp add: log_name_def ac_simps)

lemma shift_loop_spec:
  assumes "lg_base_path l = base" "length base \<le> 238" "i < 2 ^ 31" "fs (log_name base (int i)) = None"
  shows "\<exists>fs'. shift_loop no_errors i (l, fs) = (Inr 0, (l, fs')) \<and>
    (\<forall>k < i. fs' (log_name base (int (Suc k))) = fs (log_name base (int k))) \<and> (0 < i \<longrightarrow> fs' (log_name base 0) = None) \<and>
    (\<forall>nm. (\<forall>k \<le> i. nm \<noteq> log_name base (int k)) \<longrightarrow> fs' nm = fs nm)"
  using assms
proof (induction i arbitrary: fs)
  case 0
  then show ?case by (simp add: returnS_def)
next
  case (Suc i)
  let ?nm = "\<lambda>k. log_name base (int k)"
  have ne: "?nm j \<noteq> ?nm k" if "j < k" "k \<le> Suc i" for j k using log_name_inj [of j k base] that Suc.prems(3) by auto
  have fit: "length (?nm k) < LOG_NAME_SIZE" if "k \<le> Suc i" for k using log_name_fits [OF Suc.prems(2), of k] that Suc.prems(3) by simp
  define fs1 where "fs1 = (if fs (?nm i) \<noteq> None then (fs(?nm (Suc i) := fs (?nm i)))(?nm i := None) else fs)"
  have step: "shift_loop no_errors (Suc i) (l, fs) = shift_loop no_errors i (l, fs1)"
    by (simp only: shift_loop.simps prod.case sprintf_fits [OF fit] Suc.prems(1) numbered_name order_refl le_SucI)
      (simp add: no_errors_def fs1_def)
  have "fs1 (?nm i) = None" by (simp add: fs1_def)
  from Suc.IH [where fs = fs1, OF Suc.prems(1,2) _ this] Suc.prems(3) obtain fs' where
    ih: "shift_loop no_errors i (l, fs1) = (Inr 0, (l, fs'))" "\<forall>k < i. fs' (?nm (Suc k)) = fs1 (?nm k)" "0 < i \<longrightarrow> fs' (?nm 0) = None"
      "\<forall>nm. (\<forall>k \<le> i. nm \<noteq> ?nm k) \<longrightarrow> fs' nm = fs1 nm"
    by auto
  have lower: "fs1 (?nm k) = fs (?nm k)" if "k < i" for k
    using ne [of k i] ne [of k "Suc i"] that by (auto simp: fs1_def)
  have top: "fs' (?nm (Suc i)) = fs (?nm i)"
  proof -
    have "fs' (?nm (Suc i)) = fs1 (?nm (Suc i))" using ih(4) ne by (metis le_imp_less_Suc order_refl)
    then show ?thesis using Suc.prems(4) ne [of i "Suc i"] by (auto simp: fs1_def)
  qed
  have "fs' (?nm (Suc k)) = fs (?nm k)" if "k < Suc i" for k
    using that top ih(2) lower by (cases "k = i") auto
  moreover have "fs' (?nm 0) = None"
    using ih(3,4) \<open>fs1 (?nm i) = None\<close> ih(1) by (cases "i = 0") (auto simp: returnS_def)
  moreover have "fs' nm = fs nm" if "\<forall>k \<le> Suc i. nm \<noteq> ?nm k" for nm
    using that ih(4) by (auto simp: fs1_def)
  ultimately show ?case using step ih(1) by auto
qed

lemma shift_files_spec:
  assumes "lg_base_path l = base" "length base \<le> 238" "lg_max_num l = int n + 1" "0 < n" "n < 2 ^ 31" "fs (log_name base 0) = Some t"
    and big: "lg_max_size l \<le> int (length t)"
  shows "\<exists>fs'. shift_files no_errors (l, fs) = (Inr 0, (l, fs')) \<and>
    (\<forall>k < n. fs' (log_name base (int (Suc k))) = fs (log_name base (int k))) \<and> fs' (log_name base 0) = None \<and>
    (\<forall>nm. (\<forall>k \<le> n. nm \<noteq> log_name base (int k)) \<longrightarrow> fs' nm = fs nm)"
proof -
  let ?nm = "\<lambda>k. log_name base (int k)"
  define fs1 where "fs1 = fs(?nm n := None)"
  have fit: "length (?nm k) < LOG_NAME_SIZE" if "k \<le> n" for k using log_name_fits [OF assms(2), of k] that assms(5) by simp
  have oldest: "numbered_log base (lg_max_num l - 1) = ?nm n" using assms(3,4) by (simp add: log_name_def)
  have rounds: "nat (lg_max_num l - 1) = n" using assms(3) by simp
  have "shift_files no_errors (l, fs) = shift_loop no_errors n (l, fs1)"
    using big unfolding shift_files_def
    by (simp only: prod.case sprintf_fits [OF fit [of 0], simplified] assms(1) oldest sprintf_fits [OF fit [OF order_refl]] rounds)
      (simp add: no_errors_def assms(6) fun_upd_idem fs1_def sprintf_fits [OF fit [of 0], simplified])
  moreover have "fs1 (?nm n) = None" by (simp add: fs1_def)
  moreover have "fs1 (?nm k) = fs (?nm k)" if "k < n" for k
    using log_name_inj [of k n base] that assms(5) by (auto simp: fs1_def)
  moreover have "fs1 nm = fs nm" if "\<forall>k \<le> n. nm \<noteq> ?nm k" for nm using that by (simp add: fs1_def)
  ultimately show ?thesis
    using shift_loop_spec [where fs = fs1, OF assms(1,2,5)] assms(4) by (metis (no_types, lifting))
qed

text \<open>A log whose files hold the end of \<open>w\<close>, where no line is longer than \<open>b\<close>.\<close>

definition log_ok :: "string \<Rightarrow> nat \<Rightarrow> nat \<Rightarrow> nat \<Rightarrow> string \<Rightarrow> log_world \<Rightarrow> bool" where
  "log_ok base m n b w = (\<lambda>(l, fs).
     lg_base_path l = base \<and> lg_file_name l = log_name base 0 \<and> lg_max_size l = int m \<and> lg_max_num l = int n + 1 \<and>
     0 \<le> lg_write_count l \<and> lg_write_count l < LOG_SHIFT_COUNT \<and> (lg_open l \<longrightarrow> fs (log_name base 0) \<noteq> None) \<and>
     length (the_text (fs (log_name base 0))) \<le> m + nat (lg_write_count l) * b \<and>
     kept m (m + 32 * b) n (\<lambda>i. fs (log_name base (int i))) w)"

lemma kept_write:
  assumes "kept m e n (\<lambda>i. fs (log_name base (int i))) w" "0 < n" "n < 2 ^ 31" "u = the_text (fs (log_name base 0)) @ s"
  shows "kept m e n (\<lambda>i. (fs(log_name base 0 \<mapsto> u)) (log_name base (int i))) (w @ s)"
proof -
  have "log_name base (int i) \<noteq> log_name base 0" if "0 < i" "i \<le> n" for i
    using log_name_inj [of i 0 base] that assms(3) by auto
  then show ?thesis
    using assms(4) by (intro kept_cong [OF kept_append [OF assms(1,2), of s]]) simp
qed

lemma log_open_step:
  assumes "log_ok base m n b w (l, fs)" "0 < n" "n < 2 ^ 31"
  obtains l1 fs1 where "(if lg_open l then (Inr 0, (l, fs)) else log_open no_errors (l, fs)) = (Inr 0, (l1, fs1))"
    "fs1 (log_name base 0) \<noteq> None" "log_ok base m n b w (l1, fs1)" "\<And>nm. nm \<noteq> log_name base 0 \<Longrightarrow> fs1 nm = fs nm"
proof (cases "lg_open l")
  case True
  then show thesis using that [of l fs] assms by (simp add: log_ok_def)
next
  case False
  have name: "lg_file_name l = log_name base 0" using assms(1) by (simp add: log_ok_def)
  define fs1 where "fs1 = (if fs (log_name base 0) = None then fs(log_name base 0 \<mapsto> []) else fs)"
  have "kept m (m + 32 * b) n (\<lambda>i. fs1 (log_name base (int i))) w"
    using kept_write [of m "m + 32 * b" n fs base w "[]" "[]"] assms by (auto simp: fs1_def log_ok_def the_text_def)
  then have "log_ok base m n b w (l\<lparr>lg_open := True\<rparr>, fs1)"
    using assms(1) by (auto simp: log_ok_def fs1_def the_text_def)
  moreover have "log_open no_errors (l, fs) = (Inr 0, (l\<lparr>lg_open := True\<rparr>, fs1))"
    using False name by (simp add: log_open_def no_errors_def fs1_def)
  ultimately show thesis using False that [of "l\<lparr>lg_open := True\<rparr>" fs1] by (simp add: fs1_def)
qed

lemma log_ok_shift:
  assumes l: "lg_base_path l = base" "lg_max_num l = int n + 1" "lg_max_size l = int m" "lg_file_name l = log_name base 0"
    and k: "kept m (m + 32 * b) n (\<lambda>i. fs (log_name base (int i))) w" and len: "length base \<le> 238" "0 < n" "n < 2 ^ 31" "0 < m"
    and f0: "fs (log_name base 0) = Some t" and size: "length t \<le> m + 32 * b"
  shows "\<exists>fs'. shift_files no_errors (l, fs) = (Inr 0, (l, fs')) \<and> log_ok base m n b w (l\<lparr>lg_open := False, lg_write_count := 0\<rparr>, fs') \<and>
    (\<forall>nm. (\<forall>k \<le> n. nm \<noteq> log_name base (int k)) \<longrightarrow> fs' nm = fs nm)"
proof -
  have fit: "length (log_name base 0) < LOG_NAME_SIZE" using log_name_fits [OF len(1), of 0] by simp
  show ?thesis
  proof (cases "length t < m")
    case True
    then have "shift_files no_errors (l, fs) = (Inr 0, (l, fs))"
      using l f0 by (simp add: shift_files_def sprintf_fits [OF fit] no_errors_def)
    then show ?thesis using True l k f0 by (simp add: log_ok_def the_text_def LOG_SHIFT_COUNT_def)
  next
    case False
    then obtain fs' where s: "shift_files no_errors (l, fs) = (Inr 0, (l, fs'))"
      "\<forall>k < n. fs' (log_name base (int (Suc k))) = fs (log_name base (int k))" "fs' (log_name base 0) = None"
      "\<forall>nm. (\<forall>k \<le> n. nm \<noteq> log_name base (int k)) \<longrightarrow> fs' nm = fs nm"
      using shift_files_spec [where fs = fs, OF l(1) len(1) l(2) len(2,3) f0] l(3) by auto
    have "kept m (m + 32 * b) n (\<lambda>i. fs' (log_name base (int i))) w"
      by (rule kept_shift [OF k _ _ size len(2)]) (use f0 False s(2,3) in auto)
    then show ?thesis using s l by (auto simp: log_ok_def the_text_def LOG_SHIFT_COUNT_def)
  qed
qed

lemma log_puts_spec:
  assumes ok: "log_ok base m n b w (l, fs)" and len: "length base \<le> 238" "0 < n" "n < 2 ^ 31" "0 < m" and line: "length (cstr s) \<le> b"
  shows "\<exists>w'. log_puts no_errors s (l, fs) = (Inr 0, w') \<and> log_ok base m n b (w @ cstr s) w' \<and>
    (\<forall>nm. (\<forall>k \<le> n. nm \<noteq> log_name base (int k)) \<longrightarrow> snd w' nm = fs nm)"
proof -
  obtain l1 fs1 where o: "(if lg_open l then (Inr 0, (l, fs)) else log_open no_errors (l, fs)) = (Inr 0, (l1, fs1))"
    "fs1 (log_name base 0) \<noteq> None" "log_ok base m n b w (l1, fs1)" "\<And>nm. nm \<noteq> log_name base 0 \<Longrightarrow> fs1 nm = fs nm"
    using log_open_step [OF ok len(2,3)] by blast
  define t where "t = the_text (fs1 (log_name base 0)) @ cstr s"
  define c where "c = lg_write_count l1 + 1"
  define fs2 where "fs2 = fs1(log_name base 0 \<mapsto> t)"
  have l1: "lg_file_name l1 = log_name base 0" "0 < c" "c \<le> 32" "length (the_text (fs1 (log_name base 0))) \<le> m + nat (lg_write_count l1) * b"
    using o(3) by (auto simp: log_ok_def c_def LOG_SHIFT_COUNT_def)
  have i: "i32 c = c" using l1(2,3) by (simp add: i32_id in_i32_def)
  have "nat c = Suc (nat (lg_write_count l1))" using o(3) by (simp add: c_def log_ok_def nat_add_distrib)
  then have t: "length t \<le> m + nat c * b" using l1(4) line by (simp add: t_def)
  have k2: "kept m (m + 32 * b) n (\<lambda>i. fs2 (log_name base (int i))) (w @ cstr s)"
    unfolding fs2_def t_def by (rule kept_write [OF _ len(2,3) refl]) (use o(3) in \<open>simp add: log_ok_def\<close>)
  have frame: "fs2 nm = fs nm" if "\<forall>k \<le> n. nm \<noteq> log_name base (int k)" for nm
    using that [rule_format, of 0] o(4) by (simp add: fs2_def)
  have body: "the (fs1 (log_name base 0)) @ cstr s = t" using o(2) by (auto simp: t_def the_text_def)
  have puts: "log_puts no_errors s (l, fs) =
      (if c \<ge> LOG_SHIFT_COUNT
       then bindS (shift_files no_errors) (\<lambda>_ (l, fs). (Inr 0, (l\<lparr>lg_write_count := 0\<rparr>, fs))) (l1\<lparr>lg_write_count := c, lg_open := False\<rparr>, fs2)
       else (Inr 0, (l1\<lparr>lg_write_count := c\<rparr>, fs2)))"
  proof -
    have "fe_puts no_errors = None" by (simp add: no_errors_def)
    then show ?thesis
      unfolding log_puts_def bindS_def [where s = "(l, fs)"] prod.case o(1)
      by (simp add: l1(1) body c_def [symmetric] i fs2_def Let_def)
  qed
  show ?thesis
  proof (cases "c \<ge> LOG_SHIFT_COUNT")
    case False
    have "log_ok base m n b (w @ cstr s) (l1\<lparr>lg_write_count := c\<rparr>, fs2)"
      using o(3) False l1(2) t k2 by (simp add: log_ok_def fs2_def the_text_def)
    then show ?thesis using puts False frame by simp
  next
    case True
    then have "c = 32" using l1(3) by (simp add: LOG_SHIFT_COUNT_def)
    then have "length t \<le> m + 32 * b" using t by simp
    then obtain fs3 where "shift_files no_errors (l1\<lparr>lg_write_count := c, lg_open := False\<rparr>, fs2)
          = (Inr 0, (l1\<lparr>lg_write_count := c, lg_open := False\<rparr>, fs3))"
        "log_ok base m n b (w @ cstr s) (l1\<lparr>lg_open := False, lg_write_count := 0\<rparr>, fs3)"
        "\<forall>nm. (\<forall>k \<le> n. nm \<noteq> log_name base (int k)) \<longrightarrow> fs3 nm = fs2 nm"
      using log_ok_shift [where l = "l1\<lparr>lg_write_count := c, lg_open := False\<rparr>" and fs = fs2 and t = t, OF _ _ _ _ k2 len] o(3)
      by (auto simp: log_ok_def fs2_def)
    then show ?thesis using puts True frame by (simp add: bindS_def)
  qed
qed

lemma put_all_spec:
  assumes "log_ok base m n b w lw" "length base \<le> 238" "0 < n" "n < 2 ^ 31" "0 < m" "\<forall>s \<in> set ls. length (cstr s) \<le> b"
  shows "\<exists>lw'. put_all no_errors ls lw = (replicate (length ls) (Inr 0), lw') \<and> log_ok base m n b (w @ concat (map cstr ls)) lw' \<and>
    (\<forall>nm. (\<forall>k \<le> n. nm \<noteq> log_name base (int k)) \<longrightarrow> snd lw' nm = snd lw nm)"
  using assms(1,6)
proof (induction ls arbitrary: w lw)
  case (Cons s ls)
  obtain l fs where lw: "lw = (l, fs)" by (cases lw)
  obtain lw1 where s: "log_puts no_errors s lw = (Inr 0, lw1)" "log_ok base m n b (w @ cstr s) lw1"
      "\<forall>nm. (\<forall>k \<le> n. nm \<noteq> log_name base (int k)) \<longrightarrow> snd lw1 nm = snd lw nm"
    using log_puts_spec [of base m n b w l fs s] Cons.prems assms(2-5) unfolding lw by auto
  from Cons.IH [OF s(2)] Cons.prems(2) obtain lw2 where
    "put_all no_errors ls lw1 = (replicate (length ls) (Inr 0), lw2)" "log_ok base m n b ((w @ cstr s) @ concat (map cstr ls)) lw2"
    "\<forall>nm. (\<forall>k \<le> n. nm \<noteq> log_name base (int k)) \<longrightarrow> snd lw2 nm = snd lw1 nm"
    by auto
  then show ?case using s by simp
qed simp

lemma log_new_ok:
  assumes "length (cstr path) \<le> 238" "\<And>i. fs (log_name (cstr path) (int i)) = None" "0 < n"
  shows "log_ok (cstr path) m n b [] (log_new path (int m) (int n + 1) level, fs)"
proof -
  have "chain (\<lambda>i. None) k = []" for k by (induction k) (simp_all add: the_text_def)
  then have "kept m (m + 32 * b) n (\<lambda>i. None) []" by (simp add: kept_def)
  then show ?thesis
    using assms(1,2) assms(2) [of 0]
    by (simp add: log_ok_def log_new_def snprintf_def LOG_NAME_SIZE_def LOG_SHIFT_COUNT_def log_name_def the_text_def Let_def)
qed

text \<open>No line of a log is longer than its buffer, whatever is printed.\<close>

lemma log_line_fits: "length (cstr (log_line t tid str msg)) < LOG_BUF_SIZE"
proof -
  define head where "head = time_stamp t @ show_int tid @ '': '' @ str"
  have "log_line t tid str msg = snprintf LOG_BUF_SIZE head @ snprintf (LOG_BUF_SIZE - length head) msg"
    unfolding log_line_def head_def Let_def ..
  then have "length (log_line t tid str msg) < LOG_BUF_SIZE" by (simp add: snprintf_def LOG_BUF_SIZE_def)
  then show ?thesis using length_cstr_le [of "log_line t tid str msg"] by simp
qed

text \<open>C40: what the log keeps. Of a new log with \<open>max_num\<close> files of \<open>max_size\<close> bytes, with no failing call, every line
  is accepted; the files, oldest first, hold the end of everything written; something is dropped only when at least
  \<open>(max_num - 1) * max_size\<close> bytes are kept; the files never take more than \<open>max_num * (max_size + 32 * b)\<close> bytes
  if no line is longer than \<open>b\<close>; and no other file is touched.\<close>

theorem log_keeps_latest:
  assumes "length (cstr path) \<le> 238" "0 < n" "n < 2 ^ 31" "0 < m" "\<forall>s \<in> set ls. length (cstr s) \<le> b"
    and "\<forall>i. fs (log_name (cstr path) (int i)) = None"
    and run: "put_all no_errors ls (log_new path (int m) (int n + 1) level, fs) = (xs, (l, fs'))"
  shows "xs = replicate (length ls) (Inr 0) \<and>
    (\<exists>d. concat (map cstr ls) = d @ chain (\<lambda>i. fs' (log_name (cstr path) (int i))) n \<and>
       (d = [] \<or> n * m \<le> length (chain (\<lambda>i. fs' (log_name (cstr path) (int i))) n))) \<and>
    length (chain (\<lambda>i. fs' (log_name (cstr path) (int i))) n) \<le> Suc n * (m + 32 * b) \<and>
    (\<forall>nm. nm \<notin> (\<lambda>i. log_name (cstr path) (int i)) ` {..n} \<longrightarrow> fs' nm = fs nm)"
proof -
  let ?g = "\<lambda>i. fs' (log_name (cstr path) (int i))"
  have "log_ok (cstr path) m n b [] (log_new path (int m) (int n + 1) level, fs)" using assms by (intro log_new_ok) simp_all
  from put_all_spec [OF this assms(1-5)] run
  have ok: "xs = replicate (length ls) (Inr 0)" "log_ok (cstr path) m n b (concat (map cstr ls)) (l, fs')"
    and frame: "\<forall>nm. (\<forall>k \<le> n. nm \<noteq> log_name (cstr path) (int k)) \<longrightarrow> fs' nm = fs nm"
    by auto
  have k: "kept m (m + 32 * b) n ?g (concat (map cstr ls))" using ok(2) by (simp add: log_ok_def)
  have z: "length t \<le> m + 32 * b" if "?g 0 = Some t" for t
  proof -
    have "nat (lg_write_count l) \<le> 32" and len: "length (the_text (?g 0)) \<le> m + nat (lg_write_count l) * b"
      using ok(2) by (auto simp: log_ok_def LOG_SHIFT_COUNT_def)
    then have "nat (lg_write_count l) * b \<le> 32 * b" by (intro mult_le_mono1)
    from order_trans [OF len add_left_mono [OF this, of m]] that show ?thesis by (simp add: the_text_def)
  qed
  have "length t \<le> m + 32 * b" if "i \<le> n" "?g i = Some t" for i t
    using z that kept_size [OF k _ that] by (cases i) auto
  then have upper: "length (chain ?g n) \<le> Suc n * (m + 32 * b)" by (rule chain_length_le)
  obtain d where d: "concat (map cstr ls) = d @ chain ?g n" "d \<noteq> [] \<longrightarrow> ?g n \<noteq> None" using k unfolding kept_def by blast
  have "n * m \<le> length (chain ?g n)" if "d \<noteq> []"
    by (rule chain_length_ge) (use kept_present [OF k d(2) [rule_format, OF that]] kept_size [OF k] in \<open>auto simp: the_text_def split: option.split\<close>)
  then show ?thesis using ok(1) d(1) upper frame by (auto simp: image_iff)
qed

lemma log_keeps_latest_witness:
  "\<exists>xs l fs' d. put_all no_errors (replicate 40 ''ab'') (log_new ''l'' 8 2 None, Map.empty) = (xs, (l, fs')) \<and> xs = replicate 40 (Inr 0) \<and>
     concat (replicate 40 ''ab'') = d @ chain (\<lambda>i. fs' (log_name ''l'' (int i))) 1 \<and>
     (d = [] \<or> 8 \<le> length (chain (\<lambda>i. fs' (log_name ''l'' (int i))) 1)) \<and>
     length (chain (\<lambda>i. fs' (log_name ''l'' (int i))) 1) \<le> 144"
proof -
  obtain xs l fs' where r: "put_all no_errors (replicate 40 ''ab'') (log_new ''l'' (int 8) (int 1 + 1) None, Map.empty) = (xs, (l, fs'))"
    by (metis prod_cases3)
  have c: "cstr ''l'' = ''l''" "cstr ''ab'' = ''ab''" by (simp_all add: cstr_def)
  show ?thesis
    using log_keeps_latest [of "''l''" 1 8 "replicate 40 ''ab''" 2 Map.empty None xs l fs'] r by (simp add: c)
qed

end
