(* ===== verification/Time_Log.thy ===== *)
theory Time_Log
  imports Log_File
begin

text \<open>
  \<open>CTrpcTimeLog\<close> (\<open>sys/trpc_time_log.cpp\<close>): a log with a new file for every day, over \<open>CLog\<close>, which is a component of its
  record. Nothing in the program creates one. The clock is input. The lemmas say which file a line goes to.
\<close>

record time_log =
  tl_log :: clog
  tl_msg_no :: string
  tl_pid :: int
  tl_current_date :: int
  tl_log_base :: string

type_synonym time_world = "time_log \<times> files"

definition on_log :: "(log_world, 'a) op \<Rightarrow> (time_world, 'a) op" where
  "on_log m = (\<lambda>(l, fs). case m (tl_log l, fs) of (x, l', fs') \<Rightarrow> (x, (l\<lparr>tl_log := l'\<rparr>, fs')))"

section \<open>Operations\<close>

definition now_date :: "tm \<Rightarrow> int" where
  "now_date t = i32 ((tm_year t + 1900) * 10000 + (tm_mon t + 1) * 100 + tm_mday t)"

text \<open>The date is compared, but not stored.\<close>

definition reset_log_name :: "tm \<Rightarrow> (time_world, int) op" where
  "reset_log_name t = (\<lambda>(l, fs).
     if tl_current_date l = now_date t then (Inr 0, (l, fs))
     else let base = snprintf LOG_NAME_SIZE (cstr (tl_log_base l) @ ''_'' @ pad0 8 (now_date t) @ ''_app'')
          in bindS (on_log log_close) (\<lambda>_. returnS 0)
               (l\<lparr>tl_log := (tl_log l)\<lparr>lg_base_path := base, lg_file_name := snprintf LOG_NAME_SIZE (base @ ''.log'')\<rparr>\<rparr>, fs))"

definition time_log_new :: "tm \<Rightarrow> int \<Rightarrow> string \<Rightarrow> int \<Rightarrow> int \<Rightarrow> int option \<Rightarrow> files \<Rightarrow> time_world" where
  "time_log_new t pid log_base_path max_log_size max_log_num log_level fs =
     (case snd (reset_log_name t
        (\<lparr>tl_log = log_new log_base_path max_log_size max_log_num log_level, tl_msg_no = [], tl_pid = 0, tl_current_date = 0,
          tl_log_base = cstr log_base_path\<rparr>, fs)) of
        (l, fs) \<Rightarrow> (l\<lparr>tl_pid := pid\<rparr>, fs))"

definition setMsgNo :: "string \<Rightarrow> time_log \<Rightarrow> time_log" where
  "setMsgNo msg_no l = l\<lparr>tl_msg_no := msg_no\<rparr>"

text \<open>\<open>CFT_LOG_STR\<close>: \<open>msg\<close> is what the format and its arguments print as.\<close>

definition time_line :: "tm \<Rightarrow> time_log \<Rightarrow> string \<Rightarrow> string \<Rightarrow> string" where
  "time_line t l str msg =
     (let head = CHR ''|'' # date_time t @ ''|'' @ show_int (lg_proc_no (tl_log l)) @ ''|'' @ show_int (tl_pid l) @ ''|'' @ str @ ''|''
      in snprintf LOG_BUF_SIZE head @ snprintf (LOG_BUF_SIZE - length head) msg)"

definition time_log_from :: "int \<Rightarrow> string \<Rightarrow> fs_errors \<Rightarrow> tm \<Rightarrow> string \<Rightarrow> (time_world, int) op" where
  "time_log_from lowest str errs t msg = (\<lambda>(l, fs).
     if get_log_level (tl_log l) < lowest then (Inr 0, (l, fs))
     else bindS (reset_log_name t) (\<lambda>_. on_log (log_puts errs (time_line t l str msg))) (l, fs))"

definition in_log :: "fs_errors \<Rightarrow> tm \<Rightarrow> string \<Rightarrow> (time_world, int) op" where
  "in_log = time_log_from ERROR_LOG ''in''"

definition err_call_log :: "fs_errors \<Rightarrow> tm \<Rightarrow> string \<Rightarrow> (time_world, int) op" where
  "err_call_log = time_log_from ERROR_LOG ''udf|err_call''"

definition trans_api_log :: "fs_errors \<Rightarrow> tm \<Rightarrow> string \<Rightarrow> (time_world, int) op" where
  "trans_api_log = time_log_from NORMAL_LOG ''trans_api''"

definition out_log :: "fs_errors \<Rightarrow> tm \<Rightarrow> string \<Rightarrow> (time_world, int) op" where
  "out_log = time_log_from ERROR_LOG ''out''"

definition rpc_log :: "fs_errors \<Rightarrow> tm \<Rightarrow> string \<Rightarrow> (time_world, int) op" where
  "rpc_log = time_log_from ERROR_LOG ''rpc''"

definition sql_log :: "fs_errors \<Rightarrow> tm \<Rightarrow> string \<Rightarrow> (time_world, int) op" where
  "sql_log = time_log_from ERROR_LOG ''sql''"

definition time_error_log :: "fs_errors \<Rightarrow> tm \<Rightarrow> string \<Rightarrow> (time_world, int) op" where
  "time_error_log = time_log_from ERROR_LOG ''udf|error''"

definition time_write_log :: "fs_errors \<Rightarrow> tm \<Rightarrow> string \<Rightarrow> (time_world, int) op" where
  "time_write_log = time_log_from NORMAL_LOG ''udf|normal''"

definition time_debug_log :: "fs_errors \<Rightarrow> tm \<Rightarrow> string \<Rightarrow> (time_world, int) op" where
  "time_debug_log = time_log_from DEBUG_LOG ''udf|debug''"

definition slow_log :: "fs_errors \<Rightarrow> fs_errors \<Rightarrow> int option \<Rightarrow> tm \<Rightarrow> string \<Rightarrow> (time_world, int) op" where
  "slow_log errs errs' fail t msg = (\<lambda>(l, fs).
     day_print errs fail (time_write_log errs' t) (time_error_log errs' t) (day_file (tl_log_base l) t ''_slow.log'')
       (date_time t @ ''|slow|'' @ tl_msg_no l @ ''|'' @ show_int (tl_pid l) @ ''|'') msg (l, fs))"

section \<open>The file of a line\<close>

lemma on_log_keeps [simp]:
  "tl_current_date (fst (snd (on_log m w))) = tl_current_date (fst w)" "tl_log_base (fst (snd (on_log m w))) = tl_log_base (fst w)"
  by (cases w; simp add: on_log_def split_beta)+

text \<open>No operation stores a date: every line closes the file and names it again.\<close>

lemma time_log_date_kept:
  "tl_current_date (fst (snd (time_log_from lowest str errs t msg w))) = tl_current_date (fst w)"
proof (cases w)
  case (Pair l fs)
  have "tl_current_date (fst (snd (reset_log_name t (l, fs)))) = tl_current_date l"
    by (simp add: reset_log_name_def Let_def bindS_def on_log_def log_close_def returnS_def)
  then show ?thesis
    unfolding Pair time_log_from_def bindS_def by (auto split: prod.splits sum.splits)
qed

lemma reset_closes:
  assumes "tl_current_date l = 0" "now_date t \<noteq> 0"
  shows "\<exists>l'. reset_log_name t (l, fs) = (Inr 0, (l', fs)) \<and> \<not> lg_open (tl_log l') \<and> lg_write_count (tl_log l') = lg_write_count (tl_log l) \<and>
    lg_base_path (tl_log l') = snprintf LOG_NAME_SIZE (cstr (tl_log_base l) @ ''_'' @ pad0 8 (now_date t) @ ''_app'')"
  using assms by (simp add: reset_log_name_def Let_def bindS_def on_log_def log_close_def returnS_def)

end
