(* ===== verification/Mmap_File.thy ===== *)
theory Mmap_File
  imports Std_Lib
begin

text \<open>
  \<open>CMmapFile\<close> (\<open>sys/mmap_file.h\<close>): an array of records kept in a file that is mapped into memory. Nothing in the program
  creates one. A record is a text of \<open>n = sizeof(T)\<close> bytes, the array is the content of the file, and which system call
  fails is input. The lemmas say that what is set is got, and that a file of the wrong size cannot be replaced.
\<close>

datatype map_ptr = MapNull | MapFailed | Mapped

record mmap_file =
  mm_file_name :: string
  mm_max_node_num :: int
  mm_data_array :: map_ptr
  mm_mmap_length :: int
  mm_read_only :: bool
  mm_ignore_exist :: bool

record mmap_errors =
  me_mkdir :: bool
  me_open :: bool
  me_mmap :: bool

type_synonym mmap_world = "mmap_file \<times> (string \<Rightarrow> string option)"

definition mmap_new :: "nat \<Rightarrow> string \<Rightarrow> int \<Rightarrow> bool \<Rightarrow> bool \<Rightarrow> mmap_file" where
  "mmap_new n file_name max_node_num read_only ignore_exist =
     \<lparr>mm_file_name = file_name, mm_max_node_num = max_node_num, mm_data_array = MapNull,
      mm_mmap_length = i32 (max_node_num * int n), mm_read_only = read_only, mm_ignore_exist = ignore_exist\<rparr>"

definition file_size :: "mmap_world \<Rightarrow> int" where
  "file_size = (\<lambda>(m, fs). case fs (mm_file_name m) of None \<Rightarrow> - 1 | Some t \<Rightarrow> i32 (int (length t)))"

text \<open>A file that is there is not opened with \<open>O_EXCL | O_CREAT\<close>; a new one is filled with zeros.\<close>

definition mmap_init :: "mmap_errors \<Rightarrow> (mmap_world, int) op" where
  "mmap_init errs = (\<lambda>(m, fs).
     let f = mm_file_name m; size = file_size (m, fs);
         create = (size < 0 \<or> size \<noteq> mm_mmap_length m)
     in if size < 0 \<and> mm_read_only m \<or> size \<ge> 0 \<and> size \<noteq> mm_mmap_length m \<and> \<not> mm_ignore_exist m \<or> me_mkdir errs then (Inr (- 1), (m, fs))
        else if me_open errs \<or> create \<and> fs f \<noteq> None then (Inr (- 1), (m, fs))
        else
          let fs = (if create then fs(f \<mapsto> replicate (nat (mm_mmap_length m)) NUL) else fs)
          in if me_mmap errs then (Inr (- 1), (m\<lparr>mm_data_array := MapFailed\<rparr>, fs))
             else (Inr 0, (m\<lparr>mm_data_array := Mapped\<rparr>, fs)))"

definition mmap_init_with :: "mmap_errors \<Rightarrow> nat \<Rightarrow> string \<Rightarrow> int \<Rightarrow> bool \<Rightarrow> bool \<Rightarrow> (mmap_world, int) op" where
  "mmap_init_with errs n file_name max_node_num read_only ignore_exist = (\<lambda>(m, fs).
     mmap_init errs
       (m\<lparr>mm_file_name := file_name, mm_max_node_num := max_node_num, mm_mmap_length := i32 (max_node_num * int n),
          mm_read_only := read_only, mm_ignore_exist := ignore_exist\<rparr>, fs))"

text \<open>The bytes of the record \<open>index\<close>; a number below 0, or a mapping that failed, is not looked for by the code.\<close>

definition mmap_at :: "nat \<Rightarrow> int \<Rightarrow> (mmap_world, nat) op" where
  "mmap_at n index = (\<lambda>(m, fs).
     if mm_data_array m = Mapped \<and> 0 \<le> index \<and> (nat index + 1) * n \<le> length (the (fs (mm_file_name m)))
     then (Inr (nat index * n), (m, fs)) else (Inl MemoryFault, (m, fs)))"

text \<open>The pointer, as an index into the array.\<close>

definition getIndexPtr :: "int \<Rightarrow> mmap_world \<Rightarrow> int option" where
  "getIndexPtr index = (\<lambda>(m, fs). if index \<ge> mm_max_node_num m \<or> mm_data_array m = MapNull then None else Some index)"

definition getHeadPtr :: "mmap_world \<Rightarrow> int option" where
  "getHeadPtr = (\<lambda>(m, fs). if mm_read_only m \<or> mm_data_array m = MapNull then None else Some 0)"

definition mmap_set :: "nat \<Rightarrow> int \<Rightarrow> string \<Rightarrow> (mmap_world, int) op" where
  "mmap_set n index p = (\<lambda>(m, fs).
     if mm_read_only m \<or> index \<ge> mm_max_node_num m \<or> mm_data_array m = MapNull then (Inr (- 1), (m, fs))
     else bindS (mmap_at n index) (\<lambda>i (m, fs).
            let t = the (fs (mm_file_name m)) in (Inr 0, (m, fs(mm_file_name m \<mapsto> take i t @ p @ drop (i + n) t)))) (m, fs))"

definition mmap_get :: "nat \<Rightarrow> int \<Rightarrow> (mmap_world, int \<times> string option) op" where
  "mmap_get n index = (\<lambda>(m, fs).
     if index \<ge> mm_max_node_num m \<or> mm_data_array m = MapNull then (Inr (- 1, None), (m, fs))
     else bindS (mmap_at n index) (\<lambda>i (m, fs). (Inr (0, Some (take n (drop i (the (fs (mm_file_name m)))))), (m, fs))) (m, fs))"

definition mmap_fini :: "(mmap_world, int) op" where
  "mmap_fini = (\<lambda>(m, fs). (Inr 0, (m\<lparr>mm_data_array := MapNull\<rparr>, fs)))"

section \<open>An array in a file\<close>

text \<open>The file holds all records.\<close>

definition mmap_ok :: "nat \<Rightarrow> mmap_world \<Rightarrow> bool" where
  "mmap_ok n = (\<lambda>(m, fs). mm_data_array m = Mapped \<and> \<not> mm_read_only m \<and> 0 \<le> mm_max_node_num m \<and>
     (\<exists>t. fs (mm_file_name m) = Some t \<and> length t = nat (mm_max_node_num m) * n))"

lemma record_fits: "0 \<le> i \<Longrightarrow> i < k \<Longrightarrow> (nat i + 1) * n \<le> nat k * n"
  by (intro mult_le_mono1) simp

lemma take_drop_other:
  assumes "length p = n" "i \<noteq> j" "(i + 1) * n \<le> length t" "(j + 1) * n \<le> length t"
  shows "take n (drop (j * n) (take (i * n) t @ p @ drop (i * n + n) t)) = take n (drop (j * n) t)"
proof (cases "j < i")
  case True
  then have "(j + 1) * n \<le> i * n" by (intro mult_le_mono1) simp
  then obtain d where d: "i * n = j * n + n + d" by (metis add.commute le_Suc_ex mult_Suc Suc_eq_plus1)
  have "drop (j * n) (take (j * n + n + d) t) = take (n + d) (drop (j * n) t)" by (simp add: drop_take)
  moreover have "n + d \<le> length (drop (j * n) t)" using assms(3) d by simp
  ultimately show ?thesis unfolding d by simp
next
  case False
  then have "(i + 1) * n \<le> j * n" using assms(2) by (intro mult_le_mono1) simp
  then obtain d where d: "j * n = i * n + n + d" by (metis add.commute le_Suc_ex mult_Suc Suc_eq_plus1)
  have "length (take (i * n) t) = i * n" using assms(3) by simp
  then show ?thesis using assms(1) unfolding d by (simp add: add.commute [of d])
qed

lemma mmap_set_get:
  assumes "mmap_ok n w" "0 \<le> i" "i < mm_max_node_num (fst w)" "length p = n"
  shows "\<exists>w'. mmap_set n i p w = (Inr 0, w') \<and> mmap_ok n w' \<and> fst w' = fst w \<and> mmap_get n i w' = (Inr (0, Some p), w') \<and>
    (\<forall>j. 0 \<le> j \<longrightarrow> j < mm_max_node_num (fst w) \<longrightarrow> j \<noteq> i \<longrightarrow> fst (mmap_get n j w') = fst (mmap_get n j w))"
proof -
  obtain m fs where w: "w = (m, fs)" by (cases w)
  obtain t where t: "fs (mm_file_name m) = Some t" "length t = nat (mm_max_node_num m) * n" and ok: "mm_data_array m = Mapped" "\<not> mm_read_only m"
    using assms(1) by (auto simp: w mmap_ok_def)
  have fit: "(nat j + 1) * n \<le> length t" if "0 \<le> j" "j < mm_max_node_num m" for j
    using record_fits [OF that] t(2) by simp
  define u where "u = take (nat i * n) t @ p @ drop (nat i * n + n) t"
  define w' where "w' = (m, fs(mm_file_name m \<mapsto> u))"
  have i: "(nat i + 1) * n \<le> length t" using fit assms(2,3) w by simp
  then have u: "length u = length t" using assms(4) by (simp add: u_def)
  have set: "mmap_set n i p w = (Inr 0, w')"
    using assms(2,3) i ok t by (simp add: w mmap_set_def mmap_at_def bindS_def w'_def u_def)
  have at: "mmap_get n j w' = (Inr (0, Some (take n (drop (nat j * n) u))), w')" if "0 \<le> j" "j < mm_max_node_num m" for j
    using that fit [OF that] ok u by (simp add: mmap_get_def mmap_at_def bindS_def w'_def)
  have old: "mmap_get n j w = (Inr (0, Some (take n (drop (nat j * n) t))), w)" if "0 \<le> j" "j < mm_max_node_num m" for j
    using that fit [OF that] ok t(1) by (simp add: mmap_get_def mmap_at_def bindS_def w)
  have "take n (drop (nat i * n) u) = p" using i assms(4) by (simp add: u_def min_def)
  moreover have "take n (drop (nat j * n) u) = take n (drop (nat j * n) t)" if "0 \<le> j" "j < mm_max_node_num m" "j \<noteq> i" for j
    unfolding u_def by (rule take_drop_other) (use assms i fit that in auto)
  moreover have "mmap_ok n w'" using assms(1) u t(2) by (simp add: w mmap_ok_def w'_def)
  ultimately show ?thesis using set at old assms(2,3) by (auto simp: w w'_def)
qed

text \<open>A file of another size is never replaced, whatever \<open>ignore_exist\<close> says.\<close>

lemma mmap_keeps_old_file:
  assumes "fs (mm_file_name m) = Some t" "in_i32 (int (length t))" "int (length t) \<noteq> mm_mmap_length m"
  shows "mmap_init errs (m, fs) = (Inr (- 1), (m, fs))"
  using assms by (auto simp: mmap_init_def file_size_def i32_id Let_def)

end
