(* ===== verification/Thread_Start.thy ===== *)
theory Thread_Start
  imports Epoll_Monitor
begin

text \<open>
  The start of a \<open>CEventThread\<close> (\<open>sys/event_thread.cpp\<close>): \<open>init\<close> prepares the monitor and signals, \<open>run\<close> creates the
  thread and waits on \<open>CWaitMutex\<close> until it is told. The two are a step relation over the flag, the mutex and the
  condition. The lemmas say when \<open>run\<close> returns: always if \<open>init\<close> is done first, as \<open>CRelayServer\<close> does it; not if the two
  run in different threads, because \<open>init\<close> does not hold the mutex.
\<close>

section \<open>The thread object\<close>

record event_thread =
  th_created :: bool
  th_init :: bool
  th_heart_beat :: int
  th_monitor :: monitor

definition event_thread_new :: "monitor \<Rightarrow> event_thread" where
  "event_thread_new mo = \<lparr>th_created = False, th_init = False, th_heart_beat = 0, th_monitor = mo\<rparr>"

text \<open>\<open>epoll_fd\<close> is what \<open>epoll_create\<close> returns.\<close>

definition thread_init :: "int \<Rightarrow> (event_thread, unit) op" where
  "thread_init epoll_fd t =
     (case monitor_init epoll_fd (th_monitor t) of
        (Inl e, mo) \<Rightarrow> (Inl e, t\<lparr>th_monitor := mo\<rparr>)
      | (Inr _, mo) \<Rightarrow> (Inr (), t\<lparr>th_monitor := mo, th_init := True\<rparr>))"

definition thread_fini :: "(event_thread, unit) pop" where
  "thread_fini t =
     (case monitor_fini (th_monitor t) of
        None \<Rightarrow> None
      | Some (Inl e, mo) \<Rightarrow> Some (Inl e, t\<lparr>th_init := False, th_monitor := mo\<rparr>)
      | Some (Inr _, mo) \<Rightarrow> Some (Inr (), t\<lparr>th_init := False, th_monitor := monitor_stop mo\<rparr>))"

definition thread_stop :: "event_thread \<Rightarrow> event_thread" where
  "thread_stop t = t\<lparr>th_monitor := monitor_stop (th_monitor t)\<rparr>"

definition process_heart_beat :: "int \<Rightarrow> event_thread \<Rightarrow> event_thread" where
  "process_heart_beat now t = t\<lparr>th_heart_beat := i32 now\<rparr>"

text \<open>\<open>CWaitMutex::wait\<close> with a time-out, by what \<open>pthread_cond_timedwait\<close> returns.\<close>

definition ETIMEDOUT :: int where "ETIMEDOUT = 110"

definition wait_result :: "int \<Rightarrow> int" where
  "wait_result ret = (if ret = 0 then 0 else if ret \<noteq> ETIMEDOUT then - 1 else 1)"

section \<open>The handshake\<close>

text \<open>Where \<open>run\<close> and \<open>init\<close> are. Between the test of the flag and the wait the mutex is held, but the flag can change.\<close>

datatype run_pc = RunCreate | RunLock | RunTest | RunWait | RunBlocked | RunWoken | RunUnlock | RunReturned
datatype init_pc = InitFlag | InitSignal | InitDone

record handshake =
  hs_init :: bool
  hs_mutex :: bool
  hs_created :: bool
  hs_run :: run_pc
  hs_starter :: init_pc

inductive hs_step :: "handshake \<Rightarrow> handshake \<Rightarrow> bool" where
  create: "hs_run s = RunCreate \<Longrightarrow> hs_step s (s\<lparr>hs_created := True, hs_run := RunLock\<rparr>)"
| lock: "hs_run s = RunLock \<Longrightarrow> \<not> hs_mutex s \<Longrightarrow> hs_step s (s\<lparr>hs_mutex := True, hs_run := RunTest\<rparr>)"
| test: "hs_run s = RunTest \<Longrightarrow> hs_step s (s\<lparr>hs_run := (if hs_init s then RunUnlock else RunWait)\<rparr>)"
| wait: "hs_run s = RunWait \<Longrightarrow> hs_step s (s\<lparr>hs_mutex := False, hs_run := RunBlocked\<rparr>)"
| relock: "hs_run s = RunWoken \<Longrightarrow> \<not> hs_mutex s \<Longrightarrow> hs_step s (s\<lparr>hs_mutex := True, hs_run := RunTest\<rparr>)"
| free: "hs_run s = RunUnlock \<Longrightarrow> hs_step s (s\<lparr>hs_mutex := False, hs_run := RunReturned\<rparr>)"
| flag: "hs_starter s = InitFlag \<Longrightarrow> hs_step s (s\<lparr>hs_init := True, hs_starter := InitSignal\<rparr>)"
| signal: "hs_starter s = InitSignal \<Longrightarrow>
    hs_step s (s\<lparr>hs_starter := InitDone, hs_run := (if hs_run s = RunBlocked then RunWoken else hs_run s)\<rparr>)"

inductive_cases hs_stepE: "hs_step s s'"

definition hs_start :: handshake where
  "hs_start = \<lparr>hs_init = False, hs_mutex = False, hs_created = False, hs_run = RunCreate, hs_starter = InitFlag\<rparr>"

text \<open>The mutex is held between the locks and the releases of \<open>run\<close>, the only one to take it, and after the signal only
  a \<open>run\<close> that had looked before can wait.\<close>

definition hs_ok :: "handshake \<Rightarrow> bool" where
  "hs_ok s \<longleftrightarrow> (hs_mutex s \<longleftrightarrow> hs_run s \<in> {RunTest, RunWait, RunUnlock}) \<and> (hs_starter s \<noteq> InitFlag \<longrightarrow> hs_init s) \<and>
     (hs_run s \<in> {RunUnlock, RunReturned} \<longrightarrow> hs_init s) \<and> (hs_run s = RunWoken \<longrightarrow> hs_starter s = InitDone)"

lemma hs_ok_step: "hs_step s s' \<Longrightarrow> hs_ok s \<Longrightarrow> hs_ok s'"
  by (induction rule: hs_step.induct) (auto simp: hs_ok_def)

lemma hs_ok_reached: "hs_step\<^sup>*\<^sup>* hs_start s \<Longrightarrow> hs_ok s"
proof (induction rule: rtranclp_induct)
  case base
  show ?case by (simp add: hs_ok_def hs_start_def)
next
  case (step s s')
  then show ?case by (blast intro: hs_ok_step)
qed

text \<open>\<open>run\<close> returns only after \<open>init\<close> has set the flag.\<close>

lemma run_returns_initialised: "hs_step\<^sup>*\<^sup>* hs_start s \<Longrightarrow> hs_run s = RunReturned \<Longrightarrow> hs_init s"
  using hs_ok_reached [of s] by (simp add: hs_ok_def)

text \<open>A state without a step is the end, or \<open>run\<close> waits for a signal that has been given.\<close>

lemma hs_stuck:
  assumes "hs_step\<^sup>*\<^sup>* hs_start s" "\<nexists>s'. hs_step s s'"
  shows "hs_starter s = InitDone \<and> hs_init s \<and> (hs_run s = RunReturned \<or> hs_run s = RunBlocked)"
proof -
  have ok: "hs_ok s" by (rule hs_ok_reached [OF assms(1)])
  have "hs_starter s = InitDone" using assms(2) flag [of s] signal [of s] by (cases "hs_starter s") blast+
  moreover have "hs_run s = RunReturned \<or> hs_run s = RunBlocked"
  proof (cases "hs_run s")
    case RunLock
    then have "\<not> hs_mutex s" using ok by (simp add: hs_ok_def)
    then show ?thesis using lock [OF RunLock] assms(2) by blast
  next
    case RunWoken
    then have "\<not> hs_mutex s" using ok by (simp add: hs_ok_def)
    then show ?thesis using relock [OF RunWoken] assms(2) by blast
  qed (use assms(2) create [of s] test [of s] wait [of s] free [of s] in blast)+
  ultimately show ?thesis using ok by (simp add: hs_ok_def)
qed

text \<open>If \<open>init\<close> is over before \<open>run\<close> begins, \<open>run\<close> never waits.\<close>

lemma run_after_init:
  assumes "hs_step\<^sup>*\<^sup>* (hs_start\<lparr>hs_init := True, hs_starter := InitDone\<rparr>) s"
  shows "hs_run s \<in> {RunCreate, RunLock, RunTest, RunUnlock, RunReturned} \<and> hs_init s"
  using assms by (induction rule: rtranclp_induct) (auto simp: hs_start_def elim: hs_stepE)

text \<open>The signal can come between the test and the wait: then \<open>run\<close> waits, and nobody is left to wake it.\<close>

lemma lost_wakeup:
  "\<exists>s. hs_step\<^sup>*\<^sup>* hs_start s \<and> hs_init s \<and> hs_run s = RunBlocked \<and> (\<nexists>s'. hs_step s s')"
proof -
  let ?s = "\<lparr>hs_init = True, hs_mutex = False, hs_created = True, hs_run = RunBlocked, hs_starter = InitDone\<rparr>"
  have "hs_step\<^sup>*\<^sup>* hs_start (hs_start\<lparr>hs_created := True, hs_run := RunLock\<rparr>)"
    using create [of hs_start] by (simp add: hs_start_def)
  also have "hs_step\<^sup>*\<^sup>* \<dots> (hs_start\<lparr>hs_created := True, hs_mutex := True, hs_run := RunTest\<rparr>)"
    using lock [of "hs_start\<lparr>hs_created := True, hs_run := RunLock\<rparr>"] by (simp add: hs_start_def)
  also have "hs_step\<^sup>*\<^sup>* \<dots> (hs_start\<lparr>hs_created := True, hs_mutex := True, hs_run := RunWait\<rparr>)"
    using test [of "hs_start\<lparr>hs_created := True, hs_mutex := True, hs_run := RunTest\<rparr>"] by (simp add: hs_start_def)
  also have "hs_step\<^sup>*\<^sup>* \<dots> \<lparr>hs_init = True, hs_mutex = True, hs_created = True, hs_run = RunWait, hs_starter = InitSignal\<rparr>"
    using flag [of "hs_start\<lparr>hs_created := True, hs_mutex := True, hs_run := RunWait\<rparr>"] by (simp add: hs_start_def)
  also have "hs_step\<^sup>*\<^sup>* \<dots> \<lparr>hs_init = True, hs_mutex = True, hs_created = True, hs_run = RunWait, hs_starter = InitDone\<rparr>"
    using signal [of "\<lparr>hs_init = True, hs_mutex = True, hs_created = True, hs_run = RunWait, hs_starter = InitSignal\<rparr>"] by simp
  also have "hs_step\<^sup>*\<^sup>* \<dots> ?s"
    using wait [of "\<lparr>hs_init = True, hs_mutex = True, hs_created = True, hs_run = RunWait, hs_starter = InitDone\<rparr>"] by simp
  finally have "hs_step\<^sup>*\<^sup>* hs_start ?s" .
  moreover have "\<nexists>s'. hs_step ?s s'" by (auto elim: hs_stepE)
  ultimately show ?thesis by (intro exI [of _ ?s]) simp
qed

end
