(* ===== verification/Locks.thy ===== *)
theory Locks
  imports Rate_Limit
begin

text \<open>
  The read-write locks (\<open>sys/thread_mutex.cpp\<close>) and the sections they guard. The other theories take an operation
  under a lock as one step; this one lets the threads interleave inside it, and shows when that is the same and, for
  the counters that are written under the read lock (\<open>CFrequencyControl::check\<close>), what is lost.
\<close>

section \<open>\<open>CRwLock\<close>\<close>

record rw =
  rw_readers :: nat
  rw_writer :: bool

definition rw_new :: rw where
  "rw_new = \<lparr>rw_readers = 0, rw_writer = False\<rparr>"

text \<open>\<open>None\<close> while the call waits.\<close>

definition rlock :: "rw \<Rightarrow> rw option" where
  "rlock k = (if rw_writer k then None else Some (k\<lparr>rw_readers := rw_readers k + 1\<rparr>))"

definition wlock :: "rw \<Rightarrow> rw option" where
  "wlock k = (if rw_writer k \<or> 0 < rw_readers k then None else Some (k\<lparr>rw_writer := True\<rparr>))"

definition unlock :: "rw \<Rightarrow> rw" where
  "unlock k = (if rw_writer k then k\<lparr>rw_writer := False\<rparr> else k\<lparr>rw_readers := rw_readers k - 1\<rparr>)"

text \<open>The constructors of \<open>CAutoRLock\<close> and \<open>CAutoWLock\<close>; their destructors both unlock.\<close>

datatype auto_lock = CAutoRLock | CAutoWLock

fun auto_enter :: "auto_lock \<Rightarrow> rw \<Rightarrow> rw option" where
  "auto_enter CAutoRLock k = rlock k"
| "auto_enter CAutoWLock k = wlock k"

section \<open>Threads\<close>

text \<open>A section is a list of accesses to the shared data, each with a register of the thread. A thread has sections to
  go through; inside one it has accesses left.\<close>

type_synonym ('s, 'l) body = "('s \<times> 'l \<Rightarrow> 's \<times> 'l) list"
type_synonym ('s, 'l) sections = "(auto_lock \<times> ('s, 'l) body) list"

datatype ('s, 'l) thread =
    Outside 'l "('s, 'l) sections"
  | Inside auto_lock "('s, 'l) body" 'l "('s, 'l) sections"

record ('s, 'l) sys =
  sy_shared :: 's
  sy_lock :: rw
  sy_threads :: "('s, 'l) thread list"

inductive sys_step :: "('s, 'l) sys \<Rightarrow> ('s, 'l) sys \<Rightarrow> bool" where
  enter: "i < length (sy_threads y) \<Longrightarrow> sy_threads y ! i = Outside l ((m, b) # ts) \<Longrightarrow> auto_enter m (sy_lock y) = Some k \<Longrightarrow>
    sys_step y (y\<lparr>sy_lock := k, sy_threads := (sy_threads y)[i := Inside m b l ts]\<rparr>)"
| work: "i < length (sy_threads y) \<Longrightarrow> sy_threads y ! i = Inside m (f # b) l ts \<Longrightarrow> f (sy_shared y, l) = (s', l') \<Longrightarrow>
    sys_step y (y\<lparr>sy_shared := s', sy_threads := (sy_threads y)[i := Inside m b l' ts]\<rparr>)"
| leave: "i < length (sy_threads y) \<Longrightarrow> sy_threads y ! i = Inside m [] l ts \<Longrightarrow>
    sys_step y (y\<lparr>sy_lock := unlock (sy_lock y), sy_threads := (sy_threads y)[i := Outside l ts]\<rparr>)"

inductive_cases sys_stepE: "sys_step y y'"

text \<open>Any number of steps, and threads that start with the lock free.\<close>

definition reaches :: "('s, 'l) sys \<Rightarrow> ('s, 'l) sys \<Rightarrow> bool" where
  "reaches y y' \<longleftrightarrow> sys_step\<^sup>*\<^sup>* y y'"

definition sys_start :: "'s \<Rightarrow> ('l \<times> ('s, 'l) sections) list \<Rightarrow> ('s, 'l) sys" where
  "sys_start s xs = \<lparr>sy_shared = s, sy_lock = rw_new, sy_threads = map (\<lambda>(l, ts). Outside l ts) xs\<rparr>"

section \<open>Sections as single steps\<close>

fun run_body :: "('s, 'l) body \<Rightarrow> 's \<times> 'l \<Rightarrow> 's \<times> 'l" where
  "run_body [] x = x"
| "run_body (f # b) x = run_body b (f x)"

text \<open>The specification: a thread that has a section left goes through the whole of it at once.\<close>

type_synonym ('s, 'l) atomic = "'s \<times> ('l \<times> ('s, 'l) sections) list"

inductive atomic_step :: "('s, 'l) atomic \<Rightarrow> ('s, 'l) atomic \<Rightarrow> bool" where
  whole: "i < length xs \<Longrightarrow> xs ! i = (l, (m, b) # ts) \<Longrightarrow> run_body b (s, l) = (s', l') \<Longrightarrow>
    atomic_step (s, xs) (s', xs[i := (l', ts)])"

text \<open>Under the read lock nothing is written: not by any access of a run, whatever the shared data and the registers are
  when it begins. An access by itself may write, as \<open>operator[]\<close> of a \<open>std::map\<close> does for a missing key; what
  counts is that the section does not come to it then.\<close>

fun quiet :: "('s, 'l) body \<Rightarrow> 's \<times> 'l \<Rightarrow> bool" where
  "quiet [] x = True"
| "quiet (f # b) x = (fst (f x) = fst x \<and> quiet b (f x))"

definition reads_only :: "('s, 'l) body \<Rightarrow> bool" where
  "reads_only b \<longleftrightarrow> (\<forall>s l. quiet b (s, l))"

definition proper :: "('s, 'l) sections \<Rightarrow> bool" where
  "proper ts \<longleftrightarrow> (\<forall>b. (CAutoRLock, b) \<in> set ts \<longrightarrow> reads_only b)"

lemma run_quiet: "quiet b x \<Longrightarrow> fst (run_body b x) = fst x"
  by (induction b arbitrary: x) auto

lemma run_reads_only: "reads_only b \<Longrightarrow> fst (run_body b (s, l)) = s"
  using run_quiet [of b "(s, l)"] by (simp add: reads_only_def)

subsection \<open>The simulation\<close>

fun finish :: "'s \<Rightarrow> ('s, 'l) thread \<Rightarrow> 'l \<times> ('s, 'l) sections" where
  "finish s (Outside l ts) = (l, ts)"
| "finish s (Inside m b l ts) = (snd (run_body b (s, l)), ts)"

fun outside :: "('s, 'l) thread \<Rightarrow> bool" where
  "outside (Outside l ts) = True"
| "outside (Inside m b l ts) = False"

fun inside :: "auto_lock \<Rightarrow> ('s, 'l) thread \<Rightarrow> bool" where
  "inside m (Outside l ts) = False"
| "inside m (Inside m' b l ts) = (m' = m)"

fun thread_ok :: "'s \<Rightarrow> ('s, 'l) thread \<Rightarrow> bool" where
  "thread_ok s (Outside l ts) = proper ts"
| "thread_ok s (Inside m b l ts) = (proper ts \<and> (m = CAutoRLock \<longrightarrow> quiet b (s, l)))"

definition readers :: "('s, 'l) thread list \<Rightarrow> nat set" where
  "readers ts = {i. i < length ts \<and> inside CAutoRLock (ts ! i)}"

text \<open>The thread \<open>w\<close> writes, alone; the specification has its section done.\<close>

definition writer :: "nat \<Rightarrow> ('s, 'l) sys \<Rightarrow> 's \<Rightarrow> bool" where
  "writer w y s \<longleftrightarrow> w < length (sy_threads y) \<and>
     (\<exists>b l ts. sy_threads y ! w = Inside CAutoWLock b l ts \<and> s = fst (run_body b (sy_shared y, l))) \<and>
     (\<forall>j < length (sy_threads y). j \<noteq> w \<longrightarrow> outside (sy_threads y ! j))"

definition sim :: "('s, 'l) sys \<Rightarrow> ('s, 'l) atomic \<Rightarrow> bool" where
  "sim y a \<longleftrightarrow> (\<forall>t \<in> set (sy_threads y). thread_ok (sy_shared y) t) \<and> snd a = map (finish (sy_shared y)) (sy_threads y) \<and>
     rw_readers (sy_lock y) = card (readers (sy_threads y)) \<and>
     (if rw_writer (sy_lock y) then \<exists>w. writer w y (fst a)
      else fst a = sy_shared y \<and> (\<forall>t \<in> set (sy_threads y). \<not> inside CAutoWLock t))"

lemma finite_readers [simp]: "finite (readers ts)"
  by (simp add: readers_def)

lemma readers_update:
  "i < length ts \<Longrightarrow> readers (ts[i := t]) = (if inside CAutoRLock t then insert i (readers ts) else readers ts - {i})"
  by (auto simp: readers_def nth_list_update)

lemma readers_iff: "i < length ts \<Longrightarrow> i \<in> readers ts \<longleftrightarrow> inside CAutoRLock (ts ! i)"
  by (simp add: readers_def)

lemma not_inside: "\<not> inside CAutoWLock t \<Longrightarrow> \<not> inside CAutoRLock t \<Longrightarrow> outside t"
  by (cases t) (auto intro: auto_lock.exhaust)

lemma outside_not_inside: "outside t \<Longrightarrow> \<not> inside m t"
  by (cases t) simp_all

lemma finish_outside: "outside t \<Longrightarrow> finish s t = finish s' t"
  by (cases t) simp_all

lemma map_same_update: "i < length xs \<Longrightarrow> f x = f (xs ! i) \<Longrightarrow> map f (xs[i := x]) = map f xs"
  by (simp add: map_update list_update_same_conv)

lemma thread_ok_at: "sim y a \<Longrightarrow> i < length (sy_threads y) \<Longrightarrow> thread_ok (sy_shared y) (sy_threads y ! i)"
  by (simp add: sim_def)

lemma ok_update: "\<forall>t \<in> set ts. thread_ok s t \<Longrightarrow> thread_ok s t' \<Longrightarrow> \<forall>t \<in> set (ts[i := t']). thread_ok s t"
  using set_update_subset_insert [of ts i t'] by blast

lemma ok_outside: "outside t \<Longrightarrow> thread_ok s t \<Longrightarrow> thread_ok s' t"
  by (cases t) simp_all

lemma ok_update_alone:
  assumes "\<forall>t \<in> set ts. thread_ok s t" and "\<forall>j < length ts. j \<noteq> i \<longrightarrow> outside (ts ! j)" and "thread_ok s' t'"
  shows "\<forall>t \<in> set (ts[i := t']). thread_ok s' t"
proof
  fix t assume "t \<in> set (ts[i := t'])"
  then obtain j where "j < length ts" "t = (if j = i then t' else ts ! j)"
    by (auto simp: in_set_conv_nth nth_list_update)
  then show "thread_ok s' t" using assms ok_outside [of "ts ! j" s s'] by auto
qed

lemma inside_update:
  "\<forall>t \<in> set ts. \<not> inside m t \<Longrightarrow> \<not> inside m t' \<Longrightarrow> \<forall>t \<in> set (ts[i := t']). \<not> inside m t"
  using set_update_subset_insert [of ts i t'] by blast

text \<open>Who is inside for writing is the writer, and a reader excludes one.\<close>

lemma sim_writer:
  assumes "sim y a" "i < length (sy_threads y)" "sy_threads y ! i = Inside CAutoWLock b l ts"
  shows "rw_writer (sy_lock y) \<and> fst a = fst (run_body b (sy_shared y, l)) \<and>
    (\<forall>j < length (sy_threads y). j \<noteq> i \<longrightarrow> outside (sy_threads y ! j))"
proof -
  have "inside CAutoWLock (sy_threads y ! i)" using assms(3) by simp
  then have w: "rw_writer (sy_lock y)" using assms(1,2) by (auto simp: sim_def split: if_splits)
  then obtain w where w': "writer w y (fst a)" using assms(1) by (auto simp: sim_def)
  then have "w = i" using assms(2,3) unfolding writer_def by force
  then show ?thesis using w w' assms(3) by (auto simp: writer_def)
qed

lemma sim_reader:
  assumes "sim y a" "i < length (sy_threads y)" "sy_threads y ! i = Inside CAutoRLock b l ts"
  shows "\<not> rw_writer (sy_lock y)"
  using assms unfolding sim_def writer_def by force

lemma sim_enter_read:
  assumes sim: "sim y (s, xs)" and i: "i < length (sy_threads y)" "sy_threads y ! i = Outside l ((CAutoRLock, b) # ts)"
    and k: "rlock (sy_lock y) = Some k"
  shows "\<exists>a. atomic_step (s, xs) a \<and> sim (y\<lparr>sy_lock := k, sy_threads := (sy_threads y)[i := Inside CAutoRLock b l ts]\<rparr>) a"
proof -
  have free: "\<not> rw_writer (sy_lock y)" and k: "k = (sy_lock y)\<lparr>rw_readers := rw_readers (sy_lock y) + 1\<rparr>"
    using k by (auto simp: rlock_def split: if_splits)
  have ok: "proper ts" "reads_only b" using thread_ok_at [OF sim i(1)] i(2) by (auto simp: proper_def)
  have s: "s = sy_shared y" "\<forall>t \<in> set (sy_threads y). \<not> inside CAutoWLock t" "xs = map (finish s) (sy_threads y)"
    using sim free by (auto simp: sim_def)
  have "run_body b (s, l) = (s, snd (run_body b (s, l)))" using run_reads_only [OF ok(2)] by (metis prod.collapse)
  then have step: "atomic_step (s, xs) (s, xs[i := (snd (run_body b (s, l)), ts)])"
    using i s(3) by (intro whole) simp_all
  have "\<forall>t \<in> set ((sy_threads y)[i := Inside CAutoRLock b l ts]). thread_ok (sy_shared y) t"
    using sim ok by (intro ok_update) (simp_all add: sim_def reads_only_def)
  moreover have "card (insert i (readers (sy_threads y))) = Suc (card (readers (sy_threads y)))"
    using i by (simp add: readers_iff)
  ultimately have "sim (y\<lparr>sy_lock := k, sy_threads := (sy_threads y)[i := Inside CAutoRLock b l ts]\<rparr>) (s, xs[i := (snd (run_body b (s, l)), ts)])"
    using sim free i ok s k inside_update [OF s(2), of "Inside CAutoRLock b l ts" i]
    by (simp add: sim_def readers_update map_update)
  then show ?thesis using step by blast
qed

lemma sim_enter_write:
  assumes sim: "sim y (s, xs)" and i: "i < length (sy_threads y)" "sy_threads y ! i = Outside l ((CAutoWLock, b) # ts)"
    and k: "wlock (sy_lock y) = Some k"
  shows "\<exists>a. atomic_step (s, xs) a \<and> sim (y\<lparr>sy_lock := k, sy_threads := (sy_threads y)[i := Inside CAutoWLock b l ts]\<rparr>) a"
proof -
  have free: "\<not> rw_writer (sy_lock y)" "rw_readers (sy_lock y) = 0" and k: "k = (sy_lock y)\<lparr>rw_writer := True\<rparr>"
    using k by (auto simp: wlock_def split: if_splits)
  have s: "s = sy_shared y" "\<forall>t \<in> set (sy_threads y). \<not> inside CAutoWLock t" "xs = map (finish s) (sy_threads y)"
    using sim free by (auto simp: sim_def)
  have none: "readers (sy_threads y) = {}" using sim free by (simp add: sim_def)
  then have out: "\<forall>j < length (sy_threads y). outside (sy_threads y ! j)"
    using s(2) by (intro allI impI not_inside) (auto simp: readers_def)
  have "proper ts" using thread_ok_at [OF sim i(1)] i(2) by (simp add: proper_def)
  then have ok: "\<forall>t \<in> set ((sy_threads y)[i := Inside CAutoWLock b l ts]). thread_ok (sy_shared y) t"
    using sim by (intro ok_update) (simp_all add: sim_def)
  have "atomic_step (s, xs) (fst (run_body b (s, l)), xs[i := (snd (run_body b (s, l)), ts)])"
    using i s(3) by (intro whole) simp_all
  moreover have "sim (y\<lparr>sy_lock := k, sy_threads := (sy_threads y)[i := Inside CAutoWLock b l ts]\<rparr>)
      (fst (run_body b (s, l)), xs[i := (snd (run_body b (s, l)), ts)])"
    using i out s none free ok by (auto simp: sim_def k readers_update map_update writer_def)
  ultimately show ?thesis by blast
qed

lemma sim_enter:
  assumes "sim y a" "i < length (sy_threads y)" "sy_threads y ! i = Outside l ((m, b) # ts)" "auto_enter m (sy_lock y) = Some k"
  shows "\<exists>a'. atomic_step a a' \<and> sim (y\<lparr>sy_lock := k, sy_threads := (sy_threads y)[i := Inside m b l ts]\<rparr>) a'"
proof (cases a)
  case (Pair s xs)
  show ?thesis
    using sim_enter_read [of y s xs i l b ts k] sim_enter_write [of y s xs i l b ts k] assms unfolding Pair by (cases m) simp_all
qed

lemma map_finish_others:
  assumes "i < length xs" "\<forall>j < length xs. j \<noteq> i \<longrightarrow> outside (xs ! j)" "finish s' t = finish s (xs ! i)"
  shows "map (finish s') (xs[i := t]) = map (finish s) xs"
  using assms by (intro nth_equalityI) (auto simp: nth_list_update intro: finish_outside)

lemma sim_work:
  assumes sim: "sim y a" and i: "i < length (sy_threads y)" "sy_threads y ! i = Inside m (f # b) l ts"
    and f: "f (sy_shared y, l) = (s', l')"
  shows "sim (y\<lparr>sy_shared := s', sy_threads := (sy_threads y)[i := Inside m b l' ts]\<rparr>) a"
proof (cases m)
  case CAutoRLock
  have ok: "proper ts" "quiet (f # b) (sy_shared y, l)" using thread_ok_at [OF sim i(1)] i(2) CAutoRLock by auto
  then have same: "s' = sy_shared y" and q: "quiet b (sy_shared y, l')" using f by auto
  have free: "\<not> rw_writer (sy_lock y)" using sim_reader [OF sim i(1)] i(2) CAutoRLock by simp
  have ok': "\<forall>t \<in> set ((sy_threads y)[i := Inside m b l' ts]). thread_ok s' t"
    using sim ok(1) q same by (intro ok_update) (simp_all add: sim_def)
  have "\<forall>t \<in> set ((sy_threads y)[i := Inside m b l' ts]). \<not> inside CAutoWLock t"
    using sim free CAutoRLock by (intro inside_update) (simp_all add: sim_def)
  moreover have "map (finish s') ((sy_threads y)[i := Inside m b l' ts]) = map (finish s') (sy_threads y)"
    using i f same by (intro map_same_update) simp_all
  moreover have "insert i (readers (sy_threads y)) = readers (sy_threads y)"
    using i CAutoRLock by (simp add: readers_iff insert_absorb)
  ultimately show ?thesis using sim free i same CAutoRLock ok' by (simp add: sim_def readers_update)
next
  case CAutoWLock
  then have w: "rw_writer (sy_lock y)" "fst a = fst (run_body (f # b) (sy_shared y, l))"
    "\<forall>j < length (sy_threads y). j \<noteq> i \<longrightarrow> outside (sy_threads y ! j)"
    using sim_writer [OF sim i(1)] i(2) by auto
  have "proper ts" using thread_ok_at [OF sim i(1)] i(2) by simp
  then have ok': "\<forall>t \<in> set ((sy_threads y)[i := Inside m b l' ts]). thread_ok s' t"
    using sim CAutoWLock w(3) by (intro ok_update_alone [where s = "sy_shared y"]) (simp_all add: sim_def)
  have "map (finish s') ((sy_threads y)[i := Inside m b l' ts]) = map (finish (sy_shared y)) (sy_threads y)"
    using i f w(3) by (intro map_finish_others) simp_all
  moreover have "readers (sy_threads y) - {i} = readers (sy_threads y)" using i CAutoWLock by (simp add: readers_iff)
  moreover have "writer i (y\<lparr>sy_shared := s', sy_threads := (sy_threads y)[i := Inside m b l' ts]\<rparr>) (fst a)"
    using i w f CAutoWLock by (simp add: writer_def)
  ultimately show ?thesis using sim w(1) i CAutoWLock ok' by (auto simp: sim_def readers_update)
qed

lemma sim_leave:
  assumes sim: "sim y a" and i: "i < length (sy_threads y)" "sy_threads y ! i = Inside m [] l ts"
  shows "sim (y\<lparr>sy_lock := unlock (sy_lock y), sy_threads := (sy_threads y)[i := Outside l ts]\<rparr>) a"
proof (cases m)
  case CAutoRLock
  have free: "\<not> rw_writer (sy_lock y)" using sim_reader [OF sim i(1)] i(2) CAutoRLock by simp
  have "proper ts" using thread_ok_at [OF sim i(1)] i(2) by simp
  then have ok': "\<forall>t \<in> set ((sy_threads y)[i := Outside l ts]). thread_ok (sy_shared y) t"
    using sim by (intro ok_update) (simp_all add: sim_def)
  have "\<forall>t \<in> set ((sy_threads y)[i := Outside l ts]). \<not> inside CAutoWLock t"
    using sim free by (intro inside_update) (simp_all add: sim_def)
  moreover have "map (finish (sy_shared y)) ((sy_threads y)[i := Outside l ts]) = map (finish (sy_shared y)) (sy_threads y)"
    using i by (intro map_same_update) simp_all
  moreover have "card (readers (sy_threads y) - {i}) = card (readers (sy_threads y)) - 1"
    using i CAutoRLock by (simp add: readers_iff)
  ultimately show ?thesis using sim free i ok' by (simp add: sim_def readers_update unlock_def)
next
  case CAutoWLock
  then have w: "rw_writer (sy_lock y)" "fst a = sy_shared y"
    "\<forall>j < length (sy_threads y). j \<noteq> i \<longrightarrow> outside (sy_threads y ! j)"
    using sim_writer [OF sim i(1)] i(2) by auto
  have "proper ts" using thread_ok_at [OF sim i(1)] i(2) by simp
  then have ok': "\<forall>t \<in> set ((sy_threads y)[i := Outside l ts]). thread_ok (sy_shared y) t"
    using sim by (intro ok_update) (simp_all add: sim_def)
  have "map (finish (sy_shared y)) ((sy_threads y)[i := Outside l ts]) = map (finish (sy_shared y)) (sy_threads y)"
    using i by (intro map_same_update) simp_all
  moreover have "readers (sy_threads y) - {i} = readers (sy_threads y)" using i CAutoWLock by (simp add: readers_iff)
  moreover have "\<forall>t \<in> set ((sy_threads y)[i := Outside l ts]). \<not> inside CAutoWLock t"
    using w(3) i by (metis in_set_conv_nth inside.simps(1) length_list_update nth_list_update outside_not_inside)
  ultimately show ?thesis using sim w i ok' by (simp add: sim_def readers_update unlock_def)
qed

lemma sim_start: "\<forall>x \<in> set xs. proper (snd x) \<Longrightarrow> sim (sys_start s xs) (s, xs)"
proof -
  assume "\<forall>x \<in> set xs. proper (snd x)"
  moreover have "readers (map (\<lambda>(l, ts). Outside l ts) xs) = {}" by (auto simp: readers_def split: prod.splits)
  ultimately show ?thesis by (auto simp: sim_def sys_start_def rw_new_def comp_def split_beta)
qed

lemma sim_step: "sys_step y y' \<Longrightarrow> sim y a \<Longrightarrow> \<exists>a'. atomic_step\<^sup>*\<^sup>* a a' \<and> sim y' a'"
proof (induction rule: sys_step.induct)
  case (enter i y l m b ts k)
  from sim_enter [OF enter(4,1-3)] show ?case by blast
next
  case (work i y m f b l ts s' l')
  from sim_work [OF work(4,1-3)] show ?case by blast
next
  case (leave i y m l ts)
  from sim_leave [OF leave(3,1,2)] show ?case by blast
qed

lemma sim_steps: "sys_step\<^sup>*\<^sup>* y y' \<Longrightarrow> sim y a \<Longrightarrow> \<exists>a'. atomic_step\<^sup>*\<^sup>* a a' \<and> sim y' a'"
proof (induction rule: rtranclp_induct)
  case (step y' y'')
  then show ?case by (meson rtranclp_trans sim_step)
qed blast

lemma sim_outside:
  assumes "sim y a" "\<forall>t \<in> set (sy_threads y). outside t"
  shows "fst a = sy_shared y \<and> sy_lock y = rw_new"
proof -
  have "readers (sy_threads y) = {}" using assms(2) outside_not_inside nth_mem unfolding readers_def by fast
  moreover have "\<not> rw_writer (sy_lock y)"
    using assms by (auto simp: sim_def writer_def) (metis nth_mem outside.simps(2))
  ultimately show ?thesis using assms(1) by (cases "sy_lock y") (simp add: sim_def rw_new_def)
qed

subsection \<open>Progress\<close>

text \<open>The steps a thread has left.\<close>

fun steps_left :: "('s, 'l) thread \<Rightarrow> nat" where
  "steps_left (Outside l ts) = (\<Sum>(m, b) \<leftarrow> ts. length b + 2)"
| "steps_left (Inside m b l ts) = length b + 1 + (\<Sum>(m, b) \<leftarrow> ts. length b + 2)"

lemma sum_update:
  "i < length ts \<Longrightarrow> g (ts ! i) = Suc (g t) \<Longrightarrow> (\<Sum>x \<leftarrow> ts. g x) = Suc (\<Sum>x \<leftarrow> ts[i := t]. g x)" for g :: "'a \<Rightarrow> nat"
proof (induction ts arbitrary: i)
  case (Cons x ts)
  then show ?case by (cases i) auto
qed simp

lemma step_counts: "sys_step y y' \<Longrightarrow> (\<Sum>t \<leftarrow> sy_threads y. steps_left t) = Suc (\<Sum>t \<leftarrow> sy_threads y'. steps_left t)"
  by (induction rule: sys_step.induct) (simp_all add: sum_update)

lemma steps_count: "(sys_step ^^ n) y y' \<Longrightarrow> (\<Sum>t \<leftarrow> sy_threads y. steps_left t) = n + (\<Sum>t \<leftarrow> sy_threads y'. steps_left t)"
proof (induction n arbitrary: y')
  case (Suc n)
  then obtain z where "(sys_step ^^ n) y z" "sys_step z y'" by auto
  then show ?case using Suc.IH step_counts by fastforce
qed simp

lemma sim_progress:
  assumes sim: "sim y a" and t: "t \<in> set (sy_threads y)" "0 < steps_left t"
  shows "\<exists>y'. sys_step y y'"
proof (cases "\<forall>t \<in> set (sy_threads y). outside t")
  case True
  obtain i where i: "i < length (sy_threads y)" "sy_threads y ! i = t" using t(1) by (auto simp: in_set_conv_nth)
  have "outside t" using True t(1) by blast
  then obtain l tt where tt: "t = Outside l tt" by (cases t) simp_all
  then obtain m b ts where "t = Outside l ((m, b) # ts)" using t(2) by (cases tt) auto
  moreover have "\<exists>k. auto_enter m (sy_lock y) = Some k"
    using sim_outside [OF sim True] by (cases m) (simp_all add: rlock_def wlock_def rw_new_def)
  ultimately show ?thesis using enter [OF i(1), of l m b ts] i(2) by auto
next
  case False
  then obtain i where i: "i < length (sy_threads y)" "\<not> outside (sy_threads y ! i)" by (auto simp: in_set_conv_nth)
  then obtain m b l ts where "sy_threads y ! i = Inside m b l ts" by (cases "sy_threads y ! i") auto
  then have t: "sy_threads y ! i = Inside m b l ts" .
  show ?thesis
  proof (cases b)
    case Nil
    show ?thesis by (rule exI, rule leave [OF i(1)]) (use t Nil in simp)
  next
    case (Cons f b')
    obtain s' l' where "f (sy_shared y, l) = (s', l')" by fastforce
    with work [OF i(1) t [unfolded Cons]] show ?thesis by blast
  qed
qed

lemma some_left: "(\<Sum>t \<leftarrow> ts. g t) \<noteq> 0 \<Longrightarrow> \<exists>t \<in> set ts. 0 < g t" for g :: "'a \<Rightarrow> nat"
  by (induction ts) auto

lemma none_left: "(\<Sum>t \<leftarrow> ts. steps_left t) = 0 \<Longrightarrow> \<forall>t \<in> set ts. outside t"
proof -
  assume "(\<Sum>t \<leftarrow> ts. steps_left t) = 0"
  then have "\<forall>t \<in> set ts. steps_left t = 0" by simp
  moreover have "outside t" if "steps_left t = 0" for t :: "('a, 'b) thread" using that by (cases t) simp_all
  ultimately show ?thesis by blast
qed

section \<open>Locked operations are single steps\<close>

text \<open>What the locks give. However the threads interleave, as long as nothing is written under the read lock, the
  threads are where single steps, a section each, can bring them; when no thread is inside, the shared data are those
  of the single steps and the lock is free; and a thread that is inside for writing is inside alone.\<close>

lemma locked_operations_atomic:
  assumes "\<forall>x \<in> set xs. proper (snd x)" and "reaches (sys_start s xs) y"
  shows "(\<exists>s'. atomic_step\<^sup>*\<^sup>* (s, xs) (s', map (finish (sy_shared y)) (sy_threads y)) \<and>
      ((\<forall>t \<in> set (sy_threads y). outside t) \<longrightarrow> s' = sy_shared y \<and> sy_lock y = rw_new)) \<and>
    (\<forall>i < length (sy_threads y). \<forall>j < length (sy_threads y). inside CAutoWLock (sy_threads y ! i) \<longrightarrow> j \<noteq> i \<longrightarrow>
      outside (sy_threads y ! j))"
proof -
  obtain a where a: "atomic_step\<^sup>*\<^sup>* (s, xs) a" "sim y a"
    using sim_steps [OF _ sim_start [OF assms(1)]] assms(2) unfolding reaches_def by blast
  have "atomic_step\<^sup>*\<^sup>* (s, xs) (fst a, map (finish (sy_shared y)) (sy_threads y))"
    using a by (cases a) (simp add: sim_def)
  moreover have "outside (sy_threads y ! j)"
    if "i < length (sy_threads y)" "j < length (sy_threads y)" "inside CAutoWLock (sy_threads y ! i)" "j \<noteq> i" for i j
  proof -
    from that(3) obtain b l ts where "sy_threads y ! i = Inside CAutoWLock b l ts" by (cases "sy_threads y ! i") auto
    from sim_writer [OF a(2) that(1) this] that(2,4) show ?thesis by blast
  qed
  ultimately show ?thesis using sim_outside [OF a(2)] by blast
qed

text \<open>Threads that take one lock at a time never block each other for good: a run that has not made all its steps
  can make another one, there are no more than \<open>length b + 2\<close> for every section, and after them every section is done.\<close>

lemma locked_sections_complete:
  assumes "\<forall>x \<in> set xs. proper (snd x)" and "(sys_step ^^ n) (sys_start s xs) y"
  defines "bound \<equiv> (\<Sum>(l, ts) \<leftarrow> xs. \<Sum>(m, b) \<leftarrow> ts. length b + 2)"
  shows "n \<le> bound \<and> (n < bound \<longrightarrow> (\<exists>y'. sys_step y y')) \<and>
    (n = bound \<longrightarrow> (\<forall>t \<in> set (sy_threads y). \<exists>l. t = Outside l []) \<and> sy_lock y = rw_new)"
proof -
  have r: "sys_step\<^sup>*\<^sup>* (sys_start s xs) y" using assms(2) by (rule relpowp_imp_rtranclp)
  then obtain a where a: "sim y a" using sim_steps [OF r sim_start [OF assms(1)]] by blast
  have "(\<Sum>t \<leftarrow> sy_threads (sys_start s xs). steps_left t) = bound"
    unfolding sys_start_def bound_def by (induction xs) auto
  then have count: "bound = n + (\<Sum>t \<leftarrow> sy_threads y. steps_left t)" using steps_count [OF assms(2)] by simp
  have "\<exists>y'. sys_step y y'" if "n < bound"
  proof -
    have "(\<Sum>t \<leftarrow> sy_threads y. steps_left t) \<noteq> 0" using that count by linarith
    from some_left [OF this] obtain t where "t \<in> set (sy_threads y)" "0 < steps_left t" by blast
    then show ?thesis using sim_progress [OF a] by blast
  qed
  moreover have "(\<forall>t \<in> set (sy_threads y). \<exists>l. t = Outside l []) \<and> sy_lock y = rw_new" if "n = bound"
  proof -
    have z: "(\<Sum>t \<leftarrow> sy_threads y. steps_left t) = 0" using that count by simp
    have "\<exists>l. t = Outside l []" if "t \<in> set (sy_threads y)" for t
    proof -
      have "steps_left t = 0" using z that by simp
      then show ?thesis by (cases t; cases "snd (finish (sy_shared y) t)") auto
    qed
    then show ?thesis using sim_outside [OF a none_left [OF z]] by blast
  qed
  ultimately show ?thesis using count by simp
qed

section \<open>Schedules\<close>

text \<open>The step of the thread \<open>i\<close>, if it can make one, and the steps of the threads a schedule names.\<close>

definition thread_step :: "nat \<Rightarrow> ('s, 'l) sys \<Rightarrow> ('s, 'l) sys option" where
  "thread_step i y =
     (if i < length (sy_threads y)
      then case sy_threads y ! i of
             Outside l [] \<Rightarrow> None
           | Outside l ((m, b) # ts) \<Rightarrow>
               (case auto_enter m (sy_lock y) of
                  None \<Rightarrow> None
                | Some k \<Rightarrow> Some (y\<lparr>sy_lock := k, sy_threads := (sy_threads y)[i := Inside m b l ts]\<rparr>))
           | Inside m (f # b) l ts \<Rightarrow>
               (case f (sy_shared y, l) of (s', l') \<Rightarrow> Some (y\<lparr>sy_shared := s', sy_threads := (sy_threads y)[i := Inside m b l' ts]\<rparr>))
           | Inside m [] l ts \<Rightarrow> Some (y\<lparr>sy_lock := unlock (sy_lock y), sy_threads := (sy_threads y)[i := Outside l ts]\<rparr>)
      else None)"

fun sys_run :: "nat list \<Rightarrow> ('s, 'l) sys \<Rightarrow> ('s, 'l) sys option" where
  "sys_run [] y = Some y"
| "sys_run (i # is) y = (case thread_step i y of None \<Rightarrow> None | Some y' \<Rightarrow> sys_run is y')"

lemma thread_step_sound:
  assumes "thread_step i y = Some y'"
  shows "sys_step y y'"
proof (cases "sy_threads y ! i")
  case (Outside l ts)
  then obtain m b tt k where "ts = (m, b) # tt" "auto_enter m (sy_lock y) = Some k" "i < length (sy_threads y)"
    "y' = y\<lparr>sy_lock := k, sy_threads := (sy_threads y)[i := Inside m b l tt]\<rparr>"
    using assms by (auto simp: thread_step_def split: if_splits list.splits option.splits)
  then show ?thesis using Outside enter [of i y l m b tt k] by simp
next
  case (Inside m b l ts)
  then show ?thesis
    using assms enter work leave [of i y m l ts] by (auto simp: thread_step_def split: if_splits list.splits prod.splits)
qed

lemma sys_run_reaches: "sys_run is y = Some y' \<Longrightarrow> reaches y y'"
proof (induction "is" arbitrary: y)
  case (Cons i "is")
  then obtain z where z: "thread_step i y = Some z" "sys_run is z = Some y'" by (auto split: option.splits)
  with Cons.IH show ?case unfolding reaches_def by (meson converse_rtranclp_into_rtranclp thread_step_sound)
qed (simp add: reaches_def)

lemma sys_run_steps: "sys_run is y = Some y' \<Longrightarrow> (sys_step ^^ length is) y y'"
proof (induction "is" arbitrary: y)
  case (Cons i "is")
  then obtain z where z: "thread_step i y = Some z" "sys_run is z = Some y'" by (auto split: option.splits)
  with Cons.IH thread_step_sound [OF z(1)] show ?case by (metis length_Cons relpowp_Suc_I2)
qed simp

lemma run_case: "(case sys_run is y of None \<Rightarrow> False | Some z \<Rightarrow> P z) \<Longrightarrow> \<exists>z. reaches y z \<and> P z"
  using sys_run_reaches [of "is" y] by (cases "sys_run is y") auto

section \<open>The counter of \<open>CFrequencyControl\<close> under the read lock\<close>

text \<open>The accesses of \<open>_check\<close> to the entry of its key, for a request that comes at \<open>now\<close>: the test of the window, then
  either the two writes that open a new one, or the load and the store of \<open>++data.call_times\<close>. The periods and the
  limits are only written when the configuration is read.\<close>

record check_regs =
  cr_expired :: bool
  cr_times :: int
  cr_answers :: "bool list"

definition regs_new :: check_regs where
  "regs_new = \<lparr>cr_expired = False, cr_times = 0, cr_answers = []\<rparr>"

definition check_test :: "int \<Rightarrow> frequency_data \<times> check_regs \<Rightarrow> frequency_data \<times> check_regs" where
  "check_test now = (\<lambda>(d, l). (d, l\<lparr>cr_expired := fd_begin_time d + fd_limit_time d < now\<rparr>))"

definition check_first :: "int \<Rightarrow> frequency_data \<times> check_regs \<Rightarrow> frequency_data \<times> check_regs" where
  "check_first now = (\<lambda>(d, l). if cr_expired l then (d\<lparr>fd_begin_time := now\<rparr>, l) else (d, l\<lparr>cr_times := fd_call_times d\<rparr>))"

definition check_second :: "frequency_data \<times> check_regs \<Rightarrow> frequency_data \<times> check_regs" where
  "check_second = (\<lambda>(d, l).
     if cr_expired l then (d\<lparr>fd_call_times := 0\<rparr>, l\<lparr>cr_answers := cr_answers l @ [True]\<rparr>)
     else let times = i32 (cr_times l + 1)
          in (d\<lparr>fd_call_times := times\<rparr>, l\<lparr>cr_answers := cr_answers l @ [\<not> times > fd_limit_count d]\<rparr>))"

definition check_body :: "int \<Rightarrow> (frequency_data, check_regs) body" where
  "check_body now = [check_test now, check_first now, check_second]"

definition check_thread :: "int list \<Rightarrow> check_regs \<times> (frequency_data, check_regs) sections" where
  "check_thread nows = (regs_new, map (\<lambda>now. (CAutoRLock, check_body now)) nows)"

text \<open>Without interruption this is the operation of the theory of the limits.\<close>

lemma check_body_is_call:
  "freq_call now d = (pass, d') \<Longrightarrow> \<exists>l'. run_body (check_body now) (d, l) = (d', l') \<and> cr_answers l' = cr_answers l @ [pass]"
  by (auto simp: freq_call_def check_body_def check_test_def check_first_def check_second_def Let_def split: if_splits)

fun regs :: "('s, 'l) thread \<Rightarrow> 'l" where
  "regs (Outside l ts) = l"
| "regs (Inside m b l ts) = l"

text \<open>What the threads have been answered so far.\<close>

definition answers :: "('s, check_regs) sys \<Rightarrow> bool list" where
  "answers y = concat (map (\<lambda>t. cr_answers (regs t)) (sy_threads y))"

fun checks_left :: "('s, 'l) thread \<Rightarrow> nat" where
  "checks_left (Outside l ts) = length ts"
| "checks_left (Inside m b l ts) = (if b = [] then 0 else 1) + length ts"

subsection \<open>One window\<close>

text \<open>The requests come inside the window, which ends at \<open>last_time\<close>; what a thread has loaded is at most \<open>most\<close>.\<close>

definition checks_ok :: "int \<Rightarrow> (frequency_data, check_regs) sections \<Rightarrow> bool" where
  "checks_ok last_time ts \<longleftrightarrow> (\<forall>x \<in> set ts. \<exists>now \<le> last_time. snd x = check_body now)"

fun check_ok :: "int \<Rightarrow> int \<Rightarrow> (frequency_data, check_regs) thread \<Rightarrow> bool" where
  "check_ok last_time most (Outside l ts) = checks_ok last_time ts"
| "check_ok last_time most (Inside m b l ts) = (checks_ok last_time ts \<and>
     (b = [] \<or> (\<exists>now \<le> last_time. b = check_body now \<or> (b = [check_first now, check_second] \<and> \<not> cr_expired l)) \<or>
      (b = [check_second] \<and> \<not> cr_expired l \<and> 0 \<le> cr_times l \<and> cr_times l \<le> most)))"

definition same_window :: "frequency_data \<Rightarrow> frequency_data \<Rightarrow> bool" where
  "same_window d d' \<longleftrightarrow> fd_begin_time d' = fd_begin_time d \<and> fd_limit_time d' = fd_limit_time d \<and> fd_limit_count d' = fd_limit_count d"

text \<open>The counter is at most what it was plus the answers given, and as many requests as there was room have passed.\<close>

definition window_inv :: "frequency_data \<Rightarrow> nat \<Rightarrow> (frequency_data, check_regs) sys \<Rightarrow> bool" where
  "window_inv d n y \<longleftrightarrow>
     (let d' = sy_shared y; answered = (\<Sum>t \<leftarrow> sy_threads y. length (cr_answers (regs t)))
      in same_window d d' \<and> 0 \<le> fd_call_times d' \<and> fd_call_times d' \<le> fd_call_times d + int answered \<and>
         answered + (\<Sum>t \<leftarrow> sy_threads y. checks_left t) = n \<and>
         (\<forall>t \<in> set (sy_threads y). check_ok (fd_begin_time d + fd_limit_time d) (fd_call_times d + int answered) t) \<and>
         min answered (nat (fd_limit_count d - fd_call_times d)) \<le> (\<Sum>t \<leftarrow> sy_threads y. passed (cr_answers (regs t))))"

lemma sum_swap: "i < length ts \<Longrightarrow> (\<Sum>x \<leftarrow> ts[i := t]. g x) + g (ts ! i) = (\<Sum>x \<leftarrow> ts. g x) + g t" for g :: "'a \<Rightarrow> nat"
proof (induction ts arbitrary: i)
  case (Cons x ts)
  then show ?case by (cases i) (auto simp: add.commute add.left_commute)
qed simp

lemma check_ok_mono: "check_ok e most t \<Longrightarrow> most \<le> most' \<Longrightarrow> check_ok e most' t"
  by (cases t) auto

lemma checks_ok_update:
  assumes "\<forall>t \<in> set ts. check_ok e most t" "most \<le> most'" "check_ok e most' t'"
  shows "\<forall>t \<in> set (ts[i := t']). check_ok e most' t"
  using assms set_update_subset_insert [of ts i t'] check_ok_mono by blast

text \<open>Steps that answer nothing.\<close>

lemma window_quiet:
  assumes "window_inv d n y" "i < length (sy_threads y)" "sy_shared y' = sy_shared y" "sy_threads y' = (sy_threads y)[i := t]"
    and "cr_answers (regs t) = cr_answers (regs (sy_threads y ! i))" "checks_left t = checks_left (sy_threads y ! i)"
    and ok: "check_ok (fd_begin_time d + fd_limit_time d)
      (fd_call_times d + int (\<Sum>t \<leftarrow> sy_threads y. length (cr_answers (regs t)))) t"
  shows "window_inv d n y'"
proof -
  let ?ts = "sy_threads y"
  have sums: "(\<Sum>x \<leftarrow> ?ts[i := t]. length (cr_answers (regs x))) = (\<Sum>x \<leftarrow> ?ts. length (cr_answers (regs x)))"
    "(\<Sum>x \<leftarrow> ?ts[i := t]. passed (cr_answers (regs x))) = (\<Sum>x \<leftarrow> ?ts. passed (cr_answers (regs x)))"
    "(\<Sum>x \<leftarrow> ?ts[i := t]. checks_left x) = (\<Sum>x \<leftarrow> ?ts. checks_left x)"
    using assms(2,5,6) by (simp_all add: map_same_update)
  note inv = assms(1) [unfolded window_inv_def Let_def]
  then have ok': "\<forall>x \<in> set (?ts[i := t]). check_ok (fd_begin_time d + fd_limit_time d)
      (fd_call_times d + int (\<Sum>t \<leftarrow> ?ts. length (cr_answers (regs t)))) x"
    by (intro checks_ok_update [OF _ order_refl ok]) blast
  show ?thesis unfolding window_inv_def Let_def assms(3,4) sums using inv ok' by blast
qed

lemma window_answer:
  assumes inv: "window_inv d n y" and i: "i < length (sy_threads y)" "sy_threads y ! i = Inside m [check_second] l ts"
    and n: "fd_call_times d + int n < 2 ^ 31" and f: "check_second (sy_shared y, l) = (s', l')"
  shows "window_inv d n (y\<lparr>sy_shared := s', sy_threads := (sy_threads y)[i := Inside m [] l' ts]\<rparr>)"
proof -
  let ?ts = "sy_threads y" and ?t = "Inside m [] l' ts" and ?d' = "sy_shared y"
  define given where "given = (\<Sum>x \<leftarrow> ?ts. length (cr_answers (regs x)))"
  have d': "same_window d ?d'" and rest: "given + (\<Sum>x \<leftarrow> ?ts. checks_left x) = n"
    and ok: "\<forall>t \<in> set ?ts. check_ok (fd_begin_time d + fd_limit_time d) (fd_call_times d + int given) t"
    and pass: "min given (nat (fd_limit_count d - fd_call_times d)) \<le> (\<Sum>t \<leftarrow> ?ts. passed (cr_answers (regs t)))"
    using inv unfolding window_inv_def Let_def given_def by blast+
  have "check_ok (fd_begin_time d + fd_limit_time d) (fd_call_times d + int given) (?ts ! i)" using ok i(1) by simp
  then have l: "\<not> cr_expired l" "0 \<le> cr_times l" "cr_times l \<le> fd_call_times d + int given" and tail: "checks_ok (fd_begin_time d + fd_limit_time d) ts"
    using i(2) by (auto simp: check_body_def)
  have left: "(\<Sum>x \<leftarrow> ?ts[i := ?t]. checks_left x) + 1 = (\<Sum>x \<leftarrow> ?ts. checks_left x)"
    using sum_swap [OF i(1), of checks_left ?t] i(2) by simp
  then have "given + 1 \<le> n" using rest by linarith
  then have v: "i32 (cr_times l + 1) = cr_times l + 1" using l n by (intro i32_id) (simp add: in_i32_def)
  define b where "b = (\<not> cr_times l + 1 > fd_limit_count d)"
  have s': "same_window d s'" "fd_call_times s' = cr_times l + 1" and l': "cr_answers l' = cr_answers l @ [b]"
    using f l(1) d' by (auto simp: check_second_def Let_def v b_def same_window_def)
  have len: "(\<Sum>x \<leftarrow> ?ts[i := ?t]. length (cr_answers (regs x))) = given + 1"
    using sum_swap [OF i(1), of "\<lambda>x. length (cr_answers (regs x))" ?t] i(2) l' by (simp add: given_def)
  have "passed (cr_answers l') = passed (cr_answers l) + (if b then 1 else 0)" by (simp add: l' passed_def)
  then have "(\<Sum>x \<leftarrow> ?ts[i := ?t]. passed (cr_answers (regs x))) = (\<Sum>x \<leftarrow> ?ts. passed (cr_answers (regs x))) + (if b then 1 else 0)"
    using sum_swap [OF i(1), of "\<lambda>x. passed (cr_answers (regs x))" ?t] i(2) by simp
  moreover have "b \<or> nat (fd_limit_count d - fd_call_times d) \<le> given" using l(3) by (auto simp: b_def)
  ultimately have "min (given + 1) (nat (fd_limit_count d - fd_call_times d)) \<le> (\<Sum>x \<leftarrow> ?ts[i := ?t]. passed (cr_answers (regs x)))"
    using pass by (auto split: if_splits)
  moreover have "\<forall>t \<in> set (?ts[i := ?t]). check_ok (fd_begin_time d + fd_limit_time d) (fd_call_times d + int (given + 1)) t"
    using checks_ok_update [OF ok, of "fd_call_times d + int (given + 1)" ?t i] tail by simp
  moreover have "given + 1 + (\<Sum>x \<leftarrow> ?ts[i := ?t]. checks_left x) = n" using left rest by simp
  ultimately show ?thesis unfolding window_inv_def Let_def using len l s' by simp
qed

lemma window_thread_ok:
  "window_inv d n y \<Longrightarrow> i < length (sy_threads y) \<Longrightarrow> check_ok (fd_begin_time d + fd_limit_time d)
     (fd_call_times d + int (\<Sum>t \<leftarrow> sy_threads y. length (cr_answers (regs t)))) (sy_threads y ! i)"
  unfolding window_inv_def Let_def by (meson nth_mem)

lemma window_work:
  assumes inv: "window_inv d n y" and i: "i < length (sy_threads y)" "sy_threads y ! i = Inside m (f # b) l ts"
    and n: "fd_call_times d + int n < 2 ^ 31" and f: "f (sy_shared y, l) = (s', l')"
  shows "window_inv d n (y\<lparr>sy_shared := s', sy_threads := (sy_threads y)[i := Inside m b l' ts]\<rparr>)"
proof -
  note ok = window_thread_ok [OF inv i(1), unfolded i(2)]
  have d': "same_window d (sy_shared y)" "0 \<le> fd_call_times (sy_shared y)"
    "fd_call_times (sy_shared y) \<le> fd_call_times d + int (\<Sum>t \<leftarrow> sy_threads y. length (cr_answers (regs t)))"
    using inv unfolding window_inv_def Let_def by blast+
  from ok consider now where "now \<le> fd_begin_time d + fd_limit_time d" "f = check_test now" "b = [check_first now, check_second]"
    | now where "f = check_first now" "b = [check_second]" "\<not> cr_expired l"
    | "f = check_second" "b = []"
    by (auto simp: check_body_def)
  then show ?thesis
  proof cases
    case 1
    have "s' = sy_shared y" "cr_answers l' = cr_answers l" "\<not> cr_expired l'"
      using f d'(1) 1 by (auto simp: check_test_def same_window_def)
    then show ?thesis using ok 1 i(2) by (intro window_quiet [OF inv i(1)]) auto
  next
    case 2
    have l': "s' = sy_shared y" "cr_answers l' = cr_answers l" "\<not> cr_expired l'" "cr_times l' = fd_call_times (sy_shared y)"
      using f 2 by (auto simp: check_first_def)
    then show ?thesis using ok 2 i(2) d'(2,3) by (intro window_quiet [OF inv i(1), where t = "Inside m [check_second] l' ts"]) simp_all
  next
    case 3
    then show ?thesis using window_answer [OF inv i(1) _ n] i(2) f by simp
  qed
qed

lemma window_inv_step: "sys_step y y' \<Longrightarrow> window_inv d n y \<Longrightarrow> fd_call_times d + int n < 2 ^ 31 \<Longrightarrow> window_inv d n y'"
proof (induction rule: sys_step.induct)
  case (enter i y l m b ts k)
  have ok: "checks_ok (fd_begin_time d + fd_limit_time d) ((m, b) # ts)"
    using window_thread_ok [OF enter(4,1), unfolded enter(2)] by simp
  then obtain now where "now \<le> fd_begin_time d + fd_limit_time d" "b = check_body now" "b \<noteq> []"
    by (auto simp: checks_ok_def check_body_def)
  then show ?case using ok enter(2) by (intro window_quiet [OF enter(4,1)]) (auto simp: checks_ok_def)
next
  case (work i y m f b l ts s' l')
  then show ?case by (intro window_work)
next
  case (leave i y m l ts)
  then show ?case using window_thread_ok [OF leave(3,1), unfolded leave(2)] by (intro window_quiet [OF leave(3,1), where t = "Outside l ts"]) simp_all
qed

lemma window_start:
  assumes "0 \<le> fd_call_times d" "\<forall>nows \<in> set nss. \<forall>now \<in> set nows. now \<le> fd_begin_time d + fd_limit_time d"
  shows "window_inv d (length (concat nss)) (sys_start d (map check_thread nss))"
proof -
  have "(\<Sum>nows \<leftarrow> nss. length nows) = length (concat nss)" by (simp add: length_concat)
  then show ?thesis
    using assms
    by (auto simp: window_inv_def same_window_def Let_def sys_start_def check_thread_def regs_new_def comp_def checks_ok_def)
qed

text \<open>C29: counting under the read lock. However many threads check the same key at once in one window, the race between
  their loads and stores never refuses a request that exact counting lets pass: of the requests answered so far at least
  as many have passed as there was room, and the counter is not above the number of the answers.\<close>

theorem read_locked_checks_pass:
  assumes "0 \<le> fd_call_times d" "fd_call_times d + int (length (concat nss)) < 2 ^ 31"
    and "\<forall>nows \<in> set nss. \<forall>now \<in> set nows. now \<le> fd_begin_time d + fd_limit_time d"
    and run: "reaches (sys_start d (map check_thread nss)) y"
  shows "min (length (answers y)) (nat (fd_limit_count d - fd_call_times d)) \<le> passed (answers y) \<and>
    fd_call_times (sy_shared y) \<le> fd_call_times d + int (length (answers y)) \<and> fd_begin_time (sy_shared y) = fd_begin_time d"
proof -
  have "window_inv d (length (concat nss)) y"
    using run window_start [OF assms(1,3)] assms(2) unfolding reaches_def
    by (induction rule: rtranclp_induct) (auto intro: window_inv_step)
  then have inv: "same_window d (sy_shared y)"
    "fd_call_times (sy_shared y) \<le> fd_call_times d + int (\<Sum>t \<leftarrow> sy_threads y. length (cr_answers (regs t)))"
    "min (\<Sum>t \<leftarrow> sy_threads y. length (cr_answers (regs t))) (nat (fd_limit_count d - fd_call_times d))
      \<le> (\<Sum>t \<leftarrow> sy_threads y. passed (cr_answers (regs t)))"
    unfolding window_inv_def Let_def by blast+
  have "passed (concat bss) = (\<Sum>bs \<leftarrow> bss. passed bs)" for bss by (induction bss) (simp_all add: passed_def)
  then have "passed (answers y) = (\<Sum>t \<leftarrow> sy_threads y. passed (cr_answers (regs t)))" by (simp add: answers_def comp_def)
  moreover have "length (answers y) = (\<Sum>t \<leftarrow> sy_threads y. length (cr_answers (regs t)))"
    by (simp add: answers_def length_concat comp_def)
  ultimately show ?thesis using inv by (simp add: same_window_def)
qed

section \<open>Runs\<close>

definition sample_entry :: "int \<Rightarrow> int \<Rightarrow> frequency_data" where
  "sample_entry limit_count call_times =
     \<lparr>fd_limit_time = 10, fd_limit_count = limit_count, fd_begin_time = 100, fd_call_times = call_times\<rparr>"

lemma read_locked_checks_pass_witness:
  "\<exists>y. reaches (sys_start (sample_entry 1 0) (map check_thread [[105], [106]])) y \<and>
     1 \<le> passed (answers y) \<and> length (answers y) = 2 \<and> fd_call_times (sy_shared y) \<le> 2"
proof -
  let ?start = "sys_start (sample_entry 1 0) (map check_thread [[105], [106]])"
  have "case sys_run [0, 0, 0, 0, 0, 1, 1, 1, 1, 1] ?start of None \<Rightarrow> False | Some y \<Rightarrow> length (answers y) = 2" by code_simp
  then obtain y where y: "reaches ?start y" "length (answers y) = 2" using run_case [where P = "\<lambda>y. length (answers y) = 2"] by blast
  have "0 \<le> fd_call_times (sample_entry 1 0)" by (simp add: sample_entry_def)
  from read_locked_checks_pass [OF this _ _ y(1)] y show ?thesis
    by (intro exI [of _ y]) (simp add: sample_entry_def)
qed

text \<open>C30: what the read lock costs. Two threads can both load the counter before either stores it: with a limit of one
  both pass and the counter says one. And a store can fall behind the opening of a new window: a counter of the old
  window is in force in the new one, which refuses a request that every order of whole checks lets pass.\<close>

theorem read_locked_checks_race:
  "(\<exists>y. reaches (sys_start (sample_entry 1 0) [check_thread [105], check_thread [105]]) y \<and>
      answers y = [True, True] \<and> fd_call_times (sy_shared y) = 1) \<and>
   (\<exists>y. reaches (sys_start (sample_entry 2 1) [check_thread [110], check_thread [111, 112]]) y \<and> answers y = [True, True, False]) \<and>
   fst (run_calls freq_call [105, 105] (sample_entry 1 0)) = [True, False] \<and>
   map (\<lambda>nows. fst (run_calls freq_call nows (sample_entry 2 1))) [[110, 111, 112], [111, 110, 112], [111, 112, 110]]
     = replicate 3 [True, True, True]"
proof -
  have one: "case sys_run [0, 1, 0, 1, 0, 1, 0, 1, 0, 1] (sys_start (sample_entry 1 0) [check_thread [105], check_thread [105]]) of
      None \<Rightarrow> False | Some y \<Rightarrow> answers y = [True, True] \<and> fd_call_times (sy_shared y) = 1" by code_simp
  have two: "case sys_run [0, 0, 0, 1, 1, 1, 1, 1, 0, 0, 1, 1, 1, 1, 1]
        (sys_start (sample_entry 2 1) [check_thread [110], check_thread [111, 112]]) of
      None \<Rightarrow> False | Some y \<Rightarrow> answers y = [True, True, False]" by code_simp
  have exact: "fst (run_calls freq_call [105, 105] (sample_entry 1 0)) = [True, False]"
    "map (\<lambda>nows. fst (run_calls freq_call nows (sample_entry 2 1))) [[110, 111, 112], [111, 110, 112], [111, 112, 110]]
     = replicate 3 [True, True, True]"
    by code_simp+
  from run_case [OF one] run_case [OF two] exact show ?thesis by (intro conjI)
qed

end
