(* ===== verification/Access_Locks.thy ===== *)
theory Access_Locks
  imports "HOL-Library.Sublist" Locks Access_Control
begin

text \<open>
  \<open>CAccessControl\<close> under its lock, with the threads of the relay interleaved: the workers and the accepting thread
  check an address (\<open>check\<close>, \<open>src/access_control.cpp\<close>, under \<open>CAutoRLock\<close>) while the reload of the configuration
  empties the table and reads the file again (\<open>clear\<close> and \<open>read_conf\<close> of \<open>sys/trpc_config.cpp\<close>, each under a
  \<open>CAutoWLock\<close> of its own; \<open>src/relay_server.cpp\<close>, \<open>reload_conf\<close>). Every access to the shared table is a step of its
  own. The theory shows that the sections are what theory \<open>Access_Control\<close> takes them for, single operations, that no
  thread waits for good, and what a check can be answered while the table is read again.
\<close>

section \<open>The sections, access by access\<close>

text \<open>The locals of a thread inside a section: the exception that is under way, whether the address is limited to some
  types (\<open>size() != 0\<close>) and the answer of the line function; and the results of its operations so far.\<close>

datatype access_op = Check string int | Check_Ip string | Clear_Table | Read_Conf string conf_file

record access_regs =
  ar_thrown :: "fault option"
  ar_limited :: bool
  ar_ret :: int
  ar_results :: "(access_op \<times> (fault + unit)) list"

definition ar_new :: access_regs where
  "ar_new = \<lparr>ar_thrown = None, ar_limited = False, ar_ret = 0, ar_results = []\<rparr>"

type_synonym access_step = "access_control \<times> access_regs \<Rightarrow> access_control \<times> access_regs"

text \<open>An access is skipped once an exception is under way.\<close>

definition unless_thrown :: "access_step \<Rightarrow> access_step" where
  "unless_thrown f = (\<lambda>(c, l). if ar_thrown l = None then f (c, l) else (c, l))"

definition access_return :: "access_op \<Rightarrow> access_step" where
  "access_return op = (\<lambda>(c, l).
     (c, l\<lparr>ar_results := ar_results l @ [(op, case ar_thrown l of None \<Rightarrow> Inr () | Some e \<Rightarrow> Inl e)]\<rparr>))"

text \<open>\<open>_check\<close>: \<open>count\<close> first; \<open>operator[]\<close> enters an empty set where the key is missing.\<close>

definition access_count :: "string \<Rightarrow> access_step" where
  "access_count ip = (\<lambda>(c, l).
     (c, l\<lparr>ar_thrown := if omap_find (c_data c) ip = None then Some (ip_refused ip) else None\<rparr>))"

definition access_subscript :: "string \<Rightarrow> access_control \<Rightarrow> int set \<times> access_control" where
  "access_subscript ip c = (case omap_find (c_data c) ip of
     Some types \<Rightarrow> (types, c)
   | None \<Rightarrow> ({}, c\<lparr>c_data := omap_set ip {} (c_data c)\<rparr>))"

definition access_size :: "string \<Rightarrow> access_step" where
  "access_size ip = unless_thrown (\<lambda>(c, l).
     let (types, c) = access_subscript ip c in (c, l\<lparr>ar_limited := types \<noteq> {}\<rparr>))"

definition access_member :: "string \<Rightarrow> int \<Rightarrow> access_step" where
  "access_member ip request_type = unless_thrown (\<lambda>(c, l).
     if ar_limited l
     then let (types, c) = access_subscript ip c
          in (c, l\<lparr>ar_thrown := if request_type \<notin> types then Some (type_refused ip request_type) else None\<rparr>)
     else (c, l))"

definition check_section :: "string \<Rightarrow> int \<Rightarrow> auto_lock \<times> (access_control, access_regs) body" where
  "check_section ip request_type =
     (CAutoRLock, [access_count ip, access_size ip, access_member ip request_type, access_return (Check ip request_type)])"

definition check_ip_section :: "string \<Rightarrow> auto_lock \<times> (access_control, access_regs) body" where
  "check_ip_section ip = (CAutoRLock, [access_count ip, access_return (Check_Ip ip)])"

definition clear_section :: "auto_lock \<times> (access_control, access_regs) body" where
  "clear_section = (CAutoWLock,
     [\<lambda>(c, l). (c\<lparr>c_data := []\<rparr>, l\<lparr>ar_thrown := None\<rparr>), \<lambda>(c, l). (c\<lparr>c_rows := 0\<rparr>, l), access_return Clear_Table])"

text \<open>\<open>read_conf\<close>: the file is opened, every line that is neither empty nor a comment is entered and then counted,
  and an error of \<open>fgets\<close> comes after the lines before it.\<close>

definition open_step :: "string \<Rightarrow> conf_file \<Rightarrow> access_step" where
  "open_step name file = (\<lambda>(c, l). (c, l\<lparr>ar_thrown :=
     case file of NoFile err \<Rightarrow> Some (THROW CConfigException ERR_CONF (''fopen '' @ name @ '': '' @ err)) | File _ _ \<Rightarrow> None\<rparr>))"

definition record_step :: "string \<Rightarrow> access_step" where
  "record_step buf = unless_thrown (\<lambda>(c, l).
     case get_line_entrance access_get_line buf c of
       (Inl e, c) \<Rightarrow> (c, l\<lparr>ar_thrown := Some e\<rparr>)
     | (Inr iRetVal, c) \<Rightarrow> (c, l\<lparr>ar_ret := iRetVal\<rparr>))"

definition row_step :: access_step where
  "row_step = unless_thrown (\<lambda>(c, l).
     if ar_ret l = 0 then (c\<lparr>c_rows := i32 (c_rows c + 1)\<rparr>, l)
     else if ar_ret l < 0 then (c, l\<lparr>ar_thrown := Some (THROW CConfigException ERR_CONF ''read record error'')\<rparr>)
     else (c, l))"

fun line_steps :: "string list \<Rightarrow> (access_control, access_regs) body" where
  "line_steps [] = []"
| "line_steps (line # ls) =
     (let buf = conf_text line in if is_comment buf then line_steps ls else record_step buf # row_step # line_steps ls)"

definition end_step :: "string \<Rightarrow> conf_file \<Rightarrow> access_step" where
  "end_step name file = unless_thrown (\<lambda>(c, l). (c, l\<lparr>ar_thrown :=
     case file of
       File _ (Some e) \<Rightarrow> Some (THROW CConfigException ERR_CONF (''fgets '' @ name @ '': '' @ e))
     | _ \<Rightarrow> None\<rparr>))"

definition read_conf_section :: "string \<Rightarrow> conf_file \<Rightarrow> auto_lock \<times> (access_control, access_regs) body" where
  "read_conf_section name file = (CAutoWLock,
     open_step name file # line_steps (case file of NoFile _ \<Rightarrow> [] | File content _ \<Rightarrow> fgets_lines (MAX_CONF_LENGTH_SIZE - 2) content)
     @ [end_step name file, access_return (Read_Conf name file)])"

fun access_section :: "access_op \<Rightarrow> auto_lock \<times> (access_control, access_regs) body" where
  "access_section (Check ip request_type) = check_section ip request_type"
| "access_section (Check_Ip ip) = check_ip_section ip"
| "access_section Clear_Table = clear_section"
| "access_section (Read_Conf name file) = read_conf_section name file"

text \<open>The threads, each with the operations it makes, and what one has been answered so far.\<close>

definition access_start :: "access_control \<Rightarrow> access_op list list \<Rightarrow> (access_control, access_regs) sys" where
  "access_start c opss = sys_start c (map (\<lambda>ops. (ar_new, map access_section ops)) opss)"

definition thread_results :: "(access_control, access_regs) sys \<Rightarrow> nat \<Rightarrow> (access_op \<times> (fault + unit)) list" where
  "thread_results y i = ar_results (regs (sy_threads y ! i))"

section \<open>A section by itself is the operation\<close>

fun access_run :: "access_op \<Rightarrow> (access_control, unit) op" where
  "access_run (Check ip request_type) = access_check ip request_type"
| "access_run (Check_Ip ip) = access_check_ip ip"
| "access_run Clear_Table = access_clear"
| "access_run (Read_Conf name file) = access_read_conf name file"

lemma unless_thrown_simps [simp]:
  "ar_thrown l = None \<Longrightarrow> unless_thrown f (c, l) = f (c, l)"
  "ar_thrown l \<noteq> None \<Longrightarrow> unless_thrown f (c, l) = (c, l)"
  by (auto simp: unless_thrown_def)

lemma run_body_append: "run_body (a @ b) x = run_body b (run_body a x)"
  by (induction a arbitrary: x) simp_all

text \<open>What a thread is left with when the operation has answered \<open>r\<close>.\<close>

definition answered :: "access_op \<Rightarrow> access_regs \<Rightarrow> (fault + unit) \<times> access_control \<Rightarrow> access_control \<times> access_regs \<Rightarrow> bool" where
  "answered op l rc x \<longleftrightarrow> fst x = snd rc \<and> ar_results (snd x) = ar_results l @ [(op, fst rc)]"

lemma check_is_operation: "answered (Check ip t) l (access_check ip t c) (run_body (snd (check_section ip t)) (c, l))"
  by (auto simp: answered_def check_section_def access_count_def access_size_def access_member_def access_subscript_def
      access_return_def access_check_def unless_thrown_def Let_def split: option.splits)

lemma check_ip_is_operation: "answered (Check_Ip ip) l (access_check_ip ip c) (run_body (snd (check_ip_section ip)) (c, l))"
  by (auto simp: answered_def check_ip_section_def access_count_def access_return_def access_check_ip_def split: option.splits)

lemma clear_is_operation: "answered Clear_Table l (access_clear c) (run_body (snd clear_section) (c, l))"
  by (simp add: answered_def clear_section_def access_return_def access_clear_def config_clear_def modS_def)

text \<open>The lines: the exception under way, the results and the table agree with \<open>read_lines\<close>.\<close>

lemma line_steps_run:
  assumes "ar_thrown l = None" and "read_lines (get_line_entrance access_get_line) ls c = (r, c')"
  shows "\<exists>l'. run_body (line_steps ls) (c, l) = (c', l') \<and> ar_results l' = ar_results l \<and>
    ar_thrown l' = (case r of Inl e \<Rightarrow> Some e | Inr _ \<Rightarrow> None)"
  using assms
proof (induction ls arbitrary: c l)
  case (Cons line ls)
  have skip: "ar_thrown l \<noteq> None \<Longrightarrow> run_body (line_steps ls) (c, l) = (c, l)" for c l
    by (induction ls) (simp_all add: record_step_def row_step_def Let_def)
  show ?case
  proof (cases "is_comment (conf_text line)")
    case True
    then show ?thesis using Cons by simp
  next
    case False
    obtain g c1 where g: "get_line_entrance access_get_line (conf_text line) c = (g, c1)" by fastforce
    show ?thesis
    proof (cases g)
      case (Inl e)
      then have "run_body (line_steps (line # ls)) (c, l) = (c1, l\<lparr>ar_thrown := Some e\<rparr>)"
        using False g Cons.prems(1) skip by (simp add: record_step_def row_step_def)
      then show ?thesis using Cons.prems(2) False g Inl by (auto simp: bindS_def)
    next
      case (Inr n)
      then have rec: "record_step (conf_text line) (c, l) = (c1, l\<lparr>ar_ret := n\<rparr>)"
        using g Cons.prems(1) by (simp add: record_step_def)
      let ?l = "l\<lparr>ar_ret := n\<rparr>"
      consider "n = 0" | "n < 0" | "n > 0" by linarith
      then show ?thesis
      proof cases
        case 1
        then have "row_step (c1, ?l) = (c1\<lparr>c_rows := i32 (c_rows c1 + 1)\<rparr>, ?l)" using Cons.prems(1) by (simp add: row_step_def)
        moreover have "read_lines (get_line_entrance access_get_line) ls (c1\<lparr>c_rows := i32 (c_rows c1 + 1)\<rparr>) = (r, c')"
          using Cons.prems(2) False g Inr 1 by (simp add: bindS_def seqS_def modS_def)
        ultimately show ?thesis using Cons.IH [of ?l] Cons.prems(1) False rec by simp
      next
        case 2
        then have "row_step (c1, ?l) = (c1, ?l\<lparr>ar_thrown := Some (THROW CConfigException ERR_CONF ''read record error'')\<rparr>)"
          using Cons.prems(1) by (simp add: row_step_def)
        moreover have "r = Inl (THROW CConfigException ERR_CONF ''read record error'')" "c' = c1"
          using Cons.prems(2) False g Inr 2 by (auto simp: bindS_def)
        ultimately show ?thesis using False rec skip by simp
      next
        case 3
        then have "row_step (c1, ?l) = (c1, ?l)" using Cons.prems(1) by (simp add: row_step_def)
        moreover have "read_lines (get_line_entrance access_get_line) ls c1 = (r, c')"
          using Cons.prems(2) False g Inr 3 by (simp add: bindS_def)
        ultimately show ?thesis using Cons.IH [of ?l] Cons.prems(1) False rec by simp
      qed
    qed
  qed
qed (auto simp: returnS_def)

lemma read_conf_is_operation:
  "answered (Read_Conf name file) l (access_read_conf name file c) (run_body (snd (read_conf_section name file)) (c, l))"
proof (cases "file")
  case (NoFile err)
  then show ?thesis
    by (simp add: answered_def read_conf_section_def open_step_def end_step_def access_return_def access_read_conf_def
        config_read_conf_def)
next
  case (File content err)
  let ?ls = "fgets_lines (MAX_CONF_LENGTH_SIZE - 2) content"
  obtain r c' where r: "read_lines (get_line_entrance access_get_line) ?ls c = (r, c')" by fastforce
  obtain l' where l': "run_body (line_steps ?ls) (c, l\<lparr>ar_thrown := None\<rparr>) = (c', l')" "ar_results l' = ar_results l"
    "ar_thrown l' = (case r of Inl e \<Rightarrow> Some e | Inr _ \<Rightarrow> None)"
    using line_steps_run [OF _ r, of "l\<lparr>ar_thrown := None\<rparr>"] by auto
  have "access_read_conf name file c = (case r of
      Inl e \<Rightarrow> (Inl e, c')
    | Inr _ \<Rightarrow> (case err of None \<Rightarrow> Inr () | Some e \<Rightarrow> Inl (THROW CConfigException ERR_CONF (''fgets '' @ name @ '': '' @ e)), c'))"
    using File r by (simp add: access_read_conf_def config_read_conf_def seqS_def bindS_def returnS_def split: sum.split option.split)
  then show ?thesis
    using File l' by (cases r; cases err)
      (simp_all add: answered_def read_conf_section_def run_body_append open_step_def end_step_def access_return_def)
qed

lemma section_is_operation: "answered op l (access_run op c) (run_body (snd (access_section op)) (c, l))"
  using check_is_operation check_ip_is_operation clear_is_operation read_conf_is_operation by (cases op) simp_all

text \<open>No check writes the table, \<open>operator[]\<close> or not: it is not reached for a missing key.\<close>

lemma check_quiet: "reads_only (snd (check_section ip t))" "reads_only (snd (check_ip_section ip))"
  by (auto simp: reads_only_def check_section_def check_ip_section_def access_count_def access_size_def access_member_def
      access_subscript_def access_return_def unless_thrown_def Let_def split: option.splits)

lemma access_proper: "proper (map access_section ops)"
proof -
  have "reads_only b" if "(CAutoRLock, b) = access_section op" for b op
  proof (cases op)
    case (Check ip t)
    then show ?thesis using check_quiet(1) [of ip t] that by (metis access_section.simps(1) snd_conv)
  next
    case (Check_Ip ip)
    then show ?thesis using check_quiet(2) [of ip] that by (metis access_section.simps(2) snd_conv)
  qed (use that in \<open>simp_all add: clear_section_def read_conf_section_def\<close>)
  then show ?thesis unfolding proper_def by auto
qed

text \<open>Inside a section the results only grow.\<close>

definition grows :: "access_step \<Rightarrow> bool" where
  "grows f \<longleftrightarrow> (\<forall>x. prefix (ar_results (snd x)) (ar_results (snd (f x))))"

lemma grows_run: "\<forall>f \<in> set b. grows f \<Longrightarrow> prefix (ar_results (snd x)) (ar_results (snd (run_body b x)))"
proof (induction b arbitrary: x)
  case (Cons f b)
  have "prefix (ar_results (snd x)) (ar_results (snd (f x)))" using Cons.prems unfolding grows_def by (metis list.set_intros(1))
  also have "prefix \<dots> (ar_results (snd (run_body b (f x))))" using Cons.IH [of "f x"] Cons.prems by simp
  finally show ?case by simp
qed simp

lemma steps_grow: "\<forall>f \<in> set (snd (access_section op)). grows f"
proof -
  have u: "grows (unless_thrown f)" if "grows f" for f using that by (auto simp: grows_def unless_thrown_def)
  have "grows (record_step buf)" for buf
    unfolding record_step_def by (rule u) (auto simp: grows_def split: prod.splits sum.splits)
  moreover have "grows row_step" unfolding row_step_def by (rule u) (auto simp: grows_def)
  ultimately have l: "\<forall>f \<in> set (line_steps ls). grows f" for ls by (induction ls) (simp_all add: Let_def)
  have "grows (access_return op)" "grows (access_count ip)" "grows (open_step name file)" for op ip name "file"
    by (auto simp: grows_def access_return_def access_count_def open_step_def)
  moreover have "grows (access_size ip)" for ip
    unfolding access_size_def by (rule u) (auto simp: grows_def Let_def split: prod.splits)
  moreover have "grows (access_member ip t)" for ip t
    unfolding access_member_def by (rule u) (auto simp: grows_def Let_def split: prod.splits)
  moreover have "grows (end_step name file)" for name "file"
    unfolding end_step_def by (rule u) (auto simp: grows_def)
  ultimately show ?thesis
    using l by (cases op) (auto simp: check_section_def check_ip_section_def clear_section_def read_conf_section_def grows_def)
qed

section \<open>The specification: whole operations, one after the other\<close>

fun serial :: "(nat \<times> access_op) list \<Rightarrow> access_control \<Rightarrow> (nat \<times> access_op \<times> (fault + unit)) list \<times> access_control" where
  "serial [] c = ([], c)"
| "serial ((i, op) # h) c =
     (let (r, c') = access_run op c; (rs, c'') = serial h c' in ((i, op, r) # rs, c''))"

definition of_thread :: "nat \<Rightarrow> (nat \<times> 'a) list \<Rightarrow> 'a list" where
  "of_thread i xs = map snd (filter (\<lambda>x. fst x = i) xs)"

lemma of_thread_simps [simp]:
  "of_thread i [] = []" "of_thread i (x # xs) = (if fst x = i then snd x # of_thread i xs else of_thread i xs)"
  "of_thread i (xs @ ys) = of_thread i xs @ of_thread i ys"
  by (simp_all add: of_thread_def)

lemma serial_snoc:
  "serial (h @ [(i, op)]) c =
     (fst (serial h c) @ [(i, op, fst (access_run op (snd (serial h c))))], snd (access_run op (snd (serial h c))))"
proof (induction h arbitrary: c)
  case (Cons x h)
  then show ?case by (cases x) (simp add: Let_def split_beta)
qed (simp add: split_beta)

text \<open>Where the single steps of theory \<open>Locks\<close> bring the threads.\<close>

definition went_through ::
  "access_control \<Rightarrow> access_op list list \<Rightarrow> (nat \<times> access_op) list \<Rightarrow> (access_control, access_regs) atomic \<Rightarrow> bool" where
  "went_through c opss h a \<longleftrightarrow> snd (serial h c) = fst a \<and> length (snd a) = length opss \<and> (\<forall>x \<in> set h. fst x < length opss) \<and>
     (\<forall>i < length opss. \<exists>rest. of_thread i h @ rest = opss ! i \<and> snd (snd a ! i) = map access_section rest \<and>
        ar_results (fst (snd a ! i)) = of_thread i (fst (serial h c)))"

lemma went_through_step:
  assumes "atomic_step a a'" and "went_through c opss h a"
  shows "\<exists>h'. went_through c opss h' a'"
  using assms
proof (induction rule: atomic_step.induct)
  case (whole i xs l m b ts s s' l')
  have i: "i < length opss" "length xs = length opss" and s: "snd (serial h c) = s" using whole by (simp_all add: went_through_def)
  obtain rest where rest: "of_thread i h @ rest = opss ! i" "(m, b) # ts = map access_section rest"
    "ar_results l = of_thread i (fst (serial h c))" using whole i by (force simp: went_through_def)
  then obtain op rest' where r: "rest = op # rest'" "b = snd (access_section op)" "ts = map access_section rest'"
    by (cases rest) (auto simp: prod_eq_iff)
  have ans: "s' = snd (access_run op s)" "ar_results l' = ar_results l @ [(op, fst (access_run op s))]"
    using section_is_operation [of op l s] whole(3) r(2) by (simp_all add: answered_def)
  have "went_through c opss (h @ [(i, op)]) (s', xs[i := (l', ts)])"
    unfolding went_through_def
  proof (intro conjI allI impI)
    show "snd (serial (h @ [(i, op)]) c) = fst (s', xs[i := (l', ts)])" using s ans by (simp add: serial_snoc)
    show "length (snd (s', xs[i := (l', ts)])) = length opss" using i by simp
    show "\<forall>x \<in> set (h @ [(i, op)]). fst x < length opss" using whole(4) i by (simp add: went_through_def)
    fix j assume j: "j < length opss"
    show "\<exists>rest. of_thread j (h @ [(i, op)]) @ rest = opss ! j \<and> snd (snd (s', xs[i := (l', ts)]) ! j) = map access_section rest \<and>
        ar_results (fst (snd (s', xs[i := (l', ts)]) ! j)) = of_thread j (fst (serial (h @ [(i, op)]) c))"
    proof (cases "j = i")
      case True
      then show ?thesis using rest r ans s i j by (intro exI [of _ rest']) (simp add: serial_snoc)
    next
      case False
      then show ?thesis using whole(4) j by (simp add: went_through_def serial_snoc)
    qed
  qed
  then show ?case by blast
qed

lemma went_through_steps:
  assumes "atomic_step\<^sup>*\<^sup>* (c, map (\<lambda>ops. (ar_new, map access_section ops)) opss) a"
  shows "\<exists>h. went_through c opss h a"
  using assms
proof (induction rule: rtranclp_induct)
  case base
  have "went_through c opss [] (c, map (\<lambda>ops. (ar_new, map access_section ops)) opss)"
    by (simp add: went_through_def ar_new_def)
  then show ?case by blast
next
  case (step a a')
  then show ?case using went_through_step by blast
qed

text \<open>A thread has nothing but the accesses of its sections before it.\<close>

fun bodies :: "('s, 'l) thread \<Rightarrow> ('s, 'l) body list" where
  "bodies (Outside l ts) = map snd ts"
| "bodies (Inside m b l ts) = b # map snd ts"

lemma bodies_step:
  assumes "sys_step y y'" and "\<forall>t \<in> set (sy_threads y). \<forall>b \<in> set (bodies t). \<forall>f \<in> set b. P f"
  shows "\<forall>t \<in> set (sy_threads y'). \<forall>b \<in> set (bodies t). \<forall>f \<in> set b. P f"
proof -
  obtain i t where i: "i < length (sy_threads y)" "sy_threads y' = (sy_threads y)[i := t]"
    "\<forall>b \<in> set (bodies t). \<exists>b' \<in> set (bodies (sy_threads y ! i)). set b \<subseteq> set b' \<or> b = []"
    using assms(1)
  proof (cases rule: sys_step.cases)
    case (enter i l m b ts k)
    then show ?thesis by (intro that [of i "Inside m b l ts"]) auto
  next
    case (work i m f b l ts s' l')
    then show ?thesis by (intro that [of i "Inside m b l' ts"]) auto
  next
    case (leave i m l ts)
    then show ?thesis by (intro that [of i "Outside l ts"]) auto
  qed
  have "\<forall>b \<in> set (bodies (sy_threads y ! i)). \<forall>f \<in> set b. P f" using assms(2) nth_mem [OF i(1)] by blast
  then have "\<forall>b \<in> set (bodies t). \<forall>f \<in> set b. P f" using i(3) by fastforce
  then show ?thesis using assms(2) set_update_subset_insert [of "sy_threads y" i t] unfolding i(2) by blast
qed

lemma bodies_grow:
  assumes "reaches (access_start c opss) y"
  shows "\<forall>t \<in> set (sy_threads y). \<forall>b \<in> set (bodies t). \<forall>f \<in> set b. grows f"
  using assms unfolding reaches_def
proof (induction rule: rtranclp_induct)
  case base
  show ?case using steps_grow by (auto simp: access_start_def sys_start_def)
next
  case (step y y')
  then show ?case using bodies_step by blast
qed

lemma access_linear:
  assumes r: "reaches (access_start c opss) y"
  shows "\<exists>h s'. went_through c opss h (s', map (finish (sy_shared y)) (sy_threads y)) \<and>
    length (sy_threads y) = length opss \<and> ((\<forall>t \<in> set (sy_threads y). outside t) \<longrightarrow> s' = sy_shared y) \<and>
    (\<forall>i < length opss. prefix (thread_results y i) (of_thread i (fst (serial h c))) \<and>
       (outside (sy_threads y ! i) \<longrightarrow> thread_results y i = of_thread i (fst (serial h c))))"
proof -
  have "\<forall>x \<in> set (map (\<lambda>ops. (ar_new, map access_section ops)) opss). proper (snd x)" using access_proper by auto
  then obtain s' where s': "atomic_step\<^sup>*\<^sup>* (c, map (\<lambda>ops. (ar_new, map access_section ops)) opss)
        (s', map (finish (sy_shared y)) (sy_threads y))" "(\<forall>t \<in> set (sy_threads y). outside t) \<longrightarrow> s' = sy_shared y"
    using locked_operations_atomic [OF _ r [unfolded access_start_def]] by blast
  then obtain h where h: "went_through c opss h (s', map (finish (sy_shared y)) (sy_threads y))"
    using went_through_steps by blast
  then have len: "length (sy_threads y) = length opss" by (simp add: went_through_def)
  have "prefix (thread_results y i) (of_thread i (fst (serial h c))) \<and>
      (outside (sy_threads y ! i) \<longrightarrow> thread_results y i = of_thread i (fst (serial h c)))" if i: "i < length opss" for i
  proof -
    have fin: "ar_results (fst (finish (sy_shared y) (sy_threads y ! i))) = of_thread i (fst (serial h c))"
      using h i len by (auto simp: went_through_def)
    show ?thesis
    proof (cases "sy_threads y ! i")
      case (Outside l ts)
      then show ?thesis using fin by (simp add: thread_results_def)
    next
      case (Inside m b l ts)
      then have "\<forall>f \<in> set b. grows f" using bodies_grow [OF r] i len by (metis bodies.simps(2) list.set_intros(1) nth_mem)
      then show ?thesis using grows_run [of b "(sy_shared y, l)"] fin Inside by (simp add: thread_results_def)
    qed
  qed
  then show ?thesis using h len s'(2) by blast
qed

lemma serial_ops: "map fst (of_thread i (fst (serial h c))) = of_thread i h"
proof (induction h arbitrary: c)
  case (Cons x h)
  then show ?case by (cases x) (simp add: split_beta Let_def)
qed simp

text \<open>C9: the operations of \<open>CAccessControl\<close> are atomic, whatever threads make them and however their accesses to the table
  interleave: there is an order of whole operations, the ones of each thread in its own order, in which each thread
  gets the results it has got; with no thread inside, the table is the one they leave. And no thread waits for good:
  before all the steps of all operations are made there is one more that can be made, and then every operation of
  every thread has its result.\<close>

theorem access_operations_atomic:
  assumes "(sys_step ^^ n) (access_start c opss) y"
  shows "(\<exists>h. list_all (\<lambda>i. prefix (of_thread i h) (opss ! i) \<and> prefix (thread_results y i) (of_thread i (fst (serial h c))) \<and>
        (if outside (sy_threads y ! i) then thread_results y i = of_thread i (fst (serial h c)) else True)) [0..<length opss] \<and>
      (if list_all outside (sy_threads y) then sy_shared y = snd (serial h c) else True)) \<and>
    (let steps = (\<Sum>ops \<leftarrow> opss. \<Sum>op \<leftarrow> ops. length (snd (access_section op)) + 2)
     in n \<le> steps \<and> (if n < steps then \<exists>y'. sys_step y y'
          else list_all (\<lambda>i. map fst (thread_results y i) = opss ! i) [0..<length opss]))"
proof -
  define xs where "xs = map (\<lambda>ops. (ar_new, map access_section ops)) opss"
  have r: "reaches (access_start c opss) y" using assms unfolding reaches_def by (rule relpowp_imp_rtranclp)
  obtain h s' where h: "went_through c opss h (s', map (finish (sy_shared y)) (sy_threads y))"
    "length (sy_threads y) = length opss" "(\<forall>t \<in> set (sy_threads y). outside t) \<longrightarrow> s' = sy_shared y"
    "\<forall>i < length opss. prefix (thread_results y i) (of_thread i (fst (serial h c))) \<and>
       (outside (sy_threads y ! i) \<longrightarrow> thread_results y i = of_thread i (fst (serial h c)))"
    using access_linear [OF r] by blast
  have pre: "prefix (of_thread i h) (opss ! i)" if "i < length opss" for i
    using h(1) that unfolding went_through_def prefix_def by metis
  have "snd (serial h c) = s'" using h(1) by (simp add: went_through_def)
  then have first: "list_all (\<lambda>i. prefix (of_thread i h) (opss ! i) \<and> prefix (thread_results y i) (of_thread i (fst (serial h c))) \<and>
        (if outside (sy_threads y ! i) then thread_results y i = of_thread i (fst (serial h c)) else True)) [0..<length opss] \<and>
      (if list_all outside (sy_threads y) then sy_shared y = snd (serial h c) else True)"
    using pre h(3,4) by (simp add: list_all_iff)
  have "(\<Sum>(m, b) \<leftarrow> map access_section ops. length b + 2) = (\<Sum>op \<leftarrow> ops. length (snd (access_section op)) + 2)" for ops
    by (simp add: comp_def split_beta)
  then have steps: "(\<Sum>(l, ts) \<leftarrow> xs. \<Sum>(m, b) \<leftarrow> ts. length b + 2)
      = (\<Sum>ops \<leftarrow> opss. \<Sum>op \<leftarrow> ops. length (snd (access_section op)) + 2)" by (simp add: xs_def comp_def)
  have "\<forall>x \<in> set xs. proper (snd x)" using access_proper by (auto simp: xs_def)
  note prog = locked_sections_complete [OF this assms [unfolded access_start_def, folded xs_def], unfolded steps]
  have "map fst (thread_results y i) = opss ! i" if all: "\<forall>t \<in> set (sy_threads y). \<exists>l. t = Outside l []" and i: "i < length opss" for i
  proof -
    obtain l where l: "sy_threads y ! i = Outside l []" using all i h(2) by (metis nth_mem)
    then have "of_thread i h = opss ! i" using h(1,2) i by (force simp: went_through_def)
    then show ?thesis using h(4) i l by (simp add: serial_ops)
  qed
  then have "list_all (\<lambda>i. map fst (thread_results y i) = opss ! i) [0..<length opss]"
    if "\<forall>t \<in> set (sy_threads y). \<exists>l. t = Outside l []" using that by (simp add: list_all_iff)
  then show ?thesis using first prog unfolding Let_def by (intro conjI exI [of _ h]) auto
qed

section \<open>Checks while the configuration is read again\<close>

text \<open>The part of \<open>reload_conf\<close> that concerns the table, once for every reload, and the tables that follow one another.\<close>

definition reload_ops :: "string \<Rightarrow> (string \<times> int list) list list \<Rightarrow> access_op list" where
  "reload_ops name files = concat (map (\<lambda>es. [Clear_Table, Read_Conf name (conf_of (map access_line es))]) files)"

definition tables :: "(string \<times> int list) list list \<Rightarrow> (string \<times> int list) list list" where
  "tables files = concat (map (\<lambda>es. [[], es]) files)"

definition holds_file :: "(string \<times> int list) list \<Rightarrow> access_control \<Rightarrow> bool" where
  "holds_file es c \<longleftrightarrow> (\<forall>ip. omap_find (c_data c) ip = map_option set (map_of (rev es) ip))"

fun is_check :: "access_op \<Rightarrow> bool" where
  "is_check (Check ip request_type) = True"
| "is_check (Check_Ip ip) = True"
| "is_check op = False"

text \<open>The decision by a file; a reload answers that it has been made.\<close>

fun answer_by :: "(string \<times> int list) list \<Rightarrow> access_op \<Rightarrow> fault + unit" where
  "answer_by es (Check ip request_type) = file_decision es ip request_type"
| "answer_by es (Check_Ip ip) = file_admits es ip"
| "answer_by es op = Inr ()"

text \<open>Results of which each is the decision by one of the tables, a later one never by an earlier table.\<close>

inductive by_tables :: "(string \<times> int list) list list \<Rightarrow> (access_op \<times> (fault + unit)) list \<Rightarrow> bool" where
  none: "by_tables vs []"
| now: "by_tables (es # vs) rs \<Longrightarrow> by_tables (es # vs) ((op, answer_by es op) # rs)"
| later: "by_tables vs rs \<Longrightarrow> by_tables (es # vs) rs"

lemma by_tables_prefix: "by_tables vs (rs @ rs') \<Longrightarrow> by_tables vs rs"
proof (induction vs "rs @ rs'" arbitrary: rs rule: by_tables.induct)
  case (now es vs rs1 op)
  then show ?case by (cases rs) (auto intro: by_tables.intros)
qed (auto intro: by_tables.intros)

text \<open>Where the reloading thread is: before a reload, or between its two operations, with the table empty.\<close>

definition reload_at :: "string \<Rightarrow> access_op list \<Rightarrow> (string \<times> int list) list list \<Rightarrow> access_control \<Rightarrow> bool" where
  "reload_at name script vs c \<longleftrightarrow> (\<exists>files. (\<forall>es \<in> set files. \<forall>e \<in> set es. access_entry e) \<and>
     ((\<exists>es. script = reload_ops name files \<and> vs = es # tables files \<and> holds_file es c) \<or>
      (\<exists>es. (\<forall>e \<in> set es. access_entry e) \<and> script = Read_Conf name (conf_of (map access_line es)) # reload_ops name files \<and>
         vs = [] # es # tables files \<and> c_data c = [])))"

lemma reload_at_check:
  assumes "reload_at name script vs c" and "is_check op"
  shows "\<exists>es vs'. vs = es # vs' \<and> access_run op c = (answer_by es op, c)"
proof -
  obtain es vs' where v: "vs = es # vs'" "holds_file es c"
    using assms(1) by (auto simp: reload_at_def holds_file_def omap_find_def)
  then show ?thesis using table_decides [of c es] assms(2) unfolding holds_file_def by (cases op) auto
qed

lemma reload_at_step:
  assumes "reload_at name (op # script) vs c"
  shows "\<exists>v es vs' c'. vs = v # es # vs' \<and> access_run op c = (answer_by es op, c') \<and> reload_at name script (es # vs') c'"
proof -
  obtain files where f: "\<forall>es \<in> set files. \<forall>e \<in> set es. access_entry e" and
    cases: "(\<exists>es. op # script = reload_ops name files \<and> vs = es # tables files \<and> holds_file es c) \<or>
      (\<exists>es. (\<forall>e \<in> set es. access_entry e) \<and> op # script = Read_Conf name (conf_of (map access_line es)) # reload_ops name files \<and>
         vs = [] # es # tables files \<and> c_data c = [])"
    using assms unfolding reload_at_def by blast
  from cases show ?thesis
  proof (elim disjE exE conjE)
    fix es assume a: "op # script = reload_ops name files" "vs = es # tables files"
    then obtain es1 files' where fs: "files = es1 # files'" by (cases files) (auto simp: reload_ops_def)
    then have op: "op = Clear_Table" "script = Read_Conf name (conf_of (map access_line es1)) # reload_ops name files'"
      "vs = es # [] # es1 # tables files'" using a by (simp_all add: reload_ops_def tables_def)
    let ?c = "c\<lparr>c_data := [], c_rows := 0\<rparr>"
    have "access_run op c = (answer_by [] op, ?c)" using op by (simp add: access_clear_def config_clear_def modS_def)
    moreover have "reload_at name script ([] # es1 # tables files') ?c"
      unfolding reload_at_def using f fs op by (intro exI [of _ files']) simp
    ultimately show ?thesis using op(3) by blast
  next
    fix es assume a: "\<forall>e \<in> set es. access_entry e" "op # script = Read_Conf name (conf_of (map access_line es)) # reload_ops name files"
      "vs = [] # es # tables files" "c_data c = []"
    obtain c' where c': "access_read_conf name (conf_of (map access_line es)) c = (Inr (), c')" "holds_file es c'"
      using access_read_entries [OF a(1,4)] unfolding holds_file_def by blast
    have "access_run op c = (answer_by es op, c')" using a(2) c'(1) by simp
    moreover have "reload_at name script (es # tables files) c'"
      unfolding reload_at_def using f a(2) c'(2) by (intro exI [of _ files]) simp
    ultimately show ?thesis using a(3) by blast
  qed
qed

lemma serial_by_tables:
  assumes "reload_at name (of_thread 0 h @ rest) vs c" and "\<forall>x \<in> set h. fst x \<noteq> 0 \<longrightarrow> is_check (snd x)"
  shows "by_tables vs (of_thread i (fst (serial h c)))"
  using assms
proof (induction h arbitrary: vs c)
  case (Cons x h)
  obtain j op where x: "x = (j, op)" by (cases x)
  show ?case
  proof (cases "j = 0")
    case True
    then obtain v es vs' c' where s: "vs = v # es # vs'" "access_run op c = (answer_by es op, c')"
      "reload_at name (of_thread 0 h @ rest) (es # vs') c'"
      using reload_at_step [of name op "of_thread 0 h @ rest" vs c] Cons.prems(1) x by auto
    have "by_tables (es # vs') (of_thread i (fst (serial h c')))" using Cons.IH [OF s(3)] Cons.prems(2) by simp
    then show ?thesis using s(1,2) x by (auto simp: split_beta Let_def intro: by_tables.intros)
  next
    case False
    then have "is_check op" using Cons.prems(2) x by simp
    moreover have at: "reload_at name (of_thread 0 h @ rest) vs c" using Cons.prems(1) x False by simp
    ultimately obtain es vs' where s: "vs = es # vs'" "access_run op c = (answer_by es op, c)"
      using reload_at_check by blast
    have "by_tables vs (of_thread i (fst (serial h c)))" using Cons.IH [OF at] Cons.prems(2) by simp
    then show ?thesis using s x by (auto simp: split_beta Let_def intro: by_tables.intros)
  qed
qed (simp add: none)

lemma of_thread_member: "x \<in> set h \<Longrightarrow> snd x \<in> set (of_thread (fst x) h)"
  by (auto simp: of_thread_def)

text \<open>C10: however the checks of other threads come into the reloads of one thread, each is decided by one whole table: by
  the file read before, by a file read again, or by the empty table between \<open>clear\<close> and \<open>read_conf\<close>, and the later
  checks of a thread never by an earlier table; it is never decided by half a file. No exception but these refusals
  is raised, by a reload or a check.\<close>

theorem checks_decided_by_whole_files:
  assumes "holds_file es0 c" and "list_all (list_all access_entry) files" and "list_all (list_all is_check) checkers"
    and "reaches (access_start c (reload_ops name files # checkers)) y"
  shows "list_all (\<lambda>i. by_tables (es0 # tables files) (thread_results y i)) [0..<Suc (length checkers)]"
proof -
  let ?opss = "reload_ops name files # checkers"
  obtain h s' where h: "went_through c ?opss h (s', map (finish (sy_shared y)) (sy_threads y))"
    "\<forall>i < length ?opss. prefix (thread_results y i) (of_thread i (fst (serial h c)))"
    using access_linear [OF assms(4)] by blast
  have ops: "\<exists>rest. of_thread i h @ rest = ?opss ! i" if "i < length ?opss" for i
    using h(1) that unfolding went_through_def by blast
  have other: "is_check (snd x)" if x: "x \<in> set h" "fst x \<noteq> 0" for x
  proof -
    have lt: "fst x < length ?opss" using h(1) x(1) unfolding went_through_def by blast
    obtain j where j: "fst x = Suc j" using x(2) by (cases "fst x") auto
    obtain rest where "of_thread (Suc j) h @ rest = checkers ! j" using ops [OF lt] j by auto
    then have "snd x \<in> set (checkers ! j)" using of_thread_member [OF x(1)] j by (metis UnCI set_append)
    moreover have "list_all is_check (checkers ! j)" using assms(3) lt j by (simp add: list_all_length)
    ultimately show ?thesis by (simp add: list_all_iff)
  qed
  obtain rest where rest: "of_thread 0 h @ rest = reload_ops name files" using ops [of 0] by auto
  have "reload_at name (of_thread 0 h @ rest) (es0 # tables files) c"
    using assms(1,2) rest unfolding reload_at_def list_all_iff by blast
  then have "by_tables (es0 # tables files) (of_thread i (fst (serial h c)))" for i
    using serial_by_tables other by blast
  then have "by_tables (es0 # tables files) (thread_results y i)" if "i < Suc (length checkers)" for i
    using h(2) that by_tables_prefix unfolding prefix_def by (metis length_Cons)
  then show ?thesis unfolding list_all_iff by simp
qed

text \<open>The gap between the two operations: an address that the file before the reload and the file read again let through
  is refused.\<close>

definition one_entry :: access_control where
  "one_entry = \<lparr>c_data = [(''10.0.0.1'', {})], c_rows = 1\<rparr>"

definition gap_threads :: "access_op list list" where
  "gap_threads = [reload_ops ''access.conf'' [[(''10.0.0.1'', [])]], [Check ''10.0.0.1'' 7, Check ''10.0.0.1'' 7]]"

lemma gap_entry: "access_entry (''10.0.0.1'', [])"
  by (simp add: access_entry_def ip_text_def clean_def isspace_def NL_def in_i32_def MAX_REQUEST_TYPE_PER_IP_def
      MAX_CONF_LENGTH_SIZE_def access_line_def)

lemma gap_lines:
  "line_steps (fgets_lines (MAX_CONF_LENGTH_SIZE - 2) (access_line (''10.0.0.1'', []) @ [NL]))
     = [record_step (access_line (''10.0.0.1'', [])), row_step]"
proof -
  let ?l = "access_line (''10.0.0.1'', [])"
  have l: "conf_line ?l" by (rule access_conf_line [OF gap_entry])
  have "fgets_lines (MAX_CONF_LENGTH_SIZE - 2) (concat (map (\<lambda>l. l @ [NL]) [?l])) = map (\<lambda>l. l @ [NL]) [?l]"
    using l by (intro fgets_lines_concat) (simp add: conf_line_def)
  moreover have "conf_text (?l @ [NL]) = ?l"
    using l by (intro conf_text_line) (auto simp: conf_line_def is_comment_def)
  ultimately show ?thesis using l by (simp add: conf_line_def)
qed

lemma gap_record: "record_step (access_line (''10.0.0.1'', [])) (c, l) = (if ar_thrown l = None
    then (c\<lparr>c_data := omap_set ''10.0.0.1'' {} (c_data c)\<rparr>, l\<lparr>ar_ret := 0\<rparr>) else (c, l))"
  using access_get_line_entry [OF gap_entry, of "c_data c"] by (simp add: record_step_def unless_thrown_def get_line_entrance_def)

definition gap_schedule :: "nat list" where
  "gap_schedule = [0, 0, 0, 0, 0, 1, 1, 1, 1, 1, 1, 0, 0, 0, 0, 0, 0, 0, 1, 1, 1, 1, 1, 1]"

lemma gap_run:
  obtains y where "sys_run gap_schedule (access_start one_entry gap_threads) = Some y"
    and "thread_results y 1 = [(Check ''10.0.0.1'' 7, Inl (ip_refused ''10.0.0.1'')), (Check ''10.0.0.1'' 7, Inr ())]"
proof -
  have "case sys_run gap_schedule (access_start one_entry gap_threads) of None \<Rightarrow> False
    | Some y \<Rightarrow> thread_results y 1 = [(Check ''10.0.0.1'' 7, Inl (ip_refused ''10.0.0.1'')), (Check ''10.0.0.1'' 7, Inr ())]"
    by (simp add: gap_schedule_def access_start_def gap_threads_def reload_ops_def sys_start_def thread_step_def rw_new_def
        wlock_def rlock_def unlock_def clear_section_def check_section_def read_conf_section_def conf_of_def gap_lines gap_record
        one_entry_def access_count_def access_size_def access_member_def access_subscript_def access_return_def open_step_def
        end_step_def row_step_def unless_thrown_def ar_new_def omap_find_def thread_results_def i32_def)
  then show ?thesis using that by (auto split: option.splits)
qed

lemma reload_gap_refuses:
  "\<exists>y. reaches (access_start one_entry gap_threads) y \<and>
     thread_results y 1 = [(Check ''10.0.0.1'' 7, Inl (ip_refused ''10.0.0.1'')), (Check ''10.0.0.1'' 7, Inr ())]"
  by (rule gap_run) (intro exI conjI, erule sys_run_reaches, assumption)

lemma access_operations_atomic_witness:
  "\<exists>y. (sys_step ^^ 24) (access_start one_entry gap_threads) y \<and> map fst (thread_results y 1) = gap_threads ! 1"
proof -
  obtain y where "sys_run gap_schedule (access_start one_entry gap_threads) = Some y" by (rule gap_run)
  moreover have "length gap_schedule = 24" by (simp add: gap_schedule_def)
  ultimately have y: "(sys_step ^^ 24) (access_start one_entry gap_threads) y" using sys_run_steps by metis
  have "(\<Sum>ops \<leftarrow> gap_threads. \<Sum>op \<leftarrow> ops. length (snd (access_section op)) + 2) = 24"
    by (simp add: gap_threads_def reload_ops_def clear_section_def check_section_def read_conf_section_def conf_of_def gap_lines)
  then have "list_all (\<lambda>i. map fst (thread_results y i) = gap_threads ! i) [0..<length gap_threads]"
    using access_operations_atomic [OF y] unfolding Let_def by (simp only: less_irrefl if_False)
  then show ?thesis using y by (auto simp: gap_threads_def)
qed

lemma checks_decided_by_whole_files_witness:
  "\<exists>y. reaches (access_start one_entry gap_threads) y \<and>
     thread_results y 1 = [(Check ''10.0.0.1'' 7, Inl (ip_refused ''10.0.0.1'')), (Check ''10.0.0.1'' 7, Inr ())] \<and>
     by_tables [[(''10.0.0.1'', [])], [], [(''10.0.0.1'', [])]] (thread_results y 1)"
proof -
  obtain y where y: "reaches (access_start one_entry gap_threads) y"
    "thread_results y 1 = [(Check ''10.0.0.1'' 7, Inl (ip_refused ''10.0.0.1'')), (Check ''10.0.0.1'' 7, Inr ())]"
    using reload_gap_refuses by blast
  have "holds_file [(''10.0.0.1'', [])] one_entry" by (simp add: holds_file_def one_entry_def omap_find_def)
  then have "list_all (\<lambda>i. by_tables ([(''10.0.0.1'', [])] # tables [[(''10.0.0.1'', [])]]) (thread_results y i)) [0..<Suc (length [[Check ''10.0.0.1'' 7, Check ''10.0.0.1'' 7]])]"
    by (rule checks_decided_by_whole_files [where name = "''access.conf''"]) (use gap_entry y(1) in \<open>simp_all add: gap_threads_def\<close>)
  then show ?thesis using y by (auto simp: tables_def)
qed

end
