(* ===== verification/Spec2Isabelle.thy ===== *)
theory Spec2Isabelle
  imports Comm_Func Url_Param_Map Relay_Api Middle_Api Epoll_Monitor Switch_Mgr Request_Type_Conf Access_Control Service_Request_Control Client_Socket Relay_Rounds Relay_Stop Time_Log Mmap_File Thread_Start Access_Locks
begin

text \<open>
  A verification development for relay\_proxy, a proxy that takes requests from many clients over TCP, checks and
  limits them, and forwards each over a pool of connections to a back-end site. All file names are relative to
  \<open>src/\<close> of the repository; functions keep the names of the code where Isabelle allows it.

  \<^bold>\<open>The program.\<close> One thread accepts connections (\<open>CRelayServer::_client_accept_handler\<close>), looks the address up in
  the access list and writes the descriptor and its number into the pipe of a worker; another thread serves the management
  commands. A worker (\<open>ST_ThreadData\<close> with its \<open>CEventThread\<close>) runs an event loop over \<open>epoll\<close>. The client's request
  is read (\<open>CClientSocket\<close>), its key is taken from its parameters (\<open>CSystemConf\<close>, \<open>CTrpcUrlParamMap\<close>), it is checked
  (\<open>CAccessControl\<close>, \<open>ServiceAuthorizeAccess\<close>, \<open>CFrequencyControl\<close>, \<open>ServiceRequestControl\<close>), the key is routed to a
  site (\<open>CRequestTypeConf\<close>, \<open>CCoreServerConf\<close>), the site's pool (\<open>CApiPool\<close>) lends a connection, and the connection's
  protocol (\<open>CRelayApi\<close> or \<open>CMiddleApi\<close>, both \<open>CApiBase\<close>) sends the request and reads the answer, one event at a time.
  The answer, or an error text that \<open>ErrorCodeEscapeConf\<close> may replace, goes back to the client. Requests and failures
  are counted (\<open>RelaySwitchMgr\<close>); when the failures of a service or a site reach their limits, the pool moves to the next
  data centre (idc) of the site's switch order (\<open>CHaSiteConf\<close>).

  \<^bold>\<open>Theories and sources,\<close> each importing those it calls.

  \<^item> \<open>Std_Lib\<close>: the prelude. The result type of operations that can throw, fail an assertion or leave their memory
    (\<open>op\<close>, \<open>fault\<close>), the error codes and exceptions (\<open>base/relay_error.h\<close>, \<open>base/trpc_internal_error.h\<close>, \<open>base/trpc_exception\<close>), C strings, \<open>atoi\<close>, printing of
    integers, byte order, \<open>std::map\<close> as an ordered list, binary search; the generic lemmas.
  \<^item> \<open>Comm_Func\<close>: \<open>base/trpc_comm_func\<close>. \<open>Url_Param_Map\<close>: \<open>base/trpc_url_param_map\<close>.
    \<open>Trpc_Package\<close>: \<open>api/trpc_package\<close>.
  \<^item> \<open>Socket_Opt\<close>: \<open>sys/trpc_socket_opt\<close> over a record \<open>kernel\<close> of the answers of the system calls.
    \<open>Socket_Base\<close>: \<open>sys/socket_base\<close>, one packet in or out of a buffer over many events.
  \<^item> \<open>Api_Base\<close>: \<open>api/api_base\<close>, the status automaton of a back-end connection; its virtual functions are the record
    \<open>vtable\<close>. \<open>Relay_Api\<close>: \<open>api/relay_api\<close>. \<open>Middle_Api\<close>: \<open>api/middle_api\<close>.
  \<^item> \<open>Config\<close>, \<open>Key_Value_Conf\<close>, \<open>System_Conf\<close>: \<open>sys/trpc_config\<close>, \<open>sys/trpc_key_value_conf\<close>, \<open>src/system_conf\<close>.
  \<^item> \<open>Hasite_Conf\<close>: \<open>src/hasite_conf\<close>. \<open>Api_Pool\<close>: \<open>api/api_pool\<close>, with the connections on a heap.
    \<open>Core_Server_Conf\<close>: \<open>src/core_server_conf\<close>, the sites and their pools.
  \<^item> \<open>Request_Type_Conf\<close>: \<open>src/request_type_conf\<close>, \<open>src/errcode_escape_conf\<close>, \<open>src/detail_info_service_conf\<close>.
  \<^item> \<open>Access_Control\<close>: \<open>src/access_control\<close>, \<open>src/service_authorize_access\<close>. \<open>Rate_Limit\<close>: \<open>src/time_count_policy\<close>,
    \<open>src/frequency_control\<close>. \<open>Service_Request_Control\<close>: \<open>src/service_fixed_control_rule\<close>,
    \<open>src/service_request_control\<close>.
  \<^item> \<open>Switch_Stats\<close>: \<open>src/switch_stats_conf.h\<close>, \<open>src/switch_key_stats.h\<close>. \<open>Switch_Mgr\<close>: \<open>src/switch_mgr\<close>.
  \<^item> \<open>Event_Queue\<close>: \<open>sys/event_base\<close>, \<open>sys/event_queue\<close>, linked lists on a heap. \<open>Epoll_Monitor\<close>:
    \<open>sys/epoll_monitor\<close>, \<open>sys/event_thread\<close>; \<open>Thread_Start\<close>: its start, stop and handshake.
  \<^item> \<open>Client_Socket\<close>: \<open>src/client_socket\<close>. \<open>Relay_Server\<close>: \<open>src/relay_server\<close>, \<open>src/relay_mgr_command\<close>; its state
    \<open>relay\<close> puts the states of the others together. \<open>Relay_Stop\<close> adds its end;
    \<open>Relay_Frame\<close>, \<open>Relay_Requests\<close> and \<open>Relay_Rounds\<close> hold its theorems.
  \<^item> \<open>Log_File\<close>: \<open>sys/log\<close>; \<open>Time_Log\<close>: \<open>sys/trpc_time_log\<close>; \<open>Mmap_File\<close>: \<open>sys/mmap_file.h\<close>, which nothing creates.
  \<^item> \<open>Locks\<close>: the read-write lock of \<open>sys/thread_mutex\<close>, threads that interleave inside the sections it guards, and
    the check of \<open>src/frequency_control\<close> taken apart. \<open>Access_Locks\<close>: the operations of \<open>src/access_control\<close> and
    \<open>sys/trpc_config\<close> taken apart, with the reload of \<open>src/relay_server\<close> going on.

  \<^bold>\<open>State, errors, loops.\<close> A class is a record and a method an operation that returns a result and the new state; the
  result is a \<open>fault\<close> (an exception with its code and text, a failed assertion, an access outside its memory) or a value,
  and the state a fault leaves behind is part of the model. Objects the program shares by pointer (connections, events) live
  on a heap, so that aliasing shows. An \<open>int\<close> that can leave 32 bits is wrapped by \<open>i32\<close>; \<open>float\<close> is rounding to 24 bits.
  Loops are structural recursion, \<open>function\<close>s with a measure, or, for the two walks along a linked list that need not
  end, \<open>partial_function (option)\<close> (\<open>queue_clean\<close>, \<open>dec_walk\<close>): there, and in every operation above them, \<open>None\<close> says that
  the call does not return, and \<open>event_queue_loops_end\<close> shows that on well-formed queues it is never reached. No fuel
  is used.

  \<^bold>\<open>Inputs.\<close> What the code under \<open>src/\<close> does not decide is an argument: the answers of system calls (\<open>kernel\<close>,
  \<open>monitor_env\<close>, \<open>fs_errors\<close>), the clock, the contents of files (\<open>conf_file\<close>) and of the XML document as its parser delivers it,
  the bytes behind an array that is read too far, and for a handler of the relay all of these in one \<open>relay_env\<close>. The
  theorems hold for all of them.

  \<^bold>\<open>Interfaces.\<close> Locales state what one component relies on and are interpreted by the component that provides it:
  \<open>int_codec\<close> (host and network order), \<open>std_map\<close> (the ordered list), \<open>escape\<close> (the text protocol), \<open>search_order\<close> (\<open>qsort\<close> with
  \<open>bsearch\<close>), \<open>api_protocol\<close> (both protocols of \<open>CApiBase\<close>), \<open>rate_limiter\<close> (both counters), \<open>failure_pool\<close> (the switch counters, used
  by \<open>Switch_Mgr\<close>), \<open>fd_table\<close> (the event queue, used by the monitor), and the chain \<open>preorder_frame\<close>, \<open>worker_frame\<close>,
  \<open>backend_frame\<close>, \<open>handler_frame\<close>: a preorder on relay states that the primitive steps respect is respected by the
  operations of a worker, by those on a connection to a back end, and by every handler. It is interpreted with: the other
  clients are untouched, the configuration is untouched, the connections are called for what they were called for, the
  back ends are not called, the table of workers keeps its type.

  \<^bold>\<open>What is shown.\<close>

  \<^item> The relay: an event concerns one client, whatever the system answers, and the answer to another request is not given to
    a client (the sequence numbers); a request that is refused is never forwarded, whatever its route, and on a text route
    answered with the text of its error if that fits; the table of workers stays well formed through any rounds of all
    loops; connections are dealt out in turn, but the last worker is left out as soon as there are two.
  \<^item> Clients: a request is received and keyed whole however the network cuts it; an answer is sent whole; an
    error of the text protocol that is escaped again can overrun the buffer.
  \<^item> Back ends: a call through \<open>CRelayApi\<close> is transparent if the header of the answer comes in one piece, ends with an
    exception if it does not, and never leaves its buffer; a request and answer
    of \<open>CMiddleApi\<close> reach the other side; the automaton. A header of \<open>CMiddleApi\<close> that announces one to four bytes
    gets past the check of its length and fails only because the system refuses the count it leads to.
  \<^item> Pools and sites: a connection has one holder and one site, over any history of gets, releases, reloads and switches,
    the releases with which the server goes past the pool (\<open>set_free\<close> of the connection) included;
    the bounds of a pool, the connections of an unfinished switch counted; what a get answers in every case, and that a
    switch moves on to the next idc.
  \<^item> Switching: the window of failures computes an abstract count; a failure orders a switch exactly at the limits,
    and the next connection then goes to the next idc.
  \<^item> Events: the linked queue implements a finite map of descriptors; the loops end;
    an add that fails at \<open>epoll\<close> leaves an event nobody can delete, and every later add of its descriptor is refused, whatever
    other descriptors are added and deleted in between.
  \<^item> Limits and access: bounds on what passes in a period, and that who waits is served; decisions are those of the
    file's lines; a failed reload opens access to all.
  \<^item> Formats: \<open>packUrl\<close> with \<open>parseUrl\<close>, \<open>Encode\<close> with \<open>Decode\<close>, relay packets, and \<open>parseUrl\<close> against a specification by segments.
  \<^item> Locks: the other theories take an operation under a lock as one step. For \<open>CAccessControl\<close> this is proved: its checks,
    \<open>clear\<close> and \<open>read_conf\<close> as sequences of accesses to the table, interleaved by any threads, have the results of whole
    operations in one order, and every run can be finished; a check during a reload is decided by a whole file or by the
    empty table between \<open>clear\<close> and \<open>read_conf\<close>. The lemmas of \<open>Locks\<close> hold for the sections of any class: of a lock
    they use what POSIX says of \<open>pthread_rwlock_t\<close>. The counters of \<open>CFrequencyControl\<close> are written under the read lock; there
    the race never refuses what exact counting lets pass within one window, but lets more pass, and across windows it can
    refuse too.
  \<^item> The log: its files hold the end of everything written, within bounds on their size.

  \<^bold>\<open>Not modelled.\<close> TinyXML (\<open>cftlib/tinyxml\<close>) is vendored and an input.
  \<open>main.cpp\<close> (signals, the daemon, the pid file) and \<open>relay_log\<close> (the global logs) only call the operating
  system around \<open>init\<close>, \<open>process\<close> and \<open>reload_conf\<close>. Of the threads, creation and end, mutexes and
  sections that take a second lock while they hold one are left to the thread library. Log messages are not part of the components' states, and only the
  \<open>catch\<close> clauses that something in the model can reach are modelled. The code behind the \<open>return\<close> that opens
  \<open>ServiceFixFrequenceControlCommand::process\<close> is dead. Where the model differs from the code in detail: a connection
  holds the bytes of the request it is called with (\<open>a_req_packet\<close>), not a pointer into the client's buffer; \<open>log_open\<close>
  leaves out \<open>create_path\<close>, which may make a directory; \<open>Encode\<close> answers the length it sets in the packet; \<open>hextochar\<close>
  reads the digits after \<open>0x\<close> as the C library of GNU does.
\<close>

end
